(* ===== verification/RL_Prelude.thy ===== *)
theory RL_Prelude
  imports Main "HOL-Library.Word" "HOL-Library.Char_ord" "HOL-Library.List_Lexorder"
begin

section \<open>Prelude: bytes, decimal text and 64-bit integers\<close>

text \<open>
  What every component of the server shares.  A \<open>std::string\<close> is a sequence of bytes and is
  modelled as \<^typ>\<open>string\<close> (a list of 8-bit characters); \<open>HOL-Library.Char_ord\<close> and
  \<open>HOL-Library.List_Lexorder\<close> give it the order of \<open>std::string::operator<\<close> (byte-wise,
  unsigned, a proper prefix first).  An \<open>int64_t\<close> is an \<^typ>\<open>int\<close> whose wrap-around is written
  out by \<open>i64\<close> wherever the code adds or subtracts without a check; the unsigned accumulators
  and hashes of the code are \<^typ>\<open>64 word\<close> and \<^typ>\<open>32 word\<close>.  The theory also holds the
  decimal printing of \<open>snprintf("%lld")\<close>, \<open>snprintf("%llu")\<close> and \<open>std::to_string\<close>, with its
  reader \<open>dval\<close> as the reference for every parser of the code.
\<close>

type_synonym u32 = "32 word"
type_synonym u64 = "64 word"

text \<open>Collections of facts the component theories extend.\<close>

named_theorems rl_bytes \<open>byte and decimal text facts\<close>
named_theorems rl_inv \<open>preservation facts of component invariants\<close>
named_theorems rl_abs \<open>how each operation moves the abstract state of its component\<close>

subsection \<open>64-bit signed integers\<close>

abbreviation INT64_MAX :: int where "INT64_MAX \<equiv> 9223372036854775807"
abbreviation INT64_MIN :: int where "INT64_MIN \<equiv> -9223372036854775808"

definition int64_range :: "int \<Rightarrow> bool" where
  "int64_range v \<longleftrightarrow> INT64_MIN \<le> v \<and> v \<le> INT64_MAX"

definition i64 :: "int \<Rightarrow> int" where
  "i64 v = (v + 9223372036854775808) mod 18446744073709551616 - 9223372036854775808"

lemma i64_range: "int64_range (i64 v)"
  unfolding int64_range_def i64_def by auto

lemma i64_id [simp]: "int64_range v \<Longrightarrow> i64 v = v"
  unfolding int64_range_def i64_def by simp

lemma int64_range_neg: "int64_range v \<Longrightarrow> v \<noteq> INT64_MIN \<Longrightarrow> int64_range (- v)"
  unfolding int64_range_def by simp

subsection \<open>Unsigned words\<close>

lemma unat_of_nat_u64 [simp]: "n < 18446744073709551616 \<Longrightarrow> unat (of_nat n :: u64) = n"
  by (simp add: unat_of_nat)

lemma unat_of_nat_u32 [simp]: "n < 4294967296 \<Longrightarrow> unat (of_nat n :: u32) = n"
  by (simp add: unat_of_nat)

lemma unat_u64_less: "unat (w :: u64) < 18446744073709551616"
  using unsigned_less [of w] by simp

lemma ucast_of_nat_u32: "n < 4294967296 \<Longrightarrow> (ucast (of_nat n :: u32) :: u64) = of_nat n"
  by (rule word_unat_eq_iff [THEN iffD2]) (simp add: unsigned_ucast_eq take_bit_nat_eq_self)

lemma unat_u64_Suc: "unat (w :: u64) + 1 < 18446744073709551616 \<Longrightarrow> unat (w + 1) = unat w + 1"
proof -
  assume "unat w + 1 < 18446744073709551616"
  moreover have "w + 1 = of_nat (unat w + 1)" by simp
  ultimately show ?thesis by (simp only: unat_of_nat_u64)
qed

lemma ucast_u32_nat: "(ucast (w :: u64) :: u32) = of_nat (unat w)"
  by transfer simp

lemma ucast_sum: "n < 4294967296 \<Longrightarrow> (ucast (of_nat n :: u64) :: u32) = of_nat n"
  by (simp add: ucast_u32_nat)

lemma sint_small_u64: "w \<le> 9223372036854775807 \<Longrightarrow> sint (w :: u64) = int (unat w)"
proof -
  assume "w \<le> 9223372036854775807"
  then have "unat w \<le> 9223372036854775807" by (simp add: word_le_nat_alt)
  then have "int (unat w) \<le> int 9223372036854775807" by (simp only: of_nat_le_iff)
  then have "- (2 ^ 63) \<le> uint w \<and> uint w < 2 ^ 63" by (simp add: order_trans [OF _ uint_ge_0])
  then have "signed_take_bit 63 (uint w) = uint w" by (simp only: signed_take_bit_int_eq_self_iff)
  then show ?thesis by (simp add: sint_uint)
qed

subsection \<open>Digits\<close>

abbreviation cval :: "char \<Rightarrow> nat" where "cval c \<equiv> of_char c"

definition is_digit :: "char \<Rightarrow> bool" where
  "is_digit c \<longleftrightarrow> 48 \<le> cval c \<and> cval c \<le> 57"

definition digit_char :: "nat \<Rightarrow> char" where
  "digit_char d = char_of (48 + d)"

abbreviation digit_val :: "char \<Rightarrow> nat" where "digit_val c \<equiv> cval c - 48"

lemma cval_digit_char [rl_bytes]: "d < 10 \<Longrightarrow> cval (digit_char d) = 48 + d"
  by (simp add: digit_char_def)

lemma is_digit_digit_char [rl_bytes]: "d < 10 \<Longrightarrow> is_digit (digit_char d)"
  by (simp add: is_digit_def cval_digit_char)

lemma digit_val_lt [rl_bytes]: "is_digit c \<Longrightarrow> digit_val c < 10"
  by (auto simp: is_digit_def)

lemma not_digit_punct [simp]:
  "\<not> is_digit (CHR ''-'')" "\<not> is_digit (CHR ''+'')" "\<not> is_digit (CHR 0x0D)"
  "\<not> is_digit (CHR 0x0A)" "\<not> is_digit (CHR ''*'')" "\<not> is_digit (CHR ''$'')"
  "\<not> is_digit (CHR ''.'')" "\<not> is_digit (CHR '':'')"
  by (simp_all add: is_digit_def)

subsection \<open>Decimal text\<close>

fun dec_of_nat :: "nat \<Rightarrow> string" where
  "dec_of_nat n =
     (if n < 10 then [digit_char n] else dec_of_nat (n div 10) @ [digit_char (n mod 10)])"

declare dec_of_nat.simps [simp del]

definition dec_of_int :: "int \<Rightarrow> string" where
  "dec_of_int v = (if v < 0 then CHR ''-'' # dec_of_nat (nat (- v)) else dec_of_nat (nat v))"

definition dval :: "string \<Rightarrow> nat" where
  "dval ds = foldl (\<lambda>a c. a * 10 + digit_val c) 0 ds"

lemma dval_Nil [simp]: "dval [] = 0"
  by (simp add: dval_def)

lemma dval_snoc [simp]: "dval (ds @ [c]) = dval ds * 10 + digit_val c"
  by (simp add: dval_def)

lemma foldl_dval: "foldl (\<lambda>a c. a * 10 + digit_val c) a ds = a * 10 ^ length ds + dval ds"
proof (induction ds rule: rev_induct)
  case Nil
  then show ?case by simp
next
  case (snoc c ds)
  then show ?case by (simp add: algebra_simps)
qed

lemma dval_Cons: "dval (c # cs) = digit_val c * 10 ^ length cs + dval cs"
  using foldl_dval [of "digit_val c" cs] by (simp add: dval_def)

lemma dval_less: "list_all is_digit ds \<Longrightarrow> dval ds < 10 ^ length ds"
proof (induction ds rule: rev_induct)
  case (snoc c ds)
  then have "dval ds + 1 \<le> 10 ^ length ds" and "digit_val c < 10"
    by (auto intro: digit_val_lt)
  then have "dval ds * 10 + digit_val c < (dval ds + 1) * 10" by simp
  also have "\<dots> \<le> 10 ^ length ds * 10"
    using \<open>dval ds + 1 \<le> 10 ^ length ds\<close> by (rule mult_le_mono1)
  finally show ?case by simp
qed simp

lemma dec_of_nat_nonempty [simp]: "dec_of_nat n \<noteq> []"
  by (subst dec_of_nat.simps) simp

lemma dec_of_nat_digits [rl_bytes]: "list_all is_digit (dec_of_nat n)"
proof (induction n rule: dec_of_nat.induct)
  case (1 n)
  show ?case
    by (cases "n < 10") (use 1 in \<open>simp_all add: dec_of_nat.simps [of n] is_digit_digit_char\<close>)
qed

lemma dval_dec_of_nat [rl_bytes]: "dval (dec_of_nat n) = n"
proof (induction n rule: dec_of_nat.induct)
  case (1 n)
  show ?case
  proof (cases "n < 10")
    case True
    then show ?thesis by (simp add: dec_of_nat.simps [of n] dval_Cons cval_digit_char)
  next
    case False
    with 1 show ?thesis by (simp add: dec_of_nat.simps [of n] cval_digit_char)
  qed
qed

lemma dec_of_nat_inj: "dec_of_nat m = dec_of_nat n \<Longrightarrow> m = n"
  using dval_dec_of_nat by metis

lemma dec_of_nat_length_le: "n < 10 ^ k \<Longrightarrow> 0 < k \<Longrightarrow> length (dec_of_nat n) \<le> k"
proof (induction k arbitrary: n)
  case (Suc k)
  show ?case
  proof (cases "n < 10")
    case True
    then show ?thesis by (simp add: dec_of_nat.simps [of n])
  next
    case False
    with Suc.prems have "n div 10 < 10 ^ k" "0 < k"
      by (auto simp: less_mult_imp_div_less mult.commute intro: gr0I)
    with Suc.IH have "length (dec_of_nat (n div 10)) \<le> k" by blast
    with False show ?thesis by (simp add: dec_of_nat.simps [of n])
  qed
qed simp

lemma dec_of_nat_not_in [simp]: "\<not> is_digit c \<Longrightarrow> c \<notin> set (dec_of_nat n)"
  using dec_of_nat_digits [of n] by (auto simp: list_all_iff)

lemma hd_dec_of_nat_neq [simp]:
  "hd (dec_of_nat n) \<noteq> CHR ''-''" "hd (dec_of_nat n) \<noteq> CHR ''+''"
  using dec_of_nat_not_in [of _ n] hd_in_set [OF dec_of_nat_nonempty [of n]] not_digit_punct
  by metis+

end
