(* ===== verification/Score.thy ===== *)
theory Score
  imports RL_Prelude Complex_Main "HOL-Library.Log_Nat" "HOL-Library.Sublist"
begin

section \<open>Scores: IEEE doubles, their text and their order (src/zset.cpp, src/skip_list.cpp)\<close>

text \<open>
  A \<open>ZScore\<close> is a C++ \<open>double\<close>.  The model keeps its exact value: a finite double is the rational
  it denotes, next to the two infinities.  The zeros \<open>0.0\<close> and \<open>-0.0\<close> are one value: the code
  compares scores with \<open>==\<close>, \<open><\<close> and \<open><=\<close> only, and prints both as \<open>0\<close>.  NaN does not occur:
  the parsers reject it, and the only arithmetic, \<open>score + delta\<close> with a finite \<open>delta\<close>, cannot
  produce it.  Addition and \<open>strtod\<close> round to the nearest binary64 value, ties to even
  (\<open>round_double\<close>, which overflows to an infinity); \<open>printf("%.17g")\<close> is written out digit by
  digit.  The cast \<open>static_cast<long long>(score)\<close> of a value outside the range of \<open>long long\<close>,
  undefined in C++, is read as the x86-64 instruction does it: it yields \<open>INT64_MIN\<close>, which
  differs from the score, so that the \<open>%.17g\<close> branch is taken.
\<close>

datatype score = NInf | Fin rat | PInf

subsection \<open>The order of doubles\<close>

instantiation score :: linorder
begin

fun less_eq_score :: "score \<Rightarrow> score \<Rightarrow> bool" where
  "less_eq_score NInf y = True"
| "less_eq_score (Fin a) NInf = False"
| "less_eq_score (Fin a) (Fin b) = (a \<le> b)"
| "less_eq_score (Fin a) PInf = True"
| "less_eq_score PInf y = (y = PInf)"

definition less_score :: "score \<Rightarrow> score \<Rightarrow> bool" where
  "less_score x y \<longleftrightarrow> x \<le> y \<and> \<not> y \<le> (x :: score)"

instance
proof
  fix x y z :: score
  show "x < y \<longleftrightarrow> x \<le> y \<and> \<not> y \<le> x" by (rule less_score_def)
  show "x \<le> x" by (cases x) simp_all
  show "x \<le> y \<Longrightarrow> y \<le> z \<Longrightarrow> x \<le> z" by (cases x; cases y; cases z) simp_all
  show "x \<le> y \<Longrightarrow> y \<le> x \<Longrightarrow> x = y" by (cases x; cases y) simp_all
  show "x \<le> y \<or> y \<le> x" by (cases x; cases y) auto
qed

end

lemma less_score_simps [simp]:
  "Fin a < Fin b \<longleftrightarrow> a < b" "NInf < Fin a" "Fin a < PInf" "NInf < PInf"
  "\<not> s < NInf" "\<not> PInf < s"
  by (cases s; auto simp: less_score_def)+

subsection \<open>Rounding to binary64\<close>

text \<open>The exponent of a positive rational in base \<open>b\<close>: \<open>b ^ ilog b r \<le> r < b ^ (ilog b r + 1)\<close>.\<close>

definition ilog :: "nat \<Rightarrow> rat \<Rightarrow> int" where
  "ilog b r =
     (let (n, d) = quotient_of r;
          e = int (floorlog b (nat n)) - int (floorlog b (nat d))
      in if of_nat b powi e \<le> r then e else e - 1)"

text \<open>The nearest integer, ties to even.\<close>

definition round_even :: "rat \<Rightarrow> int" where
  "round_even x =
     (let f = \<lfloor>x\<rfloor>; d = x - of_int f in
      if d < 1 / 2 then f else if d > 1 / 2 then f + 1 else if even f then f else f + 1)"

definition round_double :: "rat \<Rightarrow> score" where
  "round_double r =
     (if r = 0 then Fin 0
      else let a = \<bar>r\<bar>;
               q = max (ilog 2 a - 52) (-1074);
               v = of_int (round_even (a / 2 powi q)) * 2 powi q
           in if v \<ge> 2 ^ 1024 then (if r < 0 then NInf else PInf)
              else Fin (if r < 0 then - v else v))"

definition is_double :: "rat \<Rightarrow> bool" where
  "is_double r \<longleftrightarrow> round_double r = Fin r"

text \<open>\<open>score + delta\<close> with a finite \<open>delta\<close>.\<close>

fun score_add :: "score \<Rightarrow> rat \<Rightarrow> score" where
  "score_add (Fin r) d = round_double (r + d)"
| "score_add PInf d = PInf"
| "score_add NInf d = NInf"

subsection \<open>Printing\<close>

definition strip_zeros :: "string \<Rightarrow> string" where
  "strip_zeros s = rev (dropWhile (\<lambda>c. c = CHR ''0'') (rev s))"

text \<open>\<open>%.17g\<close> of a finite value: 17 significant digits \<open>ds\<close> with decimal exponent \<open>x\<close>, in fixed
  notation for \<open>-4 \<le> x < 17\<close>, trailing zeros of the fraction removed.\<close>

definition digits17 :: "rat \<Rightarrow> int \<times> nat" where
  "digits17 a =
     (let x = ilog 10 a; m = nat (round_even (a / 10 powi (x - 16))) in
      if m = 10 ^ 17 then (x + 1, 10 ^ 16) else (x, m))"

definition with_fraction :: "string \<Rightarrow> string \<Rightarrow> string" where
  "with_fraction i f = (if f = [] then i else i @ ''.'' @ f)"

definition format_17g_pos :: "rat \<Rightarrow> string" where
  "format_17g_pos a =
     (let (x, m) = digits17 a; ds = dec_of_nat m in
      if -4 \<le> x \<and> x < 17
      then (if x \<ge> 0
            then with_fraction (take (nat x + 1) ds) (strip_zeros (drop (nat x + 1) ds))
            else with_fraction ''0'' (strip_zeros (replicate (nat (- x) - 1) (CHR ''0'') @ ds)))
      else with_fraction (take 1 ds) (strip_zeros (drop 1 ds))
             @ ''e'' @ (if x < 0 then ''-'' else ''+'')
             @ (if \<bar>x\<bar> < 10 then ''0'' else []) @ dec_of_nat (nat \<bar>x\<bar>))"

definition format_17g :: "score \<Rightarrow> string" where
  "format_17g s =
     (case s of
        NInf \<Rightarrow> ''-inf'' | PInf \<Rightarrow> ''inf''
      | Fin r \<Rightarrow> if r = 0 then ''0''
                else if r < 0 then ''-'' @ format_17g_pos (- r) else format_17g_pos r)"

text \<open>\<open>static_cast<long long>(score)\<close>, truncation towards zero.\<close>

definition to_long_long :: "score \<Rightarrow> int" where
  "to_long_long s =
     (case s of Fin r \<Rightarrow>
        (let t = (if r < 0 then - \<lfloor>- r\<rfloor> else \<lfloor>r\<rfloor>) in if int64_range t then t else INT64_MIN)
      | _ \<Rightarrow> INT64_MIN)"

definition is_finite :: "score \<Rightarrow> bool" where
  "is_finite s = (case s of Fin _ \<Rightarrow> True | _ \<Rightarrow> False)"

text \<open>A \<open>long long\<close> converted back to \<open>double\<close> is rounded.\<close>

definition ZScoreToString :: "score \<Rightarrow> string" where
  "ZScoreToString s =
     (if is_finite s \<and> s = round_double (of_int (to_long_long s))
      then dec_of_int (to_long_long s) else format_17g s)"

definition SkipScoreToString :: "score \<Rightarrow> string" where
  "SkipScoreToString s =
     (if s = round_double (of_int (to_long_long s))
      then dec_of_int (to_long_long s) else format_17g s)"

subsection \<open>Parsing: strtod\<close>

definition is_space :: "char \<Rightarrow> bool" where
  "is_space c \<longleftrightarrow> c = CHR '' '' \<or> 9 \<le> cval c \<and> cval c \<le> 13"

definition hex_val :: "char \<Rightarrow> nat option" where
  "hex_val c =
     (if is_digit c then Some (digit_val c)
      else if 97 \<le> cval c \<and> cval c \<le> 102 then Some (cval c - 87)
      else if 65 \<le> cval c \<and> cval c \<le> 70 then Some (cval c - 55)
      else None)"

definition is_hex :: "char \<Rightarrow> bool" where
  "is_hex c \<longleftrightarrow> hex_val c \<noteq> None"

definition hval :: "string \<Rightarrow> nat" where
  "hval ds = foldl (\<lambda>a c. a * 16 + the (hex_val c)) 0 ds"

text \<open>An optional exponent introduced by one of the two letters; a malformed one is not read.\<close>

definition read_exponent :: "char \<Rightarrow> char \<Rightarrow> string \<Rightarrow> int \<times> string" where
  "read_exponent lo up s =
     (case s of
        [] \<Rightarrow> (0, s)
      | c # cs \<Rightarrow>
          if c = lo \<or> c = up then
            (let neg = (cs \<noteq> [] \<and> hd cs = CHR ''-'');
                 ds = (if cs \<noteq> [] \<and> (hd cs = CHR ''-'' \<or> hd cs = CHR ''+'') then tl cs else cs);
                 es = takeWhile is_digit ds
             in if es = [] then (0, s)
                else ((if neg then - int (dval es) else int (dval es)), dropWhile is_digit ds))
          else (0, s))"

text \<open>An unsigned numeral with digits of the given kind: integer digits, an optional fraction, an
  optional exponent; at least one digit.  The result is the exact value and the rest.\<close>

definition read_numeral ::
    "(char \<Rightarrow> bool) \<Rightarrow> (string \<Rightarrow> nat) \<Rightarrow> nat \<Rightarrow> rat \<Rightarrow> char \<Rightarrow> char \<Rightarrow> string \<Rightarrow> (rat \<times> string) option" where
  "read_numeral dig val base ebase lo up s =
     (let ip = takeWhile dig s; r1 = dropWhile dig s;
          fp = (if r1 \<noteq> [] \<and> hd r1 = CHR ''.'' then takeWhile dig (tl r1) else []);
          r2 = (if r1 \<noteq> [] \<and> hd r1 = CHR ''.'' then dropWhile dig (tl r1) else r1)
      in if ip = [] \<and> fp = [] then None
         else let (e, r3) = read_exponent lo up r2 in
              Some (of_nat (val (ip @ fp)) / of_nat base ^ length fp * ebase powi e, r3))"

definition strtod_unsigned :: "string \<Rightarrow> (rat \<times> string) option" where
  "strtod_unsigned s =
     (if length s \<ge> 2 \<and> s ! 0 = CHR ''0'' \<and> (s ! 1 = CHR ''x'' \<or> s ! 1 = CHR ''X'')
      then (case read_numeral is_hex hval 16 2 (CHR ''p'') (CHR ''P'') (drop 2 s) of
              Some r \<Rightarrow> Some r
            | None \<Rightarrow> Some (0, drop 1 s))
      else read_numeral is_digit dval 10 10 (CHR ''e'') (CHR ''E'') s)"

text \<open>\<open>strtod\<close> on a C string (which ends at the first NUL); \<open>None\<close> when nothing is converted.  The
  spellings of infinities and NaN never reach it: the callers reject them first.\<close>

definition strtod :: "string \<Rightarrow> (score \<times> string) option" where
  "strtod s =
     (let s1 = dropWhile is_space s;
          neg = (s1 \<noteq> [] \<and> hd s1 = CHR ''-'');
          s2 = (if s1 \<noteq> [] \<and> (hd s1 = CHR ''-'' \<or> hd s1 = CHR ''+'') then tl s1 else s1)
      in case strtod_unsigned s2 of
           None \<Rightarrow> None
         | Some (v, rest) \<Rightarrow> Some (round_double (if neg then - v else v), rest))"

definition score_lower :: "char \<Rightarrow> char" where
  "score_lower c = (if 65 \<le> cval c \<and> cval c \<le> 90 then char_of (cval c - 65 + 97) else c)"

definition c_string :: "string \<Rightarrow> string" where
  "c_string s = takeWhile (\<lambda>c. c \<noteq> CHR 0x00) s"

text \<open>\<open>strstr(text, pat) != nullptr\<close>\<close>

fun strstr :: "string \<Rightarrow> string \<Rightarrow> bool" where
  "strstr [] pat = (pat = [])"
| "strstr (c # cs) pat = (take (length pat) (c # cs) = pat \<or> strstr cs pat)"

definition ParseZScore :: "string \<Rightarrow> rat option" where
  "ParseZScore data =
     (if length data = 0 \<or> length data \<ge> 64 then None
      else let lower = c_string (map score_lower data) in
        if strstr lower ''inf'' \<or> strstr lower ''nan'' then None
        else let b = c_string data in
          (case strtod b of
             None \<Rightarrow> None
           | Some (v, rest) \<Rightarrow>
               if rest \<noteq> [] then None
               else (case v of Fin r \<Rightarrow> Some r | _ \<Rightarrow> None)))"

definition ParseSkipScore :: "string \<Rightarrow> rat option" where
  "ParseSkipScore data =
     (if length data = 0 \<or> length data \<ge> 64 then None
      else let b = c_string data; lower = map score_lower b in
        if strstr lower ''inf'' \<or> strstr lower ''nan'' then None
        else (case strtod b of
             None \<Rightarrow> None
           | Some (v, rest) \<Rightarrow>
               if rest \<noteq> [] then None
               else (case v of Fin r \<Rightarrow> Some r | _ \<Rightarrow> None)))"

end
