(* ===== verification/Skip_List.thy ===== *)
theory Skip_List
  imports Score "HOL-Library.Monad_Syntax"
begin

section \<open>The skip list with spans (src/skip_list.cpp, include/rl/skip_list.h)\<close>

text \<open>
  The pointer structure of the code, operation by operation.  A node is a record with its arrays
  \<open>forward\<close> (\<open>None\<close> is \<open>nullptr\<close>) and \<open>span\<close> (32-bit unsigned), each of the length allocated
  for it; a list owns a heap from addresses to nodes, the header at address \<open>0\<close>.  Every
  dereference of an address that is not allocated and every array access out of bounds is
  \<open>None\<close>, and so is a pointer walk that never ends (\<^theory_text>\<open>partial_function (option)\<close>): a
  theorem that an operation returns \<open>Some\<close> states memory safety and termination.  \<open>std::rand\<close>
  is a sequence of values, consumed from the front.
\<close>

abbreviation (input) kMaxSkipLevel :: nat where "kMaxSkipLevel \<equiv> 32"

record snode =
  nd_member :: string
  nd_score :: score
  nd_forward :: "nat option list"
  nd_span :: "u32 list"
  nd_level :: nat

definition Less :: "snode \<Rightarrow> score \<Rightarrow> string \<Rightarrow> bool" where
  "Less nd other_score other_member =
     (if nd_score nd \<noteq> other_score then nd_score nd < other_score
      else nd_member nd < other_member)"

definition SkipNodeCreate :: "nat \<Rightarrow> score \<Rightarrow> string \<Rightarrow> snode" where
  "SkipNodeCreate lv sc m =
     \<lparr>nd_member = m, nd_score = sc, nd_forward = replicate lv None, nd_span = replicate lv 0,
      nd_level = lv\<rparr>"

type_synonym sheap = "nat \<Rightarrow> snode option"

record skiplist =
  sl_heap :: sheap
  sl_next :: nat
  sl_level :: nat
  sl_length :: u64

abbreviation (input) header :: nat where "header \<equiv> 0"

definition SkipList_new :: skiplist where
  "SkipList_new =
     (let h = (SkipNodeCreate kMaxSkipLevel (Fin 0) [])\<lparr>nd_span := replicate kMaxSkipLevel 1\<rparr> in
      \<lparr>sl_heap = Map.empty(header \<mapsto> h), sl_next = 1, sl_level = 1, sl_length = 0\<rparr>)"

subsection \<open>Memory accesses\<close>

definition get_fwd :: "sheap \<Rightarrow> nat \<Rightarrow> nat \<Rightarrow> nat option option" where
  "get_fwd h x i =
     (case h x of None \<Rightarrow> None
      | Some nd \<Rightarrow> if i < length (nd_forward nd) then Some (nd_forward nd ! i) else None)"

definition get_span :: "sheap \<Rightarrow> nat \<Rightarrow> nat \<Rightarrow> u32 option" where
  "get_span h x i =
     (case h x of None \<Rightarrow> None
      | Some nd \<Rightarrow> if i < length (nd_span nd) then Some (nd_span nd ! i) else None)"

definition set_fwd :: "nat \<Rightarrow> nat \<Rightarrow> nat option \<Rightarrow> sheap \<Rightarrow> sheap option" where
  "set_fwd x i v h =
     (case h x of None \<Rightarrow> None
      | Some nd \<Rightarrow> if i < length (nd_forward nd)
                  then Some (h(x \<mapsto> nd\<lparr>nd_forward := (nd_forward nd)[i := v]\<rparr>)) else None)"

definition set_span :: "nat \<Rightarrow> nat \<Rightarrow> u32 \<Rightarrow> sheap \<Rightarrow> sheap option" where
  "set_span x i v h =
     (case h x of None \<Rightarrow> None
      | Some nd \<Rightarrow> if i < length (nd_span nd)
                  then Some (h(x \<mapsto> nd\<lparr>nd_span := (nd_span nd)[i := v]\<rparr>)) else None)"

subsection \<open>Random levels\<close>

type_synonym rng = "nat \<Rightarrow> nat"

abbreviation (input) RAND_MAX :: nat where "RAND_MAX \<equiv> 2147483647"

text \<open>One call of \<open>std::rand\<close>: a value in \<open>0..RAND_MAX\<close> and the sequence of later values.\<close>

definition std_rand :: "rng \<Rightarrow> nat \<times> rng" where
  "std_rand r = (r 0 mod (RAND_MAX + 1), (\<lambda>k. r (Suc k)))"

text \<open>The quotient \<open>rand / (RAND_MAX + 1.0)\<close> is an exact double, so that the comparison with
  \<open>0.25\<close> is the comparison of \<open>4 * rand\<close> with \<open>RAND_MAX + 1\<close>.\<close>

function NextLevel_loop :: "nat \<Rightarrow> rng \<Rightarrow> nat \<times> rng" where
  "NextLevel_loop lv r =
     (if lv < kMaxSkipLevel
      then let (v, r') = std_rand r in
           if 4 * v < RAND_MAX + 1 then NextLevel_loop (lv + 1) r' else (lv, r')
      else (lv, r))"
  by pat_completeness auto
termination
  by (relation "measure (\<lambda>(lv, r). kMaxSkipLevel - lv)") auto

declare NextLevel_loop.simps [simp del]

definition NextLevel :: "rng \<Rightarrow> nat \<times> rng" where
  "NextLevel r = NextLevel_loop 1 r"

text \<open>With a generator injected by \<open>SetLevelGeneratorForTest\<close> its value is clamped.\<close>

definition NextLevel_gen :: "u32 \<Rightarrow> nat" where
  "NextLevel_gen lv = (if lv < 1 then 1 else if lv > 32 then kMaxSkipLevel else unat lv)"

subsection \<open>Search\<close>

text \<open>
  The inner loops.  \<open>walk\<close> moves along level \<open>i\<close> while the next node satisfies \<open>p\<close>;
  \<open>walk_rank\<close> also adds up the spans it crosses (\<open>rank[i] += x->span[i]\<close>, a 64-bit sum);
  \<open>walk_span\<close> is the loop of \<open>RangeByRank\<close>, which looks at the spans only.
\<close>

partial_function (option) walk :: "sheap \<Rightarrow> (snode \<Rightarrow> bool) \<Rightarrow> nat \<Rightarrow> nat \<Rightarrow> nat option" where
  "walk h p i x =
     do { f \<leftarrow> get_fwd h x i;
          case f of
            None \<Rightarrow> Some x
          | Some y \<Rightarrow> do { nd \<leftarrow> h y; if p nd then walk h p i y else Some x } }"

partial_function (option) walk_rank ::
    "sheap \<Rightarrow> (snode \<Rightarrow> bool) \<Rightarrow> nat \<Rightarrow> nat \<Rightarrow> u64 \<Rightarrow> (nat \<times> u64) option" where
  "walk_rank h p i x r =
     do { f \<leftarrow> get_fwd h x i;
          case f of
            None \<Rightarrow> Some (x, r)
          | Some y \<Rightarrow> do { nd \<leftarrow> h y;
                        if p nd
                        then do { sp \<leftarrow> get_span h x i; walk_rank h p i y (r + ucast sp) }
                        else Some (x, r) } }"

partial_function (option) walk_span ::
    "sheap \<Rightarrow> u64 \<Rightarrow> nat \<Rightarrow> nat \<Rightarrow> u64 \<Rightarrow> (nat \<times> u64) option" where
  "walk_span h start i x t =
     do { f \<leftarrow> get_fwd h x i;
          case f of
            None \<Rightarrow> Some (x, t)
          | Some y \<Rightarrow> do { sp \<leftarrow> get_span h x i;
                        if t + ucast sp < start
                        then walk_span h start i y (t + ucast sp)
                        else Some (x, t) } }"

text \<open>The loops over the levels, from \<open>level_ - 1\<close> down to \<open>0\<close>.  \<open>search_rank\<close> returns
  \<open>update[i]\<close> and \<open>rank[i]\<close> for each level \<open>i\<close>, \<open>search\<close> the node it ends at (the array
  \<open>update\<close> of \<open>Delete\<close> is \<open>search_update\<close>).\<close>

fun search_rank :: "sheap \<Rightarrow> (snode \<Rightarrow> bool) \<Rightarrow> nat \<Rightarrow> nat \<Rightarrow> u64 \<Rightarrow> (nat \<times> u64) list option" where
  "search_rank h p 0 x r = Some []"
| "search_rank h p (Suc i) x r =
     do { (x', r') \<leftarrow> walk_rank h p i x r;
          ups \<leftarrow> search_rank h p i x' r';
          Some (ups @ [(x', r')]) }"

fun search_update :: "sheap \<Rightarrow> (snode \<Rightarrow> bool) \<Rightarrow> nat \<Rightarrow> nat \<Rightarrow> nat list option" where
  "search_update h p 0 x = Some []"
| "search_update h p (Suc i) x =
     do { x' \<leftarrow> walk h p i x;
          ups \<leftarrow> search_update h p i x';
          Some (ups @ [x']) }"

fun search :: "sheap \<Rightarrow> (snode \<Rightarrow> bool) \<Rightarrow> nat \<Rightarrow> nat \<Rightarrow> nat option" where
  "search h p 0 x = Some x"
| "search h p (Suc i) x = do { x' \<leftarrow> walk h p i x; search h p i x' }"

fun search_r :: "sheap \<Rightarrow> (snode \<Rightarrow> bool) \<Rightarrow> nat \<Rightarrow> nat \<Rightarrow> u64 \<Rightarrow> (nat \<times> u64) option" where
  "search_r h p 0 x r = Some (x, r)"
| "search_r h p (Suc i) x r = do { (x', r') \<leftarrow> walk_rank h p i x r; search_r h p i x' r' }"

fun search_span :: "sheap \<Rightarrow> u64 \<Rightarrow> nat \<Rightarrow> nat \<Rightarrow> u64 \<Rightarrow> (nat \<times> u64) option" where
  "search_span h start 0 x t = Some (x, t)"
| "search_span h start (Suc i) x t =
     do { (x', t') \<leftarrow> walk_span h start i x t; search_span h start i x' t' }"

definition nth_opt :: "'a list \<Rightarrow> nat \<Rightarrow> 'a option" where
  "nth_opt xs i = (if i < length xs then Some (xs ! i) else None)"

subsection \<open>InsertNew and Insert\<close>

text \<open>The loops \<open>for (int i = a; i < b; ++i)\<close> over levels, each of which writes to the heap.\<close>

fun for_levels :: "(nat \<Rightarrow> sheap \<Rightarrow> sheap option) \<Rightarrow> nat list \<Rightarrow> sheap \<Rightarrow> sheap option" where
  "for_levels f [] h = Some h"
| "for_levels f (i # is) h = do { h' \<leftarrow> f i h; for_levels f is h' }"

text \<open>New levels: the header becomes their \<open>update\<close> with rank \<open>0\<close> and span \<open>length_ + 1\<close>.\<close>

definition raise_level :: "u64 \<Rightarrow> nat \<Rightarrow> sheap \<Rightarrow> sheap option" where
  "raise_level len i h = set_span header i (ucast (len + 1)) h"

definition link_level :: "(nat \<times> u64) list \<Rightarrow> nat \<Rightarrow> u64 \<Rightarrow> nat \<Rightarrow> sheap \<Rightarrow> sheap option" where
  "link_level ups node new_rank i h =
     do { (u, r) \<leftarrow> nth_opt ups i;
          sp \<leftarrow> get_span h u i;
          let old_next_rank = r + ucast sp;
          f \<leftarrow> get_fwd h u i;
          h \<leftarrow> set_fwd node i f h;
          h \<leftarrow> set_fwd u i (Some node) h;
          h \<leftarrow> set_span node i (ucast (old_next_rank + 1 - new_rank)) h;
          set_span u i (ucast (new_rank - r)) h }"

definition widen_level :: "(nat \<times> u64) list \<Rightarrow> nat \<Rightarrow> sheap \<Rightarrow> sheap option" where
  "widen_level ups i h =
     do { (u, r) \<leftarrow> nth_opt ups i;
          sp \<leftarrow> get_span h u i;
          set_span u i (sp + 1) h }"

definition InsertNew_at :: "nat \<Rightarrow> score \<Rightarrow> string \<Rightarrow> skiplist \<Rightarrow> skiplist option" where
  "InsertNew_at new_level sc m s =
     do { ups \<leftarrow> search_rank (sl_heap s) (\<lambda>nd. Less nd sc m) (sl_level s) header 0;
          (u0, r0) \<leftarrow> nth_opt ups 0;
          let new_rank = r0 + 1;
          let old_level = sl_level s;
          let ups' = (if new_level > old_level
                      then ups @ replicate (new_level - old_level) (header, 0) else ups);
          h1 \<leftarrow> (if new_level > old_level
                 then for_levels (raise_level (sl_length s)) [old_level..<new_level] (sl_heap s)
                 else Some (sl_heap s));
          let node = sl_next s;
          let h2 = h1(node \<mapsto> SkipNodeCreate new_level sc m);
          h3 \<leftarrow> for_levels (link_level ups' node new_rank) [0..<new_level] h2;
          h4 \<leftarrow> for_levels (widen_level ups') [new_level..<old_level] h3;
          Some (s\<lparr>sl_heap := h4, sl_next := node + 1,
                  sl_level := max old_level new_level,
                  sl_length := sl_length s + 1\<rparr>) }"

definition InsertNew :: "score \<Rightarrow> string \<Rightarrow> skiplist \<Rightarrow> rng \<Rightarrow> (skiplist \<times> rng) option" where
  "InsertNew sc m s r =
     (let (lv, r') = NextLevel r in do { s' \<leftarrow> InsertNew_at lv sc m s; Some (s', r') })"

subsection \<open>Delete\<close>

definition unlink_level :: "nat list \<Rightarrow> nat \<Rightarrow> nat \<Rightarrow> sheap \<Rightarrow> sheap option" where
  "unlink_level ups x i h =
     do { u \<leftarrow> nth_opt ups i;
          f \<leftarrow> get_fwd h u i;
          us \<leftarrow> get_span h u i;
          if f = Some x
          then do { xs \<leftarrow> get_span h x i;
                    h \<leftarrow> set_span u i (us + (xs - 1)) h;
                    xf \<leftarrow> get_fwd h x i;
                    set_fwd u i xf h }
          else set_span u i (us - 1) h }"

text \<open>\<open>while (level_ > 1 && header_->forward[level_ - 1] == nullptr) --level_\<close>\<close>

fun shrink_level :: "sheap \<Rightarrow> nat \<Rightarrow> nat option" where
  "shrink_level h 0 = Some 0"
| "shrink_level h (Suc l) =
     (if Suc l > 1
      then do { f \<leftarrow> get_fwd h header l;
                if f = None then shrink_level h l else Some (Suc l) }
      else Some (Suc l))"

definition Delete :: "score \<Rightarrow> string \<Rightarrow> skiplist \<Rightarrow> (bool \<times> skiplist) option" where
  "Delete sc m s =
     do { ups \<leftarrow> search_update (sl_heap s) (\<lambda>nd. Less nd sc m) (sl_level s) header;
          u0 \<leftarrow> nth_opt ups 0;
          f \<leftarrow> get_fwd (sl_heap s) u0 0;
          case f of
            None \<Rightarrow> Some (False, s)
          | Some x \<Rightarrow>
              do { nd \<leftarrow> sl_heap s x;
                   if nd_score nd \<noteq> sc \<or> nd_member nd \<noteq> m then Some (False, s)
                   else do { h1 \<leftarrow> for_levels (unlink_level ups x) [0..<sl_level s] (sl_heap s);
                             let h2 = h1(x := None);
                             l \<leftarrow> shrink_level h2 (sl_level s);
                             Some (True, s\<lparr>sl_heap := h2, sl_level := l,
                                           sl_length := sl_length s - 1\<rparr>) } } }"

text \<open>\<open>Insert\<close>: a scan of level 0 for the member, then \<open>InsertNew\<close>, or delete and insert.\<close>

partial_function (option) find_member :: "sheap \<Rightarrow> string \<Rightarrow> nat option \<Rightarrow> snode option option" where
  "find_member h m x =
     (case x of
        None \<Rightarrow> Some None
      | Some y \<Rightarrow> do { nd \<leftarrow> h y;
                    if nd_member nd = m then Some (Some nd)
                    else do { f \<leftarrow> get_fwd h y 0; find_member h m f } })"

datatype UpdateResult = kInserted | kUpdated

definition Insert :: "score \<Rightarrow> string \<Rightarrow> skiplist \<Rightarrow> rng \<Rightarrow> (UpdateResult \<times> skiplist \<times> rng) option" where
  "Insert sc m s r =
     do { f \<leftarrow> get_fwd (sl_heap s) header 0;
          e \<leftarrow> find_member (sl_heap s) m f;
          case e of
            Some nd \<Rightarrow>
              if nd_score nd = sc then Some (kUpdated, s, r)
              else do { (b, s1) \<leftarrow> Delete (nd_score nd) m s;
                        (s2, r2) \<leftarrow> InsertNew sc m s1 r;
                        Some (kUpdated, s2, r2) }
          | None \<Rightarrow> do { (s2, r2) \<leftarrow> InsertNew sc m s r; Some (kInserted, s2, r2) } }"

subsection \<open>Queries\<close>

definition Find :: "score \<Rightarrow> string \<Rightarrow> skiplist \<Rightarrow> bool option" where
  "Find sc m s =
     do { x \<leftarrow> search (sl_heap s) (\<lambda>nd. Less nd sc m) (sl_level s) header;
          f \<leftarrow> get_fwd (sl_heap s) x 0;
          case f of
            None \<Rightarrow> Some False
          | Some y \<Rightarrow> do { nd \<leftarrow> sl_heap s y; Some (nd_score nd = sc \<and> nd_member nd = m) } }"

text \<open>\<open>Rank\<close>: the result is \<open>None\<close> inside when the method returns false.\<close>

definition Rank :: "score \<Rightarrow> string \<Rightarrow> skiplist \<Rightarrow> u64 option option" where
  "Rank sc m s =
     do { (x, r) \<leftarrow> search_r (sl_heap s) (\<lambda>nd. Less nd sc m) (sl_level s) header 0;
          f \<leftarrow> get_fwd (sl_heap s) x 0;
          case f of
            None \<Rightarrow> Some None
          | Some y \<Rightarrow> do { nd \<leftarrow> sl_heap s y;
                        if nd_score nd \<noteq> sc \<or> nd_member nd \<noteq> m then Some None
                        else Some (Some r) } }"

text \<open>The collecting loop: at most \<open>n\<close> nodes along level 0.\<close>

fun collect :: "sheap \<Rightarrow> nat \<Rightarrow> nat option \<Rightarrow> snode list option" where
  "collect h 0 x = Some []"
| "collect h (Suc n) x =
     (case x of
        None \<Rightarrow> Some []
      | Some y \<Rightarrow> do { nd \<leftarrow> h y; f \<leftarrow> get_fwd h y 0; rest \<leftarrow> collect h n f; Some (nd # rest) })"

text \<open>\<open>RangeByRank\<close>, 1-based and inclusive; the loop \<open>for (i = start; i <= stop && x; ++i)\<close>
  takes at most \<open>stop - start + 1\<close> nodes.\<close>

definition SkipList_RangeByRank :: "u64 \<Rightarrow> u64 \<Rightarrow> skiplist \<Rightarrow> snode list option" where
  "SkipList_RangeByRank start stop s =
     (if start > stop \<or> start > sl_length s then Some []
      else do { (x, t) \<leftarrow> search_span (sl_heap s) start (sl_level s) header 0;
                f \<leftarrow> get_fwd (sl_heap s) x 0;
                collect (sl_heap s) (unat stop - unat start + 1) f })"

text \<open>\<open>LowerBoundByScore\<close>: the address of the first node with \<open>score >= min_score\<close>.\<close>

definition LowerBoundByScore :: "score \<Rightarrow> skiplist \<Rightarrow> nat option option" where
  "LowerBoundByScore min_score s =
     do { x \<leftarrow> search (sl_heap s) (\<lambda>nd. nd_score nd < min_score) (sl_level s) header;
          get_fwd (sl_heap s) x 0 }"

definition SkipList_Last :: "skiplist \<Rightarrow> nat option option" where
  "SkipList_Last s =
     do { x \<leftarrow> search (sl_heap s) (\<lambda>nd. True) (sl_level s) header;
          Some (if x = header then None else Some x) }"

subsection \<open>Clear\<close>

partial_function (option) clear_nodes :: "nat option \<Rightarrow> sheap \<Rightarrow> sheap option" where
  "clear_nodes x h =
     (case x of
        None \<Rightarrow> Some h
      | Some y \<Rightarrow> do { next \<leftarrow> get_fwd h y 0; clear_nodes next (h(y := None)) })"

definition reset_level :: "nat \<Rightarrow> sheap \<Rightarrow> sheap option" where
  "reset_level i h = do { h \<leftarrow> set_fwd header i None h; set_span header i 1 h }"

definition SkipList_Clear :: "skiplist \<Rightarrow> skiplist option" where
  "SkipList_Clear s =
     do { f \<leftarrow> get_fwd (sl_heap s) header 0;
          h1 \<leftarrow> clear_nodes f (sl_heap s);
          h2 \<leftarrow> for_levels reset_level [0..<kMaxSkipLevel] h1;
          Some (s\<lparr>sl_heap := h2, sl_level := 1, sl_length := 0\<rparr>) }"

subsection \<open>Destruction\<close>

text \<open>\<open>SkipNodeDestroy\<close> of a node that is not allocated, a double free, is \<open>None\<close>; the destructor of
  the list returns the heap it leaves behind.\<close>

definition SkipNodeDestroy :: "nat option \<Rightarrow> sheap \<Rightarrow> sheap option" where
  "SkipNodeDestroy x h =
     (case x of
        None \<Rightarrow> Some h
      | Some y \<Rightarrow> do { nd \<leftarrow> h y; Some (h(y := None)) })"

definition SkipList_Destroy :: "skiplist \<Rightarrow> sheap option" where
  "SkipList_Destroy s = do { s \<leftarrow> SkipList_Clear s; SkipNodeDestroy (Some header) (sl_heap s) }"

declare walk.simps [code] walk_rank.simps [code] walk_span.simps [code]
  find_member.simps [code] clear_nodes.simps [code]

end
