(* ===== verification/Skip_List_Facts.thy ===== *)
theory Skip_List_Facts
  imports Skip_List "HOL-Library.Product_Lexorder"
begin

section \<open>The skip list refines a sorted list\<close>

text \<open>
  The abstract state of a skip list is the list of its nodes in rank order, each with its
  address, its key \<open>(score, member)\<close> and its number of levels.  \<open>seg\<close> says what the pointers and
  the spans of one level must be for such a list; every loop of the code is related to it level by
  level.  With the invariant \<open>sl_rep\<close> every operation is shown to return (no invalid access, no
  endless walk) and to act on the sorted list of keys.
\<close>

type_synonym key = "score \<times> string"
datatype cell = Cell (ca: nat) (ck: key) (cl: nat)

definition hcell :: cell where "hcell = Cell header (Fin 0, []) kMaxSkipLevel"

lemma hcell_simps [simp]: "ca hcell = 0" "cl hcell = 32"
  by (simp_all add: hcell_def)

abbreviation nkey :: "snode \<Rightarrow> key" where "nkey nd \<equiv> (nd_score nd, nd_member nd)"

lemma Less_key: "Less nd sc m \<longleftrightarrow> nkey nd < (sc, m)"
  by (auto simp: Less_def less_prod_def')

subsection \<open>Heap shapes and frames\<close>

definition shape :: "sheap \<Rightarrow> nat \<Rightarrow> (key \<times> nat \<times> nat \<times> nat) option" where
  "shape h x = map_option (\<lambda>nd. (nkey nd, nd_level nd, length (nd_forward nd), length (nd_span nd))) (h x)"

definition holds :: "sheap \<Rightarrow> cell \<Rightarrow> bool" where
  "holds h c \<longleftrightarrow> shape h (ca c) = Some (ck c, cl c, cl c, cl c)"

definition agree :: "nat \<Rightarrow> sheap \<Rightarrow> sheap \<Rightarrow> bool" where
  "agree i h h' \<longleftrightarrow> shape h' = shape h \<and>
     (\<forall>z. get_fwd h' z i = get_fwd h z i \<and> get_span h' z i = get_span h z i)"

definition local_to :: "nat \<Rightarrow> sheap \<Rightarrow> sheap \<Rightarrow> bool" where
  "local_to i h h' \<longleftrightarrow> shape h' = shape h \<and> (\<forall>j. j \<noteq> i \<longrightarrow> agree j h h')"

lemma agree_refl [simp]: "agree i h h"
  by (simp add: agree_def)

lemma agree_sym: "agree i h h' \<Longrightarrow> agree i h' h"
  by (simp add: agree_def)

lemma agree_trans: "agree i h h' \<Longrightarrow> agree i h' h'' \<Longrightarrow> agree i h h''"
  by (simp add: agree_def)

lemma local_toD: "local_to i h h' \<Longrightarrow> j \<noteq> i \<Longrightarrow> agree j h h'"
  by (simp add: local_to_def)

lemma local_to_refl [simp]: "local_to i h h"
  by (simp add: local_to_def)

lemma local_to_trans: "local_to i h h' \<Longrightarrow> local_to i h' h'' \<Longrightarrow> local_to i h h''"
  by (auto simp: local_to_def intro: agree_trans)

lemma holds_shape: "shape h' = shape h \<Longrightarrow> holds h' c = holds h c"
  by (simp add: holds_def)

lemma holdsD: "holds h c \<Longrightarrow> \<exists>nd. h (ca c) = Some nd \<and> nkey nd = ck c \<and> nd_level nd = cl c
    \<and> length (nd_forward nd) = cl c \<and> length (nd_span nd) = cl c"
  by (auto simp: holds_def shape_def)

lemma holds_get_fwd: "holds h c \<Longrightarrow> i < cl c \<Longrightarrow> \<exists>f. get_fwd h (ca c) i = Some f"
  by (auto dest!: holdsD simp: get_fwd_def)

lemma holds_get_span: "holds h c \<Longrightarrow> i < cl c \<Longrightarrow> \<exists>f. get_span h (ca c) i = Some f"
  by (auto dest!: holdsD simp: get_span_def)

lemma shape_dom: "shape h' = shape h \<Longrightarrow> dom h' = dom h"
  by (auto simp: shape_def fun_eq_iff dom_def map_option_case split: option.splits)

lemma set_fwd_ex:
  assumes "get_fwd h x i = Some f"
  obtains h' where "set_fwd x i v h = Some h'" "local_to i h h'"
    "\<And>z. get_fwd h' z i = (if z = x then Some v else get_fwd h z i)"
    "\<And>z. get_span h' z i = get_span h z i"
proof -
  from assms obtain nd where nd: "h x = Some nd" "i < length (nd_forward nd)"
    by (auto simp: get_fwd_def split: option.splits if_splits)
  let ?h = "h(x \<mapsto> nd\<lparr>nd_forward := (nd_forward nd)[i := v]\<rparr>)"
  have "set_fwd x i v h = Some ?h" using nd by (simp add: set_fwd_def)
  moreover have "shape ?h = shape h" using nd by (auto simp: shape_def fun_eq_iff)
  moreover have "get_fwd ?h z j = (if z = x \<and> j = i then Some v else get_fwd h z j)" for z j
    using nd by (auto simp: get_fwd_def)
  moreover have "get_span ?h z j = get_span h z j" for z j
    using nd by (auto simp: get_span_def)
  ultimately show thesis by (intro that [of ?h]) (auto simp: local_to_def agree_def)
qed

lemma set_span_ex:
  assumes "get_span h x i = Some f"
  obtains h' where "set_span x i v h = Some h'" "local_to i h h'"
    "\<And>z. get_span h' z i = (if z = x then Some v else get_span h z i)"
    "\<And>z. get_fwd h' z i = get_fwd h z i"
proof -
  from assms obtain nd where nd: "h x = Some nd" "i < length (nd_span nd)"
    by (auto simp: get_span_def split: option.splits if_splits)
  let ?h = "h(x \<mapsto> nd\<lparr>nd_span := (nd_span nd)[i := v]\<rparr>)"
  have "set_span x i v h = Some ?h" using nd by (simp add: set_span_def)
  moreover have "shape ?h = shape h" using nd by (auto simp: shape_def fun_eq_iff)
  moreover have "get_span ?h z j = (if z = x \<and> j = i then Some v else get_span h z j)" for z j
    using nd by (auto simp: get_span_def)
  moreover have "get_fwd ?h z j = get_fwd h z j" for z j
    using nd by (auto simp: get_fwd_def)
  ultimately show thesis by (intro that [of ?h]) (auto simp: local_to_def agree_def)
qed

text \<open>A loop over levels whose body only touches its own level.\<close>

lemma for_levels_local:
  assumes "distinct is"
    and step: "\<And>i h0. i \<in> set is \<Longrightarrow> agree i h h0 \<Longrightarrow> shape h0 = shape h \<Longrightarrow>
          \<exists>h1. f i h0 = Some h1 \<and> local_to i h0 h1 \<and> Q i h1"
    and cong: "\<And>i h1 h2. Q i h1 \<Longrightarrow> agree i h1 h2 \<Longrightarrow> Q i h2"
  shows "\<exists>h'. for_levels f is h = Some h' \<and> shape h' = shape h \<and> (\<forall>i\<in>set is. Q i h')
     \<and> (\<forall>j. j \<notin> set is \<longrightarrow> agree j h h')"
  using assms(1) step
proof (induction "is" arbitrary: h)
  case (Cons i js)
  from Cons.prems(2) [of i h] obtain h1 where h1: "f i h = Some h1" "local_to i h h1" "Q i h1"
    by auto
  then have sh1: "shape h1 = shape h" by (simp add: local_to_def)
  have "\<exists>h2. f j h0 = Some h2 \<and> local_to j h0 h2 \<and> Q j h2"
    if "j \<in> set js" "agree j h1 h0" "shape h0 = shape h1" for j h0
  proof -
    from that Cons.prems(1) have "j \<noteq> i" by auto
    with h1(2) that have "agree j h h0" by (blast intro: agree_trans local_toD)
    with that sh1 show ?thesis by (intro Cons.prems(2)) auto
  qed
  with Cons.IH [of h1] Cons.prems(1) obtain h' where
    h': "for_levels f js h1 = Some h'" "shape h' = shape h1" "\<forall>i\<in>set js. Q i h'"
        "\<forall>j. j \<notin> set js \<longrightarrow> agree j h1 h'" by auto
  moreover have "Q i h'" using h1(3) h'(4) Cons.prems(1) cong by auto
  moreover have "agree j h h'" if "j \<notin> set (i # js)" for j
    using that h'(4) h1(2) by (auto intro: agree_trans [OF local_toD])
  ultimately show ?case using h1(1) sh1 by auto
qed auto

subsection \<open>What one level looks like\<close>

fun tgt :: "nat \<Rightarrow> cell list \<Rightarrow> nat option" where
  "tgt i [] = None"
| "tgt i (c # cs) = (if i < cl c then Some (ca c) else tgt i cs)"

fun dist :: "nat \<Rightarrow> cell list \<Rightarrow> nat" where
  "dist i [] = 1"
| "dist i (c # cs) = (if i < cl c then 1 else Suc (dist i cs))"

definition lnk :: "sheap \<Rightarrow> nat \<Rightarrow> cell \<Rightarrow> cell list \<Rightarrow> bool" where
  "lnk h i c cs \<longleftrightarrow> i < cl c \<longrightarrow>
     get_fwd h (ca c) i = Some (tgt i cs) \<and> get_span h (ca c) i = Some (of_nat (dist i cs))"

text \<open>\<open>seg h i cs t\<close>: the level \<open>i\<close> of the nodes \<open>cs\<close>, followed by the nodes \<open>t\<close>.\<close>

fun seg :: "sheap \<Rightarrow> nat \<Rightarrow> cell list \<Rightarrow> cell list \<Rightarrow> bool" where
  "seg h i [] t \<longleftrightarrow> True"
| "seg h i (c # cs) t \<longleftrightarrow> lnk h i c (cs @ t) \<and> seg h i cs t"

lemma seg_append [simp]: "seg h i (as @ bs) t \<longleftrightarrow> seg h i as (bs @ t) \<and> seg h i bs t"
  by (induction as) auto

lemma tgt_cut: "i < cl c \<Longrightarrow> tgt i (as @ c # bs) = tgt i (as @ [c])"
  by (induction as) auto

lemma dist_cut: "i < cl c \<Longrightarrow> dist i (as @ c # bs) = dist i (as @ [c])"
  by (induction as) auto

lemma seg_cut: "i < cl c \<Longrightarrow> seg h i as (c # bs) = seg h i as [c]"
proof (induction as)
  case (Cons a as)
  with tgt_cut [of i c as bs] dist_cut [of i c as bs] show ?case by (simp add: lnk_def)
qed simp

lemma tgt_skip [simp]: "\<forall>c\<in>set as. cl c \<le> i \<Longrightarrow> tgt i (as @ bs) = tgt i bs"
  by (induction as) auto

lemma dist_skip [simp]: "\<forall>c\<in>set as. cl c \<le> i \<Longrightarrow> dist i (as @ bs) = length as + dist i bs"
  by (induction as) auto

lemma seg_low [simp]: "\<forall>c\<in>set as. cl c \<le> i \<Longrightarrow> seg h i as t"
  by (induction as) (auto simp: lnk_def)

lemma tgt_low [simp]: "\<forall>c\<in>set as. cl c \<le> i \<Longrightarrow> tgt i as = None"
  by (induction as) auto

lemma dist_low [simp]: "\<forall>c\<in>set as. cl c \<le> i \<Longrightarrow> dist i as = length as + 1"
  by (induction as) auto

lemma tgt_split:
  "tgt i cs = (case dropWhile (\<lambda>c. cl c \<le> i) cs of [] \<Rightarrow> None | c # _ \<Rightarrow> Some (ca c))"
  by (induction cs) auto

lemma dist_le: "dist i cs \<le> length cs + 1" and dist_pos: "0 < dist i cs"
  by (induction cs) auto

lemma seg_cong:
  assumes "\<And>c. c \<in> set cs \<Longrightarrow> get_fwd h' (ca c) i = get_fwd h (ca c) i
                            \<and> get_span h' (ca c) i = get_span h (ca c) i"
  shows "seg h' i cs t = seg h i cs t"
  using assms by (induction cs) (auto simp: lnk_def)

lemma seg_agree: "seg h i cs t \<Longrightarrow> agree i h h' \<Longrightarrow> seg h' i cs t"
  by (subst seg_cong [of _ h' i h]) (auto simp: agree_def)

lemma for_levels_seg:
  assumes "distinct is"
    and "\<And>i h0. i \<in> set is \<Longrightarrow> agree i h h0 \<Longrightarrow> shape h0 = shape h \<Longrightarrow>
          \<exists>h1. f i h0 = Some h1 \<and> local_to i h0 h1 \<and> seg h1 i cs []"
  obtains h' where "for_levels f is h = Some h'" "shape h' = shape h"
    "\<And>i. i \<in> set is \<Longrightarrow> seg h' i cs []" "\<And>j. j \<notin> set is \<Longrightarrow> agree j h h'"
  using for_levels_local [of "is" h f "\<lambda>i h. seg h i cs []"] assms seg_agree by blast

text \<open>The last node of a list that has level \<open>i\<close>, with the nodes before and after it.\<close>

definition last_at :: "nat \<Rightarrow> cell list \<Rightarrow> cell list \<Rightarrow> cell \<Rightarrow> cell list \<Rightarrow> bool" where
  "last_at i cs pre y post \<longleftrightarrow> cs = pre @ y # post \<and> i < cl y \<and> (\<forall>c\<in>set post. cl c \<le> i)"

lemma last_at_Cons: "last_at i cs pre y post \<Longrightarrow> last_at i (c # cs) (c # pre) y post"
  by (simp add: last_at_def)

lemma last_at_low: "\<forall>c\<in>set cs. cl c \<le> i \<Longrightarrow> i < cl c \<Longrightarrow> last_at i (c # cs) [] c cs"
  by (simp add: last_at_def)

text \<open>Following level \<open>i\<close> through the nodes that satisfy the loop condition.\<close>

definition good :: "sheap \<Rightarrow> (snode \<Rightarrow> bool) \<Rightarrow> cell \<Rightarrow> bool \<Rightarrow> bool" where
  "good h p c b \<longleftrightarrow> (\<exists>nd. h (ca c) = Some nd \<and> p nd = b)"

lemma tgt_None: "tgt i cs = None \<longleftrightarrow> (\<forall>c\<in>set cs. cl c \<le> i)"
  by (induction cs) auto

lemma tgt_Some: "tgt i cs = Some y \<Longrightarrow>
   \<exists>as c bs. cs = as @ c # bs \<and> ca c = y \<and> i < cl c \<and> (\<forall>c\<in>set as. cl c \<le> i)"
proof (induction cs)
  case (Cons c cs)
  show ?case
  proof (cases "i < cl c")
    case True
    with Cons.prems show ?thesis by (intro exI [of _ "[]"]) auto
  next
    case False
    with Cons obtain as d bs where "cs = as @ d # bs" "ca d = y" "i < cl d" "\<forall>c\<in>set as. cl c \<le> i"
      by auto
    with False show ?thesis by (intro exI [of _ "c # as"] exI [of _ d] exI [of _ bs]) auto
  qed
qed simp

lemma walk_to_last:
  assumes "seg h i (x # as @ bs) []" "i < cl x"
    "\<forall>c\<in>set as. good h p c True" "\<forall>c\<in>set bs. good h p c False"
    "length as < 4294967295"
  shows "\<exists>pre y post. last_at i (x # as) pre y post \<and> walk h p i (ca x) = Some (ca y)
     \<and> walk_rank h p i (ca x) r = Some (ca y, r + of_nat (length pre))"
  using assms
proof (induction "length as" arbitrary: x as r rule: less_induct)
  case less
  show ?case
  proof (cases "\<forall>c\<in>set as. cl c \<le> i")
    case True
    have eq: "tgt i (as @ bs) = tgt i bs" using True by simp
    have "walk h p i (ca x) = Some (ca x)"
      using less.prems eq by (subst walk.simps)
        (auto simp: lnk_def good_def split: option.splits dest!: tgt_Some)
    moreover have "walk_rank h p i (ca x) r = Some (ca x, r)"
      using less.prems eq by (subst walk_rank.simps)
        (auto simp: lnk_def good_def split: option.splits dest!: tgt_Some)
    ultimately show ?thesis using last_at_low [OF True less.prems(2)] by fastforce
  next
    case False
    then obtain a0 y a1 where as: "as = a0 @ y # a1" "i < cl y" "\<forall>c\<in>set a0. cl c \<le> i"
      by (metis not_le split_list_first_prop [of as "\<lambda>c. \<not> cl c \<le> i"])
    have l: "get_fwd h (ca x) i = Some (Some (ca y))"
        "get_span h (ca x) i = Some (of_nat (Suc (length a0)))"
      using less.prems(1,2) as by (auto simp: lnk_def)
    from less.prems(3) as obtain nd where nd: "h (ca y) = Some nd" "p nd"
      by (auto simp: good_def)
    have "seg h i (y # a1 @ bs) []" "length a1 < length as"
      using less.prems(1) as by auto
    with less.hyps [of a1 y "r + of_nat (Suc (length a0))"] less.prems as obtain pre z post where
      IH: "last_at i (y # a1) pre z post" "walk h p i (ca y) = Some (ca z)"
        "walk_rank h p i (ca y) (r + of_nat (Suc (length a0)))
           = Some (ca z, r + of_nat (Suc (length a0)) + of_nat (length pre))"
      by auto
    have "ucast (of_nat (Suc (length a0)) :: u32) = (of_nat (Suc (length a0)) :: u64)"
      using less.prems(5) as by (intro ucast_of_nat_u32) simp
    then have "walk_rank h p i (ca x) r = Some (ca z, r + of_nat (length (x # a0 @ pre)))"
      using l nd IH(3) by (subst walk_rank.simps) (simp add: algebra_simps)
    moreover have "walk h p i (ca x) = Some (ca z)"
      using l nd IH(2) by (subst walk.simps) simp
    moreover have "last_at i (x # as) (x # a0 @ pre) z post"
      using IH(1) as by (auto simp: last_at_def)
    ultimately show ?thesis by blast
  qed
qed

lemma last_at_extend:
  "last_at i (x # as) pre y post \<Longrightarrow> last_at j (y # post) pre' z post' \<Longrightarrow> last_at j (x # as) (pre @ pre') z post'"
  by (auto simp: last_at_def)

lemma search_levels:
  assumes "\<forall>i<L. seg h i (x # as @ bs) []" "L \<le> cl x"
    "\<forall>c\<in>set as. good h p c True" "\<forall>c\<in>set bs. good h p c False"
    "length as < 4294967295"
  shows "\<exists>ups. search_rank h p L (ca x) r = Some ups \<and> search_update h p L (ca x) = Some (map fst ups)
     \<and> length ups = L
     \<and> (\<forall>i<L. \<exists>pre y post. last_at i (x # as) pre y post \<and> ups ! i = (ca y, r + of_nat (length pre)))"
  using assms
proof (induction L arbitrary: x as r)
  case (Suc L)
  from walk_to_last [of h L x as bs p r] Suc.prems obtain pre y post where
    w: "last_at L (x # as) pre y post" "walk h p L (ca x) = Some (ca y)"
      "walk_rank h p L (ca x) r = Some (ca y, r + of_nat (length pre))"
    by auto
  have split: "x # as = pre @ y # post" and cly: "L < cl y" using w(1) by (auto simp: last_at_def)
  have "set post \<subseteq> set as" using split by (cases pre) auto
  moreover have "length post \<le> length as" using arg_cong [OF split, of length] by simp
  moreover have "seg h i (y # post @ bs) []" if "i < Suc L" for i
  proof -
    have "seg h i ((x # as) @ bs) []" using Suc.prems(1) that by simp
    then have "seg h i ((pre @ y # post) @ bs) []" using split by (simp only:)
    then show ?thesis by simp
  qed
  ultimately have "\<exists>ups. search_rank h p L (ca y) (r + of_nat (length pre)) = Some ups
      \<and> search_update h p L (ca y) = Some (map fst ups) \<and> length ups = L
      \<and> (\<forall>i<L. \<exists>pre' z post'. last_at i (y # post) pre' z post'
         \<and> ups ! i = (ca z, r + of_nat (length pre) + of_nat (length pre')))"
    using Suc.prems(3-5) cly by (intro Suc.IH) auto
  then obtain ups where ups:
    "search_rank h p L (ca y) (r + of_nat (length pre)) = Some ups"
    "search_update h p L (ca y) = Some (map fst ups)" "length ups = L"
    "\<forall>i<L. \<exists>pre' z post'. last_at i (y # post) pre' z post'
         \<and> ups ! i = (ca z, r + of_nat (length pre) + of_nat (length pre'))"
    by blast
  let ?ups = "ups @ [(ca y, r + of_nat (length pre))]"
  have "\<exists>pre' z post'. last_at i (x # as) pre' z post' \<and> ?ups ! i = (ca z, r + of_nat (length pre'))"
    if i: "i < Suc L" for i
  proof (cases "i = L")
    case True
    with w(1) ups(3) show ?thesis by (auto simp: nth_append)
  next
    case False
    with i ups(4) obtain pre' z post' where
      "last_at i (y # post) pre' z post'" "ups ! i = (ca z, r + of_nat (length pre) + of_nat (length pre'))"
      by (metis less_SucE)
    with False i ups(3) last_at_extend [OF w(1)] show ?thesis
      by (intro exI [of _ "pre @ pre'"] exI [of _ z] exI [of _ post']) (auto simp: nth_append algebra_simps)
  qed
  with w ups show ?case by auto
qed auto

lemma search_r_eq: "search_rank h p L x r = Some ups \<Longrightarrow> search_r h p L x r = Some (if L = 0 then (x, r) else ups ! 0)"
proof (induction L arbitrary: x r ups)
  case (Suc L)
  then obtain x' r' us where w: "walk_rank h p L x r = Some (x', r')"
    "search_rank h p L x' r' = Some us" "ups = us @ [(x', r')]"
    by (auto split: bind_splits)
  moreover have "length us = L" using w(2)
    by (induction L arbitrary: x' r' us) (auto split: bind_splits)
  ultimately show ?case using Suc.IH [OF w(2)] by (auto simp: nth_append)
qed auto

lemma search_eq: "search_update h p L x = Some ups \<Longrightarrow> search h p L x = Some (if L = 0 then x else ups ! 0)"
proof (induction L arbitrary: x ups)
  case (Suc L)
  then obtain x' us where w: "walk h p L x = Some x'"
    "search_update h p L x' = Some us" "ups = us @ [x']"
    by (auto split: bind_splits)
  moreover have "length us = L" using w(2)
    by (induction L arbitrary: x' us) (auto split: bind_splits)
  ultimately show ?case using Suc.IH [OF w(2)] by (auto simp: nth_append)
qed auto

subsection \<open>One level of InsertNew and of Delete\<close>

text \<open>The tail \<open>pre @ y # post @ bs\<close> of a level, as its three parts.\<close>

lemma seg_at: "i < cl y \<Longrightarrow> \<forall>c\<in>set post. cl c \<le> i \<Longrightarrow>
    seg h i (pre @ y # post @ bs) [] \<longleftrightarrow> seg h i pre [y] \<and> lnk h i y (post @ bs) \<and> seg h i bs []"
  by (simp add: seg_cut [of i y h pre "post @ bs"])

lemma link_level_seg:
  assumes seg: "seg h i (pre @ y # post @ bs) []" "i < cl y" "\<forall>c\<in>set post. cl c \<le> i"
    and ups: "i < length ups" "ups ! i = (ca y, of_nat (length pre))"
    and node: "holds h n" "i < cl n" "holds h y"
    and dist: "ca n \<notin> ca ` set (pre @ y # post @ bs)" "distinct (map ca (pre @ y # post @ bs))"
    and len: "length (pre @ y # post @ bs) < 4294967295"
  shows "\<exists>h'. link_level ups (ca n) (of_nat (length (pre @ y # post))) i h = Some h'
     \<and> local_to i h h' \<and> seg h' i (pre @ y # post @ n # bs) []"
proof -
  let ?R = "length pre" let ?N = "length (pre @ y # post)" let ?d = "dist i bs"
  from seg have s: "seg h i pre [y]" "lnk h i y (post @ bs)" "seg h i bs []"
    using seg_at by blast+
  then have y: "get_fwd h (ca y) i = Some (tgt i bs)"
      "get_span h (ca y) i = Some (of_nat (length post + ?d))"
    using seg(2,3) by (auto simp: lnk_def)
  have d: "?d \<le> length bs + 1" by (rule dist_le)
  have ne: "ca n \<noteq> ca y" using dist by auto
  from node holds_get_fwd obtain f0 where f0: "get_fwd h (ca n) i = Some f0" by blast
  from set_fwd_ex [OF f0, of "tgt i bs"] obtain h1 where
    h1: "set_fwd (ca n) i (tgt i bs) h = Some h1" "local_to i h h1"
      "\<And>z. get_fwd h1 z i = (if z = ca n then Some (tgt i bs) else get_fwd h z i)"
      "\<And>z. get_span h1 z i = get_span h z i" by blast
  have f1: "get_fwd h1 (ca y) i = Some (tgt i bs)" using h1(3) y by simp
  from set_fwd_ex [OF f1, of "Some (ca n)"] obtain h2 where
    h2: "set_fwd (ca y) i (Some (ca n)) h1 = Some h2" "local_to i h1 h2"
      "\<And>z. get_fwd h2 z i = (if z = ca y then Some (Some (ca n)) else get_fwd h1 z i)"
      "\<And>z. get_span h2 z i = get_span h1 z i" by blast
  from node holds_get_span obtain p0 where p0: "get_span h (ca n) i = Some p0" by blast
  then have p2: "get_span h2 (ca n) i = Some p0" using h1(4) h2(4) by simp
  from set_span_ex [OF p2, of "of_nat ?d"] obtain h3 where
    h3: "set_span (ca n) i (of_nat ?d) h2 = Some h3" "local_to i h2 h3"
      "\<And>z. get_span h3 z i = (if z = ca n then Some (of_nat ?d) else get_span h2 z i)"
      "\<And>z. get_fwd h3 z i = get_fwd h2 z i" by blast
  have p3: "get_span h3 (ca y) i = Some (of_nat (length post + ?d))"
    using h1(4) h2(4) h3(3) y ne by simp
  from set_span_ex [OF p3, of "of_nat (length post + 1)"] obtain h4 where
    h4: "set_span (ca y) i (of_nat (length post + 1)) h3 = Some h4" "local_to i h3 h4"
      "\<And>z. get_span h4 z i = (if z = ca y then Some (of_nat (length post + 1)) else get_span h3 z i)"
      "\<And>z. get_fwd h4 z i = get_fwd h3 z i" by blast
  have c1: "(ucast (of_nat (length post + ?d) :: u32) :: u64) = of_nat (length post + ?d)"
    using len d by (intro ucast_of_nat_u32) simp
  have "of_nat ?R + of_nat (length post + ?d) + 1 - of_nat ?N = (of_nat ?d :: u64)"
    by (simp add: algebra_simps)
  moreover have "(ucast (of_nat ?d :: u64) :: u32) = of_nat ?d"
    using len d by (intro ucast_sum) simp
  ultimately have e1: "(ucast (of_nat ?R + of_nat (length post + ?d) + 1 - of_nat ?N :: u64) :: u32) = of_nat ?d"
    by simp
  have "of_nat ?N - of_nat ?R = (of_nat (length post + 1) :: u64)"
    by (simp add: algebra_simps)
  moreover have "(ucast (of_nat (length post + 1) :: u64) :: u32) = of_nat (length post + 1)"
    using len by (intro ucast_sum) simp
  ultimately have e2: "(ucast (of_nat ?N - of_nat ?R :: u64) :: u32) = of_nat (length post + 1)"
    by simp
  have "link_level ups (ca n) (of_nat ?N) i h = Some h4"
    unfolding link_level_def
    using ups y h1(1) h2(1) h3(1) h4(1) by (simp only: nth_opt_def if_True prod.case bind.bind_lunit Let_def c1 e1 e2)
  moreover have "local_to i h h4" using h1(2) h2(2) h3(2) h4(2) by (blast intro: local_to_trans)
  moreover have "seg h4 i (pre @ y # post @ n # bs) []"
  proof -
    have o: "get_fwd h4 z i = get_fwd h z i \<and> get_span h4 z i = get_span h z i" if "z \<noteq> ca y" "z \<noteq> ca n" for z
      using that h1(3,4) h2(3,4) h3(3,4) h4(3,4) by simp
    have ne': "ca c \<noteq> ca y" "ca c \<noteq> ca n" if "c \<in> set pre \<union> set bs" for c
      using dist imageI [OF that, of ca] by auto
    have "seg h4 i pre [y]" using s(1) by (subst seg_cong [of _ h4 i h]) (simp_all add: o ne')
    moreover have "seg h4 i bs []" using s(3) by (subst seg_cong [of _ h4 i h]) (simp_all add: o ne')
    moreover have "lnk h4 i y (post @ n # bs)"
      using seg(3) node(2) h4(3,4) h3(4) h2(3) by (simp add: lnk_def)
    moreover have "lnk h4 i n bs"
      using ne h1(3) h2(3) h3(3,4) h4(3,4) by (simp add: lnk_def)
    ultimately show ?thesis using seg(2,3) node(2) seg_at [of i y post h4 pre "n # bs"] by simp
  qed
  ultimately show ?thesis by blast
qed

lemma widen_level_seg:
  assumes seg: "seg h i (pre @ y # post @ bs) []" "i < cl y" "\<forall>c\<in>set post. cl c \<le> i"
    and ups: "i < length ups" "ups ! i = (ca y, r)"
    and node: "cl n \<le> i"
    and dist: "distinct (map ca (pre @ y # post @ bs))"
  shows "\<exists>h'. widen_level ups i h = Some h' \<and> local_to i h h' \<and> seg h' i (pre @ y # post @ n # bs) []"
proof -
  from seg have s: "seg h i pre [y]" "lnk h i y (post @ bs)" "seg h i bs []"
    using seg_at by blast+
  then have y: "get_fwd h (ca y) i = Some (tgt i bs)"
      "get_span h (ca y) i = Some (of_nat (length post + dist i bs))"
    using seg(2,3) by (auto simp: lnk_def)
  from set_span_ex [OF y(2), of "of_nat (length post + dist i bs) + 1"] obtain h1 where
    h1: "set_span (ca y) i (of_nat (length post + dist i bs) + 1) h = Some h1" "local_to i h h1"
      "\<And>z. get_span h1 z i = (if z = ca y then Some (of_nat (length post + dist i bs) + 1) else get_span h z i)"
      "\<And>z. get_fwd h1 z i = get_fwd h z i" by blast
  have ne: "ca c \<noteq> ca y" if "c \<in> set pre \<union> set bs" for c
    using dist imageI [OF that, of ca] by auto
  have "widen_level ups i h = Some h1"
    using ups y(2) h1(1) by (simp only: widen_level_def nth_opt_def if_True prod.case bind.bind_lunit)
  moreover have "seg h1 i (pre @ y # post @ n # bs) []"
  proof -
    have "seg h1 i pre [y]" using s(1) by (subst seg_cong [of _ h1 i h]) (simp_all add: h1 ne)
    moreover have "seg h1 i bs []" using s(3) by (subst seg_cong [of _ h1 i h]) (simp_all add: h1 ne)
    moreover have "lnk h1 i y (post @ n # bs)"
      using seg(3) node y h1(3,4) by (simp add: lnk_def)
    ultimately show ?thesis using seg(2,3) node seg_at [of i y post h1 pre "n # bs"] by (simp add: lnk_def [of h1 i n])
  qed
  ultimately show ?thesis using h1(2) by blast
qed

lemma unlink_level_seg:
  assumes seg: "seg h i (pre @ y # post @ x # bs) []" "i < cl y" "\<forall>c\<in>set post. cl c \<le> i"
    and ups: "i < length ups" "ups ! i = ca y"
    and dist: "distinct (map ca (pre @ y # post @ x # bs))"
  shows "\<exists>h'. unlink_level ups (ca x) i h = Some h' \<and> local_to i h h' \<and> seg h' i (pre @ y # post @ bs) []"
proof -
  from seg seg_at [of i y post h pre "x # bs"]
  have s: "seg h i pre [y]" "lnk h i y (post @ x # bs)" "lnk h i x bs" "seg h i bs []" by auto
  have ne: "ca c \<noteq> ca y" "ca c \<noteq> ca x" if "c \<in> set pre \<union> set bs" for c
    using dist imageI [OF that, of ca] by auto
  define v :: u32 where "v = of_nat (length post + dist i bs)"
  from s(2) seg(2,3) have y: "get_fwd h (ca y) i = Some (tgt i (x # bs))"
      "get_span h (ca y) i = Some (of_nat (length post + dist i (x # bs)))"
    by (auto simp: lnk_def)
  from set_span_ex [OF y(2), of v] obtain h1 where
    h1: "set_span (ca y) i v h = Some h1" "local_to i h h1"
      "\<And>z. get_span h1 z i = (if z = ca y then Some v else get_span h z i)"
      "\<And>z. get_fwd h1 z i = get_fwd h z i" by blast
  have "\<exists>h'. unlink_level ups (ca x) i h = Some h' \<and> local_to i h h'
      \<and> (\<forall>z. get_span h' z i = (if z = ca y then Some v else get_span h z i))
      \<and> (\<forall>z. get_fwd h' z i = (if z = ca y then Some (tgt i bs) else get_fwd h z i))"
  proof (cases "i < cl x")
    case True
    with s(3) have x: "get_fwd h (ca x) i = Some (tgt i bs)" "get_span h (ca x) i = Some (of_nat (dist i bs))"
      by (auto simp: lnk_def)
    have "get_fwd h1 (ca y) i = Some (Some (ca x))" using h1(4) y(1) True by simp
    from set_fwd_ex [OF this, of "tgt i bs"] obtain h2 where
      h2: "set_fwd (ca y) i (tgt i bs) h1 = Some h2" "local_to i h1 h2"
        "\<And>z. get_fwd h2 z i = (if z = ca y then Some (tgt i bs) else get_fwd h1 z i)"
        "\<And>z. get_span h2 z i = get_span h1 z i" by blast
    have e: "(of_nat (length post + 1) + (of_nat (dist i bs) - 1) :: u32) = v" by (simp add: v_def)
    have "unlink_level ups (ca x) i h = Some h2"
      using ups y x True h1(1,4) h2(1) e by (simp add: unlink_level_def nth_opt_def)
    then show ?thesis using h1 h2 by (auto intro: local_to_trans)
  next
    case False
    have "tgt i bs \<noteq> Some (ca x)" using ne by (auto dest!: tgt_Some)
    moreover have e: "(of_nat (length post + Suc (dist i bs)) - 1 :: u32) = v" by (simp add: v_def)
    ultimately have "unlink_level ups (ca x) i h = Some h1"
      using ups y False h1(1) by (simp add: unlink_level_def nth_opt_def)
    then show ?thesis using h1 y(1) False by auto
  qed
  then obtain h' where h': "unlink_level ups (ca x) i h = Some h'" "local_to i h h'"
      "\<And>z. get_span h' z i = (if z = ca y then Some v else get_span h z i)"
      "\<And>z. get_fwd h' z i = (if z = ca y then Some (tgt i bs) else get_fwd h z i)" by blast
  have "seg h' i (pre @ y # post @ bs) []"
  proof -
    have "seg h' i pre [y]" using s(1) by (subst seg_cong [of _ h' i h]) (simp_all add: h' ne)
    moreover have "seg h' i bs []" using s(4) by (subst seg_cong [of _ h' i h]) (simp_all add: h' ne)
    moreover have "lnk h' i y (post @ bs)"
      using seg(3) h'(3,4) by (simp add: lnk_def v_def)
    ultimately show ?thesis using seg(2,3) seg_at [of i y post h' pre bs] by simp
  qed
  with h' show ?thesis by blast
qed

subsection \<open>The representation invariant\<close>

text \<open>A span is 32 bits wide: the tail span of a list of \<open>n\<close> nodes is \<open>n + 1\<close>, so that the
  structure is exact up to \<open>2^32 - 2\<close> nodes.\<close>

abbreviation (input) sl_max :: nat where "sl_max \<equiv> 4294967294"

definition sl_rep :: "skiplist \<Rightarrow> cell list \<Rightarrow> bool" where
  "sl_rep s xs \<longleftrightarrow>
     (\<forall>c\<in>set (hcell # xs). holds (sl_heap s) c) \<and>
     distinct (map ca (hcell # xs)) \<and>
     dom (sl_heap s) = ca ` set (hcell # xs) \<and>
     (\<forall>c\<in>set (hcell # xs). ca c < sl_next s) \<and>
     1 \<le> sl_level s \<and> sl_level s \<le> kMaxSkipLevel \<and>
     (\<forall>c\<in>set xs. 1 \<le> cl c \<and> cl c \<le> sl_level s) \<and>
     (1 < sl_level s \<longrightarrow> (\<exists>c\<in>set xs. cl c = sl_level s)) \<and>
     (\<forall>i < sl_level s. seg (sl_heap s) i (hcell # xs) []) \<and>
     (\<forall>i. sl_level s \<le> i \<and> i < kMaxSkipLevel \<longrightarrow> get_fwd (sl_heap s) header i = Some None) \<and>
     sorted_wrt (<) (map ck xs) \<and>
     sl_length s = of_nat (length xs) \<and> length xs \<le> sl_max"

lemma sl_repD:
  assumes "sl_rep s xs"
  shows "holds (sl_heap s) hcell" "\<And>c. c \<in> set xs \<Longrightarrow> holds (sl_heap s) c"
    "distinct (map ca (hcell # xs))" "dom (sl_heap s) = ca ` set (hcell # xs)"
    "\<And>c. c \<in> set (hcell # xs) \<Longrightarrow> ca c < sl_next s"
    "1 \<le> sl_level s" "sl_level s \<le> 32"
    "\<And>c. c \<in> set xs \<Longrightarrow> 1 \<le> cl c" "\<And>c. c \<in> set xs \<Longrightarrow> cl c \<le> sl_level s"
    "1 < sl_level s \<Longrightarrow> \<exists>c\<in>set xs. cl c = sl_level s"
    "\<And>i. i < sl_level s \<Longrightarrow> seg (sl_heap s) i (hcell # xs) []"
    "\<And>i. sl_level s \<le> i \<Longrightarrow> i < 32 \<Longrightarrow> get_fwd (sl_heap s) header i = Some None"
    "sorted_wrt (<) (map ck xs)" "sl_length s = of_nat (length xs)" "length xs \<le> sl_max"
  using assms by (auto simp: sl_rep_def)

lemma sl_rep_new: "sl_rep SkipList_new []"
proof -
  have "holds (sl_heap SkipList_new) hcell"
    by (simp add: holds_def shape_def SkipList_new_def SkipNodeCreate_def hcell_def)
  moreover have "seg (sl_heap SkipList_new) i [hcell] []" for i
    by (simp add: lnk_def get_fwd_def get_span_def SkipList_new_def SkipNodeCreate_def)
  moreover have "get_fwd (sl_heap SkipList_new) header i = Some None" if "i < 32" for i
    using that by (simp add: get_fwd_def SkipList_new_def SkipNodeCreate_def)
  ultimately show ?thesis
    unfolding sl_rep_def by (simp add: SkipList_new_def)
qed

definition first_addr :: "cell list \<Rightarrow> nat option" where
  "first_addr cs = (case cs of [] \<Rightarrow> None | c # _ \<Rightarrow> Some (ca c))"

lemma tgt_0: "\<forall>c\<in>set cs. 1 \<le> cl c \<Longrightarrow> tgt 0 cs = first_addr cs"
  by (cases cs) (auto simp: first_addr_def)

lemma last_at_0:
  assumes "last_at 0 (x # as) pre y post" "\<forall>c\<in>set as. 1 \<le> cl c"
  shows "post = [] \<and> length pre = length as \<and> y = last (x # as)"
proof -
  from assms(1) have s: "x # as = pre @ y # post" "\<forall>c\<in>set post. cl c = 0" by (auto simp: last_at_def)
  have "set post \<subseteq> set as" using s(1) by (cases pre) auto
  with s(2) assms(2) have "post = []" by (cases post) auto
  have "length (x # as) = length (pre @ y # post)" "last (x # as) = last (pre @ y # post)"
    by (simp_all only: s(1))
  with \<open>post = []\<close> show ?thesis by simp
qed

lemma rep_last_fwd:
  assumes "sl_rep s (as @ bs)"
  shows "get_fwd (sl_heap s) (ca (last (hcell # as))) 0 = Some (first_addr bs)"
proof -
  have hs: "hcell # as @ bs = butlast (hcell # as) @ last (hcell # as) # bs"
    by (metis append_Cons append_assoc append_butlast_last_id list.distinct(1) append_Nil)
  have "seg (sl_heap s) 0 (hcell # as @ bs) []" using sl_repD(6,11) [OF assms] by simp
  then have "lnk (sl_heap s) 0 (last (hcell # as)) bs" unfolding hs by simp
  moreover have "0 < cl (last (hcell # as))"
    using sl_repD(8) [OF assms, of "last as"] by (cases "as = []") auto
  moreover have "tgt 0 bs = first_addr bs" using sl_repD(8) [OF assms] by (intro tgt_0) simp
  ultimately show ?thesis by (simp add: lnk_def)
qed

text \<open>\<open>upd\<close>: what the arrays \<open>update\<close> and \<open>rank\<close> contain for the levels below \<open>L\<close>.\<close>

definition upd :: "(nat \<times> u64) list \<Rightarrow> nat \<Rightarrow> cell list \<Rightarrow> bool" where
  "upd ups L as \<longleftrightarrow> length ups = L \<and>
     (\<forall>i<L. \<exists>pre y post. last_at i (hcell # as) pre y post \<and> ups ! i = (ca y, of_nat (length pre)))"

lemma updE:
  assumes "upd ups L as" "i < L"
  obtains pre y post where "hcell # as = pre @ y # post" "i < cl y" "\<forall>c\<in>set post. cl c \<le> i"
    "ups ! i = (ca y, of_nat (length pre))"
  using assms unfolding upd_def last_at_def by blast

lemma rep_search:
  assumes rep: "sl_rep s (as @ bs)"
    and p: "\<And>nd. p nd = P (nkey nd)" "\<forall>c\<in>set as. P (ck c)" "\<forall>c\<in>set bs. \<not> P (ck c)"
  obtains ups where
    "search_rank (sl_heap s) p (sl_level s) header 0 = Some ups"
    "search_update (sl_heap s) p (sl_level s) header = Some (map fst ups)"
    "search (sl_heap s) p (sl_level s) header = Some (fst (ups ! 0))"
    "search_r (sl_heap s) p (sl_level s) header 0 = Some (ups ! 0)"
    "upd ups (sl_level s) as" "0 < length ups"
    "ups ! 0 = (ca (last (hcell # as)), of_nat (length as))"
proof -
  have g: "good (sl_heap s) p c (P (ck c))" if "c \<in> set (as @ bs)" for c
    using holdsD [OF sl_repD(2) [OF rep that]] by (auto simp: good_def p(1))
  have "\<exists>ups. search_rank (sl_heap s) p (sl_level s) (ca hcell) 0 = Some ups
      \<and> search_update (sl_heap s) p (sl_level s) (ca hcell) = Some (map fst ups)
      \<and> length ups = sl_level s
      \<and> (\<forall>i < sl_level s. \<exists>pre y post. last_at i (hcell # as) pre y post \<and> ups ! i = (ca y, 0 + of_nat (length pre)))"
  proof (rule search_levels [where bs = bs])
    show "\<forall>c\<in>set as. good (sl_heap s) p c True" using g p(2) by fastforce
    show "\<forall>c\<in>set bs. good (sl_heap s) p c False" using g p(3) by fastforce
  qed (use sl_repD(7,11,15) [OF rep] in auto)
  then obtain ups where ups:
    "search_rank (sl_heap s) p (sl_level s) header 0 = Some ups"
    "search_update (sl_heap s) p (sl_level s) header = Some (map fst ups)"
    "length ups = sl_level s"
    "\<forall>i < sl_level s. \<exists>pre y post. last_at i (hcell # as) pre y post \<and> ups ! i = (ca y, of_nat (length pre))"
    by auto
  have l: "0 < sl_level s" using sl_repD(6) [OF rep] by simp
  with ups(4) obtain pre y post where y: "last_at 0 (hcell # as) pre y post" "ups ! 0 = (ca y, of_nat (length pre))"
    by blast
  have "\<forall>c\<in>set as. 1 \<le> cl c" using sl_repD(8) [OF rep] by simp
  from last_at_0 [OF y(1) this] y(2)
  have "ups ! 0 = (ca (last (hcell # as)), of_nat (length as))" by simp
  moreover have "search (sl_heap s) p (sl_level s) header = Some (fst (ups ! 0))"
    using search_eq [OF ups(2)] l ups(3) by simp
  moreover have "search_r (sl_heap s) p (sl_level s) header 0 = Some (ups ! 0)"
    using search_r_eq [OF ups(1)] l by simp
  ultimately show thesis using ups that l unfolding upd_def by force
qed

lemmas rep_search_key = rep_search [where p = "\<lambda>nd. Less nd sc m" and P = "\<lambda>k. k < (sc, m)" for sc m, OF _ Less_key]

subsection \<open>InsertNew\<close>

lemma upd_raise:
  assumes "upd ups L as" "\<forall>c\<in>set as. cl c \<le> L" "nl \<le> 32"
  shows "upd (if nl > L then ups @ replicate (nl - L) (header, 0) else ups) (max L nl) as"
proof (cases "nl > L")
  case True
  have "\<exists>pre y post. last_at i (hcell # as) pre y post
      \<and> (ups @ replicate (nl - L) (header, 0)) ! i = (ca y, of_nat (length pre))" if "i < nl" for i
  proof (cases "i < L")
    case True
    then show ?thesis using assms(1) by (simp add: upd_def nth_append)
  next
    case False
    then have "last_at i (hcell # as) [] hcell as" using that assms(2,3) by (intro last_at_low) auto
    with False that assms(1) show ?thesis
      by (intro exI [of _ "[]"] exI [of _ hcell] exI [of _ as]) (simp add: upd_def nth_append)
  qed
  with True assms(1) show ?thesis by (auto simp: upd_def max_def)
next
  case False
  with assms(1) show ?thesis by (simp add: max_def)
qed

lemma raise_levels_rep:
  assumes rep: "sl_rep s xs" and nl: "L < nl" "nl \<le> 32" and L: "L = sl_level s"
  shows "\<exists>h. for_levels (raise_level (sl_length s)) [L..<nl] (sl_heap s) = Some h
     \<and> shape h = shape (sl_heap s) \<and> (\<forall>i<nl. seg h i (hcell # xs) [])
     \<and> (\<forall>i. nl \<le> i \<and> i < 32 \<longrightarrow> get_fwd h header i = Some None)"
proof -
  let ?h = "sl_heap s"
  have step: "\<exists>h1. raise_level (sl_length s) i h0 = Some h1 \<and> local_to i h0 h1 \<and> seg h1 i (hcell # xs) []"
    if i: "i \<in> set [L..<nl]" and a: "agree i ?h h0" and sh: "shape h0 = shape ?h" for i h0
  proof -
    have hd: "holds h0 hcell" using sl_repD(1) [OF rep] sh holds_shape by blast
    then obtain p where p: "get_span h0 header i = Some p"
      using holds_get_span [of h0 hcell i] i nl by auto
    from set_span_ex [OF p, of "of_nat (length xs + 1)"] obtain h1 where
      h1: "set_span header i (of_nat (length xs + 1)) h0 = Some h1" "local_to i h0 h1"
        "\<And>z. get_span h1 z i = (if z = header then Some (of_nat (length xs + 1)) else get_span h0 z i)"
        "\<And>z. get_fwd h1 z i = get_fwd h0 z i" by blast
    have "ucast (sl_length s + 1) = (of_nat (length xs + 1) :: u32)"
    proof -
      have "length xs + 1 < 4294967296" using sl_repD(15) [OF rep] by simp
      moreover have "sl_length s + 1 = of_nat (length xs + 1)" using sl_repD(14) [OF rep] by simp
      ultimately show ?thesis by (simp only: ucast_sum)
    qed
    then have "raise_level (sl_length s) i h0 = Some h1" using h1(1) by (simp add: raise_level_def)
    moreover have low: "\<forall>c\<in>set xs. cl c \<le> i"
      using sl_repD(9) [OF rep] i L by fastforce
    moreover have "get_fwd h1 header i = Some None"
      using sl_repD(12) [OF rep, of i] i nl L a h1(4) by (simp add: agree_def)
    ultimately show ?thesis using h1(2,3) by (auto simp: lnk_def)
  qed
  obtain h where h: "for_levels (raise_level (sl_length s)) [L..<nl] ?h = Some h" "shape h = shape ?h"
    "\<And>i. i \<in> set [L..<nl] \<Longrightarrow> seg h i (hcell # xs) []" "\<And>j. j \<notin> set [L..<nl] \<Longrightarrow> agree j ?h h"
    using for_levels_seg [OF distinct_upt step] by blast
  have "seg h i (hcell # xs) []" if "i < nl" for i
  proof (cases "i < L")
    case True
    then have "agree i ?h h" using h(4) by simp
    with True show ?thesis using sl_repD(11) [OF rep, of i] L by (blast intro: seg_agree)
  next
    case False
    with that h(3) show ?thesis by simp
  qed
  moreover have "get_fwd h header i = Some None" if "nl \<le> i" "i < 32" for i
  proof -
    have "agree i ?h h" using h(4) that by simp
    then show ?thesis using sl_repD(12) [OF rep, of i] that nl L by (simp add: agree_def)
  qed
  ultimately show ?thesis using h by blast
qed

lemma link_widen_rep:
  assumes upd: "upd ups (max old nl) as" and seg: "\<forall>i<max old nl. seg h i (hcell # as @ bs) []"
    and node: "holds h n" "cl n = nl" "\<forall>c\<in>set (hcell # as). holds h c"
    and dist: "ca n \<notin> ca ` set (hcell # as @ bs)" "distinct (map ca (hcell # as @ bs))"
    and len: "length (as @ bs) < 4294967294"
  shows "\<exists>h3 h4. for_levels (link_level ups (ca n) (of_nat (length as) + 1)) [0..<nl] h = Some h3
     \<and> for_levels (widen_level ups) [nl..<old] h3 = Some h4 \<and> shape h4 = shape h
     \<and> (\<forall>i<max old nl. seg h4 i (hcell # as @ n # bs) [])
     \<and> (\<forall>i. max old nl \<le> i \<longrightarrow> agree i h h4)"
proof -
  let ?Q = "\<lambda>i h. seg h i (hcell # as @ n # bs) []"
  have step1: "\<exists>h1. link_level ups (ca n) (of_nat (length as) + 1) i h0 = Some h1 \<and> local_to i h0 h1 \<and> ?Q i h1"
    if i: "i \<in> set [0..<nl]" and a: "agree i h h0" and sh: "shape h0 = shape h" for i h0
  proof -
    from i have il: "i < max old nl" by simp
    obtain pre y post where y: "hcell # as = pre @ y # post" "i < cl y" "\<forall>c\<in>set post. cl c \<le> i"
      "ups ! i = (ca y, of_nat (length pre))" using updE [OF upd il] .
    have s: "seg h0 i (pre @ y # post @ bs) []"
      using seg_agree [OF _ a] seg il y(1) by (metis append_Cons append_assoc)
    have e: "hcell # as @ cs = pre @ y # post @ cs" for cs using y(1) by (metis append_Cons append_assoc)
    have hy: "holds h0 y" using y(1) node(3) sh holds_shape by (metis in_set_conv_decomp)
    have hn: "holds h0 n" using node(1) sh holds_shape by blast
    have "length (hcell # as) = length (pre @ y # post)" by (simp only: y(1))
    then have la: "(of_nat (length as) + 1 :: u64) = of_nat (length (pre @ y # post))" by simp
    have "length (hcell # as @ bs) < 4294967295" using len by simp
    then have ll: "length (pre @ y # post @ bs) < 4294967295" by (simp only: e)
    have iu: "i < length ups" "i < cl n" using upd il i node(2) by (simp_all add: upd_def)
    show ?thesis unfolding e la
      by (rule link_level_seg [OF s y(2,3) iu(1) y(4) hn iu(2) hy dist [unfolded e] ll])
  qed
  obtain h3 where h3: "for_levels (link_level ups (ca n) (of_nat (length as) + 1)) [0..<nl] h = Some h3"
    "shape h3 = shape h" "\<And>i. i \<in> set [0..<nl] \<Longrightarrow> ?Q i h3" "\<And>j. j \<notin> set [0..<nl] \<Longrightarrow> agree j h h3"
    using for_levels_seg [OF distinct_upt step1] by blast
  have step2: "\<exists>h1. widen_level ups i h0 = Some h1 \<and> local_to i h0 h1 \<and> ?Q i h1"
    if i: "i \<in> set [nl..<old]" and a: "agree i h3 h0" and sh: "shape h0 = shape h3" for i h0
  proof -
    from i have il: "i < max old nl" by simp
    obtain pre y post where y: "hcell # as = pre @ y # post" "i < cl y" "\<forall>c\<in>set post. cl c \<le> i"
      "ups ! i = (ca y, of_nat (length pre))" using updE [OF upd il] .
    have e: "hcell # as @ cs = pre @ y # post @ cs" for cs using y(1) by (metis append_Cons append_assoc)
    have "agree i h h0" using h3(4) [of i] a i by (auto intro: agree_trans)
    then have s: "seg h0 i (pre @ y # post @ bs) []"
      using seg_agree seg il unfolding e by blast
    have "i < length ups" "cl n \<le> i" using upd il node(2) i by (simp_all add: upd_def)
    from widen_level_seg [OF s y(2,3) this(1) y(4) this(2)] dist(2)
    show ?thesis unfolding e by blast
  qed
  obtain h4 where h4: "for_levels (widen_level ups) [nl..<old] h3 = Some h4" "shape h4 = shape h3"
    "\<And>i. i \<in> set [nl..<old] \<Longrightarrow> ?Q i h4" "\<And>j. j \<notin> set [nl..<old] \<Longrightarrow> agree j h3 h4"
    using for_levels_seg [OF distinct_upt step2] by blast
  have "?Q i h4" if "i < max old nl" for i
  proof (cases "i < nl")
    case True
    then have "agree i h3 h4" using h4(4) by simp
    with True h3(3) [of i] show ?thesis using seg_agree by (metis atLeastLessThan_iff le0 set_upt)
  next
    case False
    with that h4(3) show ?thesis by simp
  qed
  moreover have "agree i h h4" if "max old nl \<le> i" for i
    using h3(4) [of i] h4(4) [of i] that by (auto intro: agree_trans)
  ultimately show ?thesis using h3 h4 by (intro exI [of _ h3] exI [of _ h4]) simp
qed

lemma seg_fun_upd: "seg h i cs t \<Longrightarrow> a \<notin> ca ` set cs \<Longrightarrow> seg (h(a := v)) i cs t"
  by (subst seg_cong [of _ _ i h]) (auto simp: get_fwd_def get_span_def)

lemma get_fwd_upd [simp]: "z \<noteq> a \<Longrightarrow> get_fwd (h(a := v)) z i = get_fwd h z i"
  by (simp add: get_fwd_def)

lemma holds_upd: "holds h c \<Longrightarrow> ca c \<noteq> a \<Longrightarrow> holds (h(a := v)) c"
  by (simp add: holds_def shape_def)

lemma holds_create: "holds (h(a \<mapsto> SkipNodeCreate nl sc m)) (Cell a (sc, m) nl)"
  by (simp add: holds_def shape_def SkipNodeCreate_def)

theorem InsertNew_at_rep:
  assumes rep: "sl_rep s (as @ bs)" and nl: "1 \<le> nl" "nl \<le> 32"
    and key: "\<forall>c\<in>set as. ck c < (sc, m)" "\<forall>c\<in>set bs. (sc, m) < ck c"
    and len: "length (as @ bs) < sl_max"
  shows "\<exists>s'. InsertNew_at nl sc m s = Some s'
     \<and> sl_rep s' (as @ Cell (sl_next s) (sc, m) nl # bs)"
proof -
  let ?n = "Cell (sl_next s) (sc, m) nl" and ?old = "sl_level s" and ?h = "sl_heap s"
  have nkb: "\<forall>c\<in>set bs. \<not> ck c < (sc, m)" using key(2) by auto
  obtain ups where ups: "search_rank ?h (\<lambda>nd. Less nd sc m) ?old header 0 = Some ups"
      "upd ups ?old as" "0 < length ups" "ups ! 0 = (ca (last (hcell # as)), of_nat (length as))"
    by (rule rep_search_key [OF rep key(1) nkb])
  define ups' where "ups' = (if nl > ?old then ups @ replicate (nl - ?old) (header, 0) else ups)"
  have upd: "upd ups' (max ?old nl) as"
    unfolding ups'_def using sl_repD(9) [OF rep] nl(2) by (intro upd_raise [OF ups(2)]) auto
  have "\<exists>h1. (if nl > ?old then for_levels (raise_level (sl_length s)) [?old..<nl] ?h else Some ?h) = Some h1
     \<and> shape h1 = shape ?h \<and> (\<forall>i<max ?old nl. seg h1 i (hcell # as @ bs) [])
     \<and> (\<forall>i. max ?old nl \<le> i \<and> i < 32 \<longrightarrow> get_fwd h1 header i = Some None)"
  proof (cases "nl > ?old")
    case True
    with raise_levels_rep [OF rep True nl(2) refl] show ?thesis by (simp add: max_def)
  next
    case False
    then show ?thesis using sl_repD(11,12) [OF rep] by (auto simp: max_def)
  qed
  then obtain h1 where h1:
    "(if nl > ?old then for_levels (raise_level (sl_length s)) [?old..<nl] ?h else Some ?h) = Some h1"
    "shape h1 = shape ?h" "\<forall>i<max ?old nl. seg h1 i (hcell # as @ bs) []"
    "\<forall>i. max ?old nl \<le> i \<and> i < 32 \<longrightarrow> get_fwd h1 header i = Some None" by blast
  define h2 where "h2 = h1(sl_next s \<mapsto> SkipNodeCreate nl sc m)"
  have fresh: "c \<in> set (hcell # as @ bs) \<Longrightarrow> ca c \<noteq> sl_next s" for c
    using sl_repD(5) [OF rep] by fastforce
  then have freshn: "sl_next s \<notin> ca ` set (hcell # as @ bs)" by (metis imageE)
  have hold2: "holds h2 c" if "c \<in> set (hcell # as @ bs)" for c
    unfolding h2_def using sl_repD(1,2) [OF rep] that fresh holds_shape [OF h1(2)]
    by (intro holds_upd) auto
  have holdn: "holds h2 ?n" unfolding h2_def by (rule holds_create)
  have seg2: "\<forall>i<max ?old nl. seg h2 i (hcell # as @ bs) []"
  proof (intro allI impI)
    fix i assume "i < max ?old nl"
    with h1(3) have "seg h1 i (hcell # as @ bs) []" by blast
    then show "seg h2 i (hcell # as @ bs) []" using freshn unfolding h2_def by (rule seg_fun_upd)
  qed
  obtain h3 h4 where h4:
    "for_levels (link_level ups' (sl_next s) (of_nat (length as) + 1)) [0..<nl] h2 = Some h3"
    "for_levels (widen_level ups') [nl..<?old] h3 = Some h4" "shape h4 = shape h2"
    "\<forall>i<max ?old nl. seg h4 i (hcell # as @ ?n # bs) []" "\<forall>i. max ?old nl \<le> i \<longrightarrow> agree i h2 h4"
  proof -
    have "cl ?n = nl" "\<forall>c\<in>set (hcell # as). holds h2 c" "ca ?n \<notin> ca ` set (hcell # as @ bs)"
      using hold2 freshn by auto
    from link_widen_rep [OF upd seg2 holdn this sl_repD(3) [OF rep] len] that show thesis
      unfolding cell.sel by blast
  qed
  let ?s = "s\<lparr>sl_heap := h4, sl_next := sl_next s + 1, sl_level := max ?old nl, sl_length := sl_length s + 1\<rparr>"
  have "InsertNew_at nl sc m s = Some ?s"
    using ups(1,3,4) h1(1) h4(1,2)
    by (simp add: InsertNew_at_def nth_opt_def Let_def flip: ups'_def h2_def)
  moreover have "sl_rep ?s (as @ ?n # bs)"
    unfolding sl_rep_def
  proof (intro conjI)
    show "\<forall>c\<in>set (hcell # as @ ?n # bs). holds (sl_heap ?s) c"
      using hold2 holdn holds_shape [OF h4(3)] by auto
    show "distinct (map ca (hcell # as @ ?n # bs))" using sl_repD(3) [OF rep] fresh by force
    have "dom h4 = dom h2" by (rule shape_dom [OF h4(3)])
    also have "\<dots> = insert (sl_next s) (dom h1)" by (simp add: h2_def)
    also have "dom h1 = dom ?h" by (rule shape_dom [OF h1(2)])
    finally show "dom (sl_heap ?s) = ca ` set (hcell # as @ ?n # bs)" using sl_repD(4) [OF rep] by auto
    show "\<forall>c\<in>set (hcell # as @ ?n # bs). ca c < sl_next ?s"
      using sl_repD(5) [OF rep] by (auto simp: less_Suc_eq)
    show "1 \<le> sl_level ?s" "sl_level ?s \<le> 32" using sl_repD(6,7) [OF rep] nl by auto
    show "\<forall>c\<in>set (as @ ?n # bs). 1 \<le> cl c \<and> cl c \<le> sl_level ?s"
      using sl_repD(8,9) [OF rep] nl by (auto simp: le_max_iff_disj)
    show "1 < sl_level ?s \<longrightarrow> (\<exists>c\<in>set (as @ ?n # bs). cl c = sl_level ?s)"
      using sl_repD(10) [OF rep] by (auto simp: max_def)
    show "\<forall>i < sl_level ?s. seg (sl_heap ?s) i (hcell # as @ ?n # bs) []" using h4(4) by simp
    show "\<forall>i. sl_level ?s \<le> i \<and> i < 32 \<longrightarrow> get_fwd (sl_heap ?s) header i = Some None"
      using h1(4) h4(5) fresh [of hcell] by (auto simp: agree_def h2_def)
    show "sorted_wrt (<) (map ck (as @ ?n # bs))"
      using sl_repD(13) [OF rep] key by (auto simp: sorted_wrt_append)
    show "sl_length ?s = of_nat (length (as @ ?n # bs))" using sl_repD(14) [OF rep] by simp
    show "length (as @ ?n # bs) \<le> sl_max" using len by simp
  qed
  ultimately show ?thesis by blast
qed

subsection \<open>Delete\<close>

lemma shrink_level_ok:
  assumes "\<forall>i<l. \<exists>f. get_fwd h header i = Some f" "1 \<le> l"
  shows "\<exists>l'. shrink_level h l = Some l' \<and> 1 \<le> l' \<and> l' \<le> l
     \<and> (\<forall>i. l' \<le> i \<and> i < l \<longrightarrow> get_fwd h header i = Some None)
     \<and> (1 < l' \<longrightarrow> get_fwd h header (l' - 1) \<noteq> Some None)"
  using assms
proof (induction l)
  case (Suc l)
  show ?case
  proof (cases "l = 0")
    case False
    from Suc.prems(1) obtain f where f: "get_fwd h header l = Some f" by blast
    show ?thesis
    proof (cases f)
      case None
      with f False Suc obtain l' where "shrink_level h l = Some l'" "1 \<le> l'" "l' \<le> l"
        "\<forall>i. l' \<le> i \<and> i < l \<longrightarrow> get_fwd h header i = Some None"
        "1 < l' \<longrightarrow> get_fwd h header (l' - 1) \<noteq> Some None" by auto
      with f None False show ?thesis by (auto simp: less_Suc_eq)
    next
      case (Some a)
      with f False show ?thesis by auto
    qed
  qed simp
qed simp

lemma unlink_rep:
  assumes upd: "upd ups L as" and seg: "\<forall>i<L. seg h i (hcell # as @ x # bs) []"
    and dist: "distinct (map ca (hcell # as @ x # bs))"
  obtains h' where "for_levels (unlink_level (map fst ups) (ca x)) [0..<L] h = Some h'" "shape h' = shape h"
    "\<And>i. i < L \<Longrightarrow> seg h' i (hcell # as @ bs) []" "\<And>j. L \<le> j \<Longrightarrow> agree j h h'"
proof -
  have step: "\<exists>h1. unlink_level (map fst ups) (ca x) i h0 = Some h1 \<and> local_to i h0 h1
      \<and> seg h1 i (hcell # as @ bs) []"
    if i: "i \<in> set [0..<L]" and a: "agree i h h0" and sh: "shape h0 = shape h" for i h0
  proof -
    from i have il: "i < L" by simp
    obtain pre y post where y: "hcell # as = pre @ y # post" "i < cl y" "\<forall>c\<in>set post. cl c \<le> i"
      "ups ! i = (ca y, of_nat (length pre))" using updE [OF upd il] .
    have e: "hcell # as @ cs = pre @ y # post @ cs" for cs using y(1) by (metis append_Cons append_assoc)
    have s: "seg h0 i (pre @ y # post @ x # bs) []" using seg_agree [OF _ a] seg il e by metis
    have u: "i < length (map fst ups)" "map fst ups ! i = ca y" using upd il y(4) by (simp_all add: upd_def)
    from unlink_level_seg [OF s y(2,3) u dist [unfolded e]] show ?thesis unfolding e .
  qed
  obtain h' where h': "for_levels (unlink_level (map fst ups) (ca x)) [0..<L] h = Some h'" "shape h' = shape h"
    "\<And>i. i \<in> set [0..<L] \<Longrightarrow> seg h' i (hcell # as @ bs) []" "\<And>j. j \<notin> set [0..<L] \<Longrightarrow> agree j h h'"
    using for_levels_seg [OF distinct_upt step] by blast
  show thesis by (rule that [OF h'(1,2)]) (use h'(3,4) in simp_all)
qed

theorem Delete_rep:
  assumes rep: "sl_rep s (as @ x # bs)" and x: "ck x = (sc, m)"
  shows "\<exists>s'. Delete sc m s = Some (True, s') \<and> sl_rep s' (as @ bs)"
proof -
  let ?L = "sl_level s" and ?h = "sl_heap s"
  have key: "\<forall>c\<in>set as. ck c < (sc, m)" "\<forall>c\<in>set (x # bs). \<not> ck c < (sc, m)"
    using sl_repD(13) [OF rep] x by (auto simp: sorted_wrt_append)
  obtain ups where ups: "search_update ?h (\<lambda>nd. Less nd sc m) ?L header = Some (map fst ups)"
      "upd ups ?L as" "0 < length ups" "ups ! 0 = (ca (last (hcell # as)), of_nat (length as))"
    by (rule rep_search_key [OF rep key])
  from unlink_rep [OF ups(2) _ sl_repD(3) [OF rep]] sl_repD(11) [OF rep]
  obtain h1 where h1: "for_levels (unlink_level (map fst ups) (ca x)) [0..<?L] ?h = Some h1"
    "shape h1 = shape ?h" "\<And>i. i < ?L \<Longrightarrow> seg h1 i (hcell # as @ bs) []"
    "\<And>j. ?L \<le> j \<Longrightarrow> agree j ?h h1" by blast
  define h2 where "h2 = h1(ca x := None)"
  have nex: "ca x \<notin> ca ` set (hcell # as @ bs)" using sl_repD(3) [OF rep] by auto
  then have ne: "ca c \<noteq> ca x" if "c \<in> set (hcell # as @ bs)" for c using that by (metis imageI)
  have hold2: "holds h2 c" if "c \<in> set (hcell # as @ bs)" for c
    unfolding h2_def using sl_repD(1,2) [OF rep] that ne holds_shape [OF h1(2)]
    by (intro holds_upd) auto
  have seg2: "seg h2 i (hcell # as @ bs) []" if "i < ?L" for i
    using h1(3) [OF that] nex unfolding h2_def by (rule seg_fun_upd)
  have "\<forall>i < ?L. \<exists>f. get_fwd h2 header i = Some f"
    using holds_get_fwd [of h2 hcell] hold2 [of hcell] sl_repD(7) [OF rep] by auto
  from shrink_level_ok [OF this sl_repD(6) [OF rep]] obtain l where
    l: "shrink_level h2 ?L = Some l" "1 \<le> l" "l \<le> ?L"
      "\<forall>i. l \<le> i \<and> i < ?L \<longrightarrow> get_fwd h2 header i = Some None"
      "1 < l \<longrightarrow> get_fwd h2 header (l - 1) \<noteq> Some None" by blast
  have hdr: "get_fwd h2 header i = Some (tgt i (as @ bs))" if "i < ?L" for i
    using seg2 [OF that] that sl_repD(7) [OF rep] by (simp add: lnk_def)
  have high: "get_fwd h2 header i = Some None" if "l \<le> i" "i < 32" for i
  proof (cases "i < ?L")
    case True
    with that l(4) show ?thesis by blast
  next
    case False
    then have "get_fwd h1 header i = get_fwd ?h header i" using h1(4) [of i] by (simp add: agree_def)
    then show ?thesis using sl_repD(12) [OF rep, of i] that False ne [of hcell] by (simp add: h2_def)
  qed
  have low: "cl c \<le> l" if "c \<in> set (as @ bs)" for c
  proof (rule ccontr)
    assume c: "\<not> cl c \<le> l"
    have "cl c \<le> ?L" using sl_repD(9) [OF rep, of c] that by auto
    with c l(4) hdr [of l] have "tgt l (as @ bs) = None" by simp
    with c that show False by (simp add: tgt_None)
  qed
  let ?s = "s\<lparr>sl_heap := h2, sl_level := l, sl_length := sl_length s - 1\<rparr>"
  from holdsD [OF sl_repD(2) [OF rep, of x]] obtain nd where nd: "?h (ca x) = Some nd" "nkey nd = (sc, m)"
    using x by auto
  have "get_fwd ?h (ca (last (hcell # as))) 0 = Some (Some (ca x))"
    using rep_last_fwd [OF rep] by (simp add: first_addr_def)
  then have "Delete sc m s = Some (True, ?s)"
    using ups(1,3,4) nd h1(1) l(1)
    by (simp add: Delete_def nth_opt_def Let_def flip: h2_def)
  moreover have "sl_rep ?s (as @ bs)"
    unfolding sl_rep_def
  proof (intro conjI)
    show "\<forall>c\<in>set (hcell # as @ bs). holds (sl_heap ?s) c" using hold2 by simp
    show "distinct (map ca (hcell # as @ bs))" using sl_repD(3) [OF rep] by simp
    have "dom h2 = dom h1 - {ca x}" by (simp add: h2_def)
    also have "dom h1 = dom ?h" by (rule shape_dom [OF h1(2)])
    also have "\<dots> = insert (ca x) (ca ` set (hcell # as @ bs))" using sl_repD(4) [OF rep] by auto
    finally show "dom (sl_heap ?s) = ca ` set (hcell # as @ bs)" using nex by auto
    show "\<forall>c\<in>set (hcell # as @ bs). ca c < sl_next ?s"
    proof
      fix c assume "c \<in> set (hcell # as @ bs)"
      then have "c \<in> set (hcell # as @ x # bs)" by auto
      with sl_repD(5) [OF rep] show "ca c < sl_next ?s" by simp
    qed
    show "1 \<le> sl_level ?s" "sl_level ?s \<le> 32" using sl_repD(7) [OF rep] l by auto
    show "\<forall>c\<in>set (as @ bs). 1 \<le> cl c \<and> cl c \<le> sl_level ?s"
      using sl_repD(8) [OF rep] low by auto
    show "1 < sl_level ?s \<longrightarrow> (\<exists>c\<in>set (as @ bs). cl c = sl_level ?s)"
    proof
      assume "1 < sl_level ?s"
      then have "1 < l" by simp
      with l(5) hdr [of "l - 1"] l(3) have "tgt (l - 1) (as @ bs) \<noteq> None" by auto
      then obtain c where "c \<in> set (as @ bs)" "\<not> cl c \<le> l - 1" by (auto simp: tgt_None)
      with low [of c] show "\<exists>c\<in>set (as @ bs). cl c = sl_level ?s" by (intro bexI [of _ c]) auto
    qed
    show "\<forall>i < sl_level ?s. seg (sl_heap ?s) i (hcell # as @ bs) []" using seg2 l(3) by auto
    show "\<forall>i. sl_level ?s \<le> i \<and> i < 32 \<longrightarrow> get_fwd (sl_heap ?s) header i = Some None"
      using high by simp
    show "sorted_wrt (<) (map ck (as @ bs))"
      using sl_repD(13) [OF rep] by (auto simp: sorted_wrt_append)
    show "sl_length ?s = of_nat (length (as @ bs))" using sl_repD(14) [OF rep] by simp
    show "length (as @ bs) \<le> sl_max" using sl_repD(15) [OF rep] by simp
  qed
  ultimately show ?thesis by blast
qed

subsection \<open>Level 0 as a chain\<close>

definition chain :: "sheap \<Rightarrow> cell list \<Rightarrow> bool" where
  "chain h cs \<longleftrightarrow> seg h 0 cs [] \<and> (\<forall>c\<in>set cs. 1 \<le> cl c \<and> holds h c)"

lemma chain_Cons:
  assumes "chain h (c # cs)"
  shows "chain h cs" "get_fwd h (ca c) 0 = Some (first_addr cs)"
    "\<exists>nd. h (ca c) = Some nd \<and> nkey nd = ck c"
proof -
  show "chain h cs" using assms by (simp add: chain_def)
  have "tgt 0 cs = first_addr cs" using assms by (intro tgt_0) (simp add: chain_def)
  then show "get_fwd h (ca c) 0 = Some (first_addr cs)"
    using assms by (auto simp: chain_def lnk_def)
  show "\<exists>nd. h (ca c) = Some nd \<and> nkey nd = ck c"
    using assms holdsD [of h c] by (auto simp: chain_def)
qed

lemma first_addr_simps [simp]: "first_addr [] = None" "first_addr (c # cs) = Some (ca c)"
  by (simp_all add: first_addr_def)

lemma rep_chain:
  assumes "sl_rep s (as @ bs)" shows "chain (sl_heap s) bs"
proof -
  have "seg (sl_heap s) 0 (hcell # as @ bs) []" using sl_repD(6,11) [OF assms] by simp
  then show ?thesis using sl_repD(2,8) [OF assms] by (simp add: chain_def)
qed

lemma chain_cut: "chain h (as @ bs) \<Longrightarrow> chain h bs"
  by (induction as) (auto dest: chain_Cons(1))

lemma collect_chain:
  "chain h cs \<Longrightarrow> \<exists>nds. collect h n (first_addr cs) = Some nds \<and> map nkey nds = map ck (take n cs)"
proof (induction n arbitrary: cs)
  case (Suc n)
  show ?case
  proof (cases cs)
    case (Cons c cs')
    with Suc chain_Cons [of h c cs'] show ?thesis by fastforce
  qed simp
qed simp

lemma find_member_chain:
  "chain h cs \<Longrightarrow> \<exists>r. find_member h m (first_addr cs) = Some r
     \<and> map_option nkey r = find (\<lambda>k. snd k = m) (map ck cs)"
proof (induction cs)
  case Nil
  then show ?case by (subst find_member.simps) simp
next
  case (Cons c cs)
  from chain_Cons [OF Cons.prems] obtain nd where c: "chain h cs" "get_fwd h (ca c) 0 = Some (first_addr cs)"
    "h (ca c) = Some nd" "nkey nd = ck c" by blast
  then have "snd (ck c) = nd_member nd" by (metis snd_conv)
  with c Cons.IH show ?case by (subst find_member.simps) auto
qed

lemma clear_nodes_chain:
  "chain h cs \<Longrightarrow> distinct (map ca cs) \<Longrightarrow>
     clear_nodes (first_addr cs) h = Some (\<lambda>a. if a \<in> ca ` set cs then None else h a)"
proof (induction cs arbitrary: h)
  case Nil
  then show ?case by (subst clear_nodes.simps) simp
next
  case (Cons c cs)
  let ?h = "h(ca c := None)"
  from chain_Cons [OF Cons.prems(1)] have c: "chain h cs" "get_fwd h (ca c) 0 = Some (first_addr cs)" by blast+
  have ch: "chain ?h cs"
    using c(1) Cons.prems(2) unfolding chain_def
    by (auto intro!: seg_fun_upd holds_upd) (metis imageI)
  have "distinct (map ca cs)" using Cons.prems(2) by simp
  from Cons.IH [OF ch this]
  have "clear_nodes (first_addr cs) ?h = Some (\<lambda>a. if a \<in> ca ` set cs then None else ?h a)" .
  with c(2) show ?case by (subst clear_nodes.simps) (auto simp: fun_eq_iff)
qed

subsection \<open>Moving by spans\<close>

lemma walk_span_to_last:
  assumes "seg h i (x # as @ bs) []" "i < cl x" "k + length as + length bs < 4294967295"
  shows "\<exists>pre y post. last_at i (x # as) pre y post
     \<and> walk_span h (of_nat (k + length as + 1)) i (ca x) (of_nat k) = Some (ca y, of_nat (k + length pre))"
  using assms
proof (induction "length as" arbitrary: x as k rule: less_induct)
  case less
  let ?start = "of_nat (k + length as + 1) :: u64"
  show ?case
  proof (cases "\<forall>c\<in>set as. cl c \<le> i")
    case True
    have l: "get_fwd h (ca x) i = Some (tgt i bs)"
        "get_span h (ca x) i = Some (of_nat (length as + dist i bs))"
      using less.prems(1,2) True by (auto simp: lnk_def)
    have d: "length as + dist i bs < 4294967296" "1 \<le> dist i bs"
      using dist_le [of i bs] dist_pos [of i bs] less.prems(3) by auto
    then have u: "ucast (of_nat (length as + dist i bs) :: u32) = (of_nat (length as + dist i bs) :: u64)"
      by (intro ucast_of_nat_u32)
    have "\<not> (of_nat k + of_nat (length as + dist i bs) :: u64) < ?start"
    proof -
      have "(of_nat k + of_nat (length as + dist i bs) :: u64) = of_nat (k + (length as + dist i bs))" by simp
      moreover have "k + (length as + dist i bs) < 18446744073709551616" "k + length as + 1 < 18446744073709551616"
        using less.prems(3) d dist_le [of i bs] by auto
      ultimately show ?thesis using d by (simp only: word_less_nat_alt unat_of_nat_u64)
    qed
    then have "walk_span h ?start i (ca x) (of_nat k) = Some (ca x, of_nat k)"
      using l u by (subst walk_span.simps) (auto split: option.splits)
    then show ?thesis using last_at_low [OF True less.prems(2)] by fastforce
  next
    case False
    then obtain a0 y a1 where as: "as = a0 @ y # a1" "i < cl y" "\<forall>c\<in>set a0. cl c \<le> i"
      by (metis not_le split_list_first_prop [of as "\<lambda>c. \<not> cl c \<le> i"])
    have l: "get_fwd h (ca x) i = Some (Some (ca y))"
        "get_span h (ca x) i = Some (of_nat (Suc (length a0)))"
      using less.prems(1,2) as by (auto simp: lnk_def)
    have "seg h i (y # a1 @ bs) []" "length a1 < length as"
      using less.prems(1) as by auto
    with less.hyps [of a1 y "k + Suc (length a0)"] less.prems as obtain pre z post where
      IH: "last_at i (y # a1) pre z post"
        "walk_span h (of_nat (k + Suc (length a0) + length a1 + 1)) i (ca y) (of_nat (k + Suc (length a0)))
           = Some (ca z, of_nat (k + Suc (length a0) + length pre))"
      by (auto simp del: of_nat_add of_nat_Suc)
    have u: "ucast (of_nat (Suc (length a0)) :: u32) = (of_nat (Suc (length a0)) :: u64)"
      using less.prems(3) as by (intro ucast_of_nat_u32) simp
    have s: "of_nat k + of_nat (Suc (length a0)) = (of_nat (k + Suc (length a0)) :: u64)" by simp
    have "(of_nat (k + Suc (length a0)) :: u64) < ?start"
    proof -
      have "k + Suc (length a0) < 18446744073709551616" "k + length as + 1 < 18446744073709551616"
        using less.prems(3) as by auto
      then show ?thesis using as by (simp only: word_less_nat_alt unat_of_nat_u64) simp
    qed
    moreover have e: "k + Suc (length a0) + length a1 + 1 = k + length as + 1" using as by simp
    ultimately have "walk_span h ?start i (ca x) (of_nat k) = Some (ca z, of_nat (k + length (x # a0 @ pre)))"
      using l IH(2) [unfolded e] by (subst walk_span.simps) (simp del: of_nat_add of_nat_Suc add: u s add.assoc)
    moreover have "last_at i (x # as) (x # a0 @ pre) z post"
      using IH(1) as by (auto simp: last_at_def)
    ultimately show ?thesis by blast
  qed
qed

lemma search_span_levels:
  assumes "\<forall>i<L. seg h i (x # as @ bs) []" "1 \<le> L" "L \<le> cl x" "\<forall>c\<in>set as. 1 \<le> cl c"
    "k + length as + length bs < 4294967295"
  shows "search_span h (of_nat (k + length as + 1)) L (ca x) (of_nat k)
           = Some (ca (last (x # as)), of_nat (k + length as))"
  using assms
proof (induction L arbitrary: x as k)
  case (Suc L)
  from walk_span_to_last [of h L x as bs k] Suc.prems obtain pre y post where
    w: "last_at L (x # as) pre y post"
      "walk_span h (of_nat (k + length as + 1)) L (ca x) (of_nat k) = Some (ca y, of_nat (k + length pre))"
    by (auto simp del: of_nat_add)
  have split: "x # as = pre @ y # post" and cly: "L < cl y" using w(1) by (auto simp: last_at_def)
  show ?case
  proof (cases "L = 0")
    case True
    with last_at_0 [of x as pre y post] w Suc.prems(4) show ?thesis by (simp del: of_nat_add)
  next
    case False
    have sub: "set post \<subseteq> set as" using split by (cases pre) auto
    have "length (x # as) = length (pre @ y # post)" by (simp only: split)
    then have len: "length as = length pre + length post" by simp
    have "seg h i (y # post @ bs) []" if "i < L" for i
    proof -
      have "seg h i ((x # as) @ bs) []" using Suc.prems(1) that by simp
      then have "seg h i ((pre @ y # post) @ bs) []" using split by (simp only:)
      then show ?thesis by simp
    qed
    moreover have "\<forall>c\<in>set post. 1 \<le> cl c" using sub Suc.prems(4) by blast
    ultimately have "search_span h (of_nat (k + length pre + length post + 1)) L (ca y) (of_nat (k + length pre))
       = Some (ca (last (y # post)), of_nat (k + length pre + length post))"
      using False cly Suc.prems(5) len by (intro Suc.IH) auto
    moreover have "last (y # post) = last (x # as)" unfolding split by simp
    ultimately show ?thesis using w(2) len by (simp del: of_nat_add add: add.assoc)
  qed
qed simp

subsection \<open>The sorted list of keys\<close>

definition sl_keys :: "skiplist \<Rightarrow> key list \<Rightarrow> bool" where
  "sl_keys s ks \<longleftrightarrow> (\<exists>xs. sl_rep s xs \<and> map ck xs = ks)"

lemma sl_keys_sorted: "sl_keys s ks \<Longrightarrow> sorted_wrt (<) ks"
  by (auto simp: sl_keys_def dest: sl_repD(13))

lemma sl_keys_distinct: "sl_keys s ks \<Longrightarrow> distinct ks"
  using sl_keys_sorted strict_sorted_iff by blast

lemma sl_keys_length: "sl_keys s ks \<Longrightarrow> sl_length s = of_nat (length ks) \<and> length ks \<le> sl_max"
  by (auto simp: sl_keys_def dest: sl_repD(14,15))

lemma sl_keys_new: "sl_keys SkipList_new []"
  unfolding sl_keys_def using sl_rep_new by auto

text \<open>Splitting a sorted list of keys at a key.\<close>

lemma sorted_splits:
  assumes "sorted_wrt (<) (ks :: 'a :: linorder list)" and down: "\<And>a b. P b \<Longrightarrow> a < b \<Longrightarrow> P a"
  shows "\<forall>k\<in>set (takeWhile P ks). P k" "\<forall>k\<in>set (dropWhile P ks). \<not> P k"
proof -
  show "\<forall>k\<in>set (takeWhile P ks). P k" by (auto dest: set_takeWhileD)
  show "\<forall>k\<in>set (dropWhile P ks). \<not> P k"
    using assms(1)
  proof (induction ks)
    case (Cons a ks)
    show ?case
    proof (cases "P a")
      case True
      with Cons show ?thesis by (metis dropWhile.simps(2) sorted_wrt.simps(2))
    next
      case False
      have "\<not> P b" if "b \<in> set ks" for b
        using that Cons.prems down [of b a] False by (metis list.set_intros(2) sorted_wrt.simps(2))
      with False show ?thesis by simp
    qed
  qed simp
qed

lemma sl_keys_split:
  assumes "sl_keys s ks" "\<And>a b. P b \<Longrightarrow> a < b \<Longrightarrow> P a"
  obtains as bs where "sl_rep s (as @ bs)" "map ck as = takeWhile P ks" "map ck bs = dropWhile P ks"
    "\<forall>c\<in>set as. P (ck c)" "\<forall>c\<in>set bs. \<not> P (ck c)"
proof -
  from assms(1) obtain xs where xs: "sl_rep s xs" "map ck xs = ks" by (auto simp: sl_keys_def)
  let ?as = "takeWhile (P \<circ> ck) xs" and ?bs = "dropWhile (P \<circ> ck) xs"
  have m: "map ck ?as = takeWhile P ks" "map ck ?bs = dropWhile P ks"
    using xs(2) by (auto simp: takeWhile_map dropWhile_map)
  have "\<forall>k\<in>set (map ck ?as). P k" "\<forall>k\<in>set (map ck ?bs). \<not> P k"
    unfolding m
     apply (rule sorted_splits(1) [OF sl_keys_sorted [OF assms(1)]]; erule (1) assms(2))
    apply (rule sorted_splits(2) [OF sl_keys_sorted [OF assms(1)]]; erule (1) assms(2))
    done
  then have P: "\<forall>c\<in>set ?as. P (ck c)" "\<forall>c\<in>set ?bs. \<not> P (ck c)"
    by (simp_all only: list.set_map ball_simps)
  have "sl_rep s (?as @ ?bs)" using xs(1) by (simp only: takeWhile_dropWhile_id)
  then show thesis by (rule that [OF _ m P])
qed

lemma insort_split:
  "\<forall>a\<in>set as. a < k \<Longrightarrow> \<forall>b\<in>set bs. k < b \<Longrightarrow> insort (k :: 'a :: linorder) (as @ bs) = as @ k # bs"
proof (induction as)
  case Nil
  then show ?case by (cases bs) auto
qed auto

lemma dropWhile_lt_hd:
  "sorted_wrt (<) (ks :: 'a :: linorder list) \<Longrightarrow> k \<in> set ks \<longleftrightarrow> (\<exists>bs. dropWhile (\<lambda>x. x < k) ks = k # bs)"
proof (induction ks)
  case (Cons a ks)
  then show ?case by (cases "a < k") auto
qed simp

lemma remove1_split: "sorted_wrt (<) (ks :: 'a :: linorder list) \<Longrightarrow> dropWhile (\<lambda>x. x < k) ks = k # bs \<Longrightarrow>
    remove1 k ks = takeWhile (\<lambda>x. x < k) ks @ bs"
proof (induction ks)
  case (Cons a ks)
  then show ?case by (cases "a < k") auto
qed simp

end
