(* ===== verification/Skip_List_Refine.thy ===== *)
theory Skip_List_Refine
  imports Skip_List_Facts
begin

section \<open>The operations of the skip list on its sorted list of keys\<close>

text \<open>
  Each operation of src/skip_list.cpp against the strictly sorted list of its keys.  That the
  operation returns \<open>Some\<close> is part of every statement: no access outside an allocated node or
  array, and every pointer walk ends.
\<close>

lemma NextLevel_loop_range: "1 \<le> lv \<Longrightarrow> lv \<le> 32 \<Longrightarrow> 1 \<le> fst (NextLevel_loop lv r) \<and> fst (NextLevel_loop lv r) \<le> 32"
proof (induction lv r rule: NextLevel_loop.induct)
  case (1 lv r)
  then show ?case by (subst (1 2) NextLevel_loop.simps) (auto simp: std_rand_def Let_def)
qed

lemma NextLevel_range: "1 \<le> fst (NextLevel r)" "fst (NextLevel r) \<le> 32"
  unfolding NextLevel_def using NextLevel_loop_range [of 1 r] by auto

lemma NextLevel_gen_range: "1 \<le> NextLevel_gen lv \<and> NextLevel_gen lv \<le> 32"
  by (auto simp: NextLevel_gen_def word_less_nat_alt word_le_nat_alt unat_gt_0 Suc_le_eq)

lemma less_down: "b < k \<Longrightarrow> a < b \<Longrightarrow> a < (k :: 'a :: order)"
  by (rule order.strict_trans)

lemma InsertNew_at_keys:
  assumes keys: "sl_keys s ks" and nl: "1 \<le> nl" "nl \<le> 32"
    and new: "(sc, m) \<notin> set ks" and len: "length ks < sl_max"
  shows "\<exists>s'. InsertNew_at nl sc m s = Some s' \<and> sl_keys s' (insort (sc, m) ks)"
proof -
  obtain as bs where ab: "sl_rep s (as @ bs)" "map ck as = takeWhile (\<lambda>k. k < (sc, m)) ks"
    "map ck bs = dropWhile (\<lambda>k. k < (sc, m)) ks" "\<forall>c\<in>set as. ck c < (sc, m)" "\<forall>c\<in>set bs. \<not> ck c < (sc, m)"
    by (rule sl_keys_split [OF keys less_down])
  have ks: "ks = map ck as @ map ck bs" using ab(2,3) by simp
  have gt: "\<forall>c\<in>set bs. (sc, m) < ck c"
    using ab(5) new unfolding ks by (metis UnI2 imageI list.set_map neqE set_append)
  have "length (as @ bs) < sl_max" using len ks by simp
  from InsertNew_at_rep [OF ab(1) nl ab(4) gt this] obtain s' where
    "InsertNew_at nl sc m s = Some s'" "sl_rep s' (as @ Cell (sl_next s) (sc, m) nl # bs)" by blast
  moreover have "insort (sc, m) ks = map ck (as @ Cell (sl_next s) (sc, m) nl # bs)"
    unfolding ks using ab(4) gt by (subst insort_split) auto
  ultimately show ?thesis by (auto simp: sl_keys_def)
qed

lemma InsertNew_keys:
  assumes "sl_keys s ks" "(sc, m) \<notin> set ks" "length ks < sl_max"
  shows "\<exists>s'. InsertNew sc m s r = Some (s', snd (NextLevel r)) \<and> sl_keys s' (insort (sc, m) ks)"
  using InsertNew_at_keys [OF assms(1) NextLevel_range assms(2,3), of r]
  by (auto simp: InsertNew_def split: prod.splits)

lemma Delete_keys:
  assumes keys: "sl_keys s ks" and k: "(sc, m) \<in> set ks"
  shows "\<exists>s'. Delete sc m s = Some (True, s') \<and> sl_keys s' (remove1 (sc, m) ks)"
proof -
  obtain as bs where ab: "sl_rep s (as @ bs)" "map ck as = takeWhile (\<lambda>k. k < (sc, m)) ks"
    "map ck bs = dropWhile (\<lambda>k. k < (sc, m)) ks"
    by (rule sl_keys_split [OF keys less_down])
  from k dropWhile_lt_hd [OF sl_keys_sorted [OF keys]] obtain ks' where
    ks': "dropWhile (\<lambda>k. k < (sc, m)) ks = (sc, m) # ks'" by blast
  then obtain x bs' where bs: "bs = x # bs'" "ck x = (sc, m)" "map ck bs' = ks'" using ab(3) by auto
  from Delete_rep [OF ab(1) [unfolded bs(1)] bs(2)] obtain s' where
    "Delete sc m s = Some (True, s')" "sl_rep s' (as @ bs')" by blast
  moreover have "remove1 (sc, m) ks = map ck (as @ bs')"
    using remove1_split [OF sl_keys_sorted [OF keys] ks'] ab(2) bs(3) by simp
  ultimately show ?thesis by (auto simp: sl_keys_def)
qed

text \<open>Where a search for a key ends: the node before it, and the first node not below it.\<close>

lemma search_keys:
  assumes keys: "sl_keys s ks"
  obtains x us f where
    "search_update (sl_heap s) (\<lambda>nd. Less nd sc m) (sl_level s) header = Some us"
    "us \<noteq> []" "us ! 0 = x"
    "search (sl_heap s) (\<lambda>nd. Less nd sc m) (sl_level s) header = Some x"
    "search_r (sl_heap s) (\<lambda>nd. Less nd sc m) (sl_level s) header 0
       = Some (x, of_nat (length (takeWhile (\<lambda>k. k < (sc, m)) ks)))"
    "get_fwd (sl_heap s) x 0 = Some f"
    "f = None \<and> (sc, m) \<notin> set ks
     \<or> (\<exists>y nd. f = Some y \<and> sl_heap s y = Some nd \<and> (nkey nd = (sc, m) \<longleftrightarrow> (sc, m) \<in> set ks))"
proof -
  obtain as bs where ab: "sl_rep s (as @ bs)" "map ck as = takeWhile (\<lambda>k. k < (sc, m)) ks"
    "map ck bs = dropWhile (\<lambda>k. k < (sc, m)) ks" "\<forall>c\<in>set as. ck c < (sc, m)" "\<forall>c\<in>set bs. \<not> ck c < (sc, m)"
    by (rule sl_keys_split [OF keys less_down])
  obtain ups where ups:
      "search_update (sl_heap s) (\<lambda>nd. Less nd sc m) (sl_level s) header = Some (map fst ups)"
      "search (sl_heap s) (\<lambda>nd. Less nd sc m) (sl_level s) header = Some (fst (ups ! 0))"
      "search_r (sl_heap s) (\<lambda>nd. Less nd sc m) (sl_level s) header 0 = Some (ups ! 0)"
      "0 < length ups" "ups ! 0 = (ca (last (hcell # as)), of_nat (length as))"
    by (rule rep_search_key [OF ab(1,4,5)])
  have f: "get_fwd (sl_heap s) (fst (ups ! 0)) 0 = Some (first_addr bs)"
    using rep_last_fwd [OF ab(1)] ups(5) by simp
  have l: "length as = length (takeWhile (\<lambda>k. k < (sc, m)) ks)" using arg_cong [OF ab(2), of length] by simp
  have "first_addr bs = None \<and> (sc, m) \<notin> set ks
     \<or> (\<exists>y nd. first_addr bs = Some y \<and> sl_heap s y = Some nd \<and> (nkey nd = (sc, m) \<longleftrightarrow> (sc, m) \<in> set ks))"
  proof (cases bs)
    case Nil
    then show ?thesis using dropWhile_lt_hd [OF sl_keys_sorted [OF keys], of "(sc, m)"] ab(3) by simp
  next
    case (Cons b bs')
    from chain_Cons(3) [OF rep_chain [OF ab(1), unfolded Cons]] obtain nd where
      nd: "sl_heap s (ca b) = Some nd" "nkey nd = ck b" by blast
    have "(sc, m) \<in> set ks \<longleftrightarrow> ck b = (sc, m)"
      unfolding dropWhile_lt_hd [OF sl_keys_sorted [OF keys], of "(sc, m)"] by (auto simp flip: ab(3) simp: Cons)
    with nd Cons show ?thesis by auto
  qed
  note r = this
  have ne: "map fst ups \<noteq> []" "map fst ups ! 0 = fst (ups ! 0)" using ups(4) by auto
  have "search_r (sl_heap s) (\<lambda>nd. Less nd sc m) (sl_level s) header 0
       = Some (fst (ups ! 0), of_nat (length (takeWhile (\<lambda>k. k < (sc, m)) ks)))"
    using ups(3,5) l by simp
  with that [of "map fst ups" "fst (ups ! 0)" "first_addr bs"] ups(1,2) ne f r show thesis by blast
qed

lemma Delete_absent:
  assumes keys: "sl_keys s ks" and k: "(sc, m) \<notin> set ks"
  shows "Delete sc m s = Some (False, s)"
proof -
  obtain x us f where u:
    "search_update (sl_heap s) (\<lambda>nd. Less nd sc m) (sl_level s) header = Some us"
    "us \<noteq> []" "us ! 0 = x" "get_fwd (sl_heap s) x 0 = Some f"
    "f = None \<and> (sc, m) \<notin> set ks
     \<or> (\<exists>y nd. f = Some y \<and> sl_heap s y = Some nd \<and> (nkey nd = (sc, m) \<longleftrightarrow> (sc, m) \<in> set ks))"
    by (rule search_keys [OF keys])
  then show ?thesis using k by (auto simp: Delete_def nth_opt_def)
qed

lemma Find_keys:
  assumes keys: "sl_keys s ks" shows "Find sc m s = Some ((sc, m) \<in> set ks)"
proof -
  obtain x f where u:
    "search (sl_heap s) (\<lambda>nd. Less nd sc m) (sl_level s) header = Some x" "get_fwd (sl_heap s) x 0 = Some f"
    "f = None \<and> (sc, m) \<notin> set ks
     \<or> (\<exists>y nd. f = Some y \<and> sl_heap s y = Some nd \<and> (nkey nd = (sc, m) \<longleftrightarrow> (sc, m) \<in> set ks))"
    by (rule search_keys [OF keys])
  then show ?thesis by (auto simp: Find_def)
qed

lemma Rank_keys:
  assumes keys: "sl_keys s ks"
  shows "Rank sc m s = Some (if (sc, m) \<in> set ks then Some (of_nat (length (takeWhile (\<lambda>k. k < (sc, m)) ks))) else None)"
proof -
  obtain x f where u:
    "search_r (sl_heap s) (\<lambda>nd. Less nd sc m) (sl_level s) header 0
       = Some (x, of_nat (length (takeWhile (\<lambda>k. k < (sc, m)) ks)))" "get_fwd (sl_heap s) x 0 = Some f"
    "f = None \<and> (sc, m) \<notin> set ks
     \<or> (\<exists>y nd. f = Some y \<and> sl_heap s y = Some nd \<and> (nkey nd = (sc, m) \<longleftrightarrow> (sc, m) \<in> set ks))"
    by (rule search_keys [OF keys])
  then show ?thesis by (auto simp: Rank_def)
qed

lemma RangeByRank_keys:
  assumes keys: "sl_keys s ks"
  shows "\<exists>nds. SkipList_RangeByRank start stop s = Some nds \<and> map nkey nds =
     (if start \<le> stop \<and> unat start \<le> length ks
      then take (unat stop - unat start + 1) (drop (unat start - 1) ks) else [])"
proof -
  from keys obtain xs where xs: "sl_rep s xs" "map ck xs = ks" by (auto simp: sl_keys_def)
  have n: "length xs = length ks" using xs(2) by auto
  have len: "unat (sl_length s) = length ks" "length ks < 4294967295"
    using sl_repD(14,15) [OF xs(1)] n by auto
  show ?thesis
  proof (cases "start \<le> stop \<and> unat start \<le> length ks")
    case False
    then have "start > stop \<or> start > sl_length s"
      by (auto simp: word_less_nat_alt word_le_nat_alt len)
    with False show ?thesis by (auto simp: SkipList_RangeByRank_def)
  next
    case True
    let ?as = "take (unat start - 1) xs" and ?bs = "drop (unat start - 1) xs"
    have rep: "sl_rep s (?as @ ?bs)" using xs(1) by simp
    have "unat start - 1 \<le> length xs" using True n by linarith
    then have le: "length ?as = unat start - 1" by simp
    obtain x t where sp: "search_span (sl_heap s) start (sl_level s) header 0 = Some (x, t)"
        "get_fwd (sl_heap s) x 0 = Some (first_addr ?bs)"
    proof (cases "start = 0")
      case True
      have w: "walk_span (sl_heap s) 0 i header 0 = Some (header, 0)" if "i < sl_level s" for i
      proof -
        have "lnk (sl_heap s) i hcell xs" using sl_repD(11) [OF xs(1) that] by simp
        then show ?thesis using that sl_repD(7) [OF xs(1)]
          by (subst walk_span.simps) (auto simp: lnk_def split: option.splits)
      qed
      have "search_span (sl_heap s) 0 L header 0 = Some (header, 0)" if "L \<le> sl_level s" for L
        using that by (induction L) (auto simp: w)
      then have "search_span (sl_heap s) start (sl_level s) header 0 = Some (header, 0)" using True by simp
      moreover have "get_fwd (sl_heap s) header 0 = Some (first_addr ?bs)"
        using rep_last_fwd [of s "[]" xs] xs(1) True by simp
      ultimately show thesis by (rule that)
    next
      case False
      then have st: "0 + length ?as + 1 = unat start" using le unat_gt_0 [of start] by linarith
      have "length ?as + length ?bs < 4294967295" using len n by simp
      moreover have "\<forall>i < sl_level s. seg (sl_heap s) i (hcell # ?as @ ?bs) []"
        using sl_repD(11) [OF rep] by blast
      moreover have "\<forall>c\<in>set ?as. 1 \<le> cl c" using sl_repD(8) [OF xs(1)] by (auto dest: in_set_takeD)
      ultimately have "search_span (sl_heap s) (of_nat (0 + length ?as + 1)) (sl_level s) (ca hcell) (of_nat 0)
           = Some (ca (last (hcell # ?as)), of_nat (0 + length ?as))"
        using sl_repD(6,7) [OF rep] by (intro search_span_levels [where bs = ?bs]) (auto simp del: append_take_drop_id)
      then have "search_span (sl_heap s) start (sl_level s) header 0
           = Some (ca (last (hcell # ?as)), of_nat (length ?as))"
        unfolding st by simp
      from that [OF this rep_last_fwd [OF rep]] show thesis .
    qed
    from collect_chain [OF rep_chain [OF rep]] obtain nds where
      nds: "collect (sl_heap s) (unat stop - unat start + 1) (first_addr ?bs) = Some nds"
        "map nkey nds = map ck (take (unat stop - unat start + 1) ?bs)" by blast
    have "\<not> (start > stop \<or> start > sl_length s)" using True by (auto simp: word_less_nat_alt word_le_nat_alt len)
    then have "SkipList_RangeByRank start stop s = Some nds"
      using sp nds(1) by (simp add: SkipList_RangeByRank_def)
    moreover have "map nkey nds = take (unat stop - unat start + 1) (drop (unat start - 1) ks)"
      unfolding nds(2) xs(2) [symmetric] by (simp only: take_map drop_map)
    ultimately show ?thesis using True by simp
  qed
qed

text \<open>\<open>LowerBoundByScore\<close>, \<open>Last\<close> and \<open>first\<close> return an address; \<open>at_keys\<close> says which suffix
  of the keys starts there.\<close>

definition at_keys :: "skiplist \<Rightarrow> nat option \<Rightarrow> key list \<Rightarrow> bool" where
  "at_keys s x ks \<longleftrightarrow> (\<exists>cs. chain (sl_heap s) cs \<and> first_addr cs = x \<and> map ck cs = ks)"

lemma first_keys:
  assumes "sl_keys s ks"
  shows "\<exists>x. get_fwd (sl_heap s) header 0 = Some x \<and> at_keys s x ks"
proof -
  from assms obtain xs where xs: "sl_rep s xs" "map ck xs = ks" by (auto simp: sl_keys_def)
  from rep_last_fwd [of s "[]" xs] rep_chain [of s "[]" xs] xs show ?thesis
    by (auto simp: at_keys_def)
qed

lemma LowerBoundByScore_keys:
  assumes keys: "sl_keys s ks"
  shows "\<exists>x. LowerBoundByScore mn s = Some x \<and> at_keys s x (dropWhile (\<lambda>k. fst k < mn) ks)"
proof -
  have down: "fst b < mn \<Longrightarrow> a < b \<Longrightarrow> fst a < mn" for a b :: key
    by (auto simp: less_prod_def')
  obtain as bs where ab: "sl_rep s (as @ bs)" "map ck bs = dropWhile (\<lambda>k. fst k < mn) ks"
    "\<forall>c\<in>set as. fst (ck c) < mn" "\<forall>c\<in>set bs. \<not> fst (ck c) < mn"
    by (rule sl_keys_split [OF keys down])
  obtain ups :: "(nat \<times> u64) list" where ups: "search (sl_heap s) (\<lambda>nd. nd_score nd < mn) (sl_level s) header = Some (fst (ups ! 0))"
      "ups ! 0 = (ca (last (hcell # as)), of_nat (length as))"
    by (rule rep_search [where P = "\<lambda>k. fst k < mn", OF ab(1) _ ab(3,4)]) auto
  have "get_fwd (sl_heap s) (fst (ups ! 0)) 0 = Some (first_addr bs)"
    using rep_last_fwd [OF ab(1)] ups(2) by simp
  then show ?thesis using ups(1) rep_chain [OF ab(1)] ab(2) by (auto simp: LowerBoundByScore_def at_keys_def)
qed

lemma Last_keys:
  assumes keys: "sl_keys s ks"
  shows "\<exists>x. SkipList_Last s = Some x
     \<and> (case x of None \<Rightarrow> ks = [] | Some y \<Rightarrow> ks \<noteq> [] \<and> map_option nkey (sl_heap s y) = Some (last ks))"
proof -
  from keys obtain xs where xs: "sl_rep s (xs @ [])" "map ck xs = ks" by (auto simp: sl_keys_def)
  obtain ups :: "(nat \<times> u64) list" where ups: "search (sl_heap s) (\<lambda>nd. True) (sl_level s) header = Some (fst (ups ! 0))"
      "ups ! 0 = (ca (last (hcell # xs)), of_nat (length xs))"
    by (rule rep_search [where P = "\<lambda>k. True", OF xs(1)]) auto
  show ?thesis
  proof (cases "xs = []")
    case True
    then show ?thesis using ups xs(2) by (simp add: SkipList_Last_def)
  next
    case False
    then have l: "last xs \<in> set xs" by simp
    then have "ca (last xs) \<noteq> 0" using sl_repD(3) [OF xs(1)] by (auto dest: imageI)
    moreover from holdsD [OF sl_repD(2) [OF xs(1), of "last xs"]] l
    obtain nd where "sl_heap s (ca (last xs)) = Some nd" "nkey nd = ck (last xs)" by auto
    ultimately show ?thesis using ups False xs(2) by (auto simp: SkipList_Last_def last_map)
  qed
qed

lemma SkipList_Clear_keys:
  assumes keys: "sl_keys s ks"
  shows "\<exists>s'. SkipList_Clear s = Some s' \<and> sl_keys s' []"
proof -
  from keys obtain xs where xs: "sl_rep s xs" "map ck xs = ks" by (auto simp: sl_keys_def)
  let ?h = "sl_heap s" let ?h1 = "\<lambda>a. if a \<in> ca ` set xs then None else ?h a"
  have f: "get_fwd ?h header 0 = Some (first_addr xs)" using rep_last_fwd [of s "[]" xs] xs by simp
  have c: "clear_nodes (first_addr xs) ?h = Some ?h1"
    using rep_chain [of s "[]" xs] xs(1) sl_repD(3) [OF xs(1)] by (intro clear_nodes_chain) auto
  have n0: "header \<notin> ca ` set xs" using sl_repD(3) [OF xs(1)] by auto
  have hold: "holds ?h1 hcell" using sl_repD(1) [OF xs(1)] n0 by (simp add: holds_def shape_def)
  have step: "\<exists>h2. reset_level i h0 = Some h2 \<and> local_to i h0 h2 \<and> seg h2 i [hcell] []"
    if i: "i \<in> set [0..<32]" and a: "agree i ?h1 h0" and sh: "shape h0 = shape ?h1" for i h0
  proof -
    have hd: "holds h0 hcell" using hold sh holds_shape by blast
    then obtain v p where v: "get_fwd h0 header i = Some v" and p: "get_span h0 header i = Some p"
      using holds_get_fwd [of h0 hcell i] holds_get_span [of h0 hcell i] i by auto
    from set_fwd_ex [OF v, of None] obtain h2 where
      h2: "set_fwd header i None h0 = Some h2" "local_to i h0 h2"
        "\<And>z. get_fwd h2 z i = (if z = header then Some None else get_fwd h0 z i)"
        "\<And>z. get_span h2 z i = get_span h0 z i" by blast
    from p h2(4) have "get_span h2 header i = Some p" by simp
    from set_span_ex [OF this, of 1] obtain h3 where
      h3: "set_span header i 1 h2 = Some h3" "local_to i h2 h3"
        "\<And>z. get_span h3 z i = (if z = header then Some 1 else get_span h2 z i)"
        "\<And>z. get_fwd h3 z i = get_fwd h2 z i" by blast
    have "reset_level i h0 = Some h3" using h2(1) h3(1) by (simp add: reset_level_def)
    moreover have "seg h3 i [hcell] []" using h2(3) h3(3,4) by (simp add: lnk_def)
    ultimately show ?thesis using local_to_trans [OF h2(2) h3(2)] by blast
  qed
  obtain h2 where h2: "for_levels reset_level [0..<32] ?h1 = Some h2" "shape h2 = shape ?h1"
    "\<And>i. i \<in> set [0..<32] \<Longrightarrow> seg h2 i [hcell] []"
    using for_levels_seg [OF distinct_upt step] by blast
  let ?s = "s\<lparr>sl_heap := h2, sl_level := 1, sl_length := 0\<rparr>"
  have "SkipList_Clear s = Some ?s"
    using f c h2(1) by (simp only: SkipList_Clear_def bind.bind_lunit)
  moreover have "sl_rep ?s []"
    unfolding sl_rep_def
  proof (intro conjI)
    show "\<forall>c\<in>set [hcell]. holds (sl_heap ?s) c" using hold holds_shape [OF h2(2)] by simp
    have "dom h2 = dom ?h1" by (rule shape_dom [OF h2(2)])
    also have "\<dots> = dom ?h - ca ` set xs" by (auto split: if_splits)
    finally show "dom (sl_heap ?s) = ca ` set [hcell]" using sl_repD(4) [OF xs(1)] n0 by auto
    show "\<forall>c\<in>set [hcell]. ca c < sl_next ?s" using sl_repD(5) [OF xs(1), of hcell] by simp
    show "\<forall>i < sl_level ?s. seg (sl_heap ?s) i [hcell] []" using h2(3) by simp
    show "\<forall>i. sl_level ?s \<le> i \<and> i < 32 \<longrightarrow> get_fwd (sl_heap ?s) 0 i = Some None"
      using h2(3) by (auto simp: lnk_def)
  qed simp_all
  ultimately show ?thesis by (auto simp: sl_keys_def)
qed

text \<open>The nodes allocated are the header and one per key; the destructor frees all of them.\<close>

lemma sl_keys_card: "sl_keys s ks \<Longrightarrow> card (dom (sl_heap s)) = Suc (length ks)"
proof -
  assume "sl_keys s ks"
  then obtain xs where xs: "sl_rep s xs" "map ck xs = ks" by (auto simp: sl_keys_def)
  have "dom (sl_heap s) = set (map ca (hcell # xs))" using sl_repD(4) [OF xs(1)] by simp
  then show ?thesis using distinct_card [OF sl_repD(3) [OF xs(1)]] xs(2) by (metis length_Cons length_map)
qed

lemma SkipList_Destroy_keys:
  assumes "sl_keys s ks"
  shows "SkipList_Destroy s = Some Map.empty"
proof -
  from SkipList_Clear_keys [OF assms] obtain s' where s': "SkipList_Clear s = Some s'" "sl_keys s' []" by blast
  from s'(2) have "sl_rep s' []" by (simp add: sl_keys_def)
  from sl_repD(4) [OF this] have "dom (sl_heap s') = {header}" by simp
  then have h: "sl_heap s' header \<noteq> None" "x \<noteq> header \<Longrightarrow> sl_heap s' x = None" for x
    by (metis domIff insertI1, metis domIff singletonD)
  then have "(sl_heap s')(header := None) = Map.empty" by (auto simp: fun_eq_iff)
  with h(1) show ?thesis using s'(1) by (auto simp: SkipList_Destroy_def SkipNodeDestroy_def)
qed

lemma find_member_keys:
  assumes "at_keys s x ks"
  shows "\<exists>r. find_member (sl_heap s) m x = Some r \<and> map_option nkey r = find (\<lambda>k. snd k = m) ks"
  using assms find_member_chain unfolding at_keys_def by metis

lemma find_Some_member: "find (\<lambda>k. snd k = m) ks = Some k \<Longrightarrow> k \<in> set ks \<and> snd k = m"
  by (induction ks) (auto split: if_splits)

lemma find_None_member: "find (\<lambda>k. snd k = m) ks = None \<Longrightarrow> k \<in> set ks \<Longrightarrow> snd k \<noteq> m"
  by (induction ks) (auto split: if_splits)

text \<open>\<open>Insert\<close> on a list whose members are distinct: an absent member is inserted, a present one
  moves to its new score.\<close>

lemma Insert_keys:
  assumes keys: "sl_keys s ks" and dist: "distinct (map snd ks)" and len: "length ks < sl_max"
  shows "\<exists>s' r'. Insert sc m s r =
      Some (if m \<in> snd ` set ks then kUpdated else kInserted, s', r')
    \<and> sl_keys s' (insort (sc, m) (filter (\<lambda>k. snd k \<noteq> m) ks))"
proof -
  obtain x where x: "get_fwd (sl_heap s) header 0 = Some x" "at_keys s x ks"
    using first_keys [OF keys] by blast
  from find_member_keys [OF x(2), of m] obtain e where
    e: "find_member (sl_heap s) m x = Some e" "map_option nkey e = find (\<lambda>k. snd k = m) ks" by blast
  show ?thesis
  proof (cases e)
    case None
    then have nin: "m \<notin> snd ` set ks" using e(2) find_None_member [of m ks] by auto
    then have "(sc, m) \<notin> set ks" by force
    from InsertNew_keys [OF keys this len, of r] obtain s' where
      "InsertNew sc m s r = Some (s', snd (NextLevel r))" "sl_keys s' (insort (sc, m) ks)" by blast
    moreover have "filter (\<lambda>k. snd k \<noteq> m) ks = ks" using nin by (auto intro!: filter_True)
    ultimately show ?thesis using x(1) e(1) None nin by (auto simp: Insert_def)
  next
    case (Some nd)
    then have nd: "nkey nd \<in> set ks" "nd_member nd = m"
      using e(2) find_Some_member [of m ks "nkey nd"] by auto
    then have in_m: "m \<in> snd ` set ks" by force
    have k0: "(nd_score nd, m) \<in> set ks" using nd by simp
    have flt: "filter (\<lambda>k. snd k \<noteq> m) ks = remove1 (nd_score nd, m) ks"
      using dist k0
    proof (induction ks)
      case (Cons a ks)
      show ?case
      proof (cases "a = (nd_score nd, m)")
        case True
        with Cons.prems have "\<forall>k\<in>set ks. snd k \<noteq> m" by force
        with True show ?thesis by simp
      next
        case False
        with Cons.prems have "(nd_score nd, m) \<in> set ks" by auto
        then have "m \<in> set (map snd ks)" by force
        with Cons.prems have "snd a \<noteq> m" by auto
        with False Cons show ?thesis by simp
      qed
    qed simp
    show ?thesis
    proof (cases "nd_score nd = sc")
      case True
      have s: "sorted ks" using sl_keys_sorted [OF keys] strict_sorted_iff by blast
      have "insort (sc, m) (remove1 (sc, m) ks) = ks"
        using insort_remove1 [of "(sc, m)" ks] k0 s True by simp
      then show ?thesis using x(1) e(1) Some True in_m flt keys by (auto simp: Insert_def)
    next
      case False
      from Delete_keys [OF keys k0] obtain s1 where
        s1: "Delete (nd_score nd) m s = Some (True, s1)" "sl_keys s1 (remove1 (nd_score nd, m) ks)" by blast
      have "(sc, m) \<notin> set (remove1 (nd_score nd, m) ks)" unfolding flt [symmetric] by simp
      moreover have "length (remove1 (nd_score nd, m) ks) < sl_max"
        using len by (simp add: length_remove1 less_imp_diff_less)
      ultimately obtain s2 where "InsertNew sc m s1 r = Some (s2, snd (NextLevel r))"
        "sl_keys s2 (insort (sc, m) (remove1 (nd_score nd, m) ks))"
        using InsertNew_keys [OF s1(2)] by blast
      then show ?thesis using x(1) e(1) Some False in_m flt s1(1) by (auto simp: Insert_def)
    qed
  qed
qed

subsection \<open>The interface the ordered set relies on\<close>

text \<open>
  What the ordered set asks of its ordered index: insertion of a new key and deletion of a present
  one, \<open>Rank\<close> and \<open>RangeByRank\<close>.  Two consequences are proved from the laws alone: moving a member
  to another score (delete, then insert), and that the range at the rank of a key is that key.
\<close>

locale ordered_index =
  fixes inv :: "'s \<Rightarrow> key list \<Rightarrow> bool"
    and ins :: "score \<Rightarrow> string \<Rightarrow> 's \<Rightarrow> 'g \<Rightarrow> ('s \<times> 'g) option"
    and del :: "score \<Rightarrow> string \<Rightarrow> 's \<Rightarrow> (bool \<times> 's) option"
    and nxt :: "'g \<Rightarrow> 'g"
    and cap :: nat
  assumes inv_sorted: "inv s ks \<Longrightarrow> sorted_wrt (<) ks"
    and ins: "inv s ks \<Longrightarrow> (sc, m) \<notin> set ks \<Longrightarrow> length ks < cap \<Longrightarrow>
        \<exists>s'. ins sc m s g = Some (s', nxt g) \<and> inv s' (insort (sc, m) ks)"
    and del: "inv s ks \<Longrightarrow> (sc, m) \<in> set ks \<Longrightarrow>
        \<exists>s'. del sc m s = Some (True, s') \<and> inv s' (remove1 (sc, m) ks)"
begin

lemma inv_distinct: "inv s ks \<Longrightarrow> distinct ks"
  using inv_sorted strict_sorted_iff by blast

lemma move:
  assumes "inv s ks" "(old, m) \<in> set ks" "(new, m) \<notin> set ks" "length ks \<le> cap"
  shows "\<exists>b s1 s2. del old m s = Some (b, s1) \<and> ins new m s1 g = Some (s2, nxt g)
     \<and> inv s2 (insort (new, m) (remove1 (old, m) ks))"
proof -
  from del [OF assms(1,2)] obtain s1 where
    s1: "del old m s = Some (True, s1)" "inv s1 (remove1 (old, m) ks)" by blast
  have "length ks > 0" using assms(2) by (cases ks) auto
  then have "length (remove1 (old, m) ks) < cap"
    using assms(2,4) length_remove1 [of "(old, m)" ks] by (metis One_nat_def diff_Suc_less order_less_le_trans)
  moreover have "(new, m) \<notin> set (remove1 (old, m) ks)" using assms(3) by (meson notin_set_remove1)
  ultimately obtain s2 where "ins new m s1 g = Some (s2, nxt g)"
    "inv s2 (insort (new, m) (remove1 (old, m) ks))" using ins [OF s1(2)] by blast
  with s1(1) show ?thesis by blast
qed

end

locale ranked_index = ordered_index inv ins del nxt cap
  for inv :: "'s \<Rightarrow> key list \<Rightarrow> bool"
    and ins :: "score \<Rightarrow> string \<Rightarrow> 's \<Rightarrow> 'g \<Rightarrow> ('s \<times> 'g) option"
    and del :: "score \<Rightarrow> string \<Rightarrow> 's \<Rightarrow> (bool \<times> 's) option"
    and nxt :: "'g \<Rightarrow> 'g"
    and cap :: nat +
  fixes rank :: "score \<Rightarrow> string \<Rightarrow> 's \<Rightarrow> u64 option option"
    and range :: "u64 \<Rightarrow> u64 \<Rightarrow> 's \<Rightarrow> 'n list option"
    and node_key :: "'n \<Rightarrow> key"
  assumes inv_cap: "inv s ks \<Longrightarrow> length ks \<le> cap" and cap: "cap < 2 ^ 32"
    and rank: "inv s ks \<Longrightarrow> rank sc m s =
      Some (if (sc, m) \<in> set ks then Some (of_nat (length (takeWhile (\<lambda>k. k < (sc, m)) ks))) else None)"
    and range: "inv s ks \<Longrightarrow> \<exists>nds. range a b s = Some nds \<and> map node_key nds =
      (if a \<le> b \<and> unat a \<le> length ks then take (unat b - unat a + 1) (drop (unat a - 1) ks) else [])"
begin

lemma rank_less:
  assumes "inv s ks" "(sc, m) \<in> set ks"
  shows "length (takeWhile (\<lambda>k. k < (sc, m)) ks) < length ks
    \<and> ks ! length (takeWhile (\<lambda>k. k < (sc, m)) ks) = (sc, m)"
proof -
  let ?t = "takeWhile (\<lambda>k. k < (sc, m)) ks"
  from dropWhile_lt_hd [OF inv_sorted [OF assms(1)], of "(sc, m)"] assms(2) obtain bs where
    "dropWhile (\<lambda>k. k < (sc, m)) ks = (sc, m) # bs" by blast
  then have "ks = ?t @ (sc, m) # bs" by (metis takeWhile_dropWhile_id)
  then show ?thesis by (metis length_append length_Cons less_add_Suc1 add_Suc_right nth_append_length)
qed

lemma rank_nth:
  assumes "inv s ks" "rank sc m s = Some (Some r)"
  shows "unat r < length ks \<and> ks ! unat r = (sc, m)"
proof -
  have m: "(sc, m) \<in> set ks" and r: "r = of_nat (length (takeWhile (\<lambda>k. k < (sc, m)) ks))"
    using assms rank [of s ks sc m] by (auto split: if_splits)
  note l = rank_less [OF assms(1) m]
  have "length (takeWhile (\<lambda>k. k < (sc, m)) ks) < 18446744073709551616"
    using l inv_cap [OF assms(1)] cap by simp
  then show ?thesis using l unfolding r by simp
qed

lemma range_at_rank:
  assumes "inv s ks" "rank sc m s = Some (Some r)"
  shows "\<exists>nd. range (r + 1) (r + 1) s = Some [nd] \<and> node_key nd = (sc, m)"
proof -
  note n = rank_nth [OF assms]
  have "unat r + 1 < 18446744073709551616" using n inv_cap [OF assms(1)] cap by simp
  then have u: "unat (r + 1) = unat r + 1" by (rule unat_u64_Suc)
  from range [OF assms(1), of "r + 1" "r + 1"] obtain nds where
    nds: "range (r + 1) (r + 1) s = Some nds" "map node_key nds = take 1 (drop (unat r) ks)"
    using n by (auto simp: u)
  then have "map node_key nds = [(sc, m)]" using n by (simp add: take_Suc hd_drop_conv_nth)
  with nds(1) show ?thesis by auto
qed

end

interpretation sl: ordered_index sl_keys InsertNew Delete "\<lambda>r. snd (NextLevel r)" sl_max
proof unfold_locales
  show "\<And>s ks. sl_keys s ks \<Longrightarrow> sorted_wrt (<) ks" by (rule sl_keys_sorted)
qed (use InsertNew_keys Delete_keys in blast)+

interpretation slr: ranked_index sl_keys InsertNew Delete "\<lambda>r. snd (NextLevel r)" sl_max
    Rank SkipList_RangeByRank nkey
proof unfold_locales
  show "\<And>s ks. sl_keys s ks \<Longrightarrow> length ks \<le> sl_max" using sl_keys_length by blast
  show "(sl_max :: nat) < 2 ^ 32" by simp
qed (rule Rank_keys RangeByRank_keys, assumption)+

end
