(* ===== verification/ZSet.thy ===== *)
theory ZSet
  imports Skip_List_Refine "HOL-Library.AList"
begin

section \<open>The ordered set: dictionary and skip list (src/zset.cpp)\<close>

text \<open>
  A \<open>ZSet\<close> keeps every member twice: in a hash map from members to scores and in the skip list.
  The hash map is an association list (its iteration order is never used).  The operations thread
  the skip list and the random generator, and are \<open>None\<close> only where the skip list is: the theorems
  show that they always return \<open>Some\<close> and that the two indexes stay the same set.
\<close>

record zset =
  zs_index :: "(string \<times> score) list"
  zs_list :: skiplist

definition ZSet_new :: zset where
  "ZSet_new = \<lparr>zs_index = [], zs_list = SkipList_new\<rparr>"

definition ZSet_Add :: "string \<Rightarrow> score \<Rightarrow> zset \<Rightarrow> rng \<Rightarrow> (bool \<times> zset \<times> rng) option" where
  "ZSet_Add m sc z r =
     (case map_of (zs_index z) m of
        None \<Rightarrow>
          do { (l, r') \<leftarrow> InsertNew sc m (zs_list z) r;
               Some (True, \<lparr>zs_index = AList.update m sc (zs_index z), zs_list = l\<rparr>, r') }
      | Some old \<Rightarrow>
          if old = sc then Some (False, z, r)
          else do { (b, l1) \<leftarrow> Delete old m (zs_list z);
                    (l2, r') \<leftarrow> InsertNew sc m l1 r;
                    Some (False, \<lparr>zs_index = AList.update m sc (zs_index z), zs_list = l2\<rparr>, r') })"

definition ZSet_Remove :: "string \<Rightarrow> zset \<Rightarrow> (bool \<times> zset) option" where
  "ZSet_Remove m z =
     (case map_of (zs_index z) m of
        None \<Rightarrow> Some (False, z)
      | Some old \<Rightarrow>
          do { (b, l) \<leftarrow> Delete old m (zs_list z);
               Some (True, \<lparr>zs_index = AList.delete m (zs_index z), zs_list = l\<rparr>) })"

text \<open>The result is the new score and whether the member was present.\<close>

definition ZSet_IncrBy :: "string \<Rightarrow> rat \<Rightarrow> zset \<Rightarrow> rng \<Rightarrow> (score \<times> bool \<times> zset \<times> rng) option" where
  "ZSet_IncrBy m delta z r =
     (case map_of (zs_index z) m of
        None \<Rightarrow>
          do { (l, r') \<leftarrow> InsertNew (Fin delta) m (zs_list z) r;
               Some (Fin delta, False, \<lparr>zs_index = AList.update m (Fin delta) (zs_index z), zs_list = l\<rparr>, r') }
      | Some old \<Rightarrow>
          let new_score = score_add old delta in
          if new_score = old then Some (new_score, True, z, r)
          else do { (b, l1) \<leftarrow> Delete old m (zs_list z);
                    (l2, r') \<leftarrow> InsertNew new_score m l1 r;
                    Some (new_score, True, \<lparr>zs_index = AList.update m new_score (zs_index z), zs_list = l2\<rparr>, r') })"

definition ZSet_Clear :: "zset \<Rightarrow> zset option" where
  "ZSet_Clear z = do { l \<leftarrow> SkipList_Clear (zs_list z); Some \<lparr>zs_index = [], zs_list = l\<rparr> }"

definition ZSet_Size :: "zset \<Rightarrow> nat" where
  "ZSet_Size z = length (zs_index z)"

definition ZSet_GetScore :: "string \<Rightarrow> zset \<Rightarrow> score option" where
  "ZSet_GetScore m z = map_of (zs_index z) m"

text \<open>The inner \<open>None\<close> is \<open>return false\<close>: an absent member, or indexes that disagree.\<close>

definition ZSet_Rank :: "string \<Rightarrow> zset \<Rightarrow> u64 option option" where
  "ZSet_Rank m z =
     (case map_of (zs_index z) m of
        None \<Rightarrow> Some None
      | Some sc \<Rightarrow> Rank sc m (zs_list z))"

definition ZSet_RangeByRank :: "u64 \<Rightarrow> u64 \<Rightarrow> zset \<Rightarrow> snode list option" where
  "ZSet_RangeByRank start stop z =
     (if start > stop \<or> start \<ge> sl_length (zs_list z) then Some []
      else SkipList_RangeByRank (start + 1) (stop + 1) (zs_list z))"

text \<open>The loops along level 0 of \<open>RangeByScore\<close> and \<open>ForEach\<close>.\<close>

partial_function (option) skip_while :: "sheap \<Rightarrow> (snode \<Rightarrow> bool) \<Rightarrow> nat option \<Rightarrow> nat option option" where
  "skip_while h p x =
     (case x of
        None \<Rightarrow> Some None
      | Some y \<Rightarrow> do { nd \<leftarrow> h y;
                    if p nd then do { f \<leftarrow> get_fwd h y 0; skip_while h p f } else Some (Some y) })"

partial_function (option) collect_while :: "sheap \<Rightarrow> (snode \<Rightarrow> bool) \<Rightarrow> nat option \<Rightarrow> snode list option" where
  "collect_while h p x =
     (case x of
        None \<Rightarrow> Some []
      | Some y \<Rightarrow> do { nd \<leftarrow> h y;
                    if p nd then do { f \<leftarrow> get_fwd h y 0;
                                      rest \<leftarrow> collect_while h p f;
                                      Some (nd # rest) }
                    else Some [] })"

declare skip_while.simps [code] collect_while.simps [code]

definition ZSet_RangeByScore :: "score \<Rightarrow> score \<Rightarrow> bool \<Rightarrow> bool \<Rightarrow> zset \<Rightarrow> snode list option" where
  "ZSet_RangeByScore min_score max_score min_exclusive max_exclusive z =
     do { x \<leftarrow> LowerBoundByScore min_score (zs_list z);
          x \<leftarrow> (if min_exclusive
               then skip_while (sl_heap (zs_list z)) (\<lambda>nd. nd_score nd \<le> min_score) x else Some x);
          collect_while (sl_heap (zs_list z))
            (\<lambda>nd. \<not> (nd_score nd > max_score) \<and> \<not> (max_exclusive \<and> nd_score nd = max_score)) x }"

definition ZSet_ForEach :: "zset \<Rightarrow> (string \<times> score) list option" where
  "ZSet_ForEach z =
     do { x \<leftarrow> get_fwd (sl_heap (zs_list z)) header 0;
          nds \<leftarrow> collect_while (sl_heap (zs_list z)) (\<lambda>nd. True) x;
          Some (map (\<lambda>nd. (nd_member nd, nd_score nd)) nds) }"

end
