(* ===== verification/ZSet_Facts.thy ===== *)
theory ZSet_Facts
  imports ZSet
begin

section \<open>The ordered set as a finite map from members to scores\<close>

text \<open>
  \<open>zset_rep z f\<close>: the dictionary is the map \<open>f\<close> and the skip list holds exactly the keys
  \<open>(score, member)\<close> of \<open>f\<close>: the consistency of the two indexes.  \<open>zkeys f\<close> are these keys in
  order; every read is a function of them.
\<close>

definition zkey_set :: "(string \<rightharpoonup> score) \<Rightarrow> key set" where
  "zkey_set f = {(s, m). f m = Some s}"

definition zkeys :: "(string \<rightharpoonup> score) \<Rightarrow> key list" where
  "zkeys f = sorted_list_of_set (zkey_set f)"

definition zset_rep :: "zset \<Rightarrow> (string \<rightharpoonup> score) \<Rightarrow> bool" where
  "zset_rep z f \<longleftrightarrow> distinct (map fst (zs_index z)) \<and> map_of (zs_index z) = f
     \<and> sl_keys (zs_list z) (zkeys f)"

lemma zkey_set_image: "zkey_set f = (\<lambda>m. (the (f m), m)) ` dom f"
  by (force simp: zkey_set_def dom_def image_def)

lemma finite_zkey_set: "finite (dom f) \<Longrightarrow> finite (zkey_set f)"
  by (simp add: zkey_set_image)

lemma card_zkey_set: "card (zkey_set f) = card (dom f)"
  unfolding zkey_set_image by (rule card_image) (simp add: inj_on_def)

lemma zkeys_set: "finite (dom f) \<Longrightarrow> set (zkeys f) = zkey_set f"
  by (simp add: zkeys_def finite_zkey_set)

lemma zkeys_in: "finite (dom f) \<Longrightarrow> (s, m) \<in> set (zkeys f) \<longleftrightarrow> f m = Some s"
  by (simp add: zkeys_set zkey_set_def)

lemma zkeys_length: "length (zkeys f) = card (dom f)"
  by (simp add: zkeys_def card_zkey_set)

lemma zkeys_sorted: "sorted_wrt (<) (zkeys f)"
  by (simp add: zkeys_def strict_sorted_iff)

lemma zkeys_unique: "sorted_wrt (<) ks \<Longrightarrow> set ks = zkey_set f \<Longrightarrow> zkeys f = ks"
  unfolding zkeys_def by (metis sorted_list_of_set.idem_if_sorted_distinct strict_sorted_iff)

lemma zkeys_empty [simp]: "zkeys Map.empty = []"
  by (simp add: zkeys_def zkey_set_def)

lemma zkeys_insert:
  assumes "finite (dom f)" "f m = None"
  shows "insort (s, m) (zkeys f) = zkeys (f(m \<mapsto> s))"
proof -
  have "zkey_set (f(m \<mapsto> s)) = insert (s, m) (zkey_set f)" using assms(2) by (auto simp: zkey_set_def)
  moreover have "(s, m) \<notin> zkey_set f" using assms(2) by (simp add: zkey_set_def)
  ultimately show ?thesis using finite_zkey_set [OF assms(1)] by (simp add: zkeys_def)
qed

lemma zkeys_delete:
  assumes "finite (dom f)" "f m = Some s"
  shows "remove1 (s, m) (zkeys f) = zkeys (f(m := None))"
proof -
  have "zkey_set (f(m := None)) = zkey_set f - {(s, m)}" using assms(2) by (auto simp: zkey_set_def)
  then show ?thesis using finite_zkey_set [OF assms(1)] by (simp add: zkeys_def sorted_list_of_set_remove)
qed

lemma zset_rep_finite: "zset_rep z f \<Longrightarrow> finite (dom f)"
  by (metis zset_rep_def finite_dom_map_of)

lemma zset_rep_size: "zset_rep z f \<Longrightarrow> ZSet_Size z = card (dom f)"
proof -
  assume "zset_rep z f"
  then have "distinct (map fst (zs_index z))" "f = map_of (zs_index z)" by (simp_all add: zset_rep_def)
  then have d: "distinct (map fst (zs_index z))" "dom f = set (map fst (zs_index z))"
    by (simp_all add: dom_map_of_conv_image_fst)
  from distinct_card [OF d(1)] show ?thesis by (simp only: ZSet_Size_def d(2) length_map)
qed

lemma zset_rep_cap: "zset_rep z f \<Longrightarrow> card (dom f) \<le> sl_max"
  unfolding zset_rep_def zkeys_length [symmetric] by (blast dest: sl_keys_length)

lemma zset_rep_new: "zset_rep ZSet_new Map.empty"
  by (simp add: zset_rep_def ZSet_new_def sl_keys_new)

lemma zset_rep_upd:
  "distinct (map fst (zs_index z)) \<Longrightarrow> map_of (zs_index z) = f \<Longrightarrow> sl_keys l (zkeys (f(m \<mapsto> s))) \<Longrightarrow>
     zset_rep \<lparr>zs_index = AList.update m s (zs_index z), zs_list = l\<rparr> (f(m \<mapsto> s))"
  by (simp add: zset_rep_def distinct_update update_conv')

subsection \<open>Writes\<close>

text \<open>Moving a member to another score, by the law of the index.\<close>

lemma zset_move:
  assumes rep: "zset_rep z f" and old: "f m = Some old" and ne: "new \<noteq> old"
  shows "\<exists>b l1 l2. Delete old m (zs_list z) = Some (b, l1) \<and> InsertNew new m l1 r = Some (l2, snd (NextLevel r))
     \<and> sl_keys l2 (zkeys (f(m \<mapsto> new)))"
proof -
  note fin = zset_rep_finite [OF rep]
  have k: "sl_keys (zs_list z) (zkeys f)" using rep by (simp add: zset_rep_def)
  have "(old, m) \<in> set (zkeys f)" "(new, m) \<notin> set (zkeys f)" using old ne by (simp_all add: zkeys_in [OF fin])
  moreover have "length (zkeys f) \<le> sl_max" using sl_keys_length [OF k] by blast
  moreover have "insort (new, m) (remove1 (old, m) (zkeys f)) = zkeys (f(m \<mapsto> new))"
    using zkeys_delete [of f, OF fin old] zkeys_insert [of "f(m := None)" m new] fin by simp
  ultimately show ?thesis using sl.move [OF k, of old m new r] by simp
qed

lemma zset_insert:
  assumes rep: "zset_rep z f" and new: "f m = None" and cap: "card (dom f) < sl_max"
  shows "\<exists>l. InsertNew sc m (zs_list z) r = Some (l, snd (NextLevel r)) \<and> sl_keys l (zkeys (f(m \<mapsto> sc)))"
proof -
  note fin = zset_rep_finite [OF rep]
  have k: "sl_keys (zs_list z) (zkeys f)" using rep by (simp add: zset_rep_def)
  from sl.ins [OF k, of sc m r] show ?thesis
    using new cap zkeys_insert [OF fin new, of sc] by (simp add: zkeys_in [OF fin] zkeys_length)
qed

lemma zset_erase:
  assumes rep: "zset_rep z f" and old: "f m = Some s"
  shows "\<exists>l. Delete s m (zs_list z) = Some (True, l) \<and> sl_keys l (zkeys (f(m := None)))"
proof -
  note fin = zset_rep_finite [OF rep]
  have k: "sl_keys (zs_list z) (zkeys f)" using rep by (simp add: zset_rep_def)
  from sl.del [OF k, of s m] show ?thesis
    using old zkeys_delete [OF fin old] by (simp add: zkeys_in [OF fin])
qed

lemma ZSet_Add_rep:
  assumes rep: "zset_rep z f" and cap: "f m = None \<Longrightarrow> card (dom f) < sl_max"
  shows "\<exists>z' r'. ZSet_Add m sc z r = Some (f m = None, z', r') \<and> zset_rep z' (f(m \<mapsto> sc))"
proof -
  have i: "distinct (map fst (zs_index z))" "map_of (zs_index z) = f" using rep by (simp_all add: zset_rep_def)
  show ?thesis
  proof (cases "f m")
    case None
    from zset_insert [OF rep None cap [OF None], of sc r] obtain l where
      "InsertNew sc m (zs_list z) r = Some (l, snd (NextLevel r))" "sl_keys l (zkeys (f(m \<mapsto> sc)))" by blast
    then show ?thesis using i None zset_rep_upd [OF i] by (simp add: ZSet_Add_def)
  next
    case (Some old)
    show ?thesis
    proof (cases "old = sc")
      case True
      then have "f(m \<mapsto> sc) = f" using Some by auto
      then show ?thesis using i Some True rep by (simp add: ZSet_Add_def)
    next
      case False
      from zset_move [OF rep Some, of sc r] False obtain b l1 l2 where
        "Delete old m (zs_list z) = Some (b, l1)" "InsertNew sc m l1 r = Some (l2, snd (NextLevel r))"
        "sl_keys l2 (zkeys (f(m \<mapsto> sc)))" by blast
      then show ?thesis using i Some False zset_rep_upd [OF i] by (simp add: ZSet_Add_def)
    qed
  qed
qed

lemma ZSet_Remove_rep:
  assumes rep: "zset_rep z f"
  shows "\<exists>z'. ZSet_Remove m z = Some (f m \<noteq> None, z') \<and> zset_rep z' (f(m := None))"
proof -
  have i: "distinct (map fst (zs_index z))" "map_of (zs_index z) = f" using rep by (simp_all add: zset_rep_def)
  show ?thesis
  proof (cases "f m")
    case None
    then have "f(m := None) = f" by auto
    then show ?thesis using i None rep by (simp add: ZSet_Remove_def)
  next
    case (Some old)
    from zset_erase [OF rep Some] obtain l where
      "Delete old m (zs_list z) = Some (True, l)" "sl_keys l (zkeys (f(m := None)))" by blast
    then show ?thesis using i Some by (simp add: ZSet_Remove_def zset_rep_def distinct_delete delete_conv')
  qed
qed

definition incr_score :: "(string \<rightharpoonup> score) \<Rightarrow> string \<Rightarrow> rat \<Rightarrow> score" where
  "incr_score f m d = (case f m of None \<Rightarrow> Fin d | Some s \<Rightarrow> score_add s d)"

lemma ZSet_IncrBy_rep:
  assumes rep: "zset_rep z f" and cap: "f m = None \<Longrightarrow> card (dom f) < sl_max"
  shows "\<exists>z' r'. ZSet_IncrBy m d z r = Some (incr_score f m d, f m \<noteq> None, z', r')
     \<and> zset_rep z' (f(m \<mapsto> incr_score f m d))"
proof -
  have i: "distinct (map fst (zs_index z))" "map_of (zs_index z) = f" using rep by (simp_all add: zset_rep_def)
  show ?thesis
  proof (cases "f m")
    case None
    from zset_insert [OF rep None cap [OF None], of "Fin d" r] obtain l where
      "InsertNew (Fin d) m (zs_list z) r = Some (l, snd (NextLevel r))" "sl_keys l (zkeys (f(m \<mapsto> Fin d)))" by blast
    then show ?thesis using i None zset_rep_upd [OF i] by (simp add: ZSet_IncrBy_def incr_score_def)
  next
    case (Some old)
    let ?n = "score_add old d"
    show ?thesis
    proof (cases "?n = old")
      case True
      then have "f(m \<mapsto> ?n) = f" using Some by auto
      then show ?thesis using i Some True rep by (simp add: ZSet_IncrBy_def incr_score_def)
    next
      case False
      from zset_move [OF rep Some, of ?n r] False obtain b l1 l2 where
        "Delete old m (zs_list z) = Some (b, l1)" "InsertNew ?n m l1 r = Some (l2, snd (NextLevel r))"
        "sl_keys l2 (zkeys (f(m \<mapsto> ?n)))" by blast
      then show ?thesis using i Some False zset_rep_upd [OF i]
        by (simp add: ZSet_IncrBy_def incr_score_def Let_def)
    qed
  qed
qed

lemma ZSet_Clear_rep: "zset_rep z f \<Longrightarrow> \<exists>z'. ZSet_Clear z = Some z' \<and> zset_rep z' Map.empty"
  using SkipList_Clear_keys by (fastforce simp: zset_rep_def ZSet_Clear_def)

subsection \<open>Reads\<close>

lemma ZSet_GetScore_rep: "zset_rep z f \<Longrightarrow> ZSet_GetScore m z = f m"
  by (simp add: zset_rep_def ZSet_GetScore_def)

definition zrank :: "(string \<rightharpoonup> score) \<Rightarrow> string \<Rightarrow> nat option" where
  "zrank f m = map_option (\<lambda>s. card {k \<in> zkey_set f. k < (s, m)}) (f m)"

lemma sorted_takeWhile_card:
  assumes "sorted_wrt (<) (ks :: 'a :: linorder list)"
  shows "length (takeWhile (\<lambda>k. k < x) ks) = card {k \<in> set ks. k < x}"
proof -
  have "set (takeWhile (\<lambda>k. k < x) ks) = {k \<in> set ks. k < x}"
  proof -
    have "set ks = set (takeWhile (\<lambda>k. k < x) ks) \<union> set (dropWhile (\<lambda>k. k < x) ks)"
      by (metis set_append takeWhile_dropWhile_id)
    with sorted_splits(1) [where P = "\<lambda>k. k < x", OF assms] sorted_splits(2) [where P = "\<lambda>k. k < x", OF assms]
      less_down show ?thesis by blast
  qed
  moreover have "distinct (takeWhile (\<lambda>k. k < x) ks)"
    using assms by (intro distinct_takeWhile) (simp add: strict_sorted_iff)
  ultimately show ?thesis by (metis distinct_card)
qed

lemma ZSet_Rank_rep:
  assumes rep: "zset_rep z f"
  shows "ZSet_Rank m z = Some (map_option of_nat (zrank f m))"
proof -
  have k: "sl_keys (zs_list z) (zkeys f)" "map_of (zs_index z) = f" using rep by (simp_all add: zset_rep_def)
  note fin = zset_rep_finite [OF rep]
  show ?thesis
    using Rank_keys [OF k(1)] sorted_takeWhile_card [OF zkeys_sorted [of f]] k(2)
    by (auto simp: ZSet_Rank_def zrank_def zkeys_set [OF fin] split: option.splits)
       (auto simp: zkey_set_def)
qed

lemma ZSet_RangeByRank_rep:
  assumes rep: "zset_rep z f" and stop: "unat stop < 18446744073709551615"
  shows "\<exists>nds. ZSet_RangeByRank start stop z = Some nds \<and> map nkey nds =
     (if start \<le> stop then take (unat stop - unat start + 1) (drop (unat start) (zkeys f)) else [])"
proof -
  have k: "sl_keys (zs_list z) (zkeys f)" using rep by (simp add: zset_rep_def)
  have len: "unat (sl_length (zs_list z)) = length (zkeys f)" "length (zkeys f) \<le> sl_max"
    using sl_keys_length [OF k] by auto
  show ?thesis
  proof (cases "start > stop \<or> start \<ge> sl_length (zs_list z)")
    case True
    then show ?thesis using len(1) by (auto simp: ZSet_RangeByRank_def word_le_nat_alt word_less_nat_alt)
  next
    case False
    then have lt: "start \<le> stop" "unat start < length (zkeys f)"
      using len(1) by (auto simp: word_le_nat_alt [of _ start] not_less)
    have st: "unat (start + 1) = unat start + 1" using lt(2) len(2) by (intro unat_u64_Suc) simp
    have sp: "unat (stop + 1) = unat stop + 1" using stop by (intro unat_u64_Suc) simp
    have "start + 1 \<le> stop + 1" using lt(1) by (simp add: word_le_nat_alt st sp)
    with RangeByRank_keys [OF k, of "start + 1" "stop + 1"] lt False show ?thesis
      by (simp add: ZSet_RangeByRank_def st sp)
  qed
qed

lemma skip_while_chain:
  "chain h cs \<Longrightarrow> (\<And>nd. p nd = P (nkey nd)) \<Longrightarrow>
     skip_while h p (first_addr cs) = Some (first_addr (dropWhile (\<lambda>c. P (ck c)) cs))"
proof (induction cs)
  case Nil
  then show ?case by (subst skip_while.simps) simp
next
  case (Cons c cs)
  from chain_Cons [OF Cons.prems(1)] obtain nd where "chain h cs" "get_fwd h (ca c) 0 = Some (first_addr cs)"
    "h (ca c) = Some nd" "nkey nd = ck c" by blast
  moreover have "p nd = P (ck c)" using Cons.prems(2) [of nd] \<open>nkey nd = ck c\<close> by metis
  moreover have "skip_while h p (first_addr cs) = Some (first_addr (dropWhile (\<lambda>c. P (ck c)) cs))"
    using \<open>chain h cs\<close> Cons.prems(2) by (rule Cons.IH)
  ultimately show ?case by (subst skip_while.simps) simp
qed

lemma collect_while_chain:
  "chain h cs \<Longrightarrow> (\<And>nd. p nd = P (nkey nd)) \<Longrightarrow>
     \<exists>nds. collect_while h p (first_addr cs) = Some nds \<and> map nkey nds = takeWhile P (map ck cs)"
proof (induction cs)
  case Nil
  then show ?case by (subst collect_while.simps) simp
next
  case (Cons c cs)
  from chain_Cons [OF Cons.prems(1)] obtain nd where "chain h cs" "get_fwd h (ca c) 0 = Some (first_addr cs)"
    "h (ca c) = Some nd" "nkey nd = ck c" by blast
  moreover have "p nd = P (ck c)" using Cons.prems(2) [of nd] \<open>nkey nd = ck c\<close> by metis
  moreover obtain nds where "collect_while h p (first_addr cs) = Some nds" "map nkey nds = takeWhile P (map ck cs)"
    using Cons.IH [OF \<open>chain h cs\<close> Cons.prems(2)] by blast
  ultimately show ?case by (subst collect_while.simps) simp
qed

definition in_score_range :: "score \<Rightarrow> score \<Rightarrow> bool \<Rightarrow> bool \<Rightarrow> key \<Rightarrow> bool" where
  "in_score_range mn mx minx maxx k \<longleftrightarrow>
     (if minx then mn < fst k else mn \<le> fst k) \<and> (if maxx then fst k < mx else fst k \<le> mx)"

lemma sorted_filter_while:
  assumes "sorted_wrt (<) (ks :: 'a :: linorder list)"
    and down: "\<And>a b. a < b \<Longrightarrow> L b \<Longrightarrow> L a" and up: "\<And>a b. a < b \<Longrightarrow> U b \<Longrightarrow> U a"
  shows "takeWhile U (dropWhile L ks) = filter (\<lambda>k. \<not> L k \<and> U k) ks"
  using assms(1)
proof (induction ks)
  case (Cons a ks)
  show ?case
  proof (cases "L a")
    case True
    with Cons.IH Cons.prems show ?thesis by simp
  next
    case False
    have nl: "\<not> L b" if "b \<in> set ks" for b using Cons.prems that False down [of a b] by auto
    then have d: "dropWhile L ks = ks" by (cases ks) auto
    show ?thesis
    proof (cases "U a")
      case True
      with False d Cons.IH Cons.prems show ?thesis by simp
    next
      case u: False
      have "\<not> U b" if "b \<in> set ks" for b using Cons.prems that u up [of a b] by auto
      then have "filter (\<lambda>k. \<not> L k \<and> U k) ks = []" by (simp add: filter_empty_conv)
      with False u show ?thesis by simp
    qed
  qed
qed simp

lemma ZSet_RangeByScore_rep:
  assumes rep: "zset_rep z f"
  shows "\<exists>nds. ZSet_RangeByScore mn mx minx maxx z = Some nds
     \<and> map nkey nds = filter (in_score_range mn mx minx maxx) (zkeys f)"
proof -
  have k: "sl_keys (zs_list z) (zkeys f)" using rep by (simp add: zset_rep_def)
  let ?h = "sl_heap (zs_list z)"
  let ?U = "\<lambda>k :: key. \<not> (fst k > mx) \<and> \<not> (maxx \<and> fst k = mx)"
  let ?L = "\<lambda>k :: key. if minx then fst k \<le> mn else fst k < mn"
  from LowerBoundByScore_keys [OF k, of mn] obtain x where
    x: "LowerBoundByScore mn (zs_list z) = Some x" "at_keys (zs_list z) x (dropWhile (\<lambda>k. fst k < mn) (zkeys f))"
    by blast
  then obtain cs where cs: "chain ?h cs" "first_addr cs = x" "map ck cs = dropWhile (\<lambda>k. fst k < mn) (zkeys f)"
    by (auto simp: at_keys_def)
  define ds where "ds = (if minx then dropWhile (\<lambda>c. fst (ck c) \<le> mn) cs else cs)"
  have s: "(if minx then skip_while ?h (\<lambda>nd. nd_score nd \<le> mn) x else Some x) = Some (first_addr ds)"
    using skip_while_chain [OF cs(1), of "\<lambda>nd. nd_score nd \<le> mn" "\<lambda>k. fst k \<le> mn"] cs(2) by (simp add: ds_def)
  have "\<exists>as. cs = as @ ds" unfolding ds_def by (metis append_Nil takeWhile_dropWhile_id)
  then have cd: "chain ?h ds" using cs(1) chain_cut by blast
  have "dropWhile (\<lambda>k. fst k \<le> mn) (dropWhile (\<lambda>k. fst k < mn) ks) = dropWhile (\<lambda>k. fst k \<le> mn) ks"
    for ks :: "key list"
    by (induction ks) (auto simp: less_imp_le)
  moreover have "map ck (dropWhile (\<lambda>c. fst (ck c) \<le> mn) cs) = dropWhile (\<lambda>k. fst k \<le> mn) (map ck cs)"
    by (simp add: dropWhile_map comp_def)
  ultimately have "map ck ds = dropWhile ?L (zkeys f)" using cs(3) by (simp add: ds_def)
  moreover from collect_while_chain [OF cd, of "\<lambda>nd. \<not> (nd_score nd > mx) \<and> \<not> (maxx \<and> nd_score nd = mx)" ?U]
  obtain nds where nds: "collect_while ?h (\<lambda>nd. \<not> (nd_score nd > mx) \<and> \<not> (maxx \<and> nd_score nd = mx)) (first_addr ds) = Some nds"
    "map nkey nds = takeWhile ?U (map ck ds)" by auto
  moreover have "takeWhile ?U (dropWhile ?L (zkeys f)) = filter (\<lambda>k. \<not> ?L k \<and> ?U k) (zkeys f)"
    by (rule sorted_filter_while [OF zkeys_sorted]) (auto simp: less_prod_def' split: if_splits)
  moreover have "(\<lambda>k. \<not> ?L k \<and> ?U k) = in_score_range mn mx minx maxx"
    by (intro ext) (auto simp: in_score_range_def)
  ultimately have "map nkey nds = filter (in_score_range mn mx minx maxx) (zkeys f)" by simp
  moreover have "ZSet_RangeByScore mn mx minx maxx z = Some nds"
    using x(1) s nds(1) by (simp add: ZSet_RangeByScore_def)
  ultimately show ?thesis by blast
qed

lemma ZSet_ForEach_rep:
  assumes rep: "zset_rep z f"
  shows "ZSet_ForEach z = Some (map (\<lambda>(s, m). (m, s)) (zkeys f))"
proof -
  have k: "sl_keys (zs_list z) (zkeys f)" using rep by (simp add: zset_rep_def)
  from first_keys [OF k] obtain x where x: "get_fwd (sl_heap (zs_list z)) 0 0 = Some x"
    "at_keys (zs_list z) x (zkeys f)" by blast
  then obtain cs where cs: "chain (sl_heap (zs_list z)) cs" "first_addr cs = x" "map ck cs = zkeys f"
    by (auto simp: at_keys_def)
  from collect_while_chain [OF cs(1), of "\<lambda>nd. True" "\<lambda>k. True"] obtain nds where
    nds: "collect_while (sl_heap (zs_list z)) (\<lambda>nd. True) x = Some nds" "map nkey nds = zkeys f"
    using cs(2,3) by (auto simp: takeWhile_eq_all_conv [THEN iffD2])
  have "map (\<lambda>nd. (nd_member nd, nd_score nd)) nds = map (\<lambda>(s, m). (m, s)) (zkeys f)"
    unfolding nds(2) [symmetric] by simp
  with x(1) nds(1) show ?thesis by (simp add: ZSet_ForEach_def)
qed

end
