(* ===== verification/Resp.thy ===== *)
theory Resp
  imports RL_Prelude
begin

section \<open>RESP2: encoding, integer parsing and the incremental parser (src/resp.cpp)\<close>

text \<open>
  The encoders append to an output string, as in the code.  The parser keeps its buffer and its
  cursor: \<open>RespParser_Next\<close> returns what \<open>RespParser::Next\<close> returns (false, a command, or a
  thrown \<open>ProtocolException\<close>) together with the parser after the call, so that every path that
  moves the cursor, the exceptional ones included, is visible.  Offsets are those of the code
  (positions in the whole buffer).  A C++ exception is the value \<open>PThrow\<close> / \<open>NextThrow\<close>.
\<close>

subsection \<open>Encoders\<close>

abbreviation CR :: char where "CR \<equiv> CHR 0x0D"
abbreviation LF :: char where "LF \<equiv> CHR 0x0A"
abbreviation kCRLF :: string where "kCRLF \<equiv> [CR, LF]"

definition EncodeSimpleString :: "string \<Rightarrow> string \<Rightarrow> string" where
  "EncodeSimpleString s out = out @ ''+'' @ s @ kCRLF"

definition EncodeError :: "string \<Rightarrow> string \<Rightarrow> string" where
  "EncodeError msg out = out @ ''-'' @ msg @ kCRLF"

definition EncodeInteger :: "int \<Rightarrow> string \<Rightarrow> string" where
  "EncodeInteger v out = out @ '':'' @ dec_of_int v @ kCRLF"

definition EncodeBulkString :: "string \<Rightarrow> string \<Rightarrow> string" where
  "EncodeBulkString s out = out @ ''$'' @ dec_of_nat (length s) @ kCRLF @ s @ kCRLF"

definition EncodeNullBulk :: "string \<Rightarrow> string" where
  "EncodeNullBulk out = out @ ''$-1'' @ kCRLF"

definition EncodeArrayHeader :: "nat \<Rightarrow> string \<Rightarrow> string" where
  "EncodeArrayHeader n out = out @ ''*'' @ dec_of_nat n @ kCRLF"

definition EncodeCommand :: "string list \<Rightarrow> string \<Rightarrow> string" where
  "EncodeCommand args out = foldl (\<lambda>acc a. EncodeBulkString a acc) (EncodeArrayHeader (length args) out) args"

subsection \<open>ParseInt64 and ToLowerAscii\<close>

text \<open>
  The digit loop of \<open>ParseInt64\<close>: the accumulator is a \<open>uint64_t\<close>, and \<open>acc * 10 + digit\<close> is
  taken modulo $2^{64}$ before it is compared with \<open>INT64_MAX\<close>.
\<close>

fun ParseInt64_loop :: "bool \<Rightarrow> string \<Rightarrow> u64 \<Rightarrow> u64 option" where
  "ParseInt64_loop neg [] acc = Some acc"
| "ParseInt64_loop neg (c # cs) acc =
     (if \<not> is_digit c then None
      else let acc' = acc * 10 + of_nat (digit_val c) in
        if acc' > 9223372036854775807
        then (if neg \<and> acc' = 9223372036854775807 + 1 then ParseInt64_loop neg cs acc' else None)
        else ParseInt64_loop neg cs acc')"

definition ParseInt64 :: "string \<Rightarrow> int option" where
  "ParseInt64 data =
     (let len = length data in
      if len = 0 \<or> len > 20 then None
      else if data ! 0 = CHR ''-'' then
        (if len = 1 then None
         else case ParseInt64_loop True (drop 1 data) 0 of
             None \<Rightarrow> None
           | Some acc \<Rightarrow> if acc = 9223372036854775807 + 1 then Some INT64_MIN
                         else Some (- sint acc))
      else if data ! 0 = CHR ''+'' then
        (if len = 1 then None
         else case ParseInt64_loop False (drop 1 data) 0 of
             None \<Rightarrow> None | Some acc \<Rightarrow> Some (sint acc))
      else (case ParseInt64_loop False data 0 of
             None \<Rightarrow> None | Some acc \<Rightarrow> Some (sint acc)))"

definition lower_char :: "char \<Rightarrow> char" where
  "lower_char c = (if 65 \<le> cval c \<and> cval c \<le> 90 then char_of (cval c - 65 + 97) else c)"

definition ToLowerAscii :: "string \<Rightarrow> string" where
  "ToLowerAscii s = map lower_char s"

subsection \<open>The parser\<close>

text \<open>\<open>FindCRLF\<close>: the first offset \<open>i \<ge> start\<close> of a CRLF in the whole buffer.\<close>

function FindCRLF :: "string \<Rightarrow> nat \<Rightarrow> nat option" where
  "FindCRLF d i =
     (if i + 1 < length d
      then if d ! i = CR \<and> d ! (i + 1) = LF then Some i else FindCRLF d (i + 1)
      else None)"
  by pat_completeness auto
termination
  by (relation "measure (\<lambda>(d, i). length d - i)") auto

declare FindCRLF.simps [simp del]

record resp_parser =
  buf :: string
  pos :: nat

definition parser_new :: resp_parser where
  "parser_new = \<lparr>buf = [], pos = 0\<rparr>"

abbreviation kMaxInlineSize :: nat where "kMaxInlineSize \<equiv> 65536"
abbreviation kMaxBulkSize :: int where "kMaxBulkSize \<equiv> 536870912"
abbreviation kMaxArgc :: int where "kMaxArgc \<equiv> 1048576"

definition RespParser_Append :: "string \<Rightarrow> resp_parser \<Rightarrow> resp_parser" where
  "RespParser_Append data p = (if length data = 0 then p else p\<lparr>buf := buf p @ data\<rparr>)"

definition buffered :: "resp_parser \<Rightarrow> nat" where
  "buffered p = length (buf p) - pos p"

definition Ensure :: "string \<Rightarrow> nat \<Rightarrow> nat \<Rightarrow> bool" where
  "Ensure b ps n \<longleftrightarrow> length b - ps \<ge> n"

abbreviation substr :: "string \<Rightarrow> nat \<Rightarrow> nat \<Rightarrow> string" where
  "substr b i n \<equiv> take n (drop i b)"

text \<open>
  The outcome of parsing one value at a cursor: an exception, too little data (the cursor does not
  move), or a value with the cursor after it.
\<close>

datatype 'a pres = PThrow string | PMore | PGot 'a nat

definition ParseValue :: "string \<Rightarrow> nat \<Rightarrow> nat \<Rightarrow> string pres" where
  "ParseValue b ps depth =
     (if depth > 8 then PThrow ''nested array too deep''
      else if \<not> Ensure b ps 1 then PMore
      else if b ! ps = CHR ''+'' then
        (case FindCRLF b (ps + 1) of
           None \<Rightarrow> PMore
         | Some off \<Rightarrow> PGot (substr b (ps + 1) (off - ps - 1)) (off + 2))
      else if b ! ps = CHR ''$'' then
        (case FindCRLF b (ps + 1) of
           None \<Rightarrow> PMore
         | Some off \<Rightarrow>
           (case ParseInt64 (substr b (ps + 1) (off - ps - 1)) of
              None \<Rightarrow> PThrow ''invalid bulk length''
            | Some len \<Rightarrow>
              if len < -1 \<or> len > kMaxBulkSize then PThrow ''bulk length out of range''
              else let header = off + 2 in
                if len = -1 then PGot [] header
                else let total = nat len + 2 in
                  if length b - header < total then PMore
                  else if b ! (header + nat len) \<noteq> CR \<or> b ! (header + nat len + 1) \<noteq> LF
                  then PThrow ''bulk not terminated by CRLF''
                  else PGot (substr b header (nat len)) (header + total)))
      else if b ! ps = CHR '':'' then
        (case FindCRLF b (ps + 1) of
           None \<Rightarrow> PMore
         | Some off \<Rightarrow>
           (case ParseInt64 (substr b (ps + 1) (off - ps - 1)) of
              None \<Rightarrow> PThrow ''invalid integer''
            | Some v \<Rightarrow> PGot (dec_of_int v) (off + 2)))
      else PThrow ''unsupported RESP type for inline parse'')"

text \<open>
  The element loop of \<open>Next\<close>: the result carries the cursor at which it stopped, because an
  exception leaves the cursor at the element that threw.
\<close>

datatype elems_res = EThrow string nat | EMore | EGot "string list" nat

fun parse_elems :: "string \<Rightarrow> nat \<Rightarrow> nat \<Rightarrow> elems_res" where
  "parse_elems b 0 ps = EGot [] ps"
| "parse_elems b (Suc n) ps =
     (case ParseValue b ps 0 of
        PThrow e \<Rightarrow> EThrow e ps
      | PMore \<Rightarrow> EMore
      | PGot a ps' \<Rightarrow>
          (case parse_elems b n ps' of
             EGot as ps'' \<Rightarrow> EGot (a # as) ps''
           | r \<Rightarrow> r))"

text \<open>Splitting of an inline command on blanks and tabs.\<close>

definition is_blank :: "char \<Rightarrow> bool" where
  "is_blank c \<longleftrightarrow> c = CHR '' '' \<or> c = CHR 0x09"

function split_inline :: "string \<Rightarrow> string list" where
  "split_inline line =
     (let rest = dropWhile is_blank line in
      if rest = [] then []
      else takeWhile (\<lambda>c. \<not> is_blank c) rest
             # split_inline (dropWhile (\<lambda>c. \<not> is_blank c) rest))"
  by pat_completeness auto
termination
proof (relation "measure length")
  fix line x :: string
  assume x: "x = dropWhile is_blank line" and ne: "x \<noteq> []"
  then have "\<not> is_blank (hd x)" using hd_dropWhile by blast
  with ne have "length (dropWhile (\<lambda>c. \<not> is_blank c) x) < length x"
    by (cases x) (auto simp: le_imp_less_Suc length_dropWhile_le)
  also have "\<dots> \<le> length line" by (simp add: x length_dropWhile_le)
  finally show "(dropWhile (\<lambda>c. \<not> is_blank c) x, line) \<in> measure length" by simp
qed simp

declare split_inline.simps [simp del]

datatype next_result = NextThrow string | NextFalse | NextCmd "string list"

definition RespParser_Next :: "resp_parser \<Rightarrow> next_result \<times> resp_parser" where
  "RespParser_Next p =
     (let b = buf p; ps = pos p in
      if \<not> Ensure b ps 1 then (NextFalse, p)
      else if b ! ps \<noteq> CHR ''*'' then
        (case FindCRLF b ps of
           None \<Rightarrow> if buffered p > kMaxInlineSize
                   then (NextThrow ''inline command too long'', p)
                   else (NextFalse, p)
         | Some off \<Rightarrow>
             let args = split_inline (substr b ps (off - ps)); p' = p\<lparr>pos := off + 2\<rparr> in
             if args = [] then (NextFalse, p') else (NextCmd args, p'))
      else
        (case FindCRLF b (ps + 1) of
           None \<Rightarrow> (NextFalse, p)
         | Some off \<Rightarrow>
           (case ParseInt64 (substr b (ps + 1) (off - ps - 1)) of
              None \<Rightarrow> (NextThrow ''invalid multibulk length'', p)
            | Some argc \<Rightarrow>
              if argc \<le> 0 then (NextCmd [], p\<lparr>pos := off + 2\<rparr>)
              else if argc > kMaxArgc then (NextThrow ''multibulk length out of range'', p)
              else (case parse_elems b (nat argc) (off + 2) of
                      EThrow e ps' \<Rightarrow> (NextThrow e, p\<lparr>pos := ps'\<rparr>)
                    | EMore \<Rightarrow> (NextFalse, p)
                    | EGot args ps' \<Rightarrow> (NextCmd args, p\<lparr>pos := ps'\<rparr>)))))"

text \<open>\<open>SkipValue\<close>: it moves the cursor over the header and the elements it has skipped even when
  the last one is incomplete.  The result is the outcome and the cursor.\<close>

datatype skip_res = SThrow string nat | SFalse nat | STrue nat

text \<open>The recursion depth is bounded by the \<open>depth > 8\<close> check, which is the measure.\<close>

function SkipValue :: "string \<Rightarrow> nat \<Rightarrow> nat \<Rightarrow> skip_res"
and skip_elems :: "string \<Rightarrow> nat \<Rightarrow> nat \<Rightarrow> nat \<Rightarrow> skip_res" where
  "SkipValue b depth ps =
     (if depth > 8 then SThrow ''nested array too deep'' ps
      else if \<not> Ensure b ps 1 then SFalse ps
      else if b ! ps = CHR ''*'' then
        (case FindCRLF b (ps + 1) of
           None \<Rightarrow> SFalse ps
         | Some off \<Rightarrow>
           (case ParseInt64 (substr b (ps + 1) (off - ps - 1)) of
              None \<Rightarrow> SThrow ''invalid multibulk length'' ps
            | Some n \<Rightarrow> if n < 0 then SThrow ''invalid multibulk length'' ps
                       else skip_elems b depth (nat n) (off + 2)))
      else (case ParseValue b ps depth of
              PThrow e \<Rightarrow> SThrow e ps
            | PMore \<Rightarrow> SFalse ps
            | PGot v ps' \<Rightarrow> STrue ps'))"
| "skip_elems b depth 0 ps = STrue ps"
| "skip_elems b depth (Suc n) ps =
     (case SkipValue b (depth + 1) ps of
        STrue ps' \<Rightarrow> skip_elems b depth n ps'
      | r \<Rightarrow> r)"
  by pat_completeness auto
termination
  by (relation "measures [\<lambda>x. case x of Inl (b, d, p) \<Rightarrow> 10 - d | Inr (b, d, n, p) \<Rightarrow> 9 - d,
       \<lambda>x. case x of Inl _ \<Rightarrow> 0 | Inr (b, d, n, p) \<Rightarrow> n]") auto

end
