(* ===== verification/Store.thy ===== *)
theory Store
  imports ZSet_Facts Resp
begin

unbundle bit_operations_syntax

section \<open>The sharded key space (src/store.cpp, include/rl/store.h)\<close>

text \<open>
  Values, entries, shards and the operations of \<open>Store\<close>.  A hash map is an association list with
  distinct keys; where the code iterates over it the order of the list is one of the orders the
  code may show.  A \<open>ZSet\<close> is held by \<open>shared_ptr\<close>: a value carries a reference into a heap of
  ordered sets, so that two copies of a value share it.  \<open>NowMs()\<close>, the monotonic clock read at
  the start of an operation, is the argument \<open>now\<close>.  An operation runs under the lock of its
  shard: it is one atomic step of the model.
\<close>

datatype ValueType = kString | kInt | kZSet | kNone

datatype rvalue = VNone | VString string | VInt int | VZSet nat

fun value_type :: "rvalue \<Rightarrow> ValueType" where
  "value_type VNone = kNone"
| "value_type (VString s) = kString"
| "value_type (VInt n) = kInt"
| "value_type (VZSet r) = kZSet"

fun ValueTypeName :: "ValueType \<Rightarrow> string" where
  "ValueTypeName kString = ''string''"
| "ValueTypeName kInt = ''string''"
| "ValueTypeName kZSet = ''zset''"
| "ValueTypeName kNone = ''none''"

fun AsString :: "rvalue \<Rightarrow> string" where
  "AsString (VString s) = s"
| "AsString (VInt n) = dec_of_int n"
| "AsString v = []"

record entry =
  en_value :: rvalue
  expire_at_ms :: int

definition HasExpire :: "entry \<Rightarrow> bool" where
  "HasExpire e \<longleftrightarrow> expire_at_ms e \<noteq> 0"

definition IsExpired :: "int \<Rightarrow> entry \<Rightarrow> bool" where
  "IsExpired now e \<longleftrightarrow> expire_at_ms e \<noteq> 0 \<and> expire_at_ms e \<le> now"

record shard =
  sh_map :: "(string \<times> entry) list"
  ttl_keys :: "string list"
  ttl_scan_cursor :: nat

record store =
  shards :: "shard list"
  shard_mask :: u64
  key_count :: int
  expires_count :: int
  zheap :: "nat \<Rightarrow> zset option"
  znext :: nat

definition empty_shard :: shard where
  "empty_shard = \<lparr>sh_map = [], ttl_keys = [], ttl_scan_cursor = 0\<rparr>"

subsection \<open>Hashing and shards\<close>

text \<open>FNV-1a on 64 bits.\<close>

definition HashKey :: "string \<Rightarrow> u64" where
  "HashKey key = foldl (\<lambda>h c. (h XOR of_nat (cval c)) * 1099511628211) 1469598103934665603 key"

definition GetShard :: "store \<Rightarrow> string \<Rightarrow> nat" where
  "GetShard st key = unat (HashKey key AND shard_mask st)"

abbreviation the_shard :: "store \<Rightarrow> string \<Rightarrow> shard" where
  "the_shard st key \<equiv> shards st ! GetShard st key"

definition lookup :: "store \<Rightarrow> string \<Rightarrow> entry option" where
  "lookup st key = map_of (sh_map (the_shard st key)) key"

definition set_shard :: "string \<Rightarrow> shard \<Rightarrow> store \<Rightarrow> store" where
  "set_shard key sh st = st\<lparr>shards := (shards st)[GetShard st key := sh]\<rparr>"

definition AddTtlKey :: "string \<Rightarrow> shard \<Rightarrow> shard" where
  "AddTtlKey key sh = sh\<lparr>ttl_keys := ttl_keys sh @ [key]\<rparr>"

text \<open>\<open>v[i] = std::move(v.back()); v.pop_back();\<close>\<close>

definition swap_pop :: "'a list \<Rightarrow> nat \<Rightarrow> 'a list" where
  "swap_pop xs i = butlast (xs[i := last xs])"

fun find_index :: "string \<Rightarrow> string list \<Rightarrow> nat \<Rightarrow> nat option" where
  "find_index key [] i = None"
| "find_index key (x # xs) i = (if x = key then Some i else find_index key xs (i + 1))"

definition RemoveTtlKey :: "string \<Rightarrow> shard \<Rightarrow> shard" where
  "RemoveTtlKey key sh =
     (case find_index key (ttl_keys sh) 0 of
        None \<Rightarrow> sh
      | Some i \<Rightarrow>
          let ks = swap_pop (ttl_keys sh) i in
          sh\<lparr>ttl_keys := ks,
             ttl_scan_cursor := (if ttl_scan_cursor sh \<ge> length ks then 0 else ttl_scan_cursor sh)\<rparr>)"

subsection \<open>Initialisation\<close>

text \<open>\<open>while (n < shard_count) n <<= 1\<close> on \<open>size_t\<close>; above $2^{63}$ it would not end.\<close>

partial_function (option) round_pow2 :: "u64 \<Rightarrow> u64 \<Rightarrow> u64 option" where
  "round_pow2 c n = (if n < c then round_pow2 c (push_bit 1 n) else Some n)"

declare round_pow2.simps [code]

definition Store_Init :: "u64 \<Rightarrow> store option" where
  "Store_Init shard_count =
     do { n \<leftarrow> round_pow2 (if shard_count < 1 then 1 else shard_count) 1;
          Some \<lparr>shards = replicate (unat n) empty_shard, shard_mask = n - 1,
                key_count = 0, expires_count = 0, zheap = (\<lambda>_. None), znext = 0\<rparr> }"

subsection \<open>The blocks the operations share\<close>

text \<open>Lazy expiry: \<open>map.erase(it); RemoveTtlKey(sh, key); key_count.fetch_sub(1)\<close>.\<close>

definition evict :: "string \<Rightarrow> store \<Rightarrow> store" where
  "evict key st =
     (let sh = the_shard st key;
          sh = sh\<lparr>sh_map := AList.delete key (sh_map sh)\<rparr>
      in (set_shard key (RemoveTtlKey key sh) st)\<lparr>key_count := key_count st - 1\<rparr>)"

text \<open>Erasing a live entry: the TTL index is touched, and counted, only if the entry had a TTL.\<close>

definition drop_ttl :: "string \<Rightarrow> store \<Rightarrow> store" where
  "drop_ttl key st =
     (let sh = the_shard st key; before_size = length (ttl_keys sh); sh' = RemoveTtlKey key sh in
      (set_shard key sh' st)
        \<lparr>expires_count := (if length (ttl_keys sh') \<noteq> before_size then expires_count st - 1 else expires_count st)\<rparr>)"

definition erase :: "string \<Rightarrow> entry \<Rightarrow> store \<Rightarrow> store" where
  "erase key e st =
     (let sh = the_shard st key;
          st = (set_shard key (sh\<lparr>sh_map := AList.delete key (sh_map sh)\<rparr>) st)\<lparr>key_count := key_count st - 1\<rparr>
      in if HasExpire e then drop_ttl key st else st)"

definition add_ttl :: "string \<Rightarrow> store \<Rightarrow> store" where
  "add_ttl key st =
     (set_shard key (AddTtlKey key (the_shard st key)) st)\<lparr>expires_count := expires_count st + 1\<rparr>"

text \<open>\<open>map.emplace(key, e); key_count.fetch_add(1)\<close> for an absent key, and assignment to the
  entry of a present one.\<close>

definition emplace :: "string \<Rightarrow> entry \<Rightarrow> store \<Rightarrow> store" where
  "emplace key e st =
     (let sh = the_shard st key in
      (set_shard key (sh\<lparr>sh_map := AList.update key e (sh_map sh)\<rparr>) st)\<lparr>key_count := key_count st + 1\<rparr>)"

definition assign :: "string \<Rightarrow> entry \<Rightarrow> store \<Rightarrow> store" where
  "assign key e st =
     (let sh = the_shard st key in set_shard key (sh\<lparr>sh_map := AList.update key e (sh_map sh)\<rparr>) st)"

text \<open>\<open>find\<close>, with an expired entry evicted: what every operation but \<open>Del\<close>, \<open>SetRaw\<close> and
  \<open>RemoveIfEmptyZSet\<close> starts with.\<close>

definition find_live :: "int \<Rightarrow> string \<Rightarrow> store \<Rightarrow> entry option \<times> store" where
  "find_live now key st =
     (case lookup st key of
        None \<Rightarrow> (None, st)
      | Some e \<Rightarrow> if IsExpired now e then (None, evict key st) else (Some e, st))"

subsection \<open>Reads\<close>

definition Store_Get :: "int \<Rightarrow> string \<Rightarrow> store \<Rightarrow> rvalue option \<times> store" where
  "Store_Get now key st =
     (case find_live now key st of
        (None, st') \<Rightarrow> (None, st')
      | (Some e, st') \<Rightarrow> (Some (en_value e), st'))"

definition Store_Exists :: "int \<Rightarrow> string \<Rightarrow> store \<Rightarrow> bool \<times> store" where
  "Store_Exists now key st = (let (v, st') = Store_Get now key st in (v \<noteq> None, st'))"

definition Store_TypeOf :: "int \<Rightarrow> string \<Rightarrow> store \<Rightarrow> ValueType \<times> store" where
  "Store_TypeOf now key st =
     (case Store_Get now key st of
        (None, st') \<Rightarrow> (kNone, st')
      | (Some v, st') \<Rightarrow> (value_type v, st'))"

definition Store_TtlMs :: "int \<Rightarrow> string \<Rightarrow> store \<Rightarrow> int \<times> store" where
  "Store_TtlMs now key st =
     (case find_live now key st of
        (None, st') \<Rightarrow> (-2, st')
      | (Some e, st') \<Rightarrow>
          if \<not> HasExpire e then (-1, st')
          else let remain = i64 (expire_at_ms e - now) in (if remain < 0 then 0 else remain, st'))"

datatype zget = ZMissing | ZWrongType | ZRef nat

definition Store_GetZSet :: "int \<Rightarrow> string \<Rightarrow> store \<Rightarrow> zget \<times> store" where
  "Store_GetZSet now key st =
     (case find_live now key st of
        (None, st') \<Rightarrow> (ZMissing, st')
      | (Some e, st') \<Rightarrow>
          (case en_value e of VZSet r \<Rightarrow> (ZRef r, st') | _ \<Rightarrow> (ZWrongType, st')))"

definition Store_GetOrCreateZSet :: "int \<Rightarrow> string \<Rightarrow> store \<Rightarrow> zget \<times> store" where
  "Store_GetOrCreateZSet now key st =
     (case find_live now key st of
        (Some e, st') \<Rightarrow>
          (case en_value e of VZSet r \<Rightarrow> (ZRef r, st') | _ \<Rightarrow> (ZWrongType, st'))
      | (None, st') \<Rightarrow>
          let r = znext st';
              st' = st'\<lparr>zheap := (zheap st')(r \<mapsto> ZSet_new), znext := r + 1\<rparr>
          in (ZRef r, emplace key \<lparr>en_value = VZSet r, expire_at_ms = 0\<rparr> st'))"

definition RemoveIfEmptyZSet :: "string \<Rightarrow> store \<Rightarrow> store" where
  "RemoveIfEmptyZSet key st =
     (case lookup st key of
        None \<Rightarrow> st
      | Some e \<Rightarrow>
          (case en_value e of
             VZSet r \<Rightarrow>
               (case zheap st r of
                  None \<Rightarrow> st
                | Some z \<Rightarrow> if ZSet_Size z \<noteq> 0 then st else erase key e st)
           | _ \<Rightarrow> st))"

subsection \<open>Writes\<close>

datatype SetResult = kOk | kNotSetNx | kNotSetXx

record SetOptions =
  so_nx :: bool
  so_xx :: bool
  so_keep_ttl :: bool
  so_has_expire :: bool
  so_expire_at_ms :: int

definition default_opts :: SetOptions where
  "default_opts = \<lparr>so_nx = False, so_xx = False, so_keep_ttl = False, so_has_expire = False,
                   so_expire_at_ms = 0\<rparr>"

definition Store_Set :: "int \<Rightarrow> string \<Rightarrow> rvalue \<Rightarrow> SetOptions \<Rightarrow> store \<Rightarrow> SetResult \<times> store" where
  "Store_Set now key v opts st =
     (let (found, st) = find_live now key st in
      if so_nx opts \<and> found \<noteq> None then (kNotSetNx, st)
      else if so_xx opts \<and> found = None then (kNotSetXx, st)
      else
        let expire_at =
              (if so_has_expire opts then so_expire_at_ms opts
               else case found of
                      Some e \<Rightarrow> if so_keep_ttl opts then expire_at_ms e else 0
                    | None \<Rightarrow> 0);
            e' = \<lparr>en_value = v, expire_at_ms = expire_at\<rparr>
        in case found of
             None \<Rightarrow>
               let st = emplace key e' st in (kOk, if expire_at \<noteq> 0 then add_ttl key st else st)
           | Some e \<Rightarrow>
               let st = assign key e' st in
               (kOk, if \<not> HasExpire e \<and> HasExpire e' then add_ttl key st
                     else if HasExpire e \<and> \<not> HasExpire e' then drop_ttl key st
                     else st))"

definition Store_SetRaw :: "string \<Rightarrow> rvalue \<Rightarrow> int \<Rightarrow> store \<Rightarrow> store" where
  "Store_SetRaw key v expire_at st =
     (let e' = \<lparr>en_value = v, expire_at_ms = expire_at\<rparr>;
          st = (if lookup st key \<noteq> None then assign key e' st else emplace key e' st);
          sh = the_shard st key
      in if expire_at \<noteq> 0 \<and> key \<notin> set (ttl_keys sh) then set_shard key (AddTtlKey key sh) st else st)"

definition Store_Del :: "string \<Rightarrow> store \<Rightarrow> bool \<times> store" where
  "Store_Del key st =
     (case lookup st key of
        None \<Rightarrow> (False, st)
      | Some e \<Rightarrow> (True, erase key e st))"

fun Store_DelMulti :: "string list \<Rightarrow> store \<Rightarrow> int \<times> store" where
  "Store_DelMulti [] st = (0, st)"
| "Store_DelMulti (k # ks) st =
     (let (b, st) = Store_Del k st; (n, st) = Store_DelMulti ks st in ((if b then n + 1 else n), st))"

text \<open>The result is the pair \<open>(changed, removed)\<close> of \<open>ExpireResult\<close>.\<close>

definition Store_ExpireAt :: "int \<Rightarrow> string \<Rightarrow> int \<Rightarrow> store \<Rightarrow> (bool \<times> bool) \<times> store" where
  "Store_ExpireAt now key t st =
     (case find_live now key st of
        (None, st) \<Rightarrow> ((False, True), st)
      | (Some e, st) \<Rightarrow>
          if t \<noteq> 0 \<and> t \<le> now then ((True, True), erase key e st)
          else
            let e' = e\<lparr>expire_at_ms := t\<rparr>; st = assign key e' st in
            ((True, False),
             if \<not> HasExpire e \<and> HasExpire e' then add_ttl key st
             else if HasExpire e \<and> \<not> HasExpire e'
             then (set_shard key (RemoveTtlKey key (the_shard st key)) st)\<lparr>expires_count := expires_count st - 1\<rparr>
             else st))"

definition Store_IncrBy :: "int \<Rightarrow> string \<Rightarrow> int \<Rightarrow> store \<Rightarrow> int option \<times> store" where
  "Store_IncrBy now key delta st =
     (case find_live now key st of
        (None, st) \<Rightarrow> (Some delta, emplace key \<lparr>en_value = VInt delta, expire_at_ms = 0\<rparr> st)
      | (Some e, st) \<Rightarrow>
          (case (case en_value e of VInt n \<Rightarrow> Some n | v \<Rightarrow> ParseInt64 (AsString v)) of
             None \<Rightarrow> (None, st)
           | Some cur \<Rightarrow>
               if delta > 0 \<and> cur > INT64_MAX - delta \<or> delta < 0 \<and> cur < INT64_MIN - delta
               then (None, st)
               else (Some (cur + delta), assign key (e\<lparr>en_value := VInt (cur + delta)\<rparr>) st)))"

subsection \<open>Traversal and expiry\<close>

definition Store_ForEach :: "int \<Rightarrow> store \<Rightarrow> (string \<times> rvalue \<times> int) list" where
  "Store_ForEach now st =
     concat (map (\<lambda>sh. map (\<lambda>(k, e). (k, en_value e, expire_at_ms e))
                        (filter (\<lambda>(k, e). \<not> IsExpired now e) (sh_map sh))) (shards st))"

definition Store_Size :: "store \<Rightarrow> nat" where
  "Store_Size st = sum_list (map (\<lambda>sh. length (sh_map sh)) (shards st))"

definition Store_ExpiresCount :: "store \<Rightarrow> nat" where
  "Store_ExpiresCount st = sum_list (map (\<lambda>sh. length (ttl_keys sh)) (shards st))"

definition Store_FlushAll :: "store \<Rightarrow> store" where
  "Store_FlushAll st =
     st\<lparr>shards := map (\<lambda>sh. sh\<lparr>sh_map := [], ttl_keys := [], ttl_scan_cursor := 0\<rparr>) (shards st),
        key_count := 0, expires_count := 0\<rparr>"

text \<open>One shard of \<open>ExpireCycle\<close>: at most \<open>budget\<close> entries of the TTL index from the cursor on.
  The result is the number of keys removed and the shard.\<close>

fun expire_shard :: "int \<Rightarrow> nat \<Rightarrow> shard \<Rightarrow> nat \<times> shard" where
  "expire_shard now 0 sh = (0, sh)"
| "expire_shard now (Suc budget) sh =
     (if ttl_keys sh = [] then (0, sh)
      else
        let cur = (if ttl_scan_cursor sh \<ge> length (ttl_keys sh) then 0 else ttl_scan_cursor sh);
            k = ttl_keys sh ! cur
        in case map_of (sh_map sh) k of
             None \<Rightarrow>
               expire_shard now budget
                 (sh\<lparr>ttl_keys := swap_pop (ttl_keys sh) cur, ttl_scan_cursor := cur\<rparr>)
           | Some e \<Rightarrow>
               if IsExpired now e
               then let ks = swap_pop (ttl_keys sh) cur;
                        (n, sh') = expire_shard now budget
                          (sh\<lparr>sh_map := AList.delete k (sh_map sh), ttl_keys := ks,
                              ttl_scan_cursor := (if cur \<ge> length ks then 0 else cur)\<rparr>)
                    in (Suc n, sh')
               else expire_shard now budget (sh\<lparr>ttl_scan_cursor := cur + 1\<rparr>))"

abbreviation (input) kSamplePerCycle :: nat where "kSamplePerCycle \<equiv> 20"

definition expire_one :: "int \<Rightarrow> shard \<Rightarrow> nat \<times> shard" where
  "expire_one now sh = expire_shard now (min kSamplePerCycle (length (ttl_keys sh))) sh"

definition ExpireCycle :: "int \<Rightarrow> store \<Rightarrow> nat \<times> store" where
  "ExpireCycle now st =
     (let rs = map (expire_one now) (shards st); removed = sum_list (map fst rs) in
      (removed, st\<lparr>shards := map snd rs, key_count := key_count st - int removed,
                   expires_count := expires_count st - int removed\<rparr>))"

end
