(* ===== verification/Resp_Facts.thy ===== *)
theory Resp_Facts
  imports Resp "HOL-Library.Sublist"
begin

section \<open>Facts of the RESP layer\<close>

text \<open>
  Integer parsing against the mathematical reading of decimal text, the search for CRLF, locality
  of the parser (bytes that arrive later do not change a command that was already complete), the
  encode/parse round trip, and the behaviour on a command cut short.
\<close>

subsection \<open>ParseInt64 against decimal text\<close>

text \<open>The reference: optional sign, at least one digit, digits only, value in the range of
  \<open>int64_t\<close>.\<close>

definition dec_in :: "bool \<Rightarrow> string \<Rightarrow> int option" where
  "dec_in neg ds =
     (if ds \<noteq> [] \<and> list_all is_digit ds
      then let v = (if neg then - int (dval ds) else int (dval ds)) in
           if int64_range v then Some v else None
      else None)"

definition int64_text :: "string \<Rightarrow> int option" where
  "int64_text s = (case s of [] \<Rightarrow> None
     | c # cs \<Rightarrow> if c = CHR ''-'' then dec_in True cs
                 else if c = CHR ''+'' then dec_in False cs
                 else dec_in False s)"

definition has_sign :: "string \<Rightarrow> bool" where
  "has_sign s \<longleftrightarrow> s \<noteq> [] \<and> (hd s = CHR ''-'' \<or> hd s = CHR ''+'')"

lemma acc_step_unat:
  assumes "unat acc < 10 ^ k" "Suc k \<le> 19" "is_digit c"
  shows "unat (acc * 10 + of_nat (digit_val c) :: u64) = unat acc * 10 + digit_val c"
    and "unat acc * 10 + digit_val c < 10 ^ Suc k"
proof -
  have d: "digit_val c < 10" using assms(3) by (rule digit_val_lt)
  from assms(1) have "Suc (unat acc) \<le> 10 ^ k" by simp
  then have "Suc (unat acc) * 10 \<le> 10 ^ k * 10" by (rule mult_le_mono1)
  with d show lt: "unat acc * 10 + digit_val c < 10 ^ Suc k" by simp
  have "(10::nat) ^ Suc k \<le> 10 ^ 19" using assms(2) by (intro power_increasing) auto
  with lt have b: "unat acc * 10 + digit_val c < 18446744073709551616" by simp
  have "acc * 10 + of_nat (digit_val c) = of_nat (unat acc * 10 + digit_val c)"
    by simp
  then show "unat (acc * 10 + of_nat (digit_val c) :: u64) = unat acc * 10 + digit_val c"
    by (simp only: unat_of_nat_u64 [OF b])
qed

lemma ParseInt64_loop_exact:
  assumes "unat acc < 10 ^ k" "k + length cs \<le> 19"
  shows "ParseInt64_loop neg cs acc =
     (if list_all is_digit cs \<and>
         unat acc * 10 ^ length cs + dval cs \<le> (if neg \<and> cs \<noteq> [] then 2 ^ 63 else 2 ^ 63 - 1) \<or> cs = []
      then Some (of_nat (unat acc * 10 ^ length cs + dval cs)) else None)"
  using assms
proof (induction cs arbitrary: acc k)
  case Nil
  then show ?case by simp
next
  case (Cons c cs)
  show ?case
  proof (cases "is_digit c")
    case False
    then show ?thesis by simp
  next
    case True
    let ?acc = "acc * 10 + of_nat (digit_val c) :: u64"
    have k: "Suc k \<le> 19" using Cons.prems(2) by simp
    note u = acc_step_unat [OF Cons.prems(1) k True]
    have IH: "ParseInt64_loop neg cs ?acc =
     (if list_all is_digit cs \<and>
         unat ?acc * 10 ^ length cs + dval cs \<le> (if neg \<and> cs \<noteq> [] then 2 ^ 63 else 2 ^ 63 - 1) \<or> cs = []
      then Some (of_nat (unat ?acc * 10 ^ length cs + dval cs)) else None)"
      by (rule Cons.IH [of _ "Suc k"]) (use u Cons.prems(2) in simp_all)
    have gt: "?acc > 9223372036854775807 \<longleftrightarrow> unat ?acc > 2 ^ 63 - 1"
      by (simp add: word_less_nat_alt)
    have eq: "?acc = 9223372036854775807 + 1 \<longleftrightarrow> unat ?acc = 2 ^ 63"
      by (simp add: word_unat_eq_iff)
    have v: "unat ?acc * 10 ^ length cs + dval cs = unat acc * 10 ^ length (c # cs) + dval (c # cs)"
      by (simp add: u(1) dval_Cons algebra_simps)
    show ?thesis
    proof (cases "cs = []")
      case True
      then show ?thesis
        using IH gt eq v u \<open>is_digit c\<close> by (auto simp: Let_def)
    next
      case False
      then have "Suc k \<le> 18" using Cons.prems(2) by (cases cs) auto
      then have "(10::nat) ^ Suc k \<le> 10 ^ 18" by (intro power_increasing) auto
      with u have "unat ?acc < 10 ^ 18" by simp
      then have "\<not> ?acc > 9223372036854775807" using gt by simp
      with IH v \<open>is_digit c\<close> False show ?thesis by (simp add: Let_def)
    qed
  qed
qed


lemma ParseInt64_loop_19:
  assumes "length cs \<le> 19" "cs \<noteq> []"
  shows "ParseInt64_loop neg cs 0 =
     (if list_all is_digit cs \<and> dval cs \<le> (if neg then 2 ^ 63 else 2 ^ 63 - 1)
      then Some (of_nat (dval cs)) else None)"
  using ParseInt64_loop_exact [of 0 0 cs neg] assms by simp

lemma sint_of_nat_small: "n \<le> 9223372036854775807 \<Longrightarrow> sint (of_nat n :: u64) = int n"
  by (subst sint_small_u64) (simp_all add: word_le_nat_alt)

lemma dec_in_False_loop:
  assumes "length cs \<le> 19" "cs \<noteq> []"
  shows "(case ParseInt64_loop False cs 0 of None \<Rightarrow> None | Some acc \<Rightarrow> Some (sint acc)) = dec_in False cs"
  using assms by (simp add: ParseInt64_loop_19 dec_in_def int64_range_def sint_of_nat_small Let_def)

lemma dec_in_True_loop:
  assumes "length cs \<le> 19" "cs \<noteq> []"
  shows "(case ParseInt64_loop True cs 0 of None \<Rightarrow> None
           | Some acc \<Rightarrow> if acc = 9223372036854775807 + 1 then Some INT64_MIN else Some (- sint acc))
         = dec_in True cs"
proof -
  have eq: "(of_nat n :: u64) = 9223372036854775808 \<longleftrightarrow> n = 9223372036854775808"
    if "n \<le> 9223372036854775808" for n
    using that by (simp add: word_unat_eq_iff)
  show ?thesis
    using assms by (auto simp: ParseInt64_loop_19 dec_in_def int64_range_def eq Let_def
        intro!: sint_of_nat_small)
qed

lemma ParseInt64_text:
  assumes "length s \<le> 19 \<or> has_sign s \<and> length s \<le> 20"
  shows "ParseInt64 s = int64_text s"
proof (cases s)
  case Nil
  then show ?thesis by (simp add: ParseInt64_def int64_text_def)
next
  case (Cons c cs)
  show ?thesis
  proof (cases "c = CHR ''-'' \<or> c = CHR ''+''")
    case True
    with assms Cons have "length cs \<le> 19" by auto
    show ?thesis
    proof (cases "cs = []")
      case True
      with Cons \<open>c = CHR ''-'' \<or> c = CHR ''+''\<close> show ?thesis
        by (auto simp: ParseInt64_def int64_text_def dec_in_def)
    next
      case False
      note L = dec_in_False_loop [OF \<open>length cs \<le> 19\<close> False]
               dec_in_True_loop [OF \<open>length cs \<le> 19\<close> False]
      from False \<open>c = CHR ''-'' \<or> c = CHR ''+''\<close> \<open>length cs \<le> 19\<close> show ?thesis
        unfolding Cons ParseInt64_def int64_text_def Let_def
        by (auto simp flip: L)
    qed
  next
    case False
    with assms Cons have l: "length s \<le> 19" "s \<noteq> []" by (auto simp: has_sign_def)
    have t: "int64_text s = dec_in False s" and h: "s ! 0 = c"
      using Cons False by (auto simp: int64_text_def)
    show ?thesis
      unfolding t dec_in_False_loop [OF l, symmetric] using l False
      by (simp add: ParseInt64_def Let_def h)
  qed
qed

lemma dec_of_nat_length_19: "n \<le> 9223372036854775807 \<Longrightarrow> length (dec_of_nat n) \<le> 19"
  by (rule dec_of_nat_length_le) simp_all

lemma has_sign_dec_of_nat [simp]: "\<not> has_sign (dec_of_nat n)"
  by (simp add: has_sign_def)

lemma int64_text_unsigned: "\<not> has_sign s \<Longrightarrow> int64_text s = dec_in False s"
  by (cases s) (auto simp: int64_text_def has_sign_def dec_in_def)

lemma ParseInt64_dec_of_nat [rl_bytes]:
  assumes "n \<le> 9223372036854775807"
  shows "ParseInt64 (dec_of_nat n) = Some (int n)"
proof -
  have "ParseInt64 (dec_of_nat n) = int64_text (dec_of_nat n)"
    by (rule ParseInt64_text) (simp add: dec_of_nat_length_19 assms)
  then show ?thesis
    using assms
    by (simp add: int64_text_unsigned dec_in_def rl_bytes int64_range_def)
qed

lemma ParseInt64_dec_of_int [rl_bytes]:
  assumes "int64_range v"
  shows "ParseInt64 (dec_of_int v) = Some v"
proof (cases "v < 0")
  case False
  with assms ParseInt64_dec_of_nat [of "nat v"] show ?thesis
    by (simp add: dec_of_int_def int64_range_def)
next
  case True
  let ?n = "nat (- v)"
  have "int ?n < int (10 ^ 19)" using assms True by (simp add: int64_range_def)
  then have "?n < 10 ^ 19" by (simp only: of_nat_less_iff)
  then have "length (dec_of_nat ?n) \<le> 19" by (rule dec_of_nat_length_le) simp
  then have "ParseInt64 (dec_of_int v) = int64_text (dec_of_int v)"
    by (intro ParseInt64_text) (simp add: dec_of_int_def True has_sign_def)
  then show ?thesis
    using assms True by (simp add: dec_of_int_def int64_text_def dec_in_def rl_bytes)
qed

lemma ParseInt64_range:
  assumes "ParseInt64 s = Some v"
  shows "int64_range v"
proof -
  have s: "int64_range (sint (w :: u64))" for w
    using sint_greater_eq [of w] sint_less [of w] by (simp add: int64_range_def)
  have bound: "sint (w :: u64) \<noteq> INT64_MIN" if "w \<noteq> 9223372036854775808" for w
  proof
    assume "sint w = INT64_MIN"
    then have "(word_of_int (sint w) :: u64) = word_of_int INT64_MIN" by simp
    with that show False by simp
  qed
  have neg: "int64_range (- sint (w :: u64))" if "w \<noteq> 9223372036854775808" for w
    using s [of w] bound [OF that] by (rule int64_range_neg)
  show ?thesis
    using assms unfolding ParseInt64_def Let_def
    by (auto split: if_splits option.splits intro: s neg) (simp add: int64_range_def)
qed

subsection \<open>FindCRLF\<close>

definition crlf_at :: "string \<Rightarrow> nat \<Rightarrow> bool" where
  "crlf_at d i \<longleftrightarrow> i + 1 < length d \<and> d ! i = CR \<and> d ! (i + 1) = LF"

lemma FindCRLF_Some:
  "FindCRLF d i = Some off \<longleftrightarrow> i \<le> off \<and> crlf_at d off \<and> (\<forall>j. i \<le> j \<and> j < off \<longrightarrow> \<not> crlf_at d j)"
proof (induction d i rule: FindCRLF.induct)
  case (1 d i)
  show ?case
  proof (cases "i + 1 < length d \<and> \<not> (d ! i = CR \<and> d ! (i + 1) = LF)")
    case True
    then have e: "FindCRLF d i = FindCRLF d (i + 1)" and n: "\<not> crlf_at d i"
      by (auto simp: FindCRLF.simps [of d i] crlf_at_def)
    have ih: "FindCRLF d (i + 1) = Some off \<longleftrightarrow>
        i + 1 \<le> off \<and> crlf_at d off \<and> (\<forall>j. i + 1 \<le> j \<and> j < off \<longrightarrow> \<not> crlf_at d j)"
      by (rule 1) (use True in simp_all)
    have c: "(\<forall>j. i \<le> j \<and> j < off \<longrightarrow> \<not> crlf_at d j) \<longleftrightarrow>
        (\<forall>j. i + 1 \<le> j \<and> j < off \<longrightarrow> \<not> crlf_at d j)"
      using n by (metis Suc_eq_plus1 Suc_leD Suc_leI le_neq_implies_less)
    have "i \<le> off \<and> crlf_at d off \<longleftrightarrow> i + 1 \<le> off \<and> crlf_at d off"
      using n by (cases "off = i") auto
    then show ?thesis unfolding e ih c by (simp only: conj_assoc [symmetric])
  next
    case False
    show ?thesis
    proof (cases "i + 1 < length d")
      case True
      with False have "FindCRLF d i = Some i" "crlf_at d i"
        by (simp_all add: FindCRLF.simps [of d i] crlf_at_def)
      then show ?thesis by (metis le_antisym linorder_not_le nle_le option.inject)
    next
      case False
      then have "FindCRLF d i = None" "\<And>j. i \<le> j \<Longrightarrow> \<not> crlf_at d j"
        by (simp_all add: FindCRLF.simps [of d i] crlf_at_def)
      then show ?thesis by auto
    qed
  qed
qed

lemma FindCRLF_None: "FindCRLF d i = None \<longleftrightarrow> (\<forall>j\<ge>i. \<not> crlf_at d j)"
proof
  assume n: "FindCRLF d i = None"
  show "\<forall>j\<ge>i. \<not> crlf_at d j"
  proof (intro allI impI notI)
    fix j assume "i \<le> j" "crlf_at d j"
    then have "\<exists>off. off = (LEAST j. i \<le> j \<and> crlf_at d j)" by simp
    let ?o = "LEAST j. i \<le> j \<and> crlf_at d j"
    have "i \<le> ?o \<and> crlf_at d ?o"
      by (rule LeastI [of "\<lambda>j. i \<le> j \<and> crlf_at d j" j]) (simp add: \<open>i \<le> j\<close> \<open>crlf_at d j\<close>)
    then have "FindCRLF d i = Some ?o"
      by (auto simp: FindCRLF_Some dest: not_less_Least)
    with n show False by simp
  qed
next
  assume "\<forall>j\<ge>i. \<not> crlf_at d j"
  then show "FindCRLF d i = None"
    using FindCRLF_Some [of d i] by (cases "FindCRLF d i") auto
qed

lemma crlf_at_append: "crlf_at d i \<Longrightarrow> crlf_at (d @ x) i"
  by (simp add: crlf_at_def nth_append)

lemma crlf_at_append_iff: "i + 1 < length d \<Longrightarrow> crlf_at (d @ x) i \<longleftrightarrow> crlf_at d i"
  by (auto simp: crlf_at_def nth_append)

lemma FindCRLF_append:
  assumes "FindCRLF d i = Some off"
  shows "FindCRLF (d @ x) i = Some off"
proof -
  from assms have o: "i \<le> off" "crlf_at d off" "\<And>j. i \<le> j \<Longrightarrow> j < off \<Longrightarrow> \<not> crlf_at d j"
    by (auto simp: FindCRLF_Some)
  then have "off + 1 < length d" by (simp add: crlf_at_def)
  with o show ?thesis
    by (auto simp: FindCRLF_Some crlf_at_append crlf_at_append_iff)
qed

lemma FindCRLF_bounds:
  "FindCRLF d i = Some off \<Longrightarrow> i \<le> off \<and> off + 1 < length d"
  by (simp add: FindCRLF_Some crlf_at_def)

text \<open>A field without CR, followed by CRLF: the search finds exactly its end.\<close>

lemma FindCRLF_field:
  assumes "CR \<notin> set x" "i = length pre"
  shows "FindCRLF (pre @ x @ kCRLF @ y) i = Some (i + length x)"
proof -
  have "\<not> crlf_at (pre @ x @ kCRLF @ y) j" if "i \<le> j" "j < i + length x" for j
  proof -
    have l: "j - length pre < length x" using that assms(2) by arith
    then have "(pre @ x @ kCRLF @ y) ! j = x ! (j - i)"
      using that assms(2) by (simp add: nth_append)
    moreover have "x ! (j - i) \<in> set x" using l assms(2) by simp
    ultimately show ?thesis using assms(1) by (auto simp: crlf_at_def)
  qed
  then show ?thesis
    using assms(2) by (auto simp: FindCRLF_Some crlf_at_def nth_append)
qed

lemma FindCRLF_no_LF:
  assumes "LF \<notin> set (drop i d)"
  shows "FindCRLF d i = None"
proof -
  have "\<not> crlf_at d j" if "i \<le> j" for j
  proof
    assume c: "crlf_at d j"
    then have "drop i d ! (j + 1 - i) = LF" "j + 1 - i < length (drop i d)"
      using that by (auto simp: crlf_at_def)
    with assms show False by (metis nth_mem)
  qed
  then show ?thesis by (simp add: FindCRLF_None)
qed


subsection \<open>Locality: later bytes do not change what was complete\<close>

lemma ParseValue_bounds:
  assumes "ParseValue b ps d = PGot a ps'"
  shows "ps < ps' \<and> ps' \<le> length b"
  using assms unfolding ParseValue_def Let_def Ensure_def
  by (auto split: if_splits option.splits dest!: FindCRLF_bounds)

lemma substr_append:
  "i + n \<le> length b \<Longrightarrow> substr (b @ x) i n = substr b i n"
  by simp

lemma ParseValue_append:
  assumes "ParseValue b ps d = PGot a ps'"
  shows "ParseValue (b @ x) ps d = PGot a ps'"
proof -
  have e: "Ensure b ps 1" and d: "\<not> d > 8"
    using assms by (auto simp: ParseValue_def split: if_splits)
  then have lt: "ps < length b" and e': "Ensure (b @ x) ps 1" by (auto simp: Ensure_def)
  then have n: "(b @ x) ! ps = b ! ps" by (simp add: nth_append)
  from assms e d obtain off where off: "FindCRLF b (ps + 1) = Some off"
    by (auto simp: ParseValue_def split: if_splits option.splits)
  note offx = FindCRLF_append [OF off, of x]
  have bnd: "ps + 1 \<le> off" "off + 1 < length b" using FindCRLF_bounds [OF off] by auto
  then have sub: "substr (b @ x) (ps + 1) (off - ps - 1) = substr b (ps + 1) (off - ps - 1)"
    by (intro substr_append) simp
  show ?thesis
  proof (cases "b ! ps = CHR ''$''")
    case False
    then show ?thesis using assms e e' d lt off offx sub n
      by (auto simp: ParseValue_def split: if_splits option.splits)
  next
    case True
    from assms e d True off obtain len where
      pl: "ParseInt64 (substr b (ps + 1) (off - ps - 1)) = Some len" and
      rng: "\<not> (len < -1 \<or> len > kMaxBulkSize)"
      by (auto simp: ParseValue_def split: if_splits option.splits)
    show ?thesis
    proof (cases "len = -1")
      case True
      then show ?thesis using assms e e' d lt off offx sub n pl \<open>b ! ps = CHR ''$''\<close>
        by (auto simp: ParseValue_def split: if_splits)
    next
      case False
      then have tot: "\<not> length b - (off + 2) < nat len + 2"
        and cr: "b ! (off + 2 + nat len) = CR" "b ! (off + 2 + nat len + 1) = LF"
        using assms e d True off pl rng
        by (auto simp: ParseValue_def Let_def split: if_splits)
      from tot have "off + 2 + nat len + 1 < length b" by simp
      then have nx: "(b @ x) ! (off + 2 + nat len) = b ! (off + 2 + nat len)"
        "(b @ x) ! (off + 2 + nat len + 1) = b ! (off + 2 + nat len + 1)"
        "substr (b @ x) (off + 2) (nat len) = substr b (off + 2) (nat len)"
        by (simp_all add: nth_append)
      show ?thesis
        using assms e e' d True off offx sub n pl rng tot nx cr False
        by (simp add: ParseValue_def Let_def)
    qed
  qed
qed

lemma parse_elems_bounds:
  "parse_elems b n ps = EGot as ps' \<Longrightarrow> ps \<le> length b \<Longrightarrow> ps \<le> ps' \<and> ps' \<le> length b \<and> length as = n"
proof (induction n arbitrary: ps as)
  case (Suc n)
  from Suc.prems obtain a q as' where
    "ParseValue b ps 0 = PGot a q" "parse_elems b n q = EGot as' ps'" "as = a # as'"
    by (auto split: pres.splits elems_res.splits)
  with Suc.IH ParseValue_bounds show ?case by fastforce
qed simp

lemma parse_elems_append:
  "parse_elems b n ps = EGot as ps' \<Longrightarrow> parse_elems (b @ x) n ps = EGot as ps'"
proof (induction n arbitrary: ps as)
  case (Suc n)
  from Suc.prems obtain a q as' where
    "ParseValue b ps 0 = PGot a q" "parse_elems b n q = EGot as' ps'" "as = a # as'"
    by (auto split: pres.splits elems_res.splits)
  with Suc.IH [of q as'] ParseValue_append [of b ps 0 a q x] show ?case by simp
qed simp

text \<open>The three shapes of a successful call.\<close>

lemma RespParser_Next_Cmd:
  assumes "RespParser_Next p = (NextCmd args, p')"
  shows "buf p' = buf p \<and> pos p < pos p' \<and> pos p' \<le> length (buf p)"
proof -
  have "pos p < length (buf p)"
    using assms by (auto simp: RespParser_Next_def Ensure_def Let_def split: if_splits)
  then show ?thesis
    using assms unfolding RespParser_Next_def Let_def
    by (auto split: if_splits option.splits elems_res.splits
        dest!: FindCRLF_bounds parse_elems_bounds)
qed

lemma RespParser_Next_append:
  assumes "RespParser_Next p = (NextCmd args, p')"
  shows "RespParser_Next (p\<lparr>buf := buf p @ x\<rparr>) = (NextCmd args, p'\<lparr>buf := buf p @ x\<rparr>)"
proof -
  have lt: "pos p < length (buf p)"
    using assms by (auto simp: RespParser_Next_def Ensure_def Let_def split: if_splits)
  then have n: "(buf p @ x) ! pos p = buf p ! pos p"
    and e: "Ensure (buf p) (pos p) 1" "Ensure (buf p @ x) (pos p) 1"
    by (auto simp: nth_append Ensure_def)
  show ?thesis
  proof (cases "buf p ! pos p = CHR ''*''")
    case False
    with assms e obtain off where off: "FindCRLF (buf p) (pos p) = Some off"
      by (auto simp: RespParser_Next_def Let_def split: if_splits option.splits)
    from FindCRLF_bounds [OF this] have "substr (buf p @ x) (pos p) (off - pos p) = substr (buf p) (pos p) (off - pos p)"
      by simp
    with assms e n False off FindCRLF_append [OF off, of x] show ?thesis
      by (auto simp: RespParser_Next_def Let_def split: if_splits)
  next
    case True
    with assms e obtain off argc where off: "FindCRLF (buf p) (pos p + 1) = Some off"
      and pa: "ParseInt64 (substr (buf p) (pos p + 1) (off - pos p - 1)) = Some argc"
      by (auto simp: RespParser_Next_def Let_def split: if_splits option.splits)
    from FindCRLF_bounds [OF off]
    have sub: "substr (buf p @ x) (pos p + 1) (off - pos p - 1) = substr (buf p) (pos p + 1) (off - pos p - 1)"
      by simp
    show ?thesis
      using assms e n True off FindCRLF_append [OF off, of x] sub pa
      by (auto simp: RespParser_Next_def Let_def
          split: if_splits elems_res.splits dest: parse_elems_append [where x = x])
  qed
qed

subsection \<open>Encode and parse\<close>

definition bulk :: "string \<Rightarrow> string" where
  "bulk a = ''$'' @ dec_of_nat (length a) @ kCRLF @ a @ kCRLF"

definition enc :: "string list \<Rightarrow> string" where
  "enc args = ''*'' @ dec_of_nat (length args) @ kCRLF @ concat (map bulk args)"

definition bulk_ok :: "string \<Rightarrow> bool" where
  "bulk_ok a \<longleftrightarrow> length a \<le> 536870912"

definition args_ok :: "string list \<Rightarrow> bool" where
  "args_ok args \<longleftrightarrow> args \<noteq> [] \<and> length args \<le> 1048576 \<and> list_all bulk_ok args"

lemma EncodeBulkString_bulk: "EncodeBulkString a out = out @ bulk a"
  by (simp add: EncodeBulkString_def bulk_def)

lemma foldl_EncodeBulkString:
  "foldl (\<lambda>acc a. EncodeBulkString a acc) out args = out @ concat (map bulk args)"
  by (induction args arbitrary: out) (simp_all add: EncodeBulkString_bulk)

lemma EncodeCommand_enc: "EncodeCommand args out = out @ enc args"
  by (simp add: EncodeCommand_def EncodeArrayHeader_def foldl_EncodeBulkString enc_def)

lemma bulk_nonempty [simp]: "bulk a \<noteq> []"
  by (simp add: bulk_def)

lemma enc_nonempty [simp]: "enc args \<noteq> []"
  by (simp add: enc_def)

text \<open>A length field at the cursor: the search and the number it carries.\<close>

lemma header_field:
  assumes "n \<le> 536870912" "b = pre @ [t] @ dec_of_nat n @ kCRLF @ y"
  shows "FindCRLF b (length pre + 1) = Some (length pre + 1 + length (dec_of_nat n))"
    and "substr b (length pre + 1) (length (dec_of_nat n)) = dec_of_nat n"
    and "ParseInt64 (dec_of_nat n) = Some (int n)"
proof -
  have "FindCRLF ((pre @ [t]) @ dec_of_nat n @ kCRLF @ y) (length pre + 1) = Some (length pre + 1 + length (dec_of_nat n))"
    by (rule FindCRLF_field) simp_all
  then show "FindCRLF b (length pre + 1) = Some (length pre + 1 + length (dec_of_nat n))"
    by (simp add: assms(2))
  show "substr b (length pre + 1) (length (dec_of_nat n)) = dec_of_nat n"
    by (simp add: assms(2))
  show "ParseInt64 (dec_of_nat n) = Some (int n)"
    using assms(1) by (intro ParseInt64_dec_of_nat) simp
qed

lemma ParseValue_bulk:
  assumes "bulk_ok a"
  shows "ParseValue (pre @ bulk a @ y) (length pre) 0 = PGot a (length pre + length (bulk a))"
proof -
  let ?b = "pre @ bulk a @ y"
  have b: "?b = pre @ [CHR ''$''] @ dec_of_nat (length a) @ kCRLF @ (a @ kCRLF @ y)"
    by (simp add: bulk_def)
  note h = header_field [OF _ b]
  have len: "length a \<le> 536870912" using assms by (simp add: bulk_ok_def)
  let ?off = "length pre + 1 + length (dec_of_nat (length a))"
  have "?b = (pre @ [CHR ''$''] @ dec_of_nat (length a) @ kCRLF) @ (a @ kCRLF @ y)"
    by (simp add: b)
  moreover have "?off + 2 = length (pre @ [CHR ''$''] @ dec_of_nat (length a) @ kCRLF)" by simp
  ultimately have drop: "drop (?off + 2) ?b = a @ kCRLF @ y"
    by (metis append_eq_conv_conj)
  have le: "?off + 2 \<le> length ?b" by (simp add: bulk_def)
  have at: "?b ! (?off + 2 + k) = (a @ kCRLF @ y) ! k" for k
    using nth_drop [OF le, of k] by (simp only: drop)
  have "?b ! (?off + 2 + length a) = CR" "?b ! (?off + 2 + length a + 1) = LF"
    using at [of "length a"] at [of "length a + 1"] by (simp_all add: nth_append add.assoc)
  moreover have "substr ?b (?off + 2) (length a) = a" by (simp only: drop) simp
  moreover have "length ?b - (?off + 2) \<ge> length a + 2" by (simp add: bulk_def)
  moreover have "?b ! length pre = CHR ''$''" by (simp add: bulk_def)
  moreover have "length (bulk a) = length (dec_of_nat (length a)) + length a + 5"
    by (simp add: bulk_def)
  ultimately show ?thesis
    using h [OF len] len by (simp add: ParseValue_def Ensure_def Let_def)
qed

lemma parse_elems_bulks:
  assumes "list_all bulk_ok args"
  shows "parse_elems (pre @ concat (map bulk args) @ y) (length args) (length pre)
           = EGot args (length pre + length (concat (map bulk args)))"
  using assms
proof (induction args arbitrary: pre)
  case (Cons a args)
  have "parse_elems (pre @ bulk a @ concat (map bulk args) @ y) (length args) (length (pre @ bulk a))
           = EGot args (length (pre @ bulk a) + length (concat (map bulk args)))"
    using Cons.IH [of "pre @ bulk a"] Cons.prems by simp
  with ParseValue_bulk [of a pre] Cons.prems show ?case by (simp add: add.assoc)
qed simp

lemma RespParser_Next_enc:
  assumes "args_ok args"
  shows "RespParser_Next \<lparr>buf = pre @ enc args @ y, pos = length pre\<rparr>
     = (NextCmd args, \<lparr>buf = pre @ enc args @ y, pos = length pre + length (enc args)\<rparr>)"
proof -
  let ?b = "pre @ enc args @ y" and ?n = "length args"
  let ?h = "pre @ [CHR ''*''] @ dec_of_nat ?n @ kCRLF"
  have b: "?b = pre @ [CHR ''*''] @ dec_of_nat ?n @ kCRLF @ (concat (map bulk args) @ y)"
    by (simp add: enc_def)
  have n: "?n \<le> 536870912" "0 < ?n" "?n \<le> 1048576" and ok: "list_all bulk_ok args"
    using assms by (auto simp: args_ok_def)
  note h = header_field [OF n(1) b]
  have "?b = ?h @ concat (map bulk args) @ y" by (simp add: b)
  with parse_elems_bulks [OF ok, of ?h y]
  have pe: "parse_elems ?b ?n (length ?h) = EGot args (length ?h + length (concat (map bulk args)))"
    by metis
  have "length ?h = length pre + 1 + length (dec_of_nat ?n) + 2" by simp
  moreover have "length pre + length (enc args) = length ?h + length (concat (map bulk args))"
    by (simp add: enc_def)
  moreover have "?b ! length pre = CHR ''*''" by (simp add: b)
  ultimately show ?thesis
    using h pe n by (simp add: RespParser_Next_def Ensure_def Let_def)
qed

subsection \<open>A command cut short\<close>

lemma strict_prefix_append_cases:
  assumes "strict_prefix p (x @ y)"
  shows "strict_prefix p x \<or> (\<exists>q. p = x @ q \<and> strict_prefix q y)"
  using assms by (auto simp: strict_prefix_def prefix_append)

lemma FindCRLF_cut_header:
  assumes "prefix p (dec_of_nat n @ [CR])"
  shows "FindCRLF (pre @ t # p) (length pre + 1) = None"
proof (rule FindCRLF_no_LF)
  have "LF \<notin> set (dec_of_nat n @ [CR])" by simp
  then have "LF \<notin> set p" using set_mono_prefix [OF assms] by blast
  then show "LF \<notin> set (drop (length pre + 1) (pre @ t # p))" by simp
qed

lemma ParseValue_cut:
  assumes "bulk_ok a" "strict_prefix p (bulk a)"
  shows "ParseValue (pre @ p) (length pre) 0 = PMore"
proof (cases p)
  case Nil
  then show ?thesis by (simp add: ParseValue_def Ensure_def)
next
  case (Cons t p')
  let ?d = "dec_of_nat (length a)"
  from assms(2) Cons have t: "t = CHR ''$''" and p': "strict_prefix p' ((?d @ kCRLF) @ a @ kCRLF)"
    by (auto simp: bulk_def)
  from strict_prefix_append_cases [OF p'] show ?thesis
  proof
    assume "strict_prefix p' (?d @ kCRLF)"
    then have "prefix p' (?d @ [CR])"
      by (metis append.assoc append_Cons append_Nil strict_prefix_def prefix_snoc)
    from FindCRLF_cut_header [OF this, of pre t] show ?thesis
      by (simp add: Cons t ParseValue_def Ensure_def)
  next
    assume "\<exists>q. p' = (?d @ kCRLF) @ q \<and> strict_prefix q (a @ kCRLF)"
    then obtain q where q: "p' = ?d @ kCRLF @ q" "strict_prefix q (a @ kCRLF)" by auto
    have b: "pre @ p = pre @ [CHR ''$''] @ ?d @ kCRLF @ q" by (simp add: Cons t q)
    have len: "length a \<le> 536870912" using assms(1) by (simp add: bulk_ok_def)
    note h = header_field [OF len b]
    have "length q < length a + 2" using prefix_length_less [OF q(2)] by simp
    then have "length (pre @ p) - (length pre + 1 + length ?d + 2) < length a + 2"
      by (simp add: b)
    moreover have "(pre @ p) ! length pre = CHR ''$''" by (simp add: b)
    moreover have "length (pre @ p) > length pre" by (simp add: b)
    ultimately show ?thesis
      using h len by (simp add: ParseValue_def Ensure_def Let_def)
  qed
qed

lemma parse_elems_cut:
  assumes "list_all bulk_ok args" "strict_prefix p (concat (map bulk args))"
  shows "parse_elems (pre @ p) (length args) (length pre) = EMore"
  using assms
proof (induction args arbitrary: pre p)
  case (Cons a args)
  from Cons.prems(2) have "strict_prefix p (bulk a @ concat (map bulk args))" by simp
  from strict_prefix_append_cases [OF this] show ?case
  proof
    assume "strict_prefix p (bulk a)"
    with Cons.prems(1) ParseValue_cut [of a p pre] show ?thesis by simp
  next
    assume "\<exists>q. p = bulk a @ q \<and> strict_prefix q (concat (map bulk args))"
    then obtain q where q: "p = bulk a @ q" "strict_prefix q (concat (map bulk args))" by blast
    from Cons.IH [of q "pre @ bulk a"] Cons.prems(1) q(2)
    have "parse_elems (pre @ bulk a @ q) (length args) (length pre + length (bulk a)) = EMore"
      by simp
    with ParseValue_bulk [of a pre q] Cons.prems(1) show ?thesis by (simp add: q(1))
  qed
qed simp

lemma RespParser_Next_cut:
  assumes "args_ok args" "strict_prefix p (enc args)"
  shows "RespParser_Next \<lparr>buf = pre @ p, pos = length pre\<rparr> = (NextFalse, \<lparr>buf = pre @ p, pos = length pre\<rparr>)"
proof (cases p)
  case Nil
  then show ?thesis by (simp add: RespParser_Next_def Ensure_def)
next
  case (Cons t p')
  let ?d = "dec_of_nat (length args)"
  have n: "length args \<le> 536870912" "0 < length args" "length args \<le> 1048576"
    and ok: "list_all bulk_ok args"
    using assms by (auto simp: args_ok_def)
  from assms(2) Cons have t: "t = CHR ''*''"
    and p': "strict_prefix p' ((?d @ kCRLF) @ concat (map bulk args))"
    by (auto simp: enc_def)
  from strict_prefix_append_cases [OF p'] show ?thesis
  proof
    assume "strict_prefix p' (?d @ kCRLF)"
    then have "prefix p' (?d @ [CR])"
      by (metis append.assoc append_Cons append_Nil strict_prefix_def prefix_snoc)
    from FindCRLF_cut_header [OF this, of pre t] show ?thesis
      by (simp add: Cons t RespParser_Next_def Ensure_def)
  next
    assume "\<exists>q. p' = (?d @ kCRLF) @ q \<and> strict_prefix q (concat (map bulk args))"
    then obtain q where q: "p' = ?d @ kCRLF @ q" "strict_prefix q (concat (map bulk args))" by auto
    let ?h = "pre @ [CHR ''*''] @ ?d @ kCRLF"
    have b: "pre @ p = pre @ [CHR ''*''] @ ?d @ kCRLF @ q" by (simp add: Cons t q)
    note h = header_field [OF n(1) b]
    have "pre @ p = ?h @ q" by (simp add: b)
    with parse_elems_cut [OF ok q(2), of ?h]
    have pe: "parse_elems (pre @ p) (length args) (length ?h) = EMore" by metis
    have "length ?h = length pre + 1 + length ?d + 2" by simp
    moreover have "(pre @ p) ! length pre = CHR ''*''" by (simp add: b)
    moreover have "length (pre @ p) > length pre" by (simp add: b)
    ultimately show ?thesis
      using h pe n by (simp add: RespParser_Next_def Ensure_def Let_def)
  qed
qed

subsection \<open>Properties of the RESP layer\<close>

lemma args_ok_ping: "args_ok [''SET'', ''k'', ''v'']"
  by (simp add: args_ok_def bulk_ok_def)

text \<open>C9: Round trip.  A command encoded by \<open>EncodeCommand\<close> and standing at the cursor of the
  parser, whatever bytes were consumed before it and whatever bytes follow it, is returned by
  \<open>RespParser::Next\<close> with exactly its arguments (binary safe), and the cursor moves exactly over
  its encoding.\<close>

theorem resp_roundtrip:
  assumes "args_ok args"
  shows "RespParser_Next \<lparr>buf = EncodeCommand args pre @ y, pos = length pre\<rparr>
     = (NextCmd args, \<lparr>buf = EncodeCommand args pre @ y, pos = length (EncodeCommand args pre)\<rparr>)"
  using RespParser_Next_enc [OF assms, of pre y] by (simp add: EncodeCommand_enc)

theorem resp_roundtrip_witness:
  "RespParser_Next \<lparr>buf = EncodeCommand [''SET'', ''k'', ''v''] ''ab'' @ ''xyz'', pos = 2\<rparr>
     = (NextCmd [''SET'', ''k'', ''v''],
        \<lparr>buf = EncodeCommand [''SET'', ''k'', ''v''] ''ab'' @ ''xyz'',
         pos = length (EncodeCommand [''SET'', ''k'', ''v''] ''ab'')\<rparr>)"
  using resp_roundtrip [OF args_ok_ping, of "''ab''" "''xyz''"] by (simp add: numeral_2_eq_2)

text \<open>Incomplete data.  When only a strict prefix of an encoded command has arrived,
  \<open>RespParser::Next\<close> reports that it needs more data: it throws nothing, returns no command and
  leaves the parser unchanged, wherever the cut falls.\<close>

theorem resp_incomplete:
  assumes "args_ok args" "strict_prefix p (EncodeCommand args [])"
  shows "RespParser_Next \<lparr>buf = pre @ p, pos = length pre\<rparr>
     = (NextFalse, \<lparr>buf = pre @ p, pos = length pre\<rparr>)"
  using RespParser_Next_cut [of args p pre] assms by (simp add: EncodeCommand_enc)

theorem resp_incomplete_witness:
  "RespParser_Next \<lparr>buf = ''ab'' @ ''*3'', pos = 2\<rparr> = (NextFalse, \<lparr>buf = ''ab'' @ ''*3'', pos = 2\<rparr>)"
proof -
  have "strict_prefix ''*3'' (EncodeCommand [''SET'', ''k'', ''v''] [])" by code_simp
  from resp_incomplete [OF args_ok_ping this, of "''ab''"] show ?thesis by (simp add: numeral_2_eq_2)
qed

text \<open>Locality.  A command that the parser has returned does not depend on the bytes after it:
  with any further bytes in the buffer the same call returns the same command and the same cursor,
  and the cursor stays within the buffer that was there.\<close>

theorem resp_locality:
  assumes "RespParser_Next p = (NextCmd args, p')"
  shows "RespParser_Next (RespParser_Append x p) = (NextCmd args, RespParser_Append x p')
     \<and> pos p < pos p' \<and> pos p' \<le> length (buf p)"
  using RespParser_Next_append [OF assms, of x] RespParser_Next_Cmd [OF assms] assms
  by (simp add: RespParser_Append_def)

theorem resp_locality_witness:
  "RespParser_Next (RespParser_Append ''zz'' \<lparr>buf = EncodeCommand [''SET'', ''k'', ''v''] [], pos = 0\<rparr>)
     = (NextCmd [''SET'', ''k'', ''v''],
        RespParser_Append ''zz'' \<lparr>buf = EncodeCommand [''SET'', ''k'', ''v''] [],
                           pos = length (EncodeCommand [''SET'', ''k'', ''v''] [])\<rparr>)"
  using resp_locality [of "\<lparr>buf = EncodeCommand [''SET'', ''k'', ''v''] [], pos = 0\<rparr>" "[''SET'', ''k'', ''v'']"
      "\<lparr>buf = EncodeCommand [''SET'', ''k'', ''v''] [], pos = length (EncodeCommand [''SET'', ''k'', ''v''] [])\<rparr>" "''zz''"]
    RespParser_Next_enc [OF args_ok_ping, of "[]" "[]"]
  by (simp add: EncodeCommand_enc)

text \<open>C31: Integer parsing.  On texts of at most 19 characters, or 20 with a sign, \<open>ParseInt64\<close>
  accepts exactly the decimal numerals in the range of \<open>int64_t\<close> and returns their value:
  the overflow checks on the unsigned accumulator are exact there.\<close>

theorem ParseInt64_exact:
  assumes "length s \<le> 19 \<or> has_sign s \<and> length s \<le> 20"
  shows "ParseInt64 s = int64_text s"
  by (rule ParseInt64_text [OF assms])

theorem ParseInt64_exact_witness:
  "ParseInt64 ''-42'' = int64_text ''-42'' \<and> int64_text ''-42'' = Some (- 42)"
  using ParseInt64_exact [of "''-42''"]
  by (simp add: int64_text_def dec_in_def is_digit_def dval_def int64_range_def)

text \<open>Overflow is not always rejected.  The check runs after a multiplication that can itself
  wrap around: an unsigned numeral of 20 digits can be accepted with the value it has
  modulo $2^{64}$, although it is far outside the range of \<open>int64_t\<close>.\<close>

theorem ParseInt64_wraps:
  "ParseInt64 ''20000000000000000000'' = Some 1553255926290448384
     \<and> int64_text ''20000000000000000000'' = None"
  by (simp add: ParseInt64_def Let_def is_digit_def int64_text_def dec_in_def dval_def int64_range_def
      sint_small_u64 word_less_nat_alt word_le_nat_alt)

end
