(* ===== verification/Store_Facts.thy ===== *)
theory Store_Facts
  imports Store Resp_Facts "HOL-Library.Multiset"
begin

section \<open>The store refines one map with expiry\<close>

text \<open>
  \<open>store_ok\<close> is the invariant of the sharded store: a power of two of shards, every key in the
  shard its hash selects, the TTL index of a shard exactly the keys with a TTL and without
  duplicates, \<open>key_count\<close> the number of entries and \<open>expires_count\<close> an upper bound of the indexed
  keys.  \<open>lookup st\<close> is the flat map, \<open>vis t\<close> what is visible of it at time \<open>t\<close>.  Every operation
  is shown to preserve the invariant and to act on the visible map as its specification does, for
  the time of the call and every later time.
\<close>

subsection \<open>The TTL index\<close>

lemma mset_swap_pop: "i < length xs \<Longrightarrow> mset (swap_pop xs i) = mset (remove1 (xs ! i) xs)"
proof (cases xs rule: rev_cases)
  case (snoc ys y)
  assume "i < length xs"
  with snoc show ?thesis by (auto simp: swap_pop_def list_update_append nth_append mset_update butlast_append)
qed simp

lemma swap_pop_distinct:
  assumes "i < length xs" "distinct xs"
  shows "distinct (swap_pop xs i)" "set (swap_pop xs i) = set xs - {xs ! i}"
    "length (swap_pop xs i) = length xs - 1"
proof -
  note m = mset_swap_pop [OF assms(1)]
  show "distinct (swap_pop xs i)" using mset_eq_imp_distinct_iff [OF m] assms(2) by simp
  show "set (swap_pop xs i) = set xs - {xs ! i}"
    using mset_eq_setD [OF m] assms(2) by (simp add: set_remove1_eq)
  show "length (swap_pop xs i) = length xs - 1" by (simp add: swap_pop_def)
qed

lemma find_index_Some:
  "find_index key xs i = Some j \<Longrightarrow> i \<le> j \<and> j - i < length xs \<and> xs ! (j - i) = key"
proof (induction xs arbitrary: i)
  case (Cons x xs)
  show ?case
  proof (cases "x = key")
    case False
    with Cons have "Suc i \<le> j" "j - Suc i < length xs" "xs ! (j - Suc i) = key" by fastforce+
    moreover from this(1) have "j - i = Suc (j - Suc i)" by simp
    ultimately show ?thesis by simp
  qed (use Cons.prems in auto)
qed simp

lemma find_index_None: "find_index key xs i = None \<longleftrightarrow> key \<notin> set xs"
  by (induction xs arbitrary: i) auto

lemma RemoveTtlKey_all:
  assumes d: "distinct (ttl_keys sh)"
  shows "distinct (ttl_keys (RemoveTtlKey key sh))
    \<and> set (ttl_keys (RemoveTtlKey key sh)) = set (ttl_keys sh) - {key}
    \<and> length (ttl_keys (RemoveTtlKey key sh))
       = (if key \<in> set (ttl_keys sh) then length (ttl_keys sh) - 1 else length (ttl_keys sh))
    \<and> sh_map (RemoveTtlKey key sh) = sh_map sh"
proof (cases "find_index key (ttl_keys sh) 0")
  case None
  then have "key \<notin> set (ttl_keys sh)" using find_index_None by metis
  then show ?thesis using None d by (simp add: RemoveTtlKey_def)
next
  case (Some j)
  from find_index_Some [OF this] have j: "j < length (ttl_keys sh)" "ttl_keys sh ! j = key" by auto
  then have "key \<in> set (ttl_keys sh)" by auto
  then show ?thesis
    using swap_pop_distinct [OF j(1) d] j(2) Some by (simp add: RemoveTtlKey_def Let_def)
qed

lemmas RemoveTtlKey_facts = RemoveTtlKey_all [THEN conjunct1] RemoveTtlKey_all [THEN conjunct2, THEN conjunct1]
  RemoveTtlKey_all [THEN conjunct2, THEN conjunct2, THEN conjunct1]
  RemoveTtlKey_all [THEN conjunct2, THEN conjunct2, THEN conjunct2]

subsection \<open>Shard selection\<close>

lemma mask_less: "b \<le> 63 \<Longrightarrow> unat (h AND (2 ^ b - 1) :: u64) < 2 ^ b"
proof -
  assume "b \<le> 63"
  have "h AND (2 ^ b - 1) = take_bit b h" by (simp add: take_bit_eq_mask mask_eq_exp_minus_1)
  then have "unat (h AND (2 ^ b - 1)) = take_bit b (unat h)" by (simp add: unsigned_take_bit_eq)
  then show ?thesis by simp
qed

lemma round_pow2_ok:
  assumes "k \<le> b" "b \<le> 63" "\<not> (2 ^ b :: u64) < c" "\<And>j. k \<le> j \<Longrightarrow> j < b \<Longrightarrow> (2 ^ j :: u64) < c"
  shows "round_pow2 c (2 ^ k) = Some (2 ^ b)"
  using assms
proof (induction "b - k" arbitrary: k)
  case 0
  then have "k = b" by simp
  with 0 show ?case by (subst round_pow2.simps) simp
next
  case (Suc n)
  then have "k < b" by simp
  have "round_pow2 c (2 ^ Suc k) = Some (2 ^ b)"
    using Suc.hyps(2) Suc.prems \<open>k < b\<close> by (intro Suc.hyps(1)) auto
  moreover have "push_bit 1 (2 ^ k :: u64) = 2 ^ Suc k" by (simp add: push_bit_eq_mult mult.commute)
  ultimately show ?case using Suc.prems(4) [of k] \<open>k < b\<close>
    by (subst round_pow2.simps) (simp del: push_bit_eq_mult power_Suc)
qed

subsection \<open>The invariant\<close>

definition shard_ok :: "store \<Rightarrow> nat \<Rightarrow> shard \<Rightarrow> bool" where
  "shard_ok st i sh \<longleftrightarrow>
     distinct (map fst (sh_map sh)) \<and> (\<forall>k\<in>fst ` set (sh_map sh). GetShard st k = i) \<and>
     distinct (ttl_keys sh) \<and>
     set (ttl_keys sh) = {k. \<exists>e. map_of (sh_map sh) k = Some e \<and> HasExpire e}"

definition store_ok :: "store \<Rightarrow> bool" where
  "store_ok st \<longleftrightarrow>
     (\<exists>b\<le>63. length (shards st) = 2 ^ b \<and> shard_mask st = 2 ^ b - 1) \<and>
     (\<forall>i<length (shards st). shard_ok st i (shards st ! i)) \<and>
     key_count st = int (Store_Size st) \<and> int (Store_ExpiresCount st) \<le> expires_count st"

lemma GetShard_less: "store_ok st \<Longrightarrow> GetShard st key < length (shards st)"
  by (auto simp: store_ok_def GetShard_def mask_less)

lemma GetShard_cong: "shard_mask st' = shard_mask st \<Longrightarrow> GetShard st' = GetShard st"
  by (simp add: GetShard_def fun_eq_iff)

lemma shard_ok_cong: "shard_mask st' = shard_mask st \<Longrightarrow> shard_ok st' = shard_ok st"
proof -
  assume "shard_mask st' = shard_mask st"
  then have "GetShard st' = GetShard st" by (rule GetShard_cong)
  then show ?thesis by (simp add: shard_ok_def fun_eq_iff)
qed

lemma store_ok_shard: "store_ok st \<Longrightarrow> shard_ok st (GetShard st key) (the_shard st key)"
  using GetShard_less by (auto simp: store_ok_def)

lemma sum_list_upd:
  "i < length xs \<Longrightarrow> int (sum_list (map f (xs[i := x]))) = int (sum_list (map f xs)) + int (f x) - int (f (xs ! i))"
  for f :: "'a \<Rightarrow> nat"
proof (induction xs arbitrary: i)
  case (Cons a xs)
  then show ?case by (cases i) auto
qed simp

text \<open>One shard replaced: the invariant, and the flat map changed at one key.\<close>

lemma store_upd:
  fixes kc ec :: int
  assumes ok: "store_ok st"
    and sh: "shard_ok st (GetShard st key) sh"
    and m: "map_of (sh_map sh) = (map_of (sh_map (the_shard st key)))(key := v)"
    and kc: "kc = key_count st + int (length (sh_map sh)) - int (length (sh_map (the_shard st key)))"
    and ec: "ec \<ge> expires_count st + int (length (ttl_keys sh)) - int (length (ttl_keys (the_shard st key)))"
  defines "st' \<equiv> st\<lparr>shards := (shards st)[GetShard st key := sh], key_count := kc, expires_count := ec\<rparr>"
  shows "store_ok st' \<and> lookup st' = (lookup st)(key := v)"
proof
  note less = GetShard_less [OF ok, of key]
  have mask: "shard_mask st' = shard_mask st" by (simp add: st'_def)
  have sz: "int (Store_Size st') = int (Store_Size st) + int (length (sh_map sh)) - int (length (sh_map (the_shard st key)))"
    using sum_list_upd [OF less, of "\<lambda>sh. length (sh_map sh)"] by (simp add: st'_def Store_Size_def)
  have ex: "int (Store_ExpiresCount st') = int (Store_ExpiresCount st) + int (length (ttl_keys sh)) - int (length (ttl_keys (the_shard st key)))"
    using sum_list_upd [OF less, of "\<lambda>sh. length (ttl_keys sh)"] by (simp add: st'_def Store_ExpiresCount_def)
  show "store_ok st'"
    unfolding store_ok_def
  proof (intro conjI)
    show "\<exists>b\<le>63. length (shards st') = 2 ^ b \<and> shard_mask st' = 2 ^ b - 1"
      using ok by (simp add: store_ok_def st'_def)
    show "\<forall>i<length (shards st'). shard_ok st' i (shards st' ! i)"
      unfolding shard_ok_cong [OF mask] using ok sh less by (auto simp: store_ok_def st'_def nth_list_update)
    show "key_count st' = int (Store_Size st')" unfolding sz using ok kc by (simp add: store_ok_def st'_def)
    show "int (Store_ExpiresCount st') \<le> expires_count st'"
      unfolding ex using ok ec by (simp add: store_ok_def st'_def)
  qed
  show "lookup st' = (lookup st)(key := v)"
  proof
    fix k
    show "lookup st' k = ((lookup st)(key := v)) k"
    proof (cases "GetShard st k = GetShard st key")
      case True
      then show ?thesis using less m unfolding lookup_def GetShard_cong [OF mask] by (auto simp: st'_def)
    next
      case False
      then show ?thesis unfolding lookup_def GetShard_cong [OF mask] by (auto simp: st'_def)
    qed
  qed
qed

lemma length_delete_present:
  "distinct (map fst xs) \<Longrightarrow> map_of xs k \<noteq> None \<Longrightarrow> Suc (length (AList.delete k xs)) = length xs"
proof (induction xs)
  case (Cons x xs)
  show ?case
  proof (cases "fst x = k")
    case True
    with Cons.prems have "AList.delete k xs = xs" by (auto intro!: delete_idem)
    with True show ?thesis by (cases x) simp
  next
    case False
    with Cons show ?thesis by (cases x) simp
  qed
qed simp

lemma length_update: "length (AList.update k v xs) = (if map_of xs k = None then Suc (length xs) else length xs)"
  by (induction xs) auto

lemma set_update_keys: "fst ` set (AList.update k v xs) = insert k (fst ` set xs)"
  using dom_update [of k v xs] by (simp add: dom_map_of_conv_image_fst)

subsection \<open>The shared blocks\<close>

lemma GetShard_upd [simp]:
  "GetShard (st\<lparr>shards := x\<rparr>) = GetShard st" "GetShard (st\<lparr>key_count := kc\<rparr>) = GetShard st"
  "GetShard (st\<lparr>expires_count := kc\<rparr>) = GetShard st" "GetShard (st\<lparr>zheap := zh\<rparr>) = GetShard st"
  "GetShard (st\<lparr>znext := n\<rparr>) = GetShard st"
  by (simp_all add: GetShard_def fun_eq_iff)

lemma store_upd_zheap [simp]:
  "store_ok (st\<lparr>zheap := zh\<rparr>) = store_ok st" "lookup (st\<lparr>zheap := zh\<rparr>) = lookup st"
  "store_ok (st\<lparr>znext := n\<rparr>) = store_ok st" "lookup (st\<lparr>znext := n\<rparr>) = lookup st"
  by (simp_all add: store_ok_def shard_ok_def Store_Size_def Store_ExpiresCount_def lookup_def fun_eq_iff)

lemma delete_keys_sub: "k \<in> fst ` set (AList.delete key xs) \<Longrightarrow> k \<in> fst ` set xs"
  by (auto simp: AList.delete_eq)

lemma shard_erase_ok:
  assumes sh: "shard_ok st i sh" and m: "map_of (sh_map sh) key = Some e"
  shows "HasExpire e \<Longrightarrow> shard_ok st i (RemoveTtlKey key (sh\<lparr>sh_map := AList.delete key (sh_map sh)\<rparr>))"
    "\<not> HasExpire e \<Longrightarrow> shard_ok st i (sh\<lparr>sh_map := AList.delete key (sh_map sh)\<rparr>)"
proof -
  let ?m = "AList.delete key (sh_map sh)"
  let ?sh = "sh\<lparr>sh_map := ?m\<rparr>"
  have d: "distinct (ttl_keys ?sh)" using sh by (simp add: shard_ok_def)
  have "distinct (map fst ?m)" using sh by (simp add: shard_ok_def distinct_delete)
  moreover have "\<forall>k\<in>fst ` set ?m. GetShard st k = i"
  proof
    fix k assume "k \<in> fst ` set ?m"
    then have "k \<in> fst ` set (sh_map sh)" by (rule delete_keys_sub)
    with sh show "GetShard st k = i" unfolding shard_ok_def by blast
  qed
  ultimately have k: "distinct (map fst ?m)" "\<forall>k\<in>fst ` set ?m. GetShard st k = i" by blast+
  have t: "{k. \<exists>e. map_of ?m k = Some e \<and> HasExpire e} = set (ttl_keys sh) - {key}"
    using sh by (auto simp: shard_ok_def delete_conv')
  show "HasExpire e \<Longrightarrow> shard_ok st i (RemoveTtlKey key ?sh)"
    using k t RemoveTtlKey_facts [OF d, of key] by (simp add: shard_ok_def)
  show "shard_ok st i ?sh" if "\<not> HasExpire e"
  proof -
    have "key \<notin> set (ttl_keys sh)"
    proof
      assume "key \<in> set (ttl_keys sh)"
      then obtain e' where "map_of (sh_map sh) key = Some e'" "HasExpire e'"
        using sh unfolding shard_ok_def by blast
      with m that show False by simp
    qed
    then show ?thesis using k t d by (simp add: shard_ok_def)
  qed
qed

lemma shard_put_ok:
  assumes "shard_ok st i sh" "GetShard st key = i"
    "HasExpire e \<longleftrightarrow> (\<exists>e'. map_of (sh_map sh) key = Some e' \<and> HasExpire e')"
  shows "shard_ok st i (sh\<lparr>sh_map := AList.update key e (sh_map sh)\<rparr>)"
  using assms by (auto simp: shard_ok_def distinct_update update_conv' set_update_keys split: if_splits)

lemma shard_put_add_ok:
  assumes "shard_ok st i sh" "GetShard st key = i" "HasExpire e"
    "\<not> (\<exists>e'. map_of (sh_map sh) key = Some e' \<and> HasExpire e')"
  shows "shard_ok st i (AddTtlKey key (sh\<lparr>sh_map := AList.update key e (sh_map sh)\<rparr>))"
  using assms by (auto simp: shard_ok_def AddTtlKey_def distinct_update update_conv' set_update_keys split: if_splits)

lemma shard_put_drop_ok:
  assumes "shard_ok st i sh" "GetShard st key = i" "\<not> HasExpire e"
    "map_of (sh_map sh) key = Some e'" "HasExpire e'"
  shows "shard_ok st i (RemoveTtlKey key (sh\<lparr>sh_map := AList.update key e (sh_map sh)\<rparr>))"
proof -
  have d: "distinct (ttl_keys (sh\<lparr>sh_map := AList.update key e (sh_map sh)\<rparr>))"
    using assms(1) by (simp add: shard_ok_def)
  show ?thesis using assms RemoveTtlKey_facts [OF d, of key]
    by (auto simp: shard_ok_def distinct_update update_conv' set_update_keys split: if_splits)
qed

lemma evict_ok:
  assumes ok: "store_ok st" and e: "lookup st key = Some e" and x: "IsExpired now e"
  shows "store_ok (evict key st) \<and> lookup (evict key st) = (lookup st)(key := None)"
proof -
  let ?sh = "the_shard st key"
  let ?sh' = "RemoveTtlKey key (?sh\<lparr>sh_map := AList.delete key (sh_map ?sh)\<rparr>)"
  note sh = store_ok_shard [OF ok, of key]
  have m: "map_of (sh_map ?sh) key = Some e" using e by (simp add: lookup_def)
  have h: "HasExpire e" using x by (simp add: IsExpired_def HasExpire_def)
  have d: "distinct (ttl_keys (?sh\<lparr>sh_map := AList.delete key (sh_map ?sh)\<rparr>))" "distinct (map fst (sh_map ?sh))"
    using sh by (simp_all add: shard_ok_def)
  have k: "key \<in> set (ttl_keys ?sh)" using sh m h unfolding shard_ok_def by blast
  have "evict key st = st\<lparr>shards := (shards st)[GetShard st key := ?sh'], key_count := key_count st - 1,
      expires_count := expires_count st\<rparr>"
    by (simp add: evict_def set_shard_def Let_def)
  moreover have "Suc (length (AList.delete key (sh_map ?sh))) = length (sh_map ?sh)"
    using length_delete_present [OF d(2), of key] m by simp
  ultimately show ?thesis
    using store_upd [OF ok shard_erase_ok(1) [OF sh m h], of None "key_count st - 1" "expires_count st"]
      RemoveTtlKey_facts [OF d(1), of key] k by (simp add: delete_conv')
qed

lemma erase_ok:
  assumes ok: "store_ok st" and e: "lookup st key = Some e"
  shows "store_ok (erase key e st) \<and> lookup (erase key e st) = (lookup st)(key := None)"
proof -
  let ?sh = "the_shard st key"
  let ?sh1 = "?sh\<lparr>sh_map := AList.delete key (sh_map ?sh)\<rparr>"
  note sh = store_ok_shard [OF ok, of key] and less = GetShard_less [OF ok, of key]
  have m: "map_of (sh_map ?sh) key = Some e" using e by (simp add: lookup_def)
  have d: "distinct (ttl_keys ?sh1)" "distinct (map fst (sh_map ?sh))"
    using sh by (simp_all add: shard_ok_def)
  have l: "Suc (length (AList.delete key (sh_map ?sh))) = length (sh_map ?sh)"
    using length_delete_present [OF d(2), of key] m by simp
  show ?thesis
  proof (cases "HasExpire e")
    case True
    let ?sh' = "RemoveTtlKey key ?sh1"
    have k: "key \<in> set (ttl_keys ?sh)" using sh m True unfolding shard_ok_def by blast
    then have k0: "length (ttl_keys ?sh) - Suc 0 \<noteq> length (ttl_keys ?sh)" "1 \<le> length (ttl_keys ?sh)"
      by (cases "ttl_keys ?sh"; simp)+
    have "erase key e st = st\<lparr>shards := (shards st)[GetShard st key := ?sh'], key_count := key_count st - 1,
      expires_count := expires_count st - 1\<rparr>"
      using True less RemoveTtlKey_facts(3) [OF d(1), of key] k k0
      by (simp add: erase_def drop_ttl_def set_shard_def Let_def)
    with l show ?thesis
      using store_upd [OF ok shard_erase_ok(1) [OF sh m True], of None "key_count st - 1" "expires_count st - 1"]
        RemoveTtlKey_facts [OF d(1), of key] k k0 by (simp add: delete_conv')
  next
    case False
    have "erase key e st = st\<lparr>shards := (shards st)[GetShard st key := ?sh1], key_count := key_count st - 1,
      expires_count := expires_count st\<rparr>"
      using False by (simp add: erase_def set_shard_def Let_def)
    with l show ?thesis
      using store_upd [OF ok shard_erase_ok(2) [OF sh m False], of None "key_count st - 1" "expires_count st"]
      by (simp add: delete_conv')
  qed
qed

text \<open>The last step of a write: what happens to the TTL index when the entry \<open>e\<close> replaces what
  was there.\<close>

definition sync_ttl :: "string \<Rightarrow> entry option \<Rightarrow> entry \<Rightarrow> store \<Rightarrow> store" where
  "sync_ttl key old e st =
     (let had = (case old of None \<Rightarrow> False | Some e0 \<Rightarrow> HasExpire e0) in
      if \<not> had \<and> HasExpire e then add_ttl key st
      else if had \<and> \<not> HasExpire e then drop_ttl key st else st)"

definition put_entry :: "string \<Rightarrow> entry option \<Rightarrow> entry \<Rightarrow> store \<Rightarrow> store" where
  "put_entry key old e st =
     sync_ttl key old e (case old of None \<Rightarrow> emplace key e st | Some e0 \<Rightarrow> assign key e st)"

lemma put_entry_ok:
  assumes ok: "store_ok st"
  shows "store_ok (put_entry key (lookup st key) e st)
    \<and> lookup (put_entry key (lookup st key) e st) = (lookup st)(key \<mapsto> e)"
proof -
  let ?sh = "the_shard st key"
  let ?sh1 = "?sh\<lparr>sh_map := AList.update key e (sh_map ?sh)\<rparr>"
  let ?kc = "case lookup st key of None \<Rightarrow> key_count st + 1 | Some _ \<Rightarrow> key_count st"
  let ?had = "case lookup st key of None \<Rightarrow> False | Some e0 \<Rightarrow> HasExpire e0"
  note sh = store_ok_shard [OF ok, of key] and less = GetShard_less [OF ok, of key]
  have d: "distinct (ttl_keys ?sh1)" using sh by (simp add: shard_ok_def)
  have had: "?had \<longleftrightarrow> (\<exists>e'. map_of (sh_map ?sh) key = Some e' \<and> HasExpire e')"
    by (auto simp: lookup_def split: option.splits)
  have l: "?kc = key_count st + int (length (sh_map ?sh1)) - int (length (sh_map ?sh))"
    by (auto simp: length_update lookup_def split: option.splits)
  have m: "map_of (sh_map ?sh1) = (map_of (sh_map ?sh))(key \<mapsto> e)" by (simp add: update_conv')
  show ?thesis
  proof (cases "\<not> ?had \<and> HasExpire e")
    case True
    let ?sh' = "AddTtlKey key ?sh1"
    have "put_entry key (lookup st key) e st = st\<lparr>shards := (shards st)[GetShard st key := ?sh'],
        key_count := ?kc, expires_count := expires_count st + 1\<rparr>"
      using True less by (auto simp: put_entry_def sync_ttl_def Let_def emplace_def assign_def add_ttl_def set_shard_def split: option.splits)
    moreover have "shard_ok st (GetShard st key) ?sh'" using shard_put_add_ok [OF sh refl] True had by blast
    ultimately show ?thesis
      using store_upd [OF ok, of key ?sh' "Some e" ?kc "expires_count st + 1"] l m
      by (simp add: AddTtlKey_def)
  next
    case f: False
    show ?thesis
    proof (cases "?had \<and> \<not> HasExpire e")
      case True
      let ?sh' = "RemoveTtlKey key ?sh1"
      have k: "key \<in> set (ttl_keys ?sh)" using sh True had by (auto simp: shard_ok_def)
      then have k0: "length (ttl_keys ?sh) - Suc 0 \<noteq> length (ttl_keys ?sh)" "1 \<le> length (ttl_keys ?sh)"
        by (cases "ttl_keys ?sh"; simp)+
      have "put_entry key (lookup st key) e st = st\<lparr>shards := (shards st)[GetShard st key := ?sh'],
          key_count := ?kc, expires_count := expires_count st - 1\<rparr>"
        using True less RemoveTtlKey_facts(3) [OF d, of key] k k0
        by (auto simp: put_entry_def sync_ttl_def Let_def assign_def drop_ttl_def set_shard_def split: option.splits)
      moreover have "shard_ok st (GetShard st key) ?sh'" using shard_put_drop_ok [OF sh refl] True had by blast
      ultimately show ?thesis
        using store_upd [OF ok, of key ?sh' "Some e" ?kc "expires_count st - 1"] l m
          RemoveTtlKey_facts [OF d, of key] k k0 by simp
    next
      case False
      have "put_entry key (lookup st key) e st = st\<lparr>shards := (shards st)[GetShard st key := ?sh1],
          key_count := ?kc, expires_count := expires_count st\<rparr>"
        using False f less
        by (auto simp: put_entry_def sync_ttl_def Let_def emplace_def assign_def set_shard_def split: option.splits)
      moreover have "shard_ok st (GetShard st key) ?sh1" using shard_put_ok [OF sh refl] False f had by blast
      ultimately show ?thesis
        using store_upd [OF ok, of key ?sh1 "Some e" ?kc "expires_count st"] l m by simp
    qed
  qed
qed

subsection \<open>The visible map and its specification\<close>

type_synonym kspace = "string \<rightharpoonup> entry"

definition vis :: "int \<Rightarrow> kspace \<Rightarrow> kspace" where
  "vis t m = (\<lambda>k. case m k of None \<Rightarrow> None | Some e \<Rightarrow> if IsExpired t e then None else Some e)"

lemma IsExpired_mono: "IsExpired now e \<Longrightarrow> now \<le> t \<Longrightarrow> IsExpired t e"
  by (auto simp: IsExpired_def)

lemma vis_vis [simp]: "now \<le> t \<Longrightarrow> vis t (vis now m) = vis t m"
  by (auto simp: vis_def fun_eq_iff dest: IsExpired_mono split: option.splits)

lemma vis_upd: "vis t (m(k \<mapsto> e)) = (vis t m)(k := if IsExpired t e then None else Some e)"
  by (auto simp: vis_def fun_eq_iff)

lemma vis_del [simp]: "vis t (m(k := None)) = (vis t m)(k := None)"
  by (auto simp: vis_def fun_eq_iff)

lemma vis_Some: "vis t m k = Some e \<longleftrightarrow> m k = Some e \<and> \<not> IsExpired t e"
  by (auto simp: vis_def split: option.splits)

lemma vis_eqI: "(\<And>k. k \<noteq> key \<Longrightarrow> m k = m' k) \<Longrightarrow> vis t m key = vis t m' key \<Longrightarrow> vis t m = vis t m'"
  by (rule ext) (metis vis_def)

definition spec_Set :: "string \<Rightarrow> rvalue \<Rightarrow> SetOptions \<Rightarrow> kspace \<Rightarrow> SetResult \<times> kspace" where
  "spec_Set key v opts m =
     (if so_nx opts \<and> m key \<noteq> None then (kNotSetNx, m)
      else if so_xx opts \<and> m key = None then (kNotSetXx, m)
      else (kOk, m(key \<mapsto> \<lparr>en_value = v, expire_at_ms =
              (if so_has_expire opts then so_expire_at_ms opts
               else case m key of Some e \<Rightarrow> if so_keep_ttl opts then expire_at_ms e else 0 | None \<Rightarrow> 0)\<rparr>)))"

definition spec_ExpireAt :: "int \<Rightarrow> string \<Rightarrow> int \<Rightarrow> kspace \<Rightarrow> (bool \<times> bool) \<times> kspace" where
  "spec_ExpireAt now key t m =
     (case m key of
        None \<Rightarrow> ((False, True), m)
      | Some e \<Rightarrow> if t \<noteq> 0 \<and> t \<le> now then ((True, True), m(key := None))
                  else ((True, False), m(key \<mapsto> e\<lparr>expire_at_ms := t\<rparr>)))"

definition spec_IncrBy :: "string \<Rightarrow> int \<Rightarrow> kspace \<Rightarrow> int option \<times> kspace" where
  "spec_IncrBy key delta m =
     (case m key of
        None \<Rightarrow> (Some delta, m(key \<mapsto> \<lparr>en_value = VInt delta, expire_at_ms = 0\<rparr>))
      | Some e \<Rightarrow>
          (case (case en_value e of VInt n \<Rightarrow> Some n | v \<Rightarrow> ParseInt64 (AsString v)) of
             None \<Rightarrow> (None, m)
           | Some cur \<Rightarrow> if int64_range (cur + delta)
                         then (Some (cur + delta), m(key \<mapsto> e\<lparr>en_value := VInt (cur + delta)\<rparr>))
                         else (None, m)))"

definition spec_TtlMs :: "int \<Rightarrow> string \<Rightarrow> kspace \<Rightarrow> int" where
  "spec_TtlMs now key m =
     (case m key of None \<Rightarrow> -2
      | Some e \<Rightarrow> if \<not> HasExpire e then -1 else expire_at_ms e - now)"

subsection \<open>The operations\<close>

lemma set_shard_zheap [simp]: "zheap (set_shard k sh st) = zheap st" "znext (set_shard k sh st) = znext st"
  by (simp_all add: set_shard_def)

lemma block_zheap [simp]:
  "zheap (evict key st) = zheap st" "znext (evict key st) = znext st"
  "zheap (add_ttl key st) = zheap st" "znext (add_ttl key st) = znext st"
  "zheap (drop_ttl key st) = zheap st" "znext (drop_ttl key st) = znext st"
  "zheap (erase key e st) = zheap st" "znext (erase key e st) = znext st"
  "zheap (emplace key e st) = zheap st" "znext (emplace key e st) = znext st"
  "zheap (assign key e st) = zheap st" "znext (assign key e st) = znext st"
  by (simp_all add: evict_def add_ttl_def drop_ttl_def erase_def emplace_def assign_def Let_def)

lemma find_live_ok:
  assumes ok: "store_ok st" and f: "find_live now key st = (r, st')"
  shows "r = vis now (lookup st) key" "store_ok st'" "lookup st' key = r"
    "now \<le> t \<Longrightarrow> vis t (lookup st') = vis t (lookup st)"
    "zheap st' = zheap st" "znext st' = znext st" "lookup st' \<subseteq>\<^sub>m lookup st"
proof -
  have "r = vis now (lookup st) key \<and> store_ok st' \<and> lookup st' key = r
    \<and> (now \<le> t \<longrightarrow> vis t (lookup st') = vis t (lookup st))
    \<and> zheap st' = zheap st \<and> znext st' = znext st \<and> lookup st' \<subseteq>\<^sub>m lookup st"
  proof (cases "lookup st key")
    case None
    then show ?thesis using f ok by (auto simp: find_live_def vis_def)
  next
    case (Some e)
    show ?thesis
    proof (cases "IsExpired now e")
      case True
      from evict_ok [OF ok Some True] have ev: "store_ok (evict key st)" "lookup (evict key st) = (lookup st)(key := None)" by auto
      have "vis t ((lookup st)(key := None)) = vis t (lookup st)" if "now \<le> t"
        using IsExpired_mono [OF True that] Some by (intro vis_eqI [of key]) (auto simp: vis_def)
      with ev show ?thesis using f Some True by (auto simp: find_live_def vis_def map_le_def)
    next
      case False
      with f Some have "r = Some e" "st' = st" by (simp_all add: find_live_def)
      with Some False ok show ?thesis by (simp add: vis_def)
    qed
  qed
  then show "r = vis now (lookup st) key" "store_ok st'" "lookup st' key = r"
    "now \<le> t \<Longrightarrow> vis t (lookup st') = vis t (lookup st)"
    "zheap st' = zheap st" "znext st' = znext st" "lookup st' \<subseteq>\<^sub>m lookup st" by blast+
qed

text \<open>An entry written to the state after \<open>find_live\<close>.\<close>

lemma put_after_find:
  assumes ok: "store_ok st" and f: "find_live now key st = (r, st1)"
  shows "store_ok (put_entry key r e st1)"
    "now \<le> t \<Longrightarrow> vis t (lookup (put_entry key r e st1)) = vis t ((vis now (lookup st))(key \<mapsto> e))"
proof -
  note fl = find_live_ok [OF ok f]
  from put_entry_ok [OF fl(2), of key e] fl(3)
  have "store_ok (put_entry key r e st1)" "lookup (put_entry key r e st1) = (lookup st1)(key \<mapsto> e)" by auto
  then show "store_ok (put_entry key r e st1)"
    "now \<le> t \<Longrightarrow> vis t (lookup (put_entry key r e st1)) = vis t ((vis now (lookup st))(key \<mapsto> e))"
    using fl(4) [of t] by (auto simp: vis_upd)
qed

lemma Store_Set_ok:
  assumes ok: "store_ok st" and s: "Store_Set now key v opts st = (r, st')"
  shows "store_ok st' \<and> r = fst (spec_Set key v opts (vis now (lookup st)))
    \<and> (\<forall>t\<ge>now. vis t (lookup st') = vis t (snd (spec_Set key v opts (vis now (lookup st)))))"
proof -
  obtain f st1 where f: "find_live now key st = (f, st1)" by (cases "find_live now key st") auto
  note fl = find_live_ok [OF ok f] and pf = put_after_find [OF ok f]
  let ?at = "if so_has_expire opts then so_expire_at_ms opts
      else case f of Some e \<Rightarrow> if so_keep_ttl opts then expire_at_ms e else 0 | None \<Rightarrow> 0"
  let ?e = "\<lparr>en_value = v, expire_at_ms = ?at\<rparr>"
  show ?thesis
  proof (cases "so_nx opts \<and> f \<noteq> None \<or> so_xx opts \<and> f = None")
    case True
    then show ?thesis using s f fl by (auto simp: Store_Set_def spec_Set_def Let_def)
  next
    case False
    then have "(r, st') = (kOk, put_entry key f ?e st1)"
      using s f by (cases f) (auto simp: Store_Set_def Let_def put_entry_def sync_ttl_def HasExpire_def)
    moreover have "spec_Set key v opts (vis now (lookup st)) = (kOk, (vis now (lookup st))(key \<mapsto> ?e))"
      using False fl(1) by (simp add: spec_Set_def)
    ultimately show ?thesis using pf by simp
  qed
qed

lemma Store_Get_ok:
  assumes ok: "store_ok st" and s: "Store_Get now key st = (r, st')"
  shows "store_ok st' \<and> r = map_option en_value (vis now (lookup st) key)
    \<and> (\<forall>t\<ge>now. vis t (lookup st') = vis t (lookup st))"
proof -
  obtain f st1 where f: "find_live now key st = (f, st1)" by (cases "find_live now key st") auto
  note fl = find_live_ok [OF ok f]
  from s f have "(r, st') = (map_option en_value f, st1)" by (cases f) (auto simp: Store_Get_def)
  with fl show ?thesis by simp
qed

lemma Store_TtlMs_ok:
  assumes ok: "store_ok st" and s: "Store_TtlMs now key st = (r, st')"
    and range: "0 \<le> now" "\<And>e. lookup st key = Some e \<Longrightarrow> int64_range (expire_at_ms e)"
  shows "store_ok st' \<and> r = spec_TtlMs now key (vis now (lookup st))
    \<and> (\<forall>t\<ge>now. vis t (lookup st') = vis t (lookup st))"
proof -
  obtain f st1 where f: "find_live now key st = (f, st1)" by (cases "find_live now key st") auto
  note fl = find_live_ok [OF ok f]
  have "r = spec_TtlMs now key (vis now (lookup st)) \<and> st' = st1"
  proof (cases f)
    case None
    with s f fl(1) show ?thesis by (auto simp: Store_TtlMs_def spec_TtlMs_def)
  next
    case (Some e)
    with fl(1) have v: "vis now (lookup st) key = Some e" by simp
    then have e: "lookup st key = Some e" "\<not> IsExpired now e" by (simp_all add: vis_Some)
    then have "HasExpire e \<Longrightarrow> i64 (expire_at_ms e - now) = expire_at_ms e - now \<and> \<not> expire_at_ms e - now < 0"
      using range(2) [OF e(1)] range(1) by (auto simp: IsExpired_def HasExpire_def int64_range_def intro!: i64_id)
    with s f v Some show ?thesis by (cases "HasExpire e") (simp_all add: Store_TtlMs_def spec_TtlMs_def Let_def)
  qed
  with fl show ?thesis by simp
qed

lemma Store_Del_ok:
  assumes ok: "store_ok st" and s: "Store_Del key st = (r, st')"
  shows "store_ok st' \<and> (r \<longleftrightarrow> lookup st key \<noteq> None) \<and> lookup st' = (lookup st)(key := None)"
  using s ok erase_ok [OF ok] by (auto simp: Store_Del_def split: option.splits)

lemma assign_put: "HasExpire e0 = HasExpire e \<Longrightarrow> put_entry key (Some e0) e st = assign key e st"
  by (simp add: put_entry_def sync_ttl_def)

lemma emplace_put: "\<not> HasExpire e \<Longrightarrow> put_entry key None e st = emplace key e st"
  by (simp add: put_entry_def sync_ttl_def)

lemma int64_sum_check:
  "int64_range cur \<Longrightarrow> int64_range d \<Longrightarrow>
     (d > 0 \<and> cur > INT64_MAX - d \<or> d < 0 \<and> cur < INT64_MIN - d) \<longleftrightarrow> \<not> int64_range (cur + d)"
  by (auto simp: int64_range_def)

definition value_ok :: "rvalue \<Rightarrow> bool" where
  "value_ok v \<longleftrightarrow> (\<forall>n. v = VInt n \<longrightarrow> int64_range n)"

lemma Store_IncrBy_ok:
  assumes ok: "store_ok st" and s: "Store_IncrBy now key delta st = (r, st')"
    and d: "int64_range delta" "\<And>e. lookup st key = Some e \<Longrightarrow> value_ok (en_value e)"
  shows "store_ok st' \<and> r = fst (spec_IncrBy key delta (vis now (lookup st)))
    \<and> (\<forall>t\<ge>now. vis t (lookup st') = vis t (snd (spec_IncrBy key delta (vis now (lookup st)))))"
proof -
  obtain f st1 where f: "find_live now key st = (f, st1)" by (cases "find_live now key st") auto
  note fl = find_live_ok [OF ok f] and pf = put_after_find [OF ok f]
  show ?thesis
  proof (cases f)
    case None
    let ?e = "\<lparr>en_value = VInt delta, expire_at_ms = 0\<rparr>"
    from None s f have "r = Some delta" "st' = put_entry key f ?e st1"
      by (auto simp: Store_IncrBy_def emplace_put HasExpire_def)
    moreover have "spec_IncrBy key delta (vis now (lookup st)) = (Some delta, (vis now (lookup st))(key \<mapsto> ?e))"
      using None fl(1) by (simp add: spec_IncrBy_def)
    ultimately show ?thesis using pf by simp
  next
    case (Some e)
    with fl(1) have "vis now (lookup st) key = Some e" by simp
    then have e: "lookup st key = Some e" "vis now (lookup st) key = Some e" by (simp_all add: vis_Some)
    let ?p = "case en_value e of VInt n \<Rightarrow> Some n | v \<Rightarrow> ParseInt64 (AsString v)"
    show ?thesis
    proof (cases ?p)
      case None
      with s f Some e(2) fl show ?thesis by (auto simp: Store_IncrBy_def spec_IncrBy_def)
    next
      case cur: (Some cur)
      have "int64_range cur"
        using cur d(2) [OF e(1)] by (auto simp: value_ok_def split: rvalue.splits dest: ParseInt64_range)
      note chk = int64_sum_check [OF this d(1)]
      let ?e = "e\<lparr>en_value := VInt (cur + delta)\<rparr>"
      show ?thesis
      proof (cases "int64_range (cur + delta)")
        case False
        with s f Some cur chk e(2) fl show ?thesis by (simp add: Store_IncrBy_def spec_IncrBy_def)
      next
        case True
        with s f Some cur chk have "r = Some (cur + delta)" "st' = put_entry key f ?e st1"
          by (simp_all add: Store_IncrBy_def assign_put HasExpire_def)
        moreover have "spec_IncrBy key delta (vis now (lookup st)) = (Some (cur + delta), (vis now (lookup st))(key \<mapsto> ?e))"
          using True cur e(2) by (simp add: spec_IncrBy_def)
        ultimately show ?thesis using pf by simp
      qed
    qed
  qed
qed

end
