(* ===== verification/Store_Refine.thy ===== *)
theory Store_Refine
  imports Store_Facts
begin

section \<open>Expiry, traversal and ordered sets of the store\<close>

text \<open>
  The remaining operations of the store: \<open>ExpireAt\<close>, the expiry cycle, \<open>FlushAll\<close>, initialisation,
  and the operations on ordered sets, whose references are shown to stay unshared: no two keys hold
  the same \<open>ZSet\<close>, and every reference leads to a well-formed one.
\<close>

lemma drop_ttl_present:
  assumes "store_ok st" "lookup st key = Some e" "HasExpire e"
  shows "(set_shard key (RemoveTtlKey key (the_shard (assign key e' st) key)) (assign key e' st))
           \<lparr>expires_count := expires_count (assign key e' st) - 1\<rparr> = drop_ttl key (assign key e' st)"
proof -
  note sh = store_ok_shard [OF assms(1), of key] and less = GetShard_less [OF assms(1), of key]
  let ?sh = "the_shard (assign key e' st) key"
  have e: "ttl_keys ?sh = ttl_keys (the_shard st key)"
    using less by (simp add: assign_def set_shard_def Let_def)
  have d: "distinct (ttl_keys ?sh)" unfolding e using sh by (simp add: shard_ok_def)
  have "key \<in> set (ttl_keys ?sh)" unfolding e using sh assms(2,3) unfolding shard_ok_def lookup_def by blast
  then have "length (ttl_keys (RemoveTtlKey key ?sh)) \<noteq> length (ttl_keys ?sh)"
    using RemoveTtlKey_facts(3) [OF d, of key] by (cases "ttl_keys ?sh") auto
  then show ?thesis by (simp add: drop_ttl_def Let_def)
qed

lemma Store_ExpireAt_ok:
  assumes ok: "store_ok st" and s: "Store_ExpireAt now key t st = (r, st')"
  shows "store_ok st' \<and> r = fst (spec_ExpireAt now key t (vis now (lookup st)))
    \<and> (\<forall>u\<ge>now. vis u (lookup st') = vis u (snd (spec_ExpireAt now key t (vis now (lookup st)))))"
proof -
  obtain f st1 where f: "find_live now key st = (f, st1)" by (cases "find_live now key st") auto
  note fl = find_live_ok [OF ok f] and pf = put_after_find [OF ok f]
  show ?thesis
  proof (cases f)
    case None
    with s f fl show ?thesis by (auto simp: Store_ExpireAt_def spec_ExpireAt_def)
  next
    case (Some e)
    with fl(1,3) have v: "vis now (lookup st) key = Some e" "lookup st1 key = Some e" by simp_all
    let ?e = "e\<lparr>expire_at_ms := t\<rparr>"
    show ?thesis
    proof (cases "t \<noteq> 0 \<and> t \<le> now")
      case True
      from erase_ok [OF fl(2) v(2)] fl(4) s f Some True v(1) show ?thesis
        by (auto simp: Store_ExpireAt_def spec_ExpireAt_def)
    next
      case False
      have "r = (True, False)" "st' = put_entry key f ?e st1"
        using s f Some False drop_ttl_present [OF fl(2) v(2), of ?e]
        by (auto simp: Store_ExpireAt_def put_entry_def sync_ttl_def Let_def split: if_splits)
      moreover have "spec_ExpireAt now key t (vis now (lookup st)) = ((True, False), (vis now (lookup st))(key \<mapsto> ?e))"
        using False v(1) by (auto simp: spec_ExpireAt_def)
      ultimately show ?thesis using pf by simp
    qed
  qed
qed

subsection \<open>The expiry cycle\<close>

lemma expire_shard_ok:
  assumes "shard_ok st i sh" "expire_shard now b sh = (n, sh')"
  shows "shard_ok st i sh' \<and> n \<le> b
     \<and> length (sh_map sh') + n = length (sh_map sh) \<and> length (ttl_keys sh') + n = length (ttl_keys sh)
     \<and> (\<forall>k. map_of (sh_map sh') k = map_of (sh_map sh) k
            \<or> map_of (sh_map sh') k = None \<and> (\<exists>e. map_of (sh_map sh) k = Some e \<and> IsExpired now e))"
  using assms
proof (induction b arbitrary: sh n sh')
  case (Suc b)
  show ?case
  proof (cases "ttl_keys sh = []")
    case True
    with Suc.prems show ?thesis by auto
  next
    case ne: False
    define cur where "cur = (if ttl_scan_cursor sh \<ge> length (ttl_keys sh) then 0 else ttl_scan_cursor sh)"
    define k where "k = ttl_keys sh ! cur"
    have c: "cur < length (ttl_keys sh)" using ne by (auto simp: cur_def)
    then have "k \<in> set (ttl_keys sh)" by (simp add: k_def)
    then obtain e where e: "map_of (sh_map sh) k = Some e" "HasExpire e"
      using Suc.prems(1) unfolding shard_ok_def by blast
    have d: "distinct (ttl_keys sh)" "distinct (map fst (sh_map sh))" using Suc.prems(1) by (simp_all add: shard_ok_def)
    note sp = swap_pop_distinct [OF c d(1), folded k_def]
    have eq: "expire_shard now (Suc b) sh =
        (if IsExpired now e
         then let ks = swap_pop (ttl_keys sh) cur;
                  (n, sh') = expire_shard now b
                    (sh\<lparr>sh_map := AList.delete k (sh_map sh), ttl_keys := ks,
                        ttl_scan_cursor := (if cur \<ge> length ks then 0 else cur)\<rparr>)
              in (Suc n, sh')
         else expire_shard now b (sh\<lparr>ttl_scan_cursor := cur + 1\<rparr>))"
      using ne e(1) by (simp add: cur_def [symmetric] k_def [symmetric] Let_def)
    show ?thesis
    proof (cases "IsExpired now e")
      case False
      have "shard_ok st i (sh\<lparr>ttl_scan_cursor := cur + 1\<rparr>)" using Suc.prems(1) by (simp add: shard_ok_def)
      from Suc.IH [OF this, of n sh'] Suc.prems(2) False show ?thesis unfolding eq by auto
    next
      case True
      let ?sh = "sh\<lparr>sh_map := AList.delete k (sh_map sh), ttl_keys := swap_pop (ttl_keys sh) cur,
          ttl_scan_cursor := (if cur \<ge> length (swap_pop (ttl_keys sh) cur) then 0 else cur)\<rparr>"
      obtain n0 where n0: "expire_shard now b ?sh = (n0, sh')" "n = Suc n0"
        using Suc.prems(2) True unfolding eq by (auto simp: Let_def split: prod.splits)
      have "shard_ok st i ?sh"
      proof -
        have "shard_ok st i (RemoveTtlKey k (sh\<lparr>sh_map := AList.delete k (sh_map sh)\<rparr>))"
          by (rule shard_erase_ok(1) [OF Suc.prems(1) e])
        moreover have "distinct (ttl_keys (sh\<lparr>sh_map := AList.delete k (sh_map sh)\<rparr>))" using d by simp
        ultimately show ?thesis using sp RemoveTtlKey_facts [of "sh\<lparr>sh_map := AList.delete k (sh_map sh)\<rparr>" k]
          by (simp add: shard_ok_def)
      qed
      from Suc.IH [OF this n0(1)] have IH: "shard_ok st i sh'" "n0 \<le> b"
        "length (sh_map sh') + n0 = length (AList.delete k (sh_map sh))"
        "length (ttl_keys sh') + n0 = length (swap_pop (ttl_keys sh) cur)"
        "\<forall>k'. map_of (sh_map sh') k' = ((map_of (sh_map sh))(k := None)) k'
            \<or> map_of (sh_map sh') k' = None \<and> (\<exists>e. ((map_of (sh_map sh))(k := None)) k' = Some e \<and> IsExpired now e)"
        by (simp_all add: delete_conv')
      have "Suc (length (AList.delete k (sh_map sh))) = length (sh_map sh)"
        using length_delete_present [OF d(2), of k] e(1) by simp
      moreover have "\<forall>k'. map_of (sh_map sh') k' = map_of (sh_map sh) k'
            \<or> map_of (sh_map sh') k' = None \<and> (\<exists>e. map_of (sh_map sh) k' = Some e \<and> IsExpired now e)"
        using IH(5) e(1) True by (metis fun_upd_apply)
      ultimately show ?thesis using IH(1-4) n0(2) sp(3) c by auto
    qed
  qed
qed auto

lemma expire_one_ok:
  assumes "shard_ok st i sh"
  shows "shard_ok st i (snd (expire_one now sh)) \<and> fst (expire_one now sh) \<le> 20
     \<and> length (sh_map (snd (expire_one now sh))) + fst (expire_one now sh) = length (sh_map sh)
     \<and> length (ttl_keys (snd (expire_one now sh))) + fst (expire_one now sh) = length (ttl_keys sh)
     \<and> (\<forall>k. map_of (sh_map (snd (expire_one now sh))) k = map_of (sh_map sh) k
            \<or> map_of (sh_map (snd (expire_one now sh))) k = None
               \<and> (\<exists>e. map_of (sh_map sh) k = Some e \<and> IsExpired now e))"
proof -
  obtain n sh' where e: "expire_shard now (min 20 (length (ttl_keys sh))) sh = (n, sh')"
    by (cases "expire_shard now (min 20 (length (ttl_keys sh))) sh") auto
  from expire_shard_ok [OF assms e] e show ?thesis by (simp add: expire_one_def)
qed

lemma sum_list_split: "(\<And>x. x \<in> set xs \<Longrightarrow> f x + g x = (h x :: nat)) \<Longrightarrow>
    sum_list (map f xs) + sum_list (map g xs) = sum_list (map h xs)"
  by (induction xs) fastforce+

lemma ExpireCycle_ok:
  assumes ok: "store_ok st" and c: "ExpireCycle now st = (n, st')"
  shows "store_ok st' \<and> Store_Size st' + n = Store_Size st
    \<and> (\<forall>t\<ge>now. vis t (lookup st') = vis t (lookup st)) \<and> lookup st' \<subseteq>\<^sub>m lookup st"
proof -
  let ?f = "expire_one now"
  have st': "st' = st\<lparr>shards := map (snd \<circ> ?f) (shards st), key_count := key_count st - int n,
                   expires_count := expires_count st - int n\<rparr>" "n = sum_list (map (fst \<circ> ?f) (shards st))"
    using c by (auto simp: ExpireCycle_def Let_def)
  have shi: "shard_ok st i (shards st ! i)" if "i < length (shards st)" for i
    using ok that by (simp add: store_ok_def)
  have each: "length (sh_map (snd (?f sh))) + fst (?f sh) = length (sh_map sh)"
    "length (ttl_keys (snd (?f sh))) + fst (?f sh) = length (ttl_keys sh)" if "sh \<in> set (shards st)" for sh
    using that expire_one_ok [OF shi] by (auto simp: in_set_conv_nth)
  have sz: "Store_Size st' + n = Store_Size st"
    using sum_list_split [of "shards st" "\<lambda>sh. length (sh_map (snd (?f sh)))" "\<lambda>sh. fst (?f sh)" "\<lambda>sh. length (sh_map sh)"] each(1)
    by (simp add: st' Store_Size_def comp_def)
  have ex: "Store_ExpiresCount st' + n = Store_ExpiresCount st"
    using sum_list_split [of "shards st" "\<lambda>sh. length (ttl_keys (snd (?f sh)))" "\<lambda>sh. fst (?f sh)" "\<lambda>sh. length (ttl_keys sh)"] each(2)
    by (simp add: st' Store_ExpiresCount_def comp_def)
  have mask: "shard_mask st' = shard_mask st" by (simp add: st')
  have lk: "lookup st' k = lookup st k \<or> lookup st' k = None \<and> (\<exists>e. lookup st k = Some e \<and> IsExpired now e)" for k
    using expire_one_ok [OF shi [OF GetShard_less [OF ok, of k]], of now] GetShard_less [OF ok, of k]
    unfolding lookup_def GetShard_cong [OF mask] by (auto simp: st')
  have "store_ok st'"
    unfolding store_ok_def
  proof (intro conjI)
    show "\<exists>b\<le>63. length (shards st') = 2 ^ b \<and> shard_mask st' = 2 ^ b - 1"
      using ok by (simp add: store_ok_def st')
    show "\<forall>i<length (shards st'). shard_ok st' i (shards st' ! i)"
      unfolding shard_ok_cong [OF mask] using shi expire_one_ok by (simp add: st')
    show "key_count st' = int (Store_Size st')"
      using ok sz by (simp add: store_ok_def st')
    show "int (Store_ExpiresCount st') \<le> expires_count st'"
      using ok ex by (simp add: store_ok_def st')
  qed
  moreover have "vis t (lookup st') = vis t (lookup st)" if "now \<le> t" for t
  proof
    fix k show "vis t (lookup st') k = vis t (lookup st) k"
    proof (cases "lookup st' k = lookup st k")
      case False
      with lk [of k] obtain e where "lookup st' k = None" "lookup st k = Some e" "IsExpired now e" by blast
      then show ?thesis using IsExpired_mono [OF _ that, of e] by (simp add: vis_def)
    qed (simp add: vis_def)
  qed
  moreover have "lookup st' \<subseteq>\<^sub>m lookup st" using lk by (force simp: map_le_def dom_def)
  ultimately show ?thesis using sz by blast
qed

subsection \<open>Initialisation and FlushAll\<close>

lemma Store_Init_ok:
  assumes c: "c \<le> 2 ^ 63"
  shows "\<exists>st. Store_Init c = Some st \<and> store_ok st \<and> lookup st = Map.empty
     \<and> length (shards st) \<ge> unat c \<and> (1 < c \<longrightarrow> length (shards st) < 2 * unat c)"
proof -
  let ?c = "if c < 1 then 1 else c :: u64"
  define b where "b = (LEAST b. unat ?c \<le> 2 ^ b)"
  have le63: "unat ?c \<le> 2 ^ 63" using c by (auto simp: word_le_nat_alt)
  have b: "unat ?c \<le> 2 ^ b" unfolding b_def by (rule LeastI [of "\<lambda>b. unat ?c \<le> 2 ^ b", OF le63])
  have b63: "b \<le> 63" unfolding b_def by (rule Least_le [of "\<lambda>b. unat ?c \<le> 2 ^ b", OF le63])
  have lt: "2 ^ j < unat ?c" if "j < b" for j
    using not_less_Least [of j "\<lambda>b. unat ?c \<le> 2 ^ b"] that unfolding b_def by simp
  have p: "unat (2 ^ j :: u64) = 2 ^ j" if "j \<le> 63" for j
  proof -
    have "(2 :: nat) ^ j < 18446744073709551616" using power_strict_increasing [of j 64 "2 :: nat"] that by simp
    then have "unat (of_nat (2 ^ j) :: u64) = 2 ^ j" by (rule unat_of_nat_u64)
    then show ?thesis by simp
  qed
  have "round_pow2 ?c (2 ^ 0) = Some (2 ^ b)"
    using b b63 lt p by (intro round_pow2_ok) (auto simp: word_less_nat_alt not_less)
  then have r: "round_pow2 ?c 1 = Some (2 ^ b)" by simp
  let ?st = "\<lparr>shards = replicate (2 ^ b) empty_shard, shard_mask = 2 ^ b - 1,
                key_count = 0, expires_count = 0, zheap = (\<lambda>_. None), znext = 0\<rparr>"
  have "Store_Init c = Some ?st" using r p [OF b63] by (simp add: Store_Init_def)
  moreover have ok: "store_ok ?st"
    using b63 by (auto simp: store_ok_def shard_ok_def empty_shard_def Store_Size_def Store_ExpiresCount_def sum_list_replicate)
  moreover have "lookup ?st = Map.empty"
    using GetShard_less [OF ok] by (auto simp: lookup_def fun_eq_iff empty_shard_def)
  moreover have "unat c \<le> 2 ^ b" using b by (auto simp: word_less_nat_alt split: if_splits)
  moreover have "2 ^ b < 2 * unat c" if "1 < c"
  proof -
    have u: "unat ?c = unat c" "1 < unat c" using that by (auto simp: word_less_nat_alt)
    then have "b \<noteq> 0" using b by (intro notI) simp
    then obtain j where "b = Suc j" by (cases b) auto
    with lt [of j] u show ?thesis by simp
  qed
  ultimately show ?thesis by (intro exI [of _ ?st]) simp
qed

lemma Store_FlushAll_ok:
  assumes ok: "store_ok st"
  shows "store_ok (Store_FlushAll st) \<and> lookup (Store_FlushAll st) = Map.empty"
proof -
  have mask: "shard_mask (Store_FlushAll st) = shard_mask st" by (simp add: Store_FlushAll_def)
  have s: "store_ok (Store_FlushAll st)"
    using ok by (auto simp: store_ok_def shard_ok_def Store_FlushAll_def Store_Size_def Store_ExpiresCount_def comp_def)
  moreover have "lookup (Store_FlushAll st) = Map.empty"
    using GetShard_less [OF ok] by (auto simp: lookup_def GetShard_cong [OF mask] fun_eq_iff) (simp add: Store_FlushAll_def)
  ultimately show ?thesis by blast
qed

subsection \<open>Traversal\<close>

lemma row_in:
  "(k, v, x) \<in> set (map (\<lambda>(k, e). (k, en_value e, expire_at_ms e)) (filter (\<lambda>(k, e). \<not> IsExpired now e) xs))
     \<longleftrightarrow> (k, \<lparr>en_value = v, expire_at_ms = x\<rparr>) \<in> set xs \<and> \<not> IsExpired now \<lparr>en_value = v, expire_at_ms = x\<rparr>"
proof (induction xs)
  case (Cons a xs)
  obtain k' v' x' where "a = (k', \<lparr>en_value = v', expire_at_ms = x'\<rparr>)"
    by (cases a) (metis entry.cases)
  with Cons show ?case by auto
qed simp

lemma Store_ForEach_ok:
  assumes ok: "store_ok st"
  shows "(k, v, x) \<in> set (Store_ForEach now st) \<longleftrightarrow> vis now (lookup st) k = Some \<lparr>en_value = v, expire_at_ms = x\<rparr>"
proof -
  let ?row = "\<lambda>(k, e). (k, en_value e, expire_at_ms e)"
  have "(k, v, x) \<in> set (Store_ForEach now st) \<longleftrightarrow>
      (\<exists>i<length (shards st). (k, \<lparr>en_value = v, expire_at_ms = x\<rparr>) \<in> set (sh_map (shards st ! i)))
      \<and> \<not> IsExpired now \<lparr>en_value = v, expire_at_ms = x\<rparr>"
    unfolding Store_ForEach_def set_concat set_map [of _ "shards st"] UN_iff
    by (simp only: row_in bex_simps image_iff) (metis in_set_conv_nth)
  also have "(\<exists>i<length (shards st). (k, \<lparr>en_value = v, expire_at_ms = x\<rparr>) \<in> set (sh_map (shards st ! i)))
      \<longleftrightarrow> lookup st k = Some \<lparr>en_value = v, expire_at_ms = x\<rparr>"
  proof
    assume "\<exists>i<length (shards st). (k, \<lparr>en_value = v, expire_at_ms = x\<rparr>) \<in> set (sh_map (shards st ! i))"
    then obtain i where i: "i < length (shards st)" "(k, \<lparr>en_value = v, expire_at_ms = x\<rparr>) \<in> set (sh_map (shards st ! i))" by blast
    with ok have sh: "shard_ok st i (shards st ! i)" by (simp add: store_ok_def)
    then have "GetShard st k = i" using i(2) unfolding shard_ok_def by force
    with i sh show "lookup st k = Some \<lparr>en_value = v, expire_at_ms = x\<rparr>"
      by (auto simp: lookup_def shard_ok_def)
  next
    assume "lookup st k = Some \<lparr>en_value = v, expire_at_ms = x\<rparr>"
    then show "\<exists>i<length (shards st). (k, \<lparr>en_value = v, expire_at_ms = x\<rparr>) \<in> set (sh_map (shards st ! i))"
      using GetShard_less [OF ok, of k] by (auto simp: lookup_def dest: map_of_SomeD)
  qed
  finally show ?thesis by (simp add: vis_Some)
qed

subsection \<open>References to ordered sets\<close>

definition zrefs_ok :: "store \<Rightarrow> bool" where
  "zrefs_ok st \<longleftrightarrow>
     (\<forall>k e r. lookup st k = Some e \<and> en_value e = VZSet r \<longrightarrow>
        r < znext st \<and> (\<exists>z f. zheap st r = Some z \<and> zset_rep z f)) \<and>
     (\<forall>k k' e e' r. lookup st k = Some e \<and> en_value e = VZSet r \<and>
        lookup st k' = Some e' \<and> en_value e' = VZSet r \<longrightarrow> k = k')"

lemma zrefs_okD:
  "zrefs_ok st \<Longrightarrow> lookup st k = Some e \<Longrightarrow> en_value e = VZSet r \<Longrightarrow> r < znext st \<and> (\<exists>z f. zheap st r = Some z \<and> zset_rep z f)"
  "zrefs_ok st \<Longrightarrow> lookup st k = Some e \<Longrightarrow> en_value e = VZSet r \<Longrightarrow>
     lookup st k' = Some e' \<Longrightarrow> en_value e' = VZSet r \<Longrightarrow> k = k'"
  unfolding zrefs_ok_def by blast+

lemma zrefs_shrink:
  assumes "zrefs_ok st" "lookup st' \<subseteq>\<^sub>m lookup st" "zheap st' = zheap st" "znext st' = znext st"
  shows "zrefs_ok st'"
proof -
  have "lookup st k = Some e" if "lookup st' k = Some e" for k e
    using assms(2) that by (metis domI map_le_def)
  then show ?thesis using assms(1,3,4) unfolding zrefs_ok_def by metis
qed

lemma zrefs_put_plain:
  assumes "zrefs_ok st" "lookup st' = (lookup st)(key \<mapsto> e)" "zheap st' = zheap st" "znext st' = znext st"
    "\<And>r. en_value e = VZSet r \<Longrightarrow> \<exists>e0. lookup st key = Some e0 \<and> en_value e0 = VZSet r"
  shows "zrefs_ok st'"
proof -
  have 1: "\<exists>e0. lookup st k = Some e0 \<and> en_value e0 = VZSet r" if "lookup st' k = Some e'" "en_value e' = VZSet r" for k e' r
    using that assms(2,5) by (auto split: if_splits)
  show ?thesis unfolding zrefs_ok_def assms(3,4)
  proof (intro conjI allI impI)
    fix k e' r assume "lookup st' k = Some e' \<and> en_value e' = VZSet r"
    with 1 [of k e' r] zrefs_okD(1) [OF assms(1)] show "r < znext st" "\<exists>z f. zheap st r = Some z \<and> zset_rep z f" by blast+
  next
    fix k k' e1 e2 r
    assume "lookup st' k = Some e1 \<and> en_value e1 = VZSet r \<and> lookup st' k' = Some e2 \<and> en_value e2 = VZSet r"
    with 1 [of k e1 r] 1 [of k' e2 r] zrefs_okD(2) [OF assms(1)] show "k = k'" by blast
  qed
qed

text \<open>The set a key holds: of the visible map at \<open>now\<close>.\<close>

lemma Store_GetZSet_ok:
  assumes ok: "store_ok st" "zrefs_ok st" and s: "Store_GetZSet now key st = (g, st')"
  shows "store_ok st' \<and> zrefs_ok st' \<and> (\<forall>t\<ge>now. vis t (lookup st') = vis t (lookup st))
    \<and> zheap st' = zheap st
    \<and> (case g of
         ZMissing \<Rightarrow> vis now (lookup st) key = None
       | ZWrongType \<Rightarrow> \<exists>e. vis now (lookup st) key = Some e \<and> value_type (en_value e) \<noteq> kZSet
       | ZRef r \<Rightarrow> \<exists>e. vis now (lookup st) key = Some e \<and> en_value e = VZSet r
                    \<and> (\<exists>z f. zheap st' r = Some z \<and> zset_rep z f))"
proof -
  obtain f st1 where f: "find_live now key st = (f, st1)" by (cases "find_live now key st") auto
  note fl = find_live_ok [OF ok(1) f]
  have z1: "zrefs_ok st1" by (rule zrefs_shrink [OF ok(2) fl(7,5,6)])
  show ?thesis
  proof (cases f)
    case None
    with s f fl z1 show ?thesis by (auto simp: Store_GetZSet_def)
  next
    case (Some e)
    with fl have v: "vis now (lookup st) key = Some e" "lookup st1 key = Some e" by simp_all
    with zrefs_okD(1) [OF z1 v(2)] s f Some fl z1 show ?thesis
      by (cases "en_value e") (auto simp: Store_GetZSet_def)
  qed
qed

lemma Store_GetOrCreateZSet_ok:
  assumes ok: "store_ok st" "zrefs_ok st" and s: "Store_GetOrCreateZSet now key st = (g, st')"
  shows "store_ok st' \<and> zrefs_ok st'
    \<and> (case g of
         ZMissing \<Rightarrow> False
       | ZWrongType \<Rightarrow> (\<exists>e. vis now (lookup st) key = Some e \<and> value_type (en_value e) \<noteq> kZSet)
                      \<and> (\<forall>t\<ge>now. vis t (lookup st') = vis t (lookup st))
       | ZRef r \<Rightarrow>
           (\<exists>e. lookup st' key = Some e \<and> en_value e = VZSet r \<and> \<not> IsExpired now e)
         \<and> (case vis now (lookup st) key of
              Some e \<Rightarrow> en_value e = VZSet r \<and> zheap st' = zheap st \<and> (\<forall>t\<ge>now. vis t (lookup st') = vis t (lookup st))
            | None \<Rightarrow> zheap st' = (zheap st)(r \<mapsto> ZSet_new) \<and> (\<forall>t\<ge>now. vis t (lookup st') =
                vis t ((lookup st)(key \<mapsto> \<lparr>en_value = VZSet r, expire_at_ms = 0\<rparr>)))))"
proof -
  obtain f st1 where f: "find_live now key st = (f, st1)" by (cases "find_live now key st") auto
  note fl = find_live_ok [OF ok(1) f]
  have z1: "zrefs_ok st1" by (rule zrefs_shrink [OF ok(2) fl(7,5,6)])
  show ?thesis
  proof (cases f)
    case (Some e)
    with fl have v: "vis now (lookup st) key = Some e" "lookup st1 key = Some e" by simp_all
    then have ne: "\<not> IsExpired now e" by (simp add: vis_Some)
    from v zrefs_okD(1) [OF z1 v(2)] s f Some fl z1 ne show ?thesis
      by (cases "en_value e") (auto simp: Store_GetOrCreateZSet_def)
  next
    case None
    let ?r = "znext st1" let ?e = "\<lparr>en_value = VZSet ?r, expire_at_ms = 0\<rparr>"
    let ?st2 = "st1\<lparr>zheap := (zheap st1)(?r \<mapsto> ZSet_new), znext := ?r + 1\<rparr>"
    have g: "g = ZRef ?r" "st' = put_entry key None ?e ?st2"
      using s f None by (auto simp: Store_GetOrCreateZSet_def Let_def emplace_put HasExpire_def)
    have "lookup ?st2 key = None" "store_ok ?st2" using fl(2,3) None by simp_all
    with put_entry_ok [of ?st2 key ?e] have p: "store_ok st'" "lookup st' = (lookup st1)(key \<mapsto> ?e)"
      unfolding g(2) by simp_all
    have zh: "zheap st' = (zheap st1)(?r \<mapsto> ZSet_new)" "znext st' = ?r + 1"
      unfolding g(2) by (simp_all add: emplace_put HasExpire_def)
    have old: "r < ?r" if "lookup st1 k = Some e" "en_value e = VZSet r" for k e r
      using zrefs_okD(1) [OF z1 that] by simp
    have "zrefs_ok st'"
      unfolding zrefs_ok_def p(2) zh
    proof (intro conjI allI impI)
      fix k e r assume a: "((lookup st1)(key \<mapsto> ?e)) k = Some e \<and> en_value e = VZSet r"
      show "r < ?r + 1" using a old [of k e r] by (auto split: if_splits)
      show "\<exists>z f. ((zheap st1)(?r \<mapsto> ZSet_new)) r = Some z \<and> zset_rep z f"
        using a zset_rep_new old [of k e r] zrefs_okD(1) [OF z1, of k e r] by (auto split: if_splits)
    next
      fix k k' e e' r
      assume "((lookup st1)(key \<mapsto> ?e)) k = Some e \<and> en_value e = VZSet r \<and>
              ((lookup st1)(key \<mapsto> ?e)) k' = Some e' \<and> en_value e' = VZSet r"
      then show "k = k'" using old [of k e r] old [of k' e' r] zrefs_okD(2) [OF z1, of k e r k' e']
        by (auto split: if_splits)
    qed
    moreover have "vis t (lookup st') = vis t ((lookup st)(key \<mapsto> ?e))" if "now \<le> t" for t
      using fl(4) [OF that] unfolding p(2) by (simp add: vis_upd)
    moreover have "vis now (lookup st) key = None" using fl(1) None by simp
    moreover have "\<exists>e. lookup st' key = Some e \<and> en_value e = VZSet ?r \<and> \<not> IsExpired now e"
      unfolding p(2) by (simp add: IsExpired_def)
    ultimately show ?thesis using g(1) p(1) zh fl(5) by simp
  qed
qed

lemma RemoveIfEmptyZSet_ok:
  assumes ok: "store_ok st" "zrefs_ok st"
  shows "store_ok (RemoveIfEmptyZSet key st) \<and> zrefs_ok (RemoveIfEmptyZSet key st)
    \<and> lookup (RemoveIfEmptyZSet key st) =
        (if \<exists>e r z. lookup st key = Some e \<and> en_value e = VZSet r \<and> zheap st r = Some z \<and> ZSet_Size z = 0
         then (lookup st)(key := None) else lookup st)
    \<and> zheap (RemoveIfEmptyZSet key st) = zheap st"
proof (cases "\<exists>e r z. lookup st key = Some e \<and> en_value e = VZSet r \<and> zheap st r = Some z \<and> ZSet_Size z = 0")
  case True
  then obtain e r z where e: "lookup st key = Some e" "en_value e = VZSet r" "zheap st r = Some z" "ZSet_Size z = 0" by blast
  from erase_ok [OF ok(1) e(1)] have er: "store_ok (erase key e st)" "lookup (erase key e st) = (lookup st)(key := None)" by auto
  moreover have "zrefs_ok (erase key e st)" using er(2) by (intro zrefs_shrink [OF ok(2)]) (auto simp: map_le_def)
  ultimately show ?thesis using e True by (simp add: RemoveIfEmptyZSet_def)
next
  case False
  then have "RemoveIfEmptyZSet key st = st"
    by (auto simp: RemoveIfEmptyZSet_def split: option.splits rvalue.splits)
  with ok show ?thesis by (simp only: if_not_P [OF False] simp_thms)
qed

end
