(* ===== verification/Glob.thy ===== *)
theory Glob
  imports Resp
begin

section \<open>Glob patterns (GlobMatch of src/resp.cpp)\<close>

text \<open>
  \<open>GlobMatchImpl\<close>, with the positions \<open>pi\<close> and \<open>si\<close> of the code, the scan of a character class as
  its own loop and the last \<open>*\<close> with its backtracking position as \<open>star\<close>.  The main loop is a
  \<^theory_text>\<open>partial_function (option)\<close>: that it ends is a theorem, and so is its equality with the
  matching of the pattern's tokens.  \<open>char\<close> is signed, as with the compilers for x86-64, which
  matters to ranges such as \<open>[a-z]\<close> only.
\<close>

definition schar :: "char \<Rightarrow> int" where
  "schar c = (if cval c < 128 then int (cval c) else int (cval c) - 256)"

text \<open>The loop over a character class from \<open>k\<close>, its members starting at \<open>j\<close>: \<open>None\<close> when the class
  is not closed, otherwise the position of \<open>]\<close> and \<open>matched\<close>.\<close>

function class_scan :: "string \<Rightarrow> nat \<Rightarrow> nat \<Rightarrow> char \<Rightarrow> bool \<Rightarrow> (nat \<times> bool) option" where
  "class_scan p j k c matched =
     (if k < length p
      then if p ! k = CHR '']'' \<and> k > j then Some (k, matched)
           else if k + 2 < length p \<and> p ! (k + 1) = CHR ''-'' \<and> p ! (k + 2) \<noteq> CHR '']''
           then class_scan p j (k + 3) c
                  (matched \<or> schar (p ! k) \<le> schar c \<and> schar c \<le> schar (p ! (k + 2)))
           else class_scan p j (k + 1) c (matched \<or> p ! k = c)
      else None)"
  by pat_completeness auto
termination
  by (relation "measure (\<lambda>(p, j, k, c, m). length p - k)") auto

declare class_scan.simps [simp del]

text \<open>The \<open>switch\<close> for a pattern character other than \<open>*\<close>: the next position in the pattern when
  the character \<open>c\<close> is consumed, \<open>None\<close> at each \<open>break\<close>.\<close>

definition match_one :: "string \<Rightarrow> nat \<Rightarrow> char \<Rightarrow> nat option" where
  "match_one p pi c =
     (let pc = p ! pi in
      if pc = CHR ''?'' then Some (pi + 1)
      else if pc = CHR ''['' then
        (let negate = (pi + 1 < length p \<and> (p ! (pi + 1) = CHR ''^'' \<or> p ! (pi + 1) = CHR ''!''));
             j = (if negate then pi + 2 else pi + 1)
         in case class_scan p j j c False of
              None \<Rightarrow> if pc = c then Some (pi + 1) else None
            | Some (k, matched) \<Rightarrow> if matched = negate then None else Some (k + 1))
      else if pc = CHR 0x5C then
        (if pi + 1 < length p then if p ! (pi + 1) = c then Some (pi + 2) else None
         else if pc = c then Some (pi + 1) else None)
      else if pc = c then Some (pi + 1) else None)"

fun skip_stars :: "string \<Rightarrow> bool" where
  "skip_stars [] = True"
| "skip_stars (c # cs) = (c = CHR ''*'' \<and> skip_stars cs)"

partial_function (option) glob_loop ::
    "string \<Rightarrow> string \<Rightarrow> nat \<Rightarrow> nat \<Rightarrow> (nat \<times> nat) option \<Rightarrow> bool option" where
  "glob_loop p s pi si star =
     (if si < length s
      then if pi < length p \<and> p ! pi = CHR ''*'' then glob_loop p s (pi + 1) si (Some (pi, si))
           else case (if pi < length p then match_one p pi (s ! si) else None) of
                  Some pi' \<Rightarrow> glob_loop p s pi' (si + 1) star
                | None \<Rightarrow>
                    (case star of
                       None \<Rightarrow> Some False
                     | Some (star_p, star_s) \<Rightarrow>
                         glob_loop p s (star_p + 1) (star_s + 1) (Some (star_p, star_s + 1)))
      else Some (skip_stars (drop pi p)))"

declare glob_loop.simps [code]

definition GlobMatch :: "string \<Rightarrow> string \<Rightarrow> bool option" where
  "GlobMatch pattern str = glob_loop pattern str 0 0 None"

subsection \<open>The meaning of a pattern\<close>

text \<open>A pattern is a sequence of tokens: a star, or a test of one character.\<close>

datatype gtok = Star | One "char \<Rightarrow> bool"

function class_end :: "string \<Rightarrow> nat \<Rightarrow> nat \<Rightarrow> nat option" where
  "class_end p j k =
     (if k < length p
      then if p ! k = CHR '']'' \<and> k > j then Some k
           else if k + 2 < length p \<and> p ! (k + 1) = CHR ''-'' \<and> p ! (k + 2) \<noteq> CHR '']''
           then class_end p j (k + 3) else class_end p j (k + 1)
      else None)"
  by pat_completeness auto
termination
  by (relation "measure (\<lambda>(p, j, k). length p - k)") auto

function class_has :: "string \<Rightarrow> nat \<Rightarrow> nat \<Rightarrow> char \<Rightarrow> bool" where
  "class_has p j k c =
     (if k < length p \<and> \<not> (p ! k = CHR '']'' \<and> k > j)
      then if k + 2 < length p \<and> p ! (k + 1) = CHR ''-'' \<and> p ! (k + 2) \<noteq> CHR '']''
           then schar (p ! k) \<le> schar c \<and> schar c \<le> schar (p ! (k + 2)) \<or> class_has p j (k + 3) c
           else p ! k = c \<or> class_has p j (k + 1) c
      else False)"
  by pat_completeness auto
termination
  by (relation "measure (\<lambda>(p, j, k, c). length p - k)") auto

declare class_end.simps [simp del] class_has.simps [simp del]

definition glob_tok :: "string \<Rightarrow> nat \<Rightarrow> nat \<times> (char \<Rightarrow> bool)" where
  "glob_tok p i =
     (let lit = (\<lambda>c. c = p ! i) in
      if p ! i = CHR ''?'' then (i + 1, \<lambda>c. True)
      else if p ! i = CHR ''['' then
        (let neg = (i + 1 < length p \<and> (p ! (i + 1) = CHR ''^'' \<or> p ! (i + 1) = CHR ''!''));
             j = (if neg then i + 2 else i + 1)
         in case class_end p j j of
              None \<Rightarrow> (i + 1, lit)
            | Some k \<Rightarrow> (k + 1, \<lambda>c. class_has p j j c \<noteq> neg))
      else if p ! i = CHR 0x5C \<and> i + 1 < length p then (i + 2, \<lambda>c. c = p ! (i + 1))
      else (i + 1, lit))"

lemma class_end_less: "class_end p j k = Some e \<Longrightarrow> k \<le> e \<and> e < length p"
  by (induction p j k rule: class_end.induct)
    (subst (asm) (2) class_end.simps, auto split: if_splits)

lemma glob_tok_less: "i < length p \<Longrightarrow> i < fst (glob_tok p i)"
  by (auto simp: glob_tok_def Let_def split: option.splits dest!: class_end_less)

function glob_toks :: "string \<Rightarrow> nat \<Rightarrow> gtok list" where
  "glob_toks p i =
     (if i < length p
      then if p ! i = CHR ''*'' then Star # glob_toks p (i + 1)
           else One (snd (glob_tok p i)) # glob_toks p (fst (glob_tok p i))
      else [])"
  by pat_completeness auto
termination
  by (relation "measure (\<lambda>(p, i). length p - i)") (auto intro: diff_less_mono2 glob_tok_less)

declare glob_toks.simps [simp del]

fun glob_matches :: "gtok list \<Rightarrow> string \<Rightarrow> bool" where
  "glob_matches [] s = (s = [])"
| "glob_matches (Star # ts) [] = glob_matches ts []"
| "glob_matches (Star # ts) (c # cs) = (glob_matches ts (c # cs) \<or> glob_matches (Star # ts) cs)"
| "glob_matches (One f # ts) [] = False"
| "glob_matches (One f # ts) (c # cs) = (f c \<and> glob_matches ts cs)"

subsection \<open>The loop computes it\<close>

lemma class_scan_spec:
  "class_scan p j k c m = map_option (\<lambda>e. (e, m \<or> class_has p j k c)) (class_end p j k)"
proof (induction p j k c m rule: class_scan.induct)
  case (1 p j k c m)
  show ?case
    using 1 by (subst class_scan.simps, subst class_end.simps, subst class_has.simps) auto
qed

lemma match_one_tok:
  assumes "i < length p" "p ! i \<noteq> CHR ''*''"
  shows "match_one p i c = (if snd (glob_tok p i) c then Some (fst (glob_tok p i)) else None)"
  by (auto simp: match_one_def glob_tok_def class_scan_spec Let_def split: option.splits)

lemma glob_matches_Star: "glob_matches (Star # ts) s \<longleftrightarrow> (\<exists>k\<le>length s. glob_matches ts (drop k s))"
proof (induction s)
  case (Cons c s)
  have "(\<exists>k\<le>length (c # s). glob_matches ts (drop k (c # s)))
      \<longleftrightarrow> glob_matches ts (c # s) \<or> (\<exists>k\<le>length s. glob_matches ts (drop k s))"
    by (metis (no_types, lifting) Suc_le_mono drop0 drop_Suc_Cons le0 length_Cons not0_implies_Suc)
  with Cons show ?case by simp
qed simp

lemma glob_matches_ones:
  "\<forall>t\<in>set as. t \<noteq> Star \<Longrightarrow> glob_matches (as @ ts) s \<Longrightarrow> length as \<le> length s \<and> glob_matches ts (drop (length as) s)"
proof (induction as arbitrary: s)
  case (Cons a as)
  then obtain f where "a = One f" by (cases a) auto
  with Cons show ?case by (cases s) auto
qed simp

lemma skip_stars_toks: "skip_stars (drop i p) \<longleftrightarrow> glob_matches (glob_toks p i) []"
proof (induction p i rule: glob_toks.induct)
  case (1 p i)
  show ?case
  proof (cases "i < length p")
    case True
    then have d: "drop i p = p ! i # drop (i + 1) p" by (simp add: Cons_nth_drop_Suc)
    show ?thesis
      using 1(1) True by (subst glob_toks.simps) (simp add: d)
  qed (subst glob_toks.simps, simp)
qed

text \<open>What is still to be decided: the rest of the current attempt, or a later position of the
  last star.\<close>

fun still :: "string \<Rightarrow> string \<Rightarrow> nat \<Rightarrow> nat \<Rightarrow> (nat \<times> nat) option \<Rightarrow> bool" where
  "still p s pi si None = glob_matches (glob_toks p pi) (drop si s)"
| "still p s pi si (Some (sp, ss)) =
     (glob_matches (glob_toks p pi) (drop si s)
      \<or> (\<exists>k>ss. k \<le> length s \<and> glob_matches (glob_toks p (sp + 1)) (drop k s)))"

text \<open>The current attempt has consumed single characters since the star.\<close>

fun attempt :: "string \<Rightarrow> nat \<Rightarrow> nat \<Rightarrow> (nat \<times> nat) option \<Rightarrow> bool" where
  "attempt p pi si None = True"
| "attempt p pi si (Some (sp, ss)) =
     (ss \<le> si \<and> (\<exists>as. glob_toks p (sp + 1) = as @ glob_toks p pi \<and> length as = si - ss \<and> (\<forall>t\<in>set as. t \<noteq> Star)))"

definition star_left :: "string \<Rightarrow> (nat \<times> nat) option \<Rightarrow> nat" where
  "star_left s star = (case star of None \<Rightarrow> length s + 1 | Some (sp, ss) \<Rightarrow> length s - ss)"

lemma still_star:
  assumes "si \<le> length s" "attempt p pi si star" "pi < length p" "p ! pi = CHR ''*''"
  shows "still p s pi si star \<longleftrightarrow> still p s (pi + 1) si (Some (pi, si))"
proof -
  have t: "glob_toks p pi = Star # glob_toks p (pi + 1)" using assms(3,4) by (subst glob_toks.simps) simp
  have new: "still p s (pi + 1) si (Some (pi, si)) \<longleftrightarrow> glob_matches (glob_toks p pi) (drop si s)"
  proof -
    have "(\<exists>k\<le>length s - si. glob_matches (glob_toks p (pi + 1)) (drop k (drop si s)))
      \<longleftrightarrow> glob_matches (glob_toks p (pi + 1)) (drop si s)
        \<or> (\<exists>k>si. k \<le> length s \<and> glob_matches (glob_toks p (pi + 1)) (drop k s))" (is "?l \<longleftrightarrow> ?r")
    proof
      assume ?l
      then obtain k where k: "k \<le> length s - si" "glob_matches (glob_toks p (pi + 1)) (drop (k + si) s)"
        by (auto simp: add.commute)
      show ?r
      proof (cases "k = 0")
        case False
        with k assms(1) show ?thesis by (intro disjI2 exI [of _ "k + si"]) auto
      qed (use k in auto)
    next
      assume ?r
      then consider "glob_matches (glob_toks p (pi + 1)) (drop si s)"
        | k where "k > si" "k \<le> length s" "glob_matches (glob_toks p (pi + 1)) (drop k s)" by blast
      then show ?l
      proof cases
        case 2
        then show ?thesis by (intro exI [of _ "k - si"]) auto
      qed auto
    qed
    then show ?thesis unfolding t glob_matches_Star by simp
  qed
  have "\<exists>k>ss. k \<le> length s \<and> glob_matches (glob_toks p (sp + 1)) (drop k s) \<Longrightarrow>
      glob_matches (glob_toks p pi) (drop si s)" if st: "star = Some (sp, ss)" for sp ss
  proof -
    assume "\<exists>k>ss. k \<le> length s \<and> glob_matches (glob_toks p (sp + 1)) (drop k s)"
    then obtain k where k: "k > ss" "k \<le> length s" "glob_matches (glob_toks p (sp + 1)) (drop k s)" by blast
    from assms(2) st obtain as where as: "ss \<le> si" "glob_toks p (sp + 1) = as @ glob_toks p pi"
      "length as = si - ss" "\<forall>t\<in>set as. t \<noteq> Star" by auto
    from glob_matches_ones [OF as(4), of "glob_toks p pi" "drop k s"] k(3) as(2)
    have l: "length as \<le> length s - k" and m: "glob_matches (Star # glob_toks p (pi + 1)) (drop (length as + k) s)"
      by (simp_all add: t)
    from m obtain n where "n \<le> length s - (length as + k)"
      "glob_matches (glob_toks p (pi + 1)) (drop (n + (length as + k)) s)"
      unfolding glob_matches_Star by auto
    moreover have "n + (length as + k) = (n + (length as + k) - si) + si" using as k by simp
    ultimately show ?thesis unfolding t glob_matches_Star
      using l k as by (intro exI [of _ "n + (length as + k) - si"]) (auto simp: add.commute)
  qed
  then show ?thesis using new by (cases star) auto
qed

lemma still_fail:
  assumes "si < length s" "\<not> glob_matches (glob_toks p pi) (drop si s)" and that: "ss < length s"
  shows "still p s pi si (Some (sp, ss)) \<longleftrightarrow> still p s (sp + 1) (ss + 1) (Some (sp, ss + 1))"
proof -
  have "(\<exists>k>ss. k \<le> length s \<and> glob_matches (glob_toks p (sp + 1)) (drop k s)) \<longleftrightarrow>
      glob_matches (glob_toks p (sp + 1)) (drop (ss + 1) s)
      \<or> (\<exists>k>ss + 1. k \<le> length s \<and> glob_matches (glob_toks p (sp + 1)) (drop k s))"
    using that by (metis Suc_eq_plus1 Suc_leI Suc_lessD linorder_neqE_nat not_less_eq)
  with assms show ?thesis by simp
qed

text \<open>At the end of the text no later position of the star can help: the attempt has consumed all
  that is left.\<close>

lemma still_end:
  assumes "attempt p pi si star" "si = length s"
  shows "still p s pi si star \<longleftrightarrow> glob_matches (glob_toks p pi) []"
proof (cases star)
  case (Some x)
  then obtain sp ss as where st: "star = Some (sp, ss)" "ss \<le> si" "glob_toks p (sp + 1) = as @ glob_toks p pi"
    "length as = si - ss" "\<forall>t\<in>set as. t \<noteq> Star" using assms(1) by (cases x) auto
  have "\<not> glob_matches (glob_toks p (sp + 1)) (drop k s)" if "ss < k" "k \<le> length s" for k
    using glob_matches_ones [OF st(5), of "glob_toks p pi" "drop k s"] st(2-4) that assms(2) by auto
  then show ?thesis using st(1) assms(2) by auto
qed (use assms in simp)

lemma glob_loop_step:
  assumes "si < length s" "\<not> (pi < length p \<and> p ! pi = CHR ''*'')"
  defines "one \<equiv> (if pi < length p then match_one p pi (s ! si) else None)"
  shows "one = Some pi' \<Longrightarrow> glob_matches (glob_toks p pi) (drop si s) = glob_matches (glob_toks p pi') (drop (si + 1) s)
      \<and> (\<exists>f. glob_toks p pi = One f # glob_toks p pi')"
    and "one = None \<Longrightarrow> \<not> glob_matches (glob_toks p pi) (drop si s)"
proof -
  have d: "drop si s = s ! si # drop (si + 1) s" using assms(1) by (simp add: Cons_nth_drop_Suc)
  have t: "glob_toks p pi = (if pi < length p then One (snd (glob_tok p pi)) # glob_toks p (fst (glob_tok p pi)) else [])"
    using assms(2) by (subst glob_toks.simps) simp
  show "one = Some pi' \<Longrightarrow> glob_matches (glob_toks p pi) (drop si s) = glob_matches (glob_toks p pi') (drop (si + 1) s)
      \<and> (\<exists>f. glob_toks p pi = One f # glob_toks p pi')"
    using assms(2) by (auto simp: one_def t d match_one_tok split: if_splits)
  show "one = None \<Longrightarrow> \<not> glob_matches (glob_toks p pi) (drop si s)"
    using assms(2) by (auto simp: one_def t d match_one_tok split: if_splits)
qed

lemma attempt_step:
  assumes "attempt p pi si star" "glob_toks p pi = One f # glob_toks p pi'"
  shows "attempt p pi' (si + 1) star"
proof (cases star)
  case (Some x)
  then obtain sp ss as where st: "star = Some (sp, ss)" "ss \<le> si" "glob_toks p (sp + 1) = as @ glob_toks p pi"
    "length as = si - ss" "\<forall>t\<in>set as. t \<noteq> Star" using assms(1) by (cases x) auto
  then have "glob_toks p (sp + 1) = (as @ [One f]) @ glob_toks p pi' \<and> length (as @ [One f]) = si + 1 - ss
    \<and> (\<forall>t\<in>set (as @ [One f]). t \<noteq> Star)" using assms(2) by auto
  then show ?thesis using st(1,2) by (auto simp del: append_assoc intro!: exI [of _ "as @ [One f]"])
qed simp

text \<open>The order in which the loop makes progress: the position of the last star, then the text, then
  the pattern.\<close>

definition glob_order :: "string \<Rightarrow> string \<Rightarrow> ((nat \<times> nat \<times> (nat \<times> nat) option) \<times> (nat \<times> nat \<times> (nat \<times> nat) option)) set" where
  "glob_order p s = measures [\<lambda>(pi, si, star). star_left s star, \<lambda>(pi, si, star). length s - si,
     \<lambda>(pi, si, star). length p - pi]"

lemma wf_glob_order: "wf (glob_order p s)"
  by (simp add: glob_order_def)

lemma glob_loop_spec_all:
  "(\<lambda>(pi, si, star). si \<le> length s \<longrightarrow> attempt p pi si star \<longrightarrow>
     glob_loop p s pi si star = Some (still p s pi si star)) x"
proof (induction x rule: wf_induct_rule [OF wf_glob_order [of p s]])
  case (1 x)
  obtain pi si star where x: "x = (pi, si, star)" by (cases x) auto
  have IH: "glob_loop p s pi' si' star' = Some (still p s pi' si' star')"
    if "((pi', si', star'), (pi, si, star)) \<in> glob_order p s" "si' \<le> length s" "attempt p pi' si' star'" for pi' si' star'
    using 1 that by (auto simp: x)
  have "glob_loop p s pi si star = Some (still p s pi si star)"
    if le: "si \<le> length s" and at: "attempt p pi si star"
  proof (cases "si < length s")
    case False
    with le have "si = length s" by simp
    moreover have "glob_loop p s pi si star = Some (glob_matches (glob_toks p pi) [])"
      using False by (subst glob_loop.simps) (simp add: skip_stars_toks)
    ultimately show ?thesis using still_end [OF at] by simp
  next
    case less: True
    have ss: "ss \<le> si" if "star = Some (sp, ss)" for sp ss using at that by simp
    show ?thesis
    proof (cases "pi < length p \<and> p ! pi = CHR ''*''")
      case True
      have "((pi + 1, si, Some (pi, si)), (pi, si, star)) \<in> glob_order p s"
        using less True ss by (cases star) (auto simp: glob_order_def star_left_def)
      with IH [OF this le] less True still_star [OF le at] show ?thesis
        by (subst glob_loop.simps) simp
    next
      case False
      let ?one = "if pi < length p then match_one p pi (s ! si) else None"
      note st = glob_loop_step [OF less False]
      show ?thesis
      proof (cases ?one)
        case (Some pi')
        from st(1) [OF this] obtain f where m: "glob_matches (glob_toks p pi) (drop si s) = glob_matches (glob_toks p pi') (drop (si + 1) s)"
          and f: "glob_toks p pi = One f # glob_toks p pi'" by blast
        have o: "((pi', si + 1, star), (pi, si, star)) \<in> glob_order p s"
          using less by (auto simp: glob_order_def)
        have "still p s pi si star = still p s pi' (si + 1) star" using m by (cases star) auto
        moreover have "glob_loop p s pi si star = glob_loop p s pi' (si + 1) star"
          using less False Some by (subst glob_loop.simps) auto
        ultimately show ?thesis using IH [OF o] less attempt_step [OF at f] by simp
      next
        case None
        note no = st(2) [OF None]
        have eq: "glob_loop p s pi si star = (case star of None \<Rightarrow> Some False
            | Some (sp, ss) \<Rightarrow> glob_loop p s (sp + 1) (ss + 1) (Some (sp, ss + 1)))"
          using less False None by (subst glob_loop.simps) auto
        show ?thesis
        proof (cases star)
          case None
          with eq no show ?thesis by simp
        next
          case (Some y)
          then obtain sp ss where y: "star = Some (sp, ss)" by (cases y) auto
          with ss less have l: "ss < length s" by force
          have o: "((sp + 1, ss + 1, Some (sp, ss + 1)), (pi, si, star)) \<in> glob_order p s"
            using l y by (auto simp: glob_order_def star_left_def)
          show ?thesis using IH [OF o] l eq still_fail [OF less no l, of sp] y by simp
        qed
      qed
    qed
  qed
  then show ?case by (simp add: x)
qed

text \<open>Matching a pattern always ends, and it decides whether the tokens of the pattern match.\<close>

lemma GlobMatch_tokens: "GlobMatch p s = Some (glob_matches (glob_toks p 0) s)"
  using glob_loop_spec_all [of s p "(0, 0, None)"] by (simp add: GlobMatch_def)

end
