(* ===== verification/Data_Properties.thy ===== *)
theory Data_Properties
  imports Store_Refine Glob
begin

section \<open>Properties of the data structures\<close>

text \<open>
  The skip list, the ordered set, the glob matcher and the store as their users see them: sequences
  of operations from the initial state against the sorted list, the finite map, the tokens of the
  pattern and the map with expiry.
\<close>

subsection \<open>The skip list\<close>

datatype sl_op = OpInsert score string | OpDelete score string | OpClear

fun sl_apply :: "sl_op \<Rightarrow> skiplist \<times> rng \<Rightarrow> (skiplist \<times> rng) option" where
  "sl_apply (OpInsert sc m) (s, r) = do { (u, s', r') \<leftarrow> Insert sc m s r; Some (s', r') }"
| "sl_apply (OpDelete sc m) (s, r) = do { (b, s') \<leftarrow> Delete sc m s; Some (s', r) }"
| "sl_apply OpClear (s, r) = do { s' \<leftarrow> SkipList_Clear s; Some (s', r) }"

fun sl_exec :: "sl_op list \<Rightarrow> skiplist \<times> rng \<Rightarrow> (skiplist \<times> rng) option" where
  "sl_exec [] sr = Some sr"
| "sl_exec (p # ps) sr = do { sr' \<leftarrow> sl_apply p sr; sl_exec ps sr' }"

fun sl_spec :: "sl_op \<Rightarrow> key list \<Rightarrow> key list" where
  "sl_spec (OpInsert sc m) ks = insort (sc, m) (filter (\<lambda>k. snd k \<noteq> m) ks)"
| "sl_spec (OpDelete sc m) ks = remove1 (sc, m) ks"
| "sl_spec OpClear ks = []"

definition sl_contents :: "sl_op list \<Rightarrow> key list" where
  "sl_contents ps = foldl (\<lambda>ks p. sl_spec p ks) [] ps"

lemma distinct_snd_insort:
  "distinct (map snd ks) \<Longrightarrow> distinct (map snd (insort (sc, m) (filter (\<lambda>k. snd k \<noteq> m) ks)))"
proof -
  assume d: "distinct (map snd ks)"
  have "mset (map snd (insort (sc, m) (filter (\<lambda>k. snd k \<noteq> m) ks))) = mset (m # map snd (filter (\<lambda>k. snd k \<noteq> m) ks))"
    by simp
  moreover have "distinct (m # map snd (filter (\<lambda>k. snd k \<noteq> m) ks))"
    using d by (auto simp: distinct_map inj_on_def)
  ultimately show ?thesis using mset_eq_imp_distinct_iff by blast
qed

lemma sl_apply_ok:
  assumes keys: "sl_keys s ks" and d: "distinct (map snd ks)" and len: "length ks < sl_max"
  shows "\<exists>s' r'. sl_apply p (s, r) = Some (s', r') \<and> sl_keys s' (sl_spec p ks)
     \<and> distinct (map snd (sl_spec p ks)) \<and> length (sl_spec p ks) \<le> Suc (length ks)"
proof (cases p)
  case (OpInsert sc m)
  from Insert_keys [OF keys d len, of sc m r] obtain u s' r' where
    "Insert sc m s r = Some (u, s', r')" "sl_keys s' (sl_spec p ks)" by (auto simp: OpInsert)
  moreover have "length (filter (\<lambda>k. snd k \<noteq> m) ks) \<le> length ks" by simp
  ultimately show ?thesis using distinct_snd_insort [OF d, of sc m] by (auto simp: OpInsert)
next
  case (OpDelete sc m)
  have "distinct (map snd (remove1 (sc, m) ks))"
    using d by (auto simp: distinct_map intro: inj_on_diff)
  moreover have "remove1 (sc, m) ks = ks" if "(sc, m) \<notin> set ks" using that by (simp add: remove1_idem)
  ultimately show ?thesis
    using Delete_keys [OF keys, of sc m] Delete_absent [OF keys, of sc m] keys
    by (cases "(sc, m) \<in> set ks") (auto simp: OpDelete length_remove1)
next
  case OpClear
  from SkipList_Clear_keys [OF keys] show ?thesis by (auto simp: OpClear)
qed

lemma sl_exec_ok:
  "sl_keys s ks \<Longrightarrow> distinct (map snd ks) \<Longrightarrow> length ks + length ps \<le> sl_max \<Longrightarrow>
     \<exists>s' r'. sl_exec ps (s, r) = Some (s', r') \<and> sl_keys s' (foldl (\<lambda>ks p. sl_spec p ks) ks ps)"
proof (induction ps arbitrary: s r ks)
  case (Cons p ps)
  from sl_apply_ok [OF Cons.prems(1,2), of p r] Cons.prems(3) obtain s1 r1 where
    "sl_apply p (s, r) = Some (s1, r1)" "sl_keys s1 (sl_spec p ks)" "distinct (map snd (sl_spec p ks))"
    "length (sl_spec p ks) + length ps \<le> sl_max" by fastforce
  with Cons.IH [of s1 "sl_spec p ks" r1] show ?case by simp
qed auto

lemma sl_full_range:
  assumes keys: "sl_keys s ks"
  shows "\<exists>nds. SkipList_RangeByRank 1 (sl_length s) s = Some nds \<and> map nkey nds = ks"
proof -
  have l: "sl_length s = of_nat (length ks)" "length ks \<le> sl_max" using sl_keys_length [OF keys] by auto
  have u: "unat (sl_length s) = length ks" using l by simp
  show ?thesis
  proof (cases "ks = []")
    case True
    with RangeByRank_keys [OF keys, of 1 "sl_length s"] show ?thesis by simp
  next
    case False
    then have "1 \<le> length ks" by (cases ks) auto
    then have "1 \<le> sl_length s" using u by (simp add: word_le_nat_alt)
    then show ?thesis using RangeByRank_keys [OF keys, of 1 "sl_length s"] u \<open>1 \<le> length ks\<close> by auto
  qed
qed

text \<open>C3: Skip list, whole histories. From the empty list, any sequence of Insert, Delete and Clear, whatever levels std::rand draws, runs to completion without ever touching memory that is not allocated, and the list then holds exactly the keys of the specification in (score, member) order, as RangeByRank reads them. Nothing leaks: one node is allocated per key, besides the header, and the destructor frees each of them once and leaves nothing.\<close>

theorem skiplist_histories:
  assumes "length ps \<le> 4294967294"
  shows "\<exists>s r' nds. sl_exec ps (SkipList_new, r) = Some (s, r') \<and> sl_keys s (sl_contents ps)
     \<and> SkipList_RangeByRank 1 (sl_length s) s = Some nds \<and> map nkey nds = sl_contents ps
     \<and> card (dom (sl_heap s)) = Suc (length (sl_contents ps)) \<and> SkipList_Destroy s = Some Map.empty"
proof -
  from sl_exec_ok [OF sl_keys_new, of ps r] assms obtain s r' where
    s: "sl_exec ps (SkipList_new, r) = Some (s, r')" "sl_keys s (sl_contents ps)" by (auto simp: sl_contents_def)
  with sl_full_range [OF s(2)] sl_keys_card [OF s(2)] SkipList_Destroy_keys [OF s(2)] show ?thesis by blast
qed

theorem skiplist_histories_witness:
  "\<exists>s r' nds. sl_exec [OpInsert (Fin 2) ''b'', OpInsert (Fin 1) ''a'', OpInsert (Fin 3) ''b''] (SkipList_new, \<lambda>_. 0) = Some (s, r')
     \<and> SkipList_RangeByRank 1 (sl_length s) s = Some nds \<and> map nkey nds = [(Fin 1, ''a''), (Fin 3, ''b'')]
     \<and> card (dom (sl_heap s)) = 3 \<and> SkipList_Destroy s = Some Map.empty"
proof -
  have c: "sl_contents [OpInsert (Fin 2) ''b'', OpInsert (Fin 1) ''a'', OpInsert (Fin 3) ''b''] = [(Fin 1, ''a''), (Fin 3, ''b'')]"
    by (simp add: sl_contents_def less_eq_prod_def)
  have "length [OpInsert (Fin 2) ''b'', OpInsert (Fin 1) ''a'', OpInsert (Fin 3) ''b''] \<le> 4294967294" by simp
  from skiplist_histories [OF this, of "\<lambda>_. 0", unfolded c] show ?thesis by (auto simp del: sl_exec.simps)
qed

text \<open>InsertNew at every level. Inserting an absent key into a list that represents a sorted sequence, with any level from 1 to 32 for the new node, succeeds and represents the sequence with the key inserted at its place: pointers, 32-bit spans, level and length are all exact.\<close>

theorem skiplist_InsertNew_exact:
  assumes "sl_keys s ks" "1 \<le> lv" "lv \<le> 32" "(sc, m) \<notin> set ks" "length ks < 4294967294"
  shows "\<exists>s'. InsertNew_at lv sc m s = Some s' \<and> sl_keys s' (insort (sc, m) ks)"
  by (rule InsertNew_at_keys [OF assms])

theorem skiplist_InsertNew_exact_witness:
  "\<exists>s'. InsertNew_at 32 (Fin 1) ''a'' SkipList_new = Some s' \<and> sl_keys s' [(Fin 1, ''a'')]"
  using skiplist_InsertNew_exact [OF sl_keys_new, of 32 "Fin 1" "''a''"] by simp

text \<open>Delete. Deleting a present key repairs the spans of every level, frees the node, shrinks the level and represents the sequence without the key; deleting an absent key returns false and changes nothing.\<close>

theorem skiplist_Delete_exact:
  assumes "sl_keys s ks"
  shows "\<exists>s'. Delete sc m s = Some ((sc, m) \<in> set ks, s') \<and> sl_keys s' (remove1 (sc, m) ks)"
proof (cases "(sc, m) \<in> set ks")
  case True
  with Delete_keys [OF assms] show ?thesis by auto
next
  case False
  with Delete_absent [OF assms] assms show ?thesis by (simp add: remove1_idem)
qed

theorem skiplist_Delete_exact_witness:
  "\<exists>s'. Delete (Fin 1) ''a'' SkipList_new = Some (False, s') \<and> sl_keys s' []"
  using skiplist_Delete_exact [OF sl_keys_new, of "Fin 1" "''a''"] by simp

text \<open>Rank and RangeByRank are inverse. Rank, a sum of spans along the search path, is the number of smaller keys, and RangeByRank at that rank returns exactly the node of the key.\<close>

theorem skiplist_rank_range:
  assumes "sl_keys s ks" "(sc, m) \<in> set ks"
  shows "\<exists>r nd. Rank sc m s = Some (Some r) \<and> unat r = length (filter (\<lambda>k. k < (sc, m)) ks)
     \<and> SkipList_RangeByRank (r + 1) (r + 1) s = Some [nd] \<and> nkey nd = (sc, m)"
proof -
  let ?t = "takeWhile (\<lambda>k. k < (sc, m)) ks"
  have r: "Rank sc m s = Some (Some (of_nat (length ?t)))" using Rank_keys [OF assms(1), of sc m] assms(2) by simp
  have "?t = filter (\<lambda>k. k < (sc, m)) ks"
    using sorted_filter_while [OF sl_keys_sorted [OF assms(1)], of "\<lambda>k. False" "\<lambda>k. k < (sc, m)"] by (simp add: dropWhile_eq_self_iff)
  moreover have "length ?t \<le> sl_max" using sl_keys_length [OF assms(1)] length_takeWhile_le [of "\<lambda>k. k < (sc, m)" ks] by linarith
  ultimately have "unat (of_nat (length ?t) :: u64) = length (filter (\<lambda>k. k < (sc, m)) ks)" by simp
  with slr.range_at_rank [OF assms(1) r] r show ?thesis by blast
qed

theorem skiplist_rank_range_witness:
  "\<exists>s r nd. InsertNew_at 1 (Fin 7) ''m'' SkipList_new = Some s \<and> Rank (Fin 7) ''m'' s = Some (Some r)
     \<and> unat r = 0 \<and> SkipList_RangeByRank (r + 1) (r + 1) s = Some [nd] \<and> nkey nd = (Fin 7, ''m'')"
proof -
  from InsertNew_at_keys [OF sl_keys_new, of 1 "Fin 7" "''m''"] obtain s where
    s: "InsertNew_at 1 (Fin 7) ''m'' SkipList_new = Some s" "sl_keys s [(Fin 7, ''m'')]" by auto
  with skiplist_rank_range [OF s(2), of "Fin 7" "''m''"] show ?thesis by auto
qed

subsection \<open>The ordered set\<close>

datatype z_op = ZAdd string score | ZRem string | ZIncr string rat | ZClear

datatype z_res = ZBool bool | ZNum score bool | ZUnit

fun z_apply :: "z_op \<Rightarrow> zset \<times> rng \<Rightarrow> (z_res \<times> zset \<times> rng) option" where
  "z_apply (ZAdd m sc) (z, r) = do { (b, z, r) \<leftarrow> ZSet_Add m sc z r; Some (ZBool b, z, r) }"
| "z_apply (ZRem m) (z, r) = do { (b, z) \<leftarrow> ZSet_Remove m z; Some (ZBool b, z, r) }"
| "z_apply (ZIncr m d) (z, r) = do { (s, b, z, r) \<leftarrow> ZSet_IncrBy m d z r; Some (ZNum s b, z, r) }"
| "z_apply ZClear (z, r) = do { z \<leftarrow> ZSet_Clear z; Some (ZUnit, z, r) }"

fun z_exec :: "z_op list \<Rightarrow> zset \<times> rng \<Rightarrow> (z_res list \<times> zset \<times> rng) option" where
  "z_exec [] zr = Some ([], zr)"
| "z_exec (p # ps) zr = do { (x, zr) \<leftarrow> z_apply p zr; (xs, zr) \<leftarrow> z_exec ps zr; Some (x # xs, zr) }"

text \<open>The specification: a finite map from members to scores.\<close>

fun z_spec :: "z_op \<Rightarrow> (string \<rightharpoonup> score) \<Rightarrow> z_res \<times> (string \<rightharpoonup> score)" where
  "z_spec (ZAdd m sc) f = (ZBool (f m = None), f(m \<mapsto> sc))"
| "z_spec (ZRem m) f = (ZBool (f m \<noteq> None), f(m := None))"
| "z_spec (ZIncr m d) f = (let s = (case f m of None \<Rightarrow> Fin d | Some old \<Rightarrow> score_add old d) in (ZNum s (f m \<noteq> None), f(m \<mapsto> s)))"
| "z_spec ZClear f = (ZUnit, Map.empty)"

fun z_specs :: "z_op list \<Rightarrow> (string \<rightharpoonup> score) \<Rightarrow> z_res list \<times> (string \<rightharpoonup> score)" where
  "z_specs [] f = ([], f)"
| "z_specs (p # ps) f = (let (x, f) = z_spec p f; (xs, f) = z_specs ps f in (x # xs, f))"

lemma z_apply_ok:
  assumes rep: "zset_rep z f" and cap: "card (dom f) < sl_max"
  shows "\<exists>z' r'. z_apply p (z, r) = Some (fst (z_spec p f), z', r') \<and> zset_rep z' (snd (z_spec p f))
    \<and> card (dom (snd (z_spec p f))) \<le> Suc (card (dom f))"
proof -
  have fin: "finite (dom f)" by (rule zset_rep_finite [OF rep])
  have ins: "card (dom (f(m \<mapsto> s))) \<le> Suc (card (dom f))" for m s
    using fin by (simp add: card_insert_if)
  have del: "card (dom (f(m := None))) \<le> Suc (card (dom f))" for m
    using fin card_mono [of "dom f" "dom (f(m := None))"] by (auto intro: le_SucI)
  show ?thesis
  proof (cases p)
    case (ZAdd m s)
    with ZSet_Add_rep [OF rep, of m s r] cap ins [of m s] show ?thesis by auto
  next
    case (ZRem m)
    with ZSet_Remove_rep [OF rep, of m] del [of m] show ?thesis by auto
  next
    case (ZIncr m d)
    with ZSet_IncrBy_rep [OF rep, of m d r] cap ins [of m "incr_score f m d"] show ?thesis
      by (auto simp: Let_def incr_score_def)
  next
    case ZClear
    with ZSet_Clear_rep [OF rep] show ?thesis by auto
  qed
qed

lemma z_exec_ok:
  "zset_rep z f \<Longrightarrow> card (dom f) + length ps \<le> sl_max \<Longrightarrow>
     \<exists>z' r'. z_exec ps (z, r) = Some (fst (z_specs ps f), z', r') \<and> zset_rep z' (snd (z_specs ps f))"
proof (induction ps arbitrary: z f r)
  case (Cons p ps)
  from z_apply_ok [OF Cons.prems(1), of p r] Cons.prems(2) obtain z1 r1 where
    a: "z_apply p (z, r) = Some (fst (z_spec p f), z1, r1)" "zset_rep z1 (snd (z_spec p f))"
    "card (dom (snd (z_spec p f))) + length ps \<le> sl_max" by fastforce
  from Cons.IH [OF a(2,3), of r1] a(1) show ?case by (auto simp: case_prod_beta Let_def)
qed auto

text \<open>C4: Ordered set, whole histories. From the empty set, any sequence of Add, Remove, IncrBy and Clear returns what a finite map from members to scores returns, and dictionary and skip list stay the same set: GetScore, the size and the traversal of the skip list all read that map.\<close>

theorem zset_histories:
  assumes "length ps \<le> 4294967294"
  shows "\<exists>z r'. z_exec ps (ZSet_new, r) = Some (fst (z_specs ps Map.empty), z, r')
     \<and> (let f = snd (z_specs ps Map.empty) in
          (\<forall>m. ZSet_GetScore m z = f m) \<and> ZSet_Size z = card (dom f)
          \<and> ZSet_ForEach z = Some (map (\<lambda>(s, m). (m, s)) (zkeys f)))"
proof -
  from z_exec_ok [OF zset_rep_new, of ps r] assms obtain z r' where
    z: "z_exec ps (ZSet_new, r) = Some (fst (z_specs ps Map.empty), z, r')" "zset_rep z (snd (z_specs ps Map.empty))"
    by auto
  then show ?thesis
    using ZSet_GetScore_rep [OF z(2)] zset_rep_size [OF z(2)] ZSet_ForEach_rep [OF z(2)] by (auto simp: Let_def)
qed

theorem zset_histories_witness:
  "\<exists>z r'. z_exec [ZAdd ''a'' (Fin 2), ZAdd ''a'' (Fin 3), ZRem ''b''] (ZSet_new, \<lambda>_. 0)
       = Some ([ZBool True, ZBool False, ZBool False], z, r') \<and> ZSet_GetScore ''a'' z = Some (Fin 3)"
  using zset_histories [of "[ZAdd ''a'' (Fin 2), ZAdd ''a'' (Fin 3), ZRem ''b'']" "\<lambda>_. 0"]
  by (auto simp: Let_def)

text \<open>C22: ZRANGEBYSCORE and ZRANK on a consistent set. RangeByScore returns, in order, exactly the members whose score is between the bounds (each inclusive or exclusive, infinities allowed), and Rank is the number of members that precede the member in (score, member) order.\<close>

theorem zset_reads_exact:
  assumes "zset_rep z f"
  shows "(\<exists>nds. ZSet_RangeByScore mn mx minx maxx z = Some nds
            \<and> map nkey nds = filter (in_score_range mn mx minx maxx) (zkeys f))
     \<and> ZSet_Rank m z = Some (map_option (\<lambda>s. of_nat (card {k \<in> zkey_set f. k < (s, m)})) (f m))"
  using ZSet_RangeByScore_rep [OF assms] ZSet_Rank_rep [OF assms, of m]
  by (simp add: zrank_def option.map_comp comp_def)

theorem zset_reads_exact_witness:
  "\<exists>z r'. ZSet_Add ''a'' (Fin 1) ZSet_new (\<lambda>_. 0) = Some (True, z, r') \<and>
     (\<exists>nds. ZSet_RangeByScore NInf PInf False False z = Some nds \<and> map nkey nds = [(Fin 1, ''a'')])"
proof -
  from ZSet_Add_rep [OF zset_rep_new, of "''a''" "Fin 1" "\<lambda>_. 0"] obtain z r' where
    z: "ZSet_Add ''a'' (Fin 1) ZSet_new (\<lambda>_. 0) = Some (True, z, r')" "zset_rep z [''a'' \<mapsto> Fin 1]" by auto
  have "zkeys [''a'' \<mapsto> Fin 1] = [(Fin 1, ''a'')]"
    using zkeys_insert [of Map.empty "''a''" "Fin 1"] by simp
  with zset_reads_exact [OF z(2), of NInf PInf False False] z(1) show ?thesis
    by (auto simp: in_score_range_def less_eq_score.simps)
qed

text \<open>ZRANGE by index. For indices a to b inside a consistent set, RangeByRank (0-based) returns exactly the a-th to the b-th member in order; an empty interval or a start beyond the end gives nothing.\<close>

theorem zset_range_exact:
  assumes "zset_rep z f" "unat b < 18446744073709551615"
  shows "\<exists>nds. ZSet_RangeByRank a b z = Some nds \<and> map nkey nds =
     (if a \<le> b then take (unat b - unat a + 1) (drop (unat a) (zkeys f)) else [])"
  by (rule ZSet_RangeByRank_rep [OF assms])

theorem zset_range_exact_witness:
  "ZSet_RangeByRank 0 5 ZSet_new = Some []"
  using zset_range_exact [OF zset_rep_new, of 5 0] by simp

subsection \<open>The glob matcher\<close>

text \<open>C10: GlobMatch. The backtracking matcher of KEYS always terminates, on every pattern and every key, and its answer is that of the pattern's tokens: a star matches any sequence, every other token one character.\<close>

theorem GlobMatch_correct:
  "GlobMatch pattern str = Some (glob_matches (glob_toks pattern 0) str)"
  by (rule GlobMatch_tokens)

end
