(* ===== verification/Store_Inv.thy ===== *)
theory Store_Inv
  imports Store_Refine
begin

section \<open>The invariant of a store with values\<close>

text \<open>
  \<open>good n\<close> collects what every operation of the store keeps: the structure (\<open>store_ok\<close>), the
  references to ordered sets (\<open>zrefs_ok\<close>), integers and deadlines inside 64 bits (\<open>entry_ok\<close>), and
  room for \<open>n\<close> more members in every ordered set below the 32-bit limit of the spans (\<open>zroom n\<close>).
\<close>

definition entry_ok :: "entry \<Rightarrow> bool" where
  "entry_ok e \<longleftrightarrow> value_ok (en_value e) \<and> int64_range (expire_at_ms e)"

definition st_inv :: "store \<Rightarrow> bool" where
  "st_inv st \<longleftrightarrow> store_ok st \<and> zrefs_ok st \<and> (\<forall>k e. lookup st k = Some e \<longrightarrow> entry_ok e)"

definition zroom :: "nat \<Rightarrow> store \<Rightarrow> bool" where
  "zroom n st \<longleftrightarrow> n \<le> sl_max \<and> (\<forall>k e r z. lookup st k = Some e \<and> en_value e = VZSet r \<and> zheap st r = Some z
     \<longrightarrow> ZSet_Size z + n \<le> sl_max)"

definition good :: "nat \<Rightarrow> store \<Rightarrow> bool" where
  "good n st \<longleftrightarrow> st_inv st \<and> zroom n st"

lemma good_shrink:
  assumes "good n st" "store_ok st'" "lookup st' \<subseteq>\<^sub>m lookup st" "zheap st' = zheap st" "znext st' = znext st"
  shows "good n st'"
proof -
  have l: "lookup st k = Some e" if "lookup st' k = Some e" for k e
    using assms(3) that by (metis domI map_le_def)
  have "zrefs_ok st'" using zrefs_shrink [OF _ assms(3-5)] assms(1) by (simp add: good_def st_inv_def)
  then show ?thesis using assms l unfolding good_def st_inv_def zroom_def by metis
qed

lemma good_put:
  assumes g: "good n st" and e: "entry_ok e"
    "\<And>r. en_value e = VZSet r \<Longrightarrow> \<exists>e0. lookup st key = Some e0 \<and> en_value e0 = VZSet r"
  shows "good n (put_entry key (lookup st key) e st)"
proof -
  let ?st = "put_entry key (lookup st key) e st"
  have ok: "store_ok st" and z: "zrefs_ok st" using g by (simp_all add: good_def st_inv_def)
  from put_entry_ok [OF ok, of key e] have p: "store_ok ?st" "lookup ?st = (lookup st)(key \<mapsto> e)" by auto
  have h: "zheap ?st = zheap st" "znext ?st = znext st"
    by (simp_all add: put_entry_def sync_ttl_def Let_def split: option.splits)
  have "zrefs_ok ?st" by (rule zrefs_put_plain [OF z p(2) h e(2)])
  moreover have "entry_ok e'" if "lookup ?st k = Some e'" for k e'
    using that g e(1) unfolding p(2) good_def st_inv_def by (auto split: if_splits)
  moreover have "zroom n ?st"
    unfolding zroom_def p(2) h
  proof (intro conjI allI impI)
    show "n \<le> sl_max" using g by (simp add: good_def zroom_def)
    fix k e' r z' assume a: "((lookup st)(key \<mapsto> e)) k = Some e' \<and> en_value e' = VZSet r \<and> zheap st r = Some z'"
    then obtain k0 e0 where "lookup st k0 = Some e0 \<and> en_value e0 = VZSet r"
      using e(2) by (auto split: if_splits)
    with a g show "ZSet_Size z' + n \<le> sl_max" unfolding good_def zroom_def by blast
  qed
  ultimately show ?thesis using p(1) by (simp add: good_def st_inv_def)
qed

lemma goodD: "good n st \<Longrightarrow> store_ok st" "good n st \<Longrightarrow> zrefs_ok st"
  "good n st \<Longrightarrow> lookup st k = Some e \<Longrightarrow> entry_ok e"
  by (simp_all add: good_def st_inv_def)

lemma good_find_live:
  assumes "good n st" "find_live now key st = (r, st')"
  shows "good n st'" "lookup st' key = r"
proof -
  note fl = find_live_ok [OF goodD(1) [OF assms(1)] assms(2)]
  show "good n st'" by (rule good_shrink [OF assms(1) fl(2,7,5,6)])
  show "lookup st' key = r" by (rule fl(3))
qed

text \<open>Operations of the store keep \<open>good\<close>.\<close>

definition keeps :: "(int \<Rightarrow> store \<Rightarrow> 'r \<times> store) \<Rightarrow> bool" where
  "keeps f \<longleftrightarrow> (\<forall>n now st. good n st \<longrightarrow> good n (snd (f now st)))"

lemma keeps_reads [rl_inv]:
  "keeps (\<lambda>now. Store_Get now k)" "keeps (\<lambda>now. Store_Exists now k)" "keeps (\<lambda>now. Store_TypeOf now k)"
  "keeps (\<lambda>now. Store_TtlMs now k)" "keeps (\<lambda>now. Store_GetZSet now k)"
proof -
  have "good n (snd (find_live now k st))" if "good n st" for n now st
    using good_find_live [OF that, of now k] by (cases "find_live now k st") auto
  moreover have "snd (Store_Get now k st) = snd (find_live now k st)"
    "snd (Store_TtlMs now k st) = snd (find_live now k st)"
    "snd (Store_GetZSet now k st) = snd (find_live now k st)" for now st
    by (auto simp: Store_Get_def Store_TtlMs_def Store_GetZSet_def Let_def split: prod.splits option.splits rvalue.splits)
  moreover have "snd (Store_Exists now k st) = snd (Store_Get now k st)"
    "snd (Store_TypeOf now k st) = snd (Store_Get now k st)" for now st
    by (auto simp: Store_Exists_def Store_TypeOf_def split: prod.splits option.splits)
  ultimately show "keeps (\<lambda>now. Store_Get now k)" "keeps (\<lambda>now. Store_Exists now k)" "keeps (\<lambda>now. Store_TypeOf now k)"
    "keeps (\<lambda>now. Store_TtlMs now k)" "keeps (\<lambda>now. Store_GetZSet now k)"
    unfolding keeps_def by simp_all
qed

lemma keeps_Set [rl_inv]:
  assumes "int64_range (so_expire_at_ms opts)"
  shows "keeps (\<lambda>now. Store_Set now key (VString v) opts)"
  unfolding keeps_def
proof (intro allI impI)
  fix n now st assume g: "good n st"
  obtain f st1 where f: "find_live now key st = (f, st1)" by (cases "find_live now key st") auto
  note g1 = good_find_live [OF g f]
  let ?at = "if so_has_expire opts then so_expire_at_ms opts
      else case f of Some e \<Rightarrow> if so_keep_ttl opts then expire_at_ms e else 0 | None \<Rightarrow> 0"
  let ?e = "\<lparr>en_value = VString v, expire_at_ms = ?at\<rparr>"
  have "int64_range ?at"
    using assms goodD(3) [OF g1(1)] g1(2) by (auto simp: entry_ok_def int64_range_def split: option.splits)
  then have "good n (put_entry key (lookup st1 key) ?e st1)"
    by (intro good_put [OF g1(1)]) (simp_all add: entry_ok_def value_ok_def)
  moreover have "snd (Store_Set now key (VString v) opts st) = (if so_nx opts \<and> f \<noteq> None \<or> so_xx opts \<and> f = None
      then st1 else put_entry key f ?e st1)"
  proof (cases "so_nx opts \<and> f \<noteq> None \<or> so_xx opts \<and> f = None")
    case True
    then show ?thesis using f by (auto simp: Store_Set_def Let_def)
  next
    case False
    then show ?thesis using f
      by (cases f) (auto simp: Store_Set_def Let_def put_entry_def sync_ttl_def HasExpire_def)
  qed
  ultimately show "good n (snd (Store_Set now key (VString v) opts st))" using g1 by simp
qed

lemma good_erase:
  assumes "good n st" "lookup st key = Some e"
  shows "good n (erase key e st)"
  using erase_ok [OF goodD(1) [OF assms(1)] assms(2)]
  by (intro good_shrink [OF assms(1)]) (auto simp: map_le_def)

lemma keeps_ExpireAt [rl_inv]:
  assumes "int64_range t"
  shows "keeps (\<lambda>now. Store_ExpireAt now key t)"
  unfolding keeps_def
proof (intro allI impI)
  fix n now st assume g: "good n st"
  obtain f st1 where f: "find_live now key st = (f, st1)" by (cases "find_live now key st") auto
  note g1 = good_find_live [OF g f]
  show "good n (snd (Store_ExpireAt now key t st))"
  proof (cases f)
    case None
    with f g1 show ?thesis by (simp add: Store_ExpireAt_def)
  next
    case (Some e)
    with g1 have e: "lookup st1 key = Some e" by simp
    let ?e = "e\<lparr>expire_at_ms := t\<rparr>"
    have p: "good n (put_entry key (lookup st1 key) ?e st1)"
      using goodD(3) [OF g1(1) e] assms e by (intro good_put [OF g1(1)]) (auto simp: entry_ok_def)
    have "snd (Store_ExpireAt now key t st) =
        (if t \<noteq> 0 \<and> t \<le> now then erase key e st1 else put_entry key (Some e) ?e st1)"
      using f Some drop_ttl_present [OF goodD(1) [OF g1(1)] e, of ?e]
      by (auto simp: Store_ExpireAt_def put_entry_def sync_ttl_def Let_def)
    with p good_erase [OF g1(1) e] e show ?thesis by simp
  qed
qed

lemma keeps_IncrBy [rl_inv]:
  assumes "int64_range delta"
  shows "keeps (\<lambda>now. Store_IncrBy now key delta)"
  unfolding keeps_def
proof (intro allI impI)
  fix n now st assume g: "good n st"
  obtain f st1 where f: "find_live now key st = (f, st1)" by (cases "find_live now key st") auto
  note g1 = good_find_live [OF g f]
  show "good n (snd (Store_IncrBy now key delta st))"
  proof (cases f)
    case None
    let ?e = "\<lparr>en_value = VInt delta, expire_at_ms = 0\<rparr>"
    have "good n (put_entry key (lookup st1 key) ?e st1)"
      using assms by (intro good_put [OF g1(1)]) (simp_all add: entry_ok_def value_ok_def int64_range_def)
    with None f g1(2) show ?thesis by (simp add: Store_IncrBy_def emplace_put HasExpire_def)
  next
    case (Some e)
    with g1 have e: "lookup st1 key = Some e" by simp
    have v: "entry_ok e" by (rule goodD(3) [OF g1(1) e])
    show ?thesis
    proof (cases "case en_value e of VInt n \<Rightarrow> Some n | v \<Rightarrow> ParseInt64 (AsString v)")
      case None
      with f Some g1 show ?thesis by (simp add: Store_IncrBy_def)
    next
      case c: (Some cur)
      have "int64_range cur"
        using c v by (auto simp: entry_ok_def value_ok_def split: rvalue.splits dest: ParseInt64_range)
      note chk = int64_sum_check [OF this assms]
      let ?e = "e\<lparr>en_value := VInt (cur + delta)\<rparr>"
      have "good n (put_entry key (lookup st1 key) ?e st1)" if "int64_range (cur + delta)"
        using v that by (intro good_put [OF g1(1)]) (auto simp: entry_ok_def value_ok_def)
      then show ?thesis using f Some c chk g1 e by (auto simp: Store_IncrBy_def assign_put HasExpire_def)
    qed
  qed
qed

lemma good_create:
  assumes g: "good n st" and none: "lookup st key = None"
  defines "r \<equiv> znext st"
  shows "good n (put_entry key None \<lparr>en_value = VZSet r, expire_at_ms = 0\<rparr>
           (st\<lparr>zheap := (zheap st)(r \<mapsto> ZSet_new), znext := r + 1\<rparr>))"
proof -
  let ?e = "\<lparr>en_value = VZSet r, expire_at_ms = 0\<rparr>"
  let ?st = "st\<lparr>zheap := (zheap st)(r \<mapsto> ZSet_new), znext := r + 1\<rparr>"
  let ?st' = "put_entry key None ?e ?st"
  have "Store_GetOrCreateZSet 0 key st = (ZRef r, ?st')"
    using none by (simp add: Store_GetOrCreateZSet_def find_live_def Let_def r_def emplace_put HasExpire_def)
  from Store_GetOrCreateZSet_ok [OF goodD(1,2) [OF g] this] have ok: "store_ok ?st'" "zrefs_ok ?st'" by auto
  have "store_ok ?st" "lookup ?st = lookup st" using goodD(1) [OF g] by simp_all
  with put_entry_ok [of ?st key ?e] none have l: "lookup ?st' = (lookup st)(key \<mapsto> ?e)" by simp
  have h: "zheap ?st' = (zheap st)(r \<mapsto> ZSet_new)" by (simp add: emplace_put HasExpire_def)
  have "r0 < r" if "lookup st k = Some e" "en_value e = VZSet r0" for k e r0
    using zrefs_okD(1) [OF goodD(2) [OF g] that] by (simp add: r_def)
  then have "zroom n ?st'" using g unfolding zroom_def l h good_def
    by (auto simp: zroom_def ZSet_Size_def ZSet_new_def split: if_splits)
  moreover have "entry_ok e" if "lookup ?st' k = Some e" for k e
    using that goodD(3) [OF g] unfolding l by (auto simp: entry_ok_def value_ok_def int64_range_def split: if_splits)
  ultimately show ?thesis using ok by (simp add: good_def st_inv_def)
qed

lemma keeps_GetOrCreate [rl_inv]: "keeps (\<lambda>now. Store_GetOrCreateZSet now key)"
  unfolding keeps_def
proof (intro allI impI)
  fix n now st assume g: "good n st"
  obtain f st1 where f: "find_live now key st = (f, st1)" by (cases "find_live now key st") auto
  note g1 = good_find_live [OF g f]
  show "good n (snd (Store_GetOrCreateZSet now key st))"
  proof (cases f)
    case None
    with good_create [OF g1(1), of key] g1(2) f show ?thesis
      by (simp add: Store_GetOrCreateZSet_def Let_def emplace_put HasExpire_def)
  next
    case (Some e)
    with f g1 show ?thesis by (auto simp: Store_GetOrCreateZSet_def split: rvalue.splits)
  qed
qed

lemma good_less: "good n st \<Longrightarrow> m \<le> n \<Longrightarrow> good m st"
  unfolding good_def zroom_def by fastforce

lemma good_DelMulti: "good n st \<Longrightarrow> good n (snd (Store_DelMulti ks st))"
proof (induction ks arbitrary: st)
  case (Cons k ks)
  have "good n (snd (Store_Del k st))"
    using Cons.prems good_erase [of n st k] by (auto simp: Store_Del_def split: option.splits)
  with Cons.IH [of "snd (Store_Del k st)"] show ?case by (simp add: case_prod_beta Let_def)
qed simp

lemma good_FlushAll: "good n st \<Longrightarrow> good n (Store_FlushAll st)"
  using Store_FlushAll_ok [OF goodD(1), of n st]
  by (simp add: good_def st_inv_def zroom_def zrefs_ok_def)

lemma good_RemoveIfEmpty:
  assumes g: "good n st"
  shows "good n (RemoveIfEmptyZSet key st)"
proof -
  note r = RemoveIfEmptyZSet_ok [OF goodD(1,2) [OF g], of key]
  have "znext (RemoveIfEmptyZSet key st) = znext st"
    by (auto simp: RemoveIfEmptyZSet_def split: option.splits rvalue.splits)
  with r show ?thesis by (intro good_shrink [OF g]) (auto simp: map_le_def)
qed

lemma good_set_zset:
  assumes g: "good m st" and k: "lookup st key = Some e" "en_value e = VZSet r"
    and z: "zset_rep z f" "ZSet_Size z + m \<le> sl_max"
  shows "good m (st\<lparr>zheap := (zheap st)(r \<mapsto> z)\<rparr>)"
  using g z zrefs_okD(1) [OF goodD(2) [OF g] k] unfolding good_def st_inv_def zrefs_ok_def zroom_def
  by (simp add: ex_simps) blast

end
