(* ===== verification/Keyspace.thy ===== *)
theory Keyspace
  imports Store_Inv
begin

section \<open>The key space as an expiring map\<close>

text \<open>
  The contract the command layer relies on: an invariant, the map visible at a time, and the laws
  of get, set, delete, expire, increment and the expiry cycle over it.  The consequences proved from
  the laws alone are those a client uses: reading what was written, locks by \<open>SET NX\<close> with an
  expiry, expiry itself.  The store of the code is an instance.
\<close>

locale expiring_map =
  fixes inv :: "'s \<Rightarrow> bool"
    and view :: "int \<Rightarrow> 's \<Rightarrow> kspace"
    and get :: "int \<Rightarrow> string \<Rightarrow> 's \<Rightarrow> rvalue option \<times> 's"
    and put :: "int \<Rightarrow> string \<Rightarrow> rvalue \<Rightarrow> SetOptions \<Rightarrow> 's \<Rightarrow> SetResult \<times> 's"
    and del :: "string \<Rightarrow> 's \<Rightarrow> bool \<times> 's"
    and expire :: "int \<Rightarrow> string \<Rightarrow> int \<Rightarrow> 's \<Rightarrow> (bool \<times> bool) \<times> 's"
    and cycle :: "int \<Rightarrow> 's \<Rightarrow> nat \<times> 's"
  assumes view_later: "now \<le> t \<Longrightarrow> view t s = vis t (view now s)"
    and get_law: "inv s \<Longrightarrow> get now k s = (r, s') \<Longrightarrow>
      inv s' \<and> r = map_option en_value (view now s k) \<and> (\<forall>t\<ge>now. view t s' = view t s)"
    and put_law: "inv s \<Longrightarrow> put now k v opts s = (res, s') \<Longrightarrow>
      inv s' \<and> res = fst (spec_Set k v opts (view now s))
      \<and> (\<forall>t\<ge>now. view t s' = vis t (snd (spec_Set k v opts (view now s))))"
    and del_law: "inv s \<Longrightarrow> del k s = (b, s') \<Longrightarrow>
      inv s' \<and> (view t s k \<noteq> None \<longrightarrow> b) \<and> view t s' = (view t s)(k := None)"
    and expire_law: "inv s \<Longrightarrow> expire now k at_ms s = (x, s') \<Longrightarrow>
      inv s' \<and> x = fst (spec_ExpireAt now k at_ms (view now s))
      \<and> (\<forall>t\<ge>now. view t s' = vis t (snd (spec_ExpireAt now k at_ms (view now s))))"
    and cycle_law: "inv s \<Longrightarrow> cycle now s = (n, s') \<Longrightarrow> inv s' \<and> (\<forall>t\<ge>now. view t s' = view t s)"
begin

lemma gone_stays_gone: "view now s k = None \<Longrightarrow> now \<le> t \<Longrightarrow> view t s k = None"
  by (simp add: view_later [of now t] vis_def)

text \<open>Reading what a successful unconditional write stored, at any later time before its deadline.\<close>

lemma read_after_write:
  assumes i: "inv s" and w: "put now k v opts s = (kOk, s1)" and t: "now \<le> t"
    and fresh: "so_has_expire opts" "t < so_expire_at_ms opts"
    and r: "get t k s1 = (x, s2)"
  shows "x = Some v"
proof -
  note p = put_law [OF i w]
  have "snd (spec_Set k v opts (view now s)) k = Some \<lparr>en_value = v, expire_at_ms = so_expire_at_ms opts\<rparr>"
    using p fresh(1) by (auto simp: spec_Set_def split: if_splits)
  then have "view t s1 k = Some \<lparr>en_value = v, expire_at_ms = so_expire_at_ms opts\<rparr>"
    using p t fresh(2) by (simp add: vis_def IsExpired_def)
  with get_law [OF _ r] p show ?thesis by simp
qed

text \<open>A lock: \<open>SET NX\<close> with a deadline.  While it is held no other \<open>SET NX\<close> of the key succeeds;
  from the deadline on the first one does.\<close>

lemma lock_excludes:
  assumes i: "inv s" and a: "put now k v opts s = (kOk, s1)" and o1: "so_has_expire opts"
    and c: "cycle now2 s1 = (n, s2)" and t: "now \<le> now2" "now2 \<le> t"
    and b: "so_nx opts'" "put t k v' opts' s2 = (res, s3)"
  shows "t < so_expire_at_ms opts \<Longrightarrow> res = kNotSetNx"
    and "so_expire_at_ms opts \<noteq> 0 \<Longrightarrow> so_expire_at_ms opts \<le> t \<Longrightarrow> \<not> so_xx opts' \<Longrightarrow> res = kOk"
proof -
  note p = put_law [OF i a]
  have e: "snd (spec_Set k v opts (view now s)) k = Some \<lparr>en_value = v, expire_at_ms = so_expire_at_ms opts\<rparr>"
    using p o1 by (auto simp: spec_Set_def split: if_splits)
  have i1: "inv s1" using p by blast
  note cy = cycle_law [OF i1 c]
  have "view t s2 = vis t (snd (spec_Set k v opts (view now s)))"
    using cy t p by simp
  then have v: "view t s2 k = (if IsExpired t \<lparr>en_value = v, expire_at_ms = so_expire_at_ms opts\<rparr> then None
      else Some \<lparr>en_value = v, expire_at_ms = so_expire_at_ms opts\<rparr>)"
    using e by (simp add: vis_def)
  have i2: "inv s2" using cy by blast
  have res: "res = fst (spec_Set k v' opts' (view t s2))" using put_law [OF i2 b(2)] by blast
  show "t < so_expire_at_ms opts \<Longrightarrow> res = kNotSetNx"
    using v res b(1) by (simp add: spec_Set_def IsExpired_def)
  show "so_expire_at_ms opts \<noteq> 0 \<Longrightarrow> so_expire_at_ms opts \<le> t \<Longrightarrow> \<not> so_xx opts' \<Longrightarrow> res = kOk"
    using v res by (simp add: spec_Set_def IsExpired_def)
qed

text \<open>A deleted key reads as missing, and so does a key past the deadline \<open>expire\<close> gave it.\<close>

lemma deleted_reads_none:
  assumes "inv s" "del k s = (b, s1)" "get t k s1 = (x, s2)"
  shows "x = None"
  using del_law [OF assms(1,2), of t] get_law [OF _ assms(3)] by simp

lemma expired_reads_none:
  assumes i: "inv s" and e: "expire now k at_ms s = (r, s1)" and t: "now \<le> t" "at_ms \<le> t" "at_ms \<noteq> 0"
    and g: "get t k s1 = (x, s2)"
  shows "x = None"
proof -
  note p = expire_law [OF i e]
  have "vis t (snd (spec_ExpireAt now k at_ms (view now s))) k = None"
    using t(2,3) by (auto simp: spec_ExpireAt_def vis_def IsExpired_def split: option.splits)
  with p t(1) have "view t s1 k = None" by simp
  with get_law [OF _ g] p show ?thesis by simp
qed

end

interpretation ks: expiring_map store_ok "\<lambda>t st. vis t (lookup st)" Store_Get Store_Set Store_Del Store_ExpireAt ExpireCycle
proof unfold_locales
  fix now t :: int and s :: store
  show "now \<le> t \<Longrightarrow> vis t (lookup s) = vis t (vis now (lookup s))" by simp
next
  fix s s' k b t
  assume "store_ok s" "Store_Del k s = (b, s')"
  from Store_Del_ok [OF this]
  show "store_ok s' \<and> (vis t (lookup s) k \<noteq> None \<longrightarrow> b) \<and> vis t (lookup s') = (vis t (lookup s))(k := None)"
    by (auto simp: vis_def split: option.splits)
next
  fix s s' n now assume "store_ok s" "ExpireCycle now s = (n, s')"
  from ExpireCycle_ok [OF this] show "store_ok s' \<and> (\<forall>t\<ge>now. vis t (lookup s') = vis t (lookup s))" by blast
qed (rule Store_Get_ok Store_Set_ok Store_ExpireAt_ok, assumption, assumption)+

subsection \<open>Timed histories of the store\<close>

text \<open>Operations with the reading of the clock they made; \<open>DoCycle\<close> is the background thread.\<close>

datatype s_op = DoGet string | DoSet string string SetOptions | DoDel string | DoExpireAt string int
  | DoIncrBy string int | DoTtl string | DoCycle

datatype s_res = RGet "rvalue option" | RSet SetResult | RDel bool | RExpire bool bool | RIncr "int option" | RTtl int | RCycle

fun s_apply :: "int \<Rightarrow> s_op \<Rightarrow> store \<Rightarrow> s_res \<times> store" where
  "s_apply now (DoGet k) st = (let (r, st) = Store_Get now k st in (RGet r, st))"
| "s_apply now (DoSet k v opts) st = (let (r, st) = Store_Set now k (VString v) opts st in (RSet r, st))"
| "s_apply now (DoDel k) st = (let (r, st) = Store_Del k st in (RDel r, st))"
| "s_apply now (DoExpireAt k t) st = (let ((c, d), st) = Store_ExpireAt now k t st in (RExpire c d, st))"
| "s_apply now (DoIncrBy k d) st = (let (r, st) = Store_IncrBy now k d st in (RIncr r, st))"
| "s_apply now (DoTtl k) st = (let (r, st) = Store_TtlMs now k st in (RTtl r, st))"
| "s_apply now DoCycle st = (let (n, st) = ExpireCycle now st in (RCycle, st))"

fun s_exec :: "(int \<times> s_op) list \<Rightarrow> store \<Rightarrow> s_res list \<times> store" where
  "s_exec [] st = ([], st)"
| "s_exec ((now, p) # ps) st = (let (r, st) = s_apply now p st; (rs, st) = s_exec ps st in (r # rs, st))"

text \<open>The specification: one map with expiry.  \<open>DEL\<close> may also report a key that has expired and not
  been purged.\<close>

inductive s_spec :: "int \<Rightarrow> s_op \<Rightarrow> kspace \<Rightarrow> s_res \<Rightarrow> kspace \<Rightarrow> bool" where
  "s_spec now (DoGet k) m (RGet (map_option en_value (m k))) m"
| "spec_Set k (VString v) opts m = (r, m') \<Longrightarrow> s_spec now (DoSet k v opts) m (RSet r) m'"
| "(m k \<noteq> None \<longrightarrow> b) \<Longrightarrow> s_spec now (DoDel k) m (RDel b) (m(k := None))"
| "spec_ExpireAt now k t m = ((c, d), m') \<Longrightarrow> s_spec now (DoExpireAt k t) m (RExpire c d) m'"
| "spec_IncrBy k d m = (r, m') \<Longrightarrow> s_spec now (DoIncrBy k d) m (RIncr r) m'"
| "s_spec now (DoTtl k) m (RTtl (spec_TtlMs now k m)) m"
| "s_spec now DoCycle m RCycle m"

inductive s_specs :: "(int \<times> s_op) list \<Rightarrow> kspace \<Rightarrow> s_res list \<Rightarrow> kspace \<Rightarrow> bool" where
  "s_specs [] m [] m"
| "s_spec now p (vis now m) r m1 \<Longrightarrow> s_specs ps m1 rs m2 \<Longrightarrow> s_specs ((now, p) # ps) m (r # rs) m2"

fun timed_from :: "int \<Rightarrow> (int \<times> s_op) list \<Rightarrow> bool" where
  "timed_from t0 [] = True"
| "timed_from t0 ((now, p) # ps) = (t0 \<le> now \<and> timed_from now ps)"

fun op_ok :: "s_op \<Rightarrow> bool" where
  "op_ok (DoSet k v opts) = int64_range (so_expire_at_ms opts)"
| "op_ok (DoExpireAt k t) = int64_range t"
| "op_ok (DoIncrBy k d) = int64_range d"
| "op_ok p = True"

lemma s_apply_ok:
  assumes g: "good 0 st" and p: "op_ok p" "0 \<le> now" and e: "s_apply now p st = (r, st')"
  shows "good 0 st' \<and> (\<exists>m. s_spec now p (vis now (lookup st)) r m \<and> (\<forall>t\<ge>now. vis t (lookup st') = vis t m))"
proof -
  have ok: "store_ok st" by (rule goodD(1) [OF g])
  have k: "good 0 (snd (f now st))" if "keeps f" for f :: "int \<Rightarrow> store \<Rightarrow> 'r \<times> store"
    using that g by (simp add: keeps_def)
  show ?thesis
  proof (cases p)
    case (DoGet key)
    obtain x st1 where x: "Store_Get now key st = (x, st1)" by (cases "Store_Get now key st") auto
    with e DoGet Store_Get_ok [OF ok x] k [OF keeps_reads(1), of key] show ?thesis
      by (auto intro!: exI [of _ "vis now (lookup st)"] s_spec.intros)
  next
    case (DoSet key v opts)
    obtain x st1 where x: "Store_Set now key (VString v) opts st = (x, st1)" by (cases "Store_Set now key (VString v) opts st") auto
    with e DoSet p Store_Set_ok [OF ok x] k [OF keeps_Set, of opts key v] show ?thesis
      by (auto intro!: exI [of _ "snd (spec_Set key (VString v) opts (vis now (lookup st)))"] s_spec.intros)
  next
    case (DoDel key)
    obtain x st1 where x: "Store_Del key st = (x, st1)" by (cases "Store_Del key st") auto
    note d = Store_Del_ok [OF ok x]
    have "good 0 st1"
      using x g good_erase [OF g, of key] by (auto simp: Store_Del_def split: option.splits)
    moreover have "s_spec now p (vis now (lookup st)) (RDel x) ((vis now (lookup st))(key := None))"
      unfolding DoDel using d by (intro s_spec.intros) (auto simp: vis_def split: option.splits)
    moreover have "vis t (lookup st1) = vis t ((vis now (lookup st))(key := None))" if "t \<ge> now" for t
      using d that by simp
    ultimately show ?thesis using e x DoDel by auto
  next
    case (DoExpireAt key at_ms)
    obtain c d st1 where x: "Store_ExpireAt now key at_ms st = ((c, d), st1)" by (metis prod.exhaust)
    have eq: "r = RExpire c d" "st' = st1" using e DoExpireAt x by auto
    obtain m where m: "spec_ExpireAt now key at_ms (vis now (lookup st)) = ((c, d), m)"
      using Store_ExpireAt_ok [OF ok x] by (metis prod.collapse)
    then have "s_spec now p (vis now (lookup st)) r m" unfolding eq DoExpireAt by (rule s_spec.intros)
    moreover have "good 0 st1" using k [OF keeps_ExpireAt, of at_ms key] p DoExpireAt x by simp
    ultimately show ?thesis using Store_ExpireAt_ok [OF ok x] m eq by auto
  next
    case (DoIncrBy key d)
    obtain x st1 where x: "Store_IncrBy now key d st = (x, st1)" by (cases "Store_IncrBy now key d st") auto
    have "value_ok (en_value e)" if "lookup st key = Some e" for e
      using goodD(3) [OF g that] by (simp add: entry_ok_def)
    with e DoIncrBy p x Store_IncrBy_ok [OF ok x] k [OF keeps_IncrBy, of d key] show ?thesis
      by (auto intro!: exI [of _ "snd (spec_IncrBy key d (vis now (lookup st)))"] s_spec.intros)
  next
    case (DoTtl key)
    obtain x st1 where x: "Store_TtlMs now key st = (x, st1)" by (cases "Store_TtlMs now key st") auto
    have "int64_range (expire_at_ms e)" if "lookup st key = Some e" for e
      using goodD(3) [OF g that] by (simp add: entry_ok_def)
    with e DoTtl p x Store_TtlMs_ok [OF ok x] k [OF keeps_reads(4), of key] show ?thesis
      by (auto intro!: exI [of _ "vis now (lookup st)"] s_spec.intros)
  next
    case DoCycle
    obtain n st1 where x: "ExpireCycle now st = (n, st1)" by (cases "ExpireCycle now st") auto
    note c = ExpireCycle_ok [OF ok x]
    have "zheap st1 = zheap st" "znext st1 = znext st" using x by (auto simp: ExpireCycle_def Let_def)
    with c have "good 0 st1" by (intro good_shrink [OF g]) auto
    with e x DoCycle c show ?thesis by (auto intro!: exI [of _ "vis now (lookup st)"] s_spec.intros)
  qed
qed

lemma s_specs_vis: "s_specs ps m rs m2 \<Longrightarrow> timed_from t0 ps \<Longrightarrow> (\<And>t. t0 \<le> t \<Longrightarrow> vis t m = vis t m') \<Longrightarrow>
    \<exists>m2'. s_specs ps m' rs m2' \<and> (ps \<noteq> [] \<longrightarrow> m2' = m2)"
proof (induction arbitrary: m' rule: s_specs.induct)
  case (1 m)
  then show ?case using s_specs.intros(1) by blast
next
  case (2 now p m r m1 ps rs m2)
  then have "vis now m = vis now m'" by simp
  with 2 show ?case using s_specs.intros(2) by metis
qed

lemma s_exec_ok:
  "good 0 st \<Longrightarrow> 0 \<le> t0 \<Longrightarrow> timed_from t0 ps \<Longrightarrow> list_all (\<lambda>x. op_ok (snd x)) ps \<Longrightarrow>
     s_exec ps st = (rs, st') \<Longrightarrow> good 0 st' \<and> (\<exists>m. s_specs ps (lookup st) rs m)"
proof (induction ps arbitrary: st t0 rs st')
  case Nil
  then show ?case using s_specs.intros(1) by auto
next
  case (Cons x ps)
  obtain now p where x: "x = (now, p)" by (cases x) auto
  obtain r st1 where a: "s_apply now p st = (r, st1)" by (cases "s_apply now p st") auto
  obtain rs1 st2 where b: "s_exec ps st1 = (rs1, st2)" by (cases "s_exec ps st1") auto
  have t: "0 \<le> now" "timed_from now ps" "op_ok p" "list_all (\<lambda>x. op_ok (snd x)) ps" using Cons.prems x by auto
  from s_apply_ok [OF Cons.prems(1) t(3,1) a] obtain m where
    m: "good 0 st1" "s_spec now p (vis now (lookup st)) r m" "\<forall>t\<ge>now. vis t (lookup st1) = vis t m" by blast
  from Cons.IH [OF m(1) t(1,2,4) b] obtain m2 where "good 0 st2" "s_specs ps (lookup st1) rs1 m2" by blast
  moreover from s_specs_vis [OF this(2) t(2), of m] m(3) obtain m2' where "s_specs ps m rs1 m2'" by blast
  ultimately show ?case using s_specs.intros(2) [OF m(2)] Cons.prems(5) x a b by auto
qed

lemma good_init: "c \<le> 9223372036854775808 \<Longrightarrow> \<exists>st. Store_Init c = Some st \<and> good 0 st \<and> lookup st = Map.empty"
  using Store_Init_ok [of c] by (fastforce simp: good_def st_inv_def zroom_def zrefs_ok_def)



text \<open>Locks. A key set with NX and a deadline is held: until the deadline every later SET NX of it fails, whatever rounds of expiry ran in between, and from the deadline on a SET NX succeeds.\<close>

theorem set_nx_lock:
  assumes "store_ok st" "Store_Set now k v opts st = (kOk, st1)" "so_has_expire opts" "so_expire_at_ms opts \<noteq> 0"
    "ExpireCycle now2 st1 = (n, st2)" "now \<le> now2" "now2 \<le> t" "so_nx opts'" "\<not> so_xx opts'"
    "Store_Set t k v' opts' st2 = (res, st3)"
  shows "res = (if t < so_expire_at_ms opts then kNotSetNx else kOk)"
  using ks.lock_excludes [OF assms(1-3,5-8,10)] assms(4,9) by auto

theorem set_nx_lock_witness:
  "\<exists>st st1 st2 st3 n. Store_Init 2 = Some st
     \<and> Store_Set 10 ''l'' (VString ''a'') (default_opts\<lparr>so_has_expire := True, so_expire_at_ms := 50\<rparr>) st = (kOk, st1)
     \<and> ExpireCycle 20 st1 = (n, st2)
     \<and> Store_Set 30 ''l'' (VString ''b'') (default_opts\<lparr>so_nx := True\<rparr>) st2 = (kNotSetNx, st3)"
proof -
  let ?o = "default_opts\<lparr>so_has_expire := True, so_expire_at_ms := 50\<rparr>"
  let ?o2 = "default_opts\<lparr>so_nx := True\<rparr>"
  from good_init [of 2] obtain st where st: "Store_Init 2 = Some st" "store_ok st" "lookup st = Map.empty"
    using goodD(1) by auto
  obtain r st1 where a: "Store_Set 10 ''l'' (VString ''a'') ?o st = (r, st1)" by (metis prod.exhaust)
  from Store_Set_ok [OF st(2) a] st(3) have "r = kOk" by (simp add: spec_Set_def vis_def default_opts_def)
  obtain n st2 where c: "ExpireCycle 20 st1 = (n, st2)" by (metis prod.exhaust)
  obtain res st3 where b: "Store_Set 30 ''l'' (VString ''b'') ?o2 st2 = (res, st3)" by (metis prod.exhaust)
  have "res = kNotSetNx"
    using set_nx_lock [OF st(2) a [unfolded \<open>r = kOk\<close>] _ _ c _ _ _ _ b] by (simp add: default_opts_def)
  with st(1) a \<open>r = kOk\<close> c b show ?thesis by blast
qed

text \<open>The expiry cycle. A round of the background thread keeps the invariant of the store, lets no key that is alive now or later disappear, and the key count drops by exactly the number of keys it reports.\<close>

theorem expire_cycle_safe:
  assumes "store_ok st" "ExpireCycle now st = (n, st')"
  shows "store_ok st' \<and> Store_Size st' + n = Store_Size st
     \<and> (\<forall>t\<ge>now. vis t (lookup st') = vis t (lookup st)) \<and> lookup st' \<subseteq>\<^sub>m lookup st"
  by (rule ExpireCycle_ok [OF assms])

theorem expire_cycle_safe_witness:
  "\<exists>st st' n. Store_Init 2 = Some st \<and> ExpireCycle 5 st = (n, st') \<and> Store_Size st' + n = Store_Size st"
proof -
  from good_init [of 2] obtain st where st: "Store_Init 2 = Some st" "store_ok st" using goodD(1) by auto
  obtain n st' where c: "ExpireCycle 5 st = (n, st')" by (metis prod.exhaust)
  with expire_cycle_safe [OF st(2) c] st(1) show ?thesis by blast
qed

text \<open>Shards. Initialisation makes a power of two of shards, at least as many as asked for and fewer than twice as many, and the hash of any key selects one of them.\<close>

lemma init_shards:
  assumes "c \<le> 9223372036854775808"
  shows "\<exists>st. Store_Init c = Some st \<and> (\<exists>b\<le>63. length (shards st) = 2 ^ b) \<and> unat c \<le> length (shards st)
     \<and> (1 < c \<longrightarrow> length (shards st) < 2 * unat c) \<and> (\<forall>key. GetShard st key < length (shards st))"
proof -
  from Store_Init_ok [of c] assms obtain st where
    st: "Store_Init c = Some st" "store_ok st" "unat c \<le> length (shards st)" "1 < c \<longrightarrow> length (shards st) < 2 * unat c" by auto
  then show ?thesis using GetShard_less [OF st(2)] by (auto simp: store_ok_def)
qed

end
