(* ===== verification/Aof.thy ===== *)
theory Aof
  imports Resp_Facts
begin

section \<open>The append-only file (src/aof.cpp, include/rl/aof.h)\<close>

text \<open>
  Four layers of storage: the buffer of the \<open>Aof\<close> object, the buffer of its \<open>FILE*\<close>
  (\<open>af_stdio\<close>), the bytes the operating system holds for a path (\<open>files\<close>: they survive a crash
  of the process) and the bytes that survive a power failure (\<open>durable\<close>).  \<open>fwrite\<close> moves data to
  the \<open>FILE*\<close> buffer and may pass a prefix of that buffer on, \<open>fflush\<close> passes all of it, \<open>fsync\<close>
  makes the file durable.  What the C library leaves open is an oracle of the environment: whether
  a path can be opened, how many bytes a call of \<open>fwrite\<close> accepts (0 is an error), how many bytes
  it passes on.  The buffer of \<open>AppendArgs\<close> and the sections under the mutex are single steps.
\<close>

datatype AofSyncPolicy = kAlways | kEverySec | kNo

fun AofPolicyName :: "AofSyncPolicy \<Rightarrow> string" where
  "AofPolicyName kAlways = ''always''"
| "AofPolicyName kEverySec = ''everysec''"
| "AofPolicyName kNo = ''no''"

definition ParseAofPolicy :: "string \<Rightarrow> AofSyncPolicy option" where
  "ParseAofPolicy s =
     (if s = ''always'' then Some kAlways
      else if s = ''everysec'' \<or> s = ''every_sec'' then Some kEverySec
      else if s = ''no'' \<or> s = ''none'' then Some kNo
      else None)"

record disk =
  files :: "string \<rightharpoonup> string"
  durable :: "string \<rightharpoonup> string"
  can_open :: "string \<Rightarrow> bool"
  fwrites :: "nat \<Rightarrow> nat"
  spills :: "nat \<Rightarrow> nat"

record aof =
  af_open :: bool
  af_path :: string
  af_policy :: AofSyncPolicy
  af_buffer :: string
  af_threshold :: nat
  af_file_size :: int
  af_total :: nat
  af_stdio :: string

definition Aof_new :: aof where
  "Aof_new = \<lparr>af_open = False, af_path = [], af_policy = kEverySec, af_buffer = [],
              af_threshold = 4 * 1024 * 1024, af_file_size = 0, af_total = 0, af_stdio = []\<rparr>"

definition content :: "disk \<Rightarrow> string \<Rightarrow> string" where
  "content d p = (case files d p of None \<Rightarrow> [] | Some s \<Rightarrow> s)"

subsection \<open>The C library\<close>

definition fwrite_once :: "string \<Rightarrow> aof \<times> disk \<Rightarrow> nat \<times> aof \<times> disk" where
  "fwrite_once data ad =
     (let (a, d) = ad;
          n = min (fwrites d 0) (length data);
          stdio = af_stdio a @ take n data;
          k = spills d 0
      in (n, a\<lparr>af_stdio := drop k stdio\<rparr>,
          d\<lparr>files := (files d)(af_path a \<mapsto> content d (af_path a) @ take k stdio),
            fwrites := (\<lambda>i. fwrites d (Suc i)), spills := (\<lambda>i. spills d (Suc i))\<rparr>))"

definition fflush :: "aof \<times> disk \<Rightarrow> aof \<times> disk" where
  "fflush ad =
     (let (a, d) = ad in
      (a\<lparr>af_stdio := []\<rparr>, d\<lparr>files := (files d)(af_path a \<mapsto> content d (af_path a) @ af_stdio a)\<rparr>))"

definition FsyncFile :: "aof \<times> disk \<Rightarrow> aof \<times> disk" where
  "FsyncFile ad =
     (let (a, d) = ad in (a, d\<lparr>durable := (durable d)(af_path a \<mapsto> content d (af_path a))\<rparr>))"

text \<open>\<open>fclose\<close> flushes; \<open>fopen(path, "ab")\<close> creates a missing file.\<close>

definition fclose :: "aof \<times> disk \<Rightarrow> aof \<times> disk" where
  "fclose ad = (let (a, d) = fflush ad in (a\<lparr>af_open := False\<rparr>, d))"

subsection \<open>Open, Close\<close>

definition Aof_Open :: "string \<Rightarrow> AofSyncPolicy \<Rightarrow> aof \<times> disk \<Rightarrow> bool \<times> aof \<times> disk" where
  "Aof_Open path policy ad =
     (let (a, d) = (if af_open (fst ad) then fclose ad else ad);
          a = a\<lparr>af_path := path, af_policy := policy\<rparr>
      in if \<not> can_open d path then (False, a, d)
         else let d = d\<lparr>files := (files d)(path \<mapsto> content d path)\<rparr> in
              (True, a\<lparr>af_open := True, af_stdio := [], af_file_size := int (length (content d path))\<rparr>, d))"

definition Aof_Close :: "aof \<times> disk \<Rightarrow> aof \<times> disk" where
  "Aof_Close ad =
     (if \<not> af_open (fst ad) then ad
      else
        let (a, d) =
          (if af_buffer (fst ad) \<noteq> []
           then let (n, a, d) = fwrite_once (af_buffer (fst ad)) ad;
                    a = (if n = length (af_buffer a) then a\<lparr>af_file_size := af_file_size a + int n\<rparr> else a)
                in (a\<lparr>af_buffer := []\<rparr>, d)
           else ad)
        in fclose (FsyncFile (fflush (a, d))))"

subsection \<open>Writing\<close>

text \<open>The loop of \<open>WriteToFile\<close>: \<open>written < len\<close>, a call that writes nothing is an error.\<close>

function write_loop :: "string \<Rightarrow> aof \<times> disk \<Rightarrow> bool \<times> aof \<times> disk" where
  "write_loop data ad =
     (if data = [] then (True, ad)
      else let (n, ad') = fwrite_once data ad in
           if n = 0 then (False, ad') else write_loop (drop n data) ad')"
  by pat_completeness auto
termination
  by (relation "measure (\<lambda>(data, ad). length data)") auto

declare write_loop.simps [simp del]

definition WriteToFile :: "string \<Rightarrow> aof \<times> disk \<Rightarrow> bool \<times> aof \<times> disk" where
  "WriteToFile data ad =
     (if \<not> af_open (fst ad) then (False, ad)
      else let (ok, a, d) = write_loop data ad in
           (ok, if ok then a\<lparr>af_file_size := af_file_size a + int (length data)\<rparr> else a, d))"

definition Aof_SyncNow :: "aof \<times> disk \<Rightarrow> aof \<times> disk" where
  "Aof_SyncNow ad =
     (if \<not> af_open (fst ad) then ad
      else
        let (a, d) = ad;
            local = af_buffer a;
            ad = (a\<lparr>af_buffer := []\<rparr>, d);
            (ok, a, d) = (if local \<noteq> [] then WriteToFile local ad else (True, ad))
        in if \<not> af_open a then (a, d) else FsyncFile (fflush (a, d)))"

definition Aof_FlushIfNeeded :: "aof \<times> disk \<Rightarrow> aof \<times> disk" where
  "Aof_FlushIfNeeded ad =
     (if \<not> af_open (fst ad) \<or> af_buffer (fst ad) = [] then ad
      else
        let (a, d) = ad;
            (ok, a, d) = WriteToFile (af_buffer a) (a\<lparr>af_buffer := []\<rparr>, d)
        in if \<not> ok then (a, d)
           else if af_open a \<and> af_policy a = kEverySec then FsyncFile (fflush (a, d))
           else (a, d))"

definition Aof_Append :: "string list \<Rightarrow> aof \<times> disk \<Rightarrow> aof \<times> disk" where
  "Aof_Append args ad =
     (if args = [] then ad
      else if \<not> af_open (fst ad) then ad
      else
        let (a, d) = ad;
            encoded = EncodeCommand args [];
            a = a\<lparr>af_buffer := af_buffer a @ encoded, af_total := af_total a + length encoded\<rparr>;
            need_sync = (length (af_buffer a) \<ge> af_threshold a)
        in if af_policy a = kAlways then Aof_SyncNow (a, d)
           else if need_sync then Aof_SyncNow (a, d)
           else (a, d))"

subsection \<open>Recovery\<close>

text \<open>The loop of \<open>LoadAll\<close>: the commands read so far, and the number of bytes reported as
  truncated.\<close>

lemma RespParser_Next_less:
  assumes "RespParser_Next p = (NextCmd args, p')"
  shows "length (buf p') - pos p' < length (buf p) - pos p"
  using RespParser_Next_Cmd [OF assms] by (elim conjE) simp

function load_loop :: "resp_parser \<Rightarrow> string list list \<Rightarrow> string list list \<times> nat" where
  "load_loop p out =
     (case RespParser_Next p of
        (NextThrow e, p') \<Rightarrow> (out, buffered p')
      | (NextFalse, p') \<Rightarrow> (out, buffered p')
      | (NextCmd args, p') \<Rightarrow> load_loop p' (if args \<noteq> [] then out @ [args] else out))"
  by pat_completeness auto
termination
  by (relation "measure (\<lambda>(p, out). length (buf p) - pos p)") (auto dest: RespParser_Next_less [OF sym])

declare load_loop.simps [simp del]

text \<open>\<open>LoadAll\<close>: \<open>None\<close> is \<open>return false\<close> (the file exists and cannot be opened); a missing file
  is the empty list.\<close>

definition Aof_LoadAll :: "string \<Rightarrow> disk \<Rightarrow> (string list list \<times> nat) option" where
  "Aof_LoadAll path d =
     (case files d path of
        None \<Rightarrow> Some ([], 0)
      | Some bytes \<Rightarrow>
          if \<not> can_open d path then None
          else if bytes = [] then Some ([], 0)
          else Some (load_loop (RespParser_Append bytes parser_new) []))"

end
