(* ===== verification/Aof_Facts.thy ===== *)
theory Aof_Facts
  imports Aof
begin

section \<open>Durability and recovery of the append-only file\<close>

text \<open>
  \<open>aof_log\<close> is everything that was appended: what the file holds, then the buffer of the \<open>FILE*\<close>,
  then the buffer of the object.  Every operation keeps it or extends it by the encoding of the
  command, and only moves bytes towards the disk in order; so the file is at any time a prefix of
  the log, and a load after a crash returns a prefix of the commands.
\<close>

abbreviation written :: "aof \<times> disk \<Rightarrow> string" where
  "written ad \<equiv> content (snd ad) (af_path (fst ad))"

definition aof_log :: "aof \<times> disk \<Rightarrow> string" where
  "aof_log ad = written ad @ af_stdio (fst ad) @ af_buffer (fst ad)"

definition healthy :: "disk \<Rightarrow> bool" where
  "healthy d \<longleftrightarrow> (\<forall>i. 0 < fwrites d i)"

text \<open>What a step does to the file: same path and policy, the file only grows, and the durable
  bytes are those before or a later state of the file.\<close>

definition grows :: "aof \<times> disk \<Rightarrow> aof \<times> disk \<Rightarrow> bool" where
  "grows ad ad' \<longleftrightarrow>
     af_path (fst ad') = af_path (fst ad) \<and> af_policy (fst ad') = af_policy (fst ad) \<and>
     af_open (fst ad') = af_open (fst ad) \<and> af_threshold (fst ad') = af_threshold (fst ad) \<and>
     can_open (snd ad') = can_open (snd ad) \<and>
     (healthy (snd ad) \<longrightarrow> healthy (snd ad')) \<and> prefix (written ad) (written ad') \<and>
     (durable (snd ad') (af_path (fst ad)) = durable (snd ad) (af_path (fst ad))
      \<or> (\<exists>x. durable (snd ad') (af_path (fst ad)) = Some x \<and> prefix (written ad) x \<and> prefix x (written ad')))"

lemma grows_refl [simp]: "grows ad ad"
  by (simp add: grows_def)

lemma grows_trans: "grows ad ad' \<Longrightarrow> grows ad' ad'' \<Longrightarrow> grows ad ad''"
proof -
  assume g: "grows ad ad'" "grows ad' ad''"
  then have path: "af_path (fst ad') = af_path (fst ad)" "af_path (fst ad'') = af_path (fst ad)"
    by (simp_all add: grows_def)
  have w: "prefix (written ad) (written ad')" "prefix (written ad') (written ad'')"
    using g unfolding grows_def by blast+
  let ?D = "\<lambda>x. durable (snd x) (af_path (fst ad))"
  let ?new = "\<lambda>u y. \<exists>x. ?D y = Some x \<and> prefix (written u) x \<and> prefix x (written y)"
  have "?D ad' = ?D ad \<or> ?new ad ad'" "?D ad'' = ?D ad' \<or> ?new ad' ad''"
    using g path by (auto simp: grows_def)
  then have "?D ad'' = ?D ad \<or> ?new ad ad''"
    using w by (elim disjE) (auto intro: prefix_order.order_trans)
  then show "grows ad ad''" using g prefix_order.order_trans [OF w] unfolding grows_def by (intro conjI) argo+
qed

lemma fwrite_once_ok:
  assumes "fwrite_once data ad = (n, ad')"
  shows "n \<le> length data" "grows ad ad'" "healthy (snd ad) \<Longrightarrow> data \<noteq> [] \<Longrightarrow> 0 < n"
    "written ad' @ af_stdio (fst ad') = written ad @ af_stdio (fst ad) @ take n data"
    "af_buffer (fst ad') = af_buffer (fst ad)"
proof -
  obtain a d where ad: "ad = (a, d)" by (cases ad) auto
  define k where "k = spills d 0"
  define st where "st = af_stdio a @ take n data"
  have n: "n = min (fwrites d 0) (length data)"
    and ad': "ad' = (a\<lparr>af_stdio := drop k st\<rparr>,
          d\<lparr>files := (files d)(af_path a \<mapsto> content d (af_path a) @ take k st),
            fwrites := (\<lambda>i. fwrites d (Suc i)), spills := (\<lambda>i. spills d (Suc i))\<rparr>)"
    using assms by (auto simp: fwrite_once_def Let_def ad k_def st_def)
  show "n \<le> length data" by (simp add: n)
  show "healthy (snd ad) \<Longrightarrow> data \<noteq> [] \<Longrightarrow> 0 < n" by (simp add: n ad healthy_def)
  show "af_buffer (fst ad') = af_buffer (fst ad)" by (simp add: ad' ad)
  have w: "written ad' = written ad @ take k st" by (simp add: ad' ad content_def)
  then show "written ad' @ af_stdio (fst ad') = written ad @ af_stdio (fst ad) @ take n data"
    by (simp add: ad' ad st_def [symmetric])
  show "grows ad ad'" using w by (simp add: grows_def ad' ad healthy_def)
qed

lemma write_loop_ok:
  "write_loop data ad = (ok, ad') \<Longrightarrow>
     grows ad ad' \<and> af_buffer (fst ad') = af_buffer (fst ad) \<and>
     (ok \<longrightarrow> written ad' @ af_stdio (fst ad') = written ad @ af_stdio (fst ad) @ data) \<and>
     (healthy (snd ad) \<longrightarrow> ok)"
proof (induction data ad arbitrary: ok ad' rule: write_loop.induct)
  case (1 data ad)
  show ?case
  proof (cases "data = []")
    case True
    with "1.prems" show ?thesis by (auto simp: write_loop.simps [of "[]"])
  next
    case ne: False
    obtain n ad1 where w: "fwrite_once data ad = (n, ad1)" by (cases "fwrite_once data ad") auto
    note f = fwrite_once_ok [OF w]
    have eq: "write_loop data ad = (if n = 0 then (False, ad1) else write_loop (drop n data) ad1)"
      using ne w by (subst write_loop.simps) simp
    show ?thesis
    proof (cases "n = 0")
      case True
      with "1.prems" eq f ne show ?thesis by auto
    next
      case False
      with "1.prems" eq have "write_loop (drop n data) ad1 = (ok, ad')" by simp
      from "1.IH" [OF ne w [symmetric] refl False this] f
      have "grows ad1 ad'" "af_buffer (fst ad') = af_buffer (fst ad1)"
        "ok \<longrightarrow> written ad' @ af_stdio (fst ad') = written ad1 @ af_stdio (fst ad1) @ drop n data"
        "healthy (snd ad1) \<longrightarrow> ok" by blast+
      moreover from this(3) f(4)
      have "ok \<longrightarrow> written ad' @ af_stdio (fst ad') = written ad @ af_stdio (fst ad) @ data"
        by (metis append_assoc append_take_drop_id)
      moreover have "grows ad ad'" using grows_trans [OF f(2)] calculation(1) .
      moreover have "healthy (snd ad) \<longrightarrow> healthy (snd ad1)" using f(2) by (simp add: grows_def)
      ultimately show ?thesis using f(5) by simp
    qed
  qed
qed

lemma fflush_ok:
  "grows ad (fflush ad)" "written (fflush ad) = written ad @ af_stdio (fst ad)"
  "af_stdio (fst (fflush ad)) = []" "af_buffer (fst (fflush ad)) = af_buffer (fst ad)"
  by (auto simp: fflush_def grows_def content_def healthy_def split: prod.splits)

lemma FsyncFile_ok:
  "grows ad (FsyncFile ad)" "written (FsyncFile ad) = written ad"
  "fst (FsyncFile ad) = fst ad" "durable (snd (FsyncFile ad)) (af_path (fst ad)) = Some (written ad)"
  by (auto simp: FsyncFile_def grows_def content_def healthy_def split: prod.splits)

lemma flush_fsync_ok:
  assumes "ad' = FsyncFile (fflush ad)"
  shows "grows ad ad'" "written ad' = written ad @ af_stdio (fst ad)" "af_stdio (fst ad') = []"
    "af_buffer (fst ad') = af_buffer (fst ad)" "durable (snd ad') (af_path (fst ad)) = Some (written ad')"
proof -
  show "grows ad ad'" unfolding assms using grows_trans [OF fflush_ok(1) FsyncFile_ok(1)] .
  have path: "af_path (fst (fflush ad)) = af_path (fst ad)"
    using fflush_ok(1) [of ad] by (simp add: grows_def)
  have w: "written ad' = written (fflush ad)" unfolding assms by (rule FsyncFile_ok(2))
  show "written ad' = written ad @ af_stdio (fst ad)" unfolding w by (rule fflush_ok(2))
  show "af_stdio (fst ad') = []" unfolding assms FsyncFile_ok(3) by (rule fflush_ok(3))
  show "af_buffer (fst ad') = af_buffer (fst ad)" unfolding assms FsyncFile_ok(3) by (rule fflush_ok(4))
  show "durable (snd ad') (af_path (fst ad)) = Some (written ad')"
    using FsyncFile_ok(4) [of "fflush ad"] unfolding w unfolding assms path .
qed

lemma WriteToFile_ok:
  assumes "WriteToFile data ad = (ok, ad')" "af_open (fst ad)"
  shows "grows ad ad'" "af_buffer (fst ad') = af_buffer (fst ad)" "healthy (snd ad) \<Longrightarrow> ok"
    "ok \<Longrightarrow> written ad' @ af_stdio (fst ad') = written ad @ af_stdio (fst ad) @ data"
proof -
  obtain a d where w: "write_loop data ad = (ok, a, d)"
    "ad' = (if ok then a\<lparr>af_file_size := af_file_size a + int (length data)\<rparr> else a, d)"
    using assms by (auto simp: WriteToFile_def split: prod.splits)
  note l = write_loop_ok [OF w(1)]
  show "grows ad ad'" "af_buffer (fst ad') = af_buffer (fst ad)" "healthy (snd ad) \<Longrightarrow> ok"
    "ok \<Longrightarrow> written ad' @ af_stdio (fst ad') = written ad @ af_stdio (fst ad) @ data"
    using l w(2) by (auto simp: grows_def)
qed

lemma grows_buffer: "grows (a\<lparr>af_buffer := x\<rparr>, d) ad' \<longleftrightarrow> grows (a, d) ad'"
  "grows ad (a\<lparr>af_buffer := x\<rparr>, d) \<longleftrightarrow> grows ad (a, d)"
  "grows (a\<lparr>af_total := t\<rparr>, d) ad' \<longleftrightarrow> grows (a, d) ad'"
  by (simp_all add: grows_def)

text \<open>\<open>SyncNow\<close>: the whole log becomes durable.\<close>

lemma Aof_SyncNow_ok:
  assumes op: "af_open (fst ad)" and h: "healthy (snd ad)"
  shows "grows ad (Aof_SyncNow ad)" "written (Aof_SyncNow ad) = aof_log ad" "aof_log (Aof_SyncNow ad) = aof_log ad"
    "durable (snd (Aof_SyncNow ad)) (af_path (fst ad)) = Some (aof_log ad)"
proof -
  obtain a d where ad: "ad = (a, d)" by (cases ad) auto
  let ?ad1 = "(a\<lparr>af_buffer := []\<rparr>, d)"
  obtain ok a2 d2 where w: "(if af_buffer a \<noteq> [] then WriteToFile (af_buffer a) ?ad1 else (True, ?ad1)) = (ok, a2, d2)"
    by (cases "if af_buffer a \<noteq> [] then WriteToFile (af_buffer a) ?ad1 else (True, ?ad1)") auto
  have g: "grows ?ad1 (a2, d2) \<and> written (a2, d2) @ af_stdio a2 = written ?ad1 @ af_stdio a @ af_buffer a
      \<and> af_buffer a2 = []"
  proof (cases "af_buffer a = []")
    case True
    with w show ?thesis by auto
  next
    case False
    with w have w1: "WriteToFile (af_buffer a) ?ad1 = (ok, a2, d2)" by simp
    have "af_open (fst ?ad1)" "healthy (snd ?ad1)" using op h ad by simp_all
    with WriteToFile_ok [OF w1] show ?thesis by simp
  qed
  then have "af_open a2" "af_path a2 = af_path a" using op ad by (simp_all add: grows_def)
  then have eq: "Aof_SyncNow ad = FsyncFile (fflush (a2, d2))"
    using op w unfolding Aof_SyncNow_def ad by (simp add: Let_def split: prod.splits)
  note fl = flush_fsync_ok [OF eq]
  have wr: "written (Aof_SyncNow ad) = aof_log ad" using fl(2) g by (simp add: aof_log_def ad)
  show "written (Aof_SyncNow ad) = aof_log ad" by (rule wr)
  show "aof_log (Aof_SyncNow ad) = aof_log ad" using fl(3,4) g wr by (simp add: aof_log_def)
  show "grows ad (Aof_SyncNow ad)" using g fl(1) grows_trans unfolding grows_buffer ad by blast
  show "durable (snd (Aof_SyncNow ad)) (af_path (fst ad)) = Some (aof_log ad)"
    using fl(5) wr \<open>af_path a2 = af_path a\<close> by (simp add: ad)
qed

lemma Aof_FlushIfNeeded_ok:
  assumes op: "af_open (fst ad)" and h: "healthy (snd ad)"
  shows "grows ad (Aof_FlushIfNeeded ad)" "aof_log (Aof_FlushIfNeeded ad) = aof_log ad"
    "af_policy (fst ad) = kEverySec \<Longrightarrow> af_buffer (fst ad) \<noteq> [] \<Longrightarrow>
       durable (snd (Aof_FlushIfNeeded ad)) (af_path (fst ad)) = Some (aof_log ad)"
proof -
  obtain a d where ad: "ad = (a, d)" by (cases ad) auto
  have "grows ad (Aof_FlushIfNeeded ad) \<and> aof_log (Aof_FlushIfNeeded ad) = aof_log ad
    \<and> (af_policy (fst ad) = kEverySec \<longrightarrow> af_buffer (fst ad) \<noteq> [] \<longrightarrow>
       durable (snd (Aof_FlushIfNeeded ad)) (af_path (fst ad)) = Some (aof_log ad))"
  proof (cases "af_buffer a = []")
    case True
    then show ?thesis by (simp add: Aof_FlushIfNeeded_def ad)
  next
    case False
    let ?ad1 = "(a\<lparr>af_buffer := []\<rparr>, d)"
    obtain ok a2 d2 where w: "WriteToFile (af_buffer a) ?ad1 = (ok, a2, d2)"
      by (cases "WriteToFile (af_buffer a) ?ad1") auto
    have "af_open (fst ?ad1)" "healthy (snd ?ad1)" using op h ad by simp_all
    with WriteToFile_ok [OF w] have g: "grows ?ad1 (a2, d2)" "ok" "af_buffer a2 = []"
      "written (a2, d2) @ af_stdio a2 = written ?ad1 @ af_stdio a @ af_buffer a" by auto
    then have st: "af_open a2" "af_path a2 = af_path a" "af_policy a2 = af_policy a" using op ad by (simp_all add: grows_def)
    have eq: "Aof_FlushIfNeeded ad = (if af_policy a = kEverySec then FsyncFile (fflush (a2, d2)) else (a2, d2))"
      using False op w g(2) st by (simp add: Aof_FlushIfNeeded_def ad)
    have g1: "grows ad (a2, d2)" using g(1) unfolding grows_buffer ad .
    show ?thesis
    proof (cases "af_policy a = kEverySec")
      case True
      with eq have e: "Aof_FlushIfNeeded ad = FsyncFile (fflush (a2, d2))" by simp
      note fl = flush_fsync_ok [OF e]
      have "written (Aof_FlushIfNeeded ad) = aof_log ad" using fl(2) g(4) by (simp add: aof_log_def ad)
      moreover have "aof_log (Aof_FlushIfNeeded ad) = written (Aof_FlushIfNeeded ad)"
        using fl(3,4) g(3) by (simp add: aof_log_def [of "Aof_FlushIfNeeded ad"])
      ultimately show ?thesis using fl(5) grows_trans [OF g1 fl(1)] st by (simp add: ad)
    next
      case f: False
      then show ?thesis using eq g g1 by (simp add: aof_log_def ad)
    qed
  qed
  then show "grows ad (Aof_FlushIfNeeded ad)" "aof_log (Aof_FlushIfNeeded ad) = aof_log ad"
    "af_policy (fst ad) = kEverySec \<Longrightarrow> af_buffer (fst ad) \<noteq> [] \<Longrightarrow>
       durable (snd (Aof_FlushIfNeeded ad)) (af_path (fst ad)) = Some (aof_log ad)" by blast+
qed

lemma Aof_Append_ok:
  assumes op: "af_open (fst ad)" and h: "healthy (snd ad)" and ne: "args \<noteq> []"
  shows "grows ad (Aof_Append args ad)" "aof_log (Aof_Append args ad) = aof_log ad @ enc args"
    "af_policy (fst ad) = kAlways \<Longrightarrow>
       durable (snd (Aof_Append args ad)) (af_path (fst ad)) = Some (aof_log ad @ enc args)"
proof -
  obtain a d where ad: "ad = (a, d)" by (cases ad) auto
  let ?ad1 = "(a\<lparr>af_buffer := af_buffer a @ enc args, af_total := af_total a + length (enc args)\<rparr>, d)"
  have eq: "Aof_Append args ad =
      (if af_policy a = kAlways \<or> af_threshold a \<le> length (af_buffer a @ enc args) then Aof_SyncNow ?ad1 else ?ad1)"
    using op ne by (simp add: Aof_Append_def ad Let_def EncodeCommand_enc)
  have l: "aof_log ?ad1 = aof_log ad @ enc args" by (simp add: aof_log_def ad)
  have g: "grows ad ?ad1" by (simp add: grows_def ad)
  have op1: "af_open (fst ?ad1)" "healthy (snd ?ad1)" using op h ad by simp_all
  note sy = Aof_SyncNow_ok [OF op1]
  show "grows ad (Aof_Append args ad)" using grows_trans [OF g sy(1)] g by (simp add: eq)
  show "aof_log (Aof_Append args ad) = aof_log ad @ enc args" using sy(3) l by (simp add: eq)
  show "durable (snd (Aof_Append args ad)) (af_path (fst ad)) = Some (aof_log ad @ enc args)"
    if "af_policy (fst ad) = kAlways" using that sy(4) l unfolding eq by (simp add: ad)
qed

subsection \<open>Any sequence of appends, flushes and syncs\<close>

datatype aof_event = EvAppend "string list" | EvFlush | EvSync

fun aof_step :: "aof_event \<Rightarrow> aof \<times> disk \<Rightarrow> aof \<times> disk" where
  "aof_step (EvAppend args) ad = Aof_Append args ad"
| "aof_step EvFlush ad = Aof_FlushIfNeeded ad"
| "aof_step EvSync ad = Aof_SyncNow ad"

fun aof_run :: "aof_event list \<Rightarrow> aof \<times> disk \<Rightarrow> aof \<times> disk" where
  "aof_run [] ad = ad"
| "aof_run (e # es) ad = aof_run es (aof_step e ad)"

fun appended :: "aof_event list \<Rightarrow> string list list" where
  "appended [] = []"
| "appended (EvAppend args # es) = args # appended es"
| "appended (e # es) = appended es"

lemma aof_run_ok:
  "af_open (fst ad) \<Longrightarrow> healthy (snd ad) \<Longrightarrow> [] \<notin> set (appended es) \<Longrightarrow>
     grows ad (aof_run es ad) \<and> aof_log (aof_run es ad) = aof_log ad @ concat (map enc (appended es))"
proof (induction es arbitrary: ad)
  case (Cons e es)
  have s: "grows ad (aof_step e ad) \<and> aof_log (aof_step e ad) = aof_log ad @ concat (map enc (appended [e]))"
  proof (cases e)
    case (EvAppend args)
    with Cons.prems Aof_Append_ok [of ad args] show ?thesis by auto
  qed (use Cons.prems Aof_FlushIfNeeded_ok [of ad] Aof_SyncNow_ok [of ad] in auto)
  then have "af_open (fst (aof_step e ad))" "healthy (snd (aof_step e ad))"
    using Cons.prems by (simp_all add: grows_def)
  moreover have "[] \<notin> set (appended es)" using Cons.prems(3) by (cases e) auto
  ultimately have "grows (aof_step e ad) (aof_run es (aof_step e ad))"
    "aof_log (aof_run es (aof_step e ad)) = aof_log (aof_step e ad) @ concat (map enc (appended es))"
    using Cons.IH by blast+
  then show ?case using s grows_trans [of ad "aof_step e ad"] by (cases e) auto
qed simp

subsection \<open>Loading\<close>

text \<open>The load of any prefix of a sequence of encoded commands: the complete ones, and the number
  of bytes of the incomplete rest.\<close>

lemma load_loop_cut:
  "list_all args_ok cmds \<Longrightarrow> prefix p (concat (map enc cmds)) \<Longrightarrow>
     \<exists>k rest. k \<le> length cmds \<and> p = concat (map enc (take k cmds)) @ rest
       \<and> (rest = [] \<or> k < length cmds \<and> strict_prefix rest (enc (cmds ! k)))
       \<and> load_loop \<lparr>buf = pre @ p, pos = length pre\<rparr> out = (out @ take k cmds, length rest)"
proof (induction cmds arbitrary: p pre out)
  case Nil
  have "RespParser_Next \<lparr>buf = pre, pos = length pre\<rparr> = (NextFalse, \<lparr>buf = pre, pos = length pre\<rparr>)"
    by (simp add: RespParser_Next_def Ensure_def)
  with Nil show ?case by (intro exI [of _ 0] exI [of _ "[]"]) (simp add: load_loop.simps buffered_def)
next
  case (Cons c cs)
  from Cons.prems(1) have ok: "args_ok c" "list_all args_ok cs" by simp_all
  show ?case
  proof (cases "prefix (enc c) p")
    case True
    then obtain p' where p: "p = enc c @ p'" by (auto simp: prefix_def)
    with Cons.prems(2) have "prefix p' (concat (map enc cs))" by simp
    from Cons.IH [OF ok(2) this, of "pre @ enc c" "out @ [c]"] obtain k rest where
      k: "k \<le> length cs" "p' = concat (map enc (take k cs)) @ rest"
        "rest = [] \<or> k < length cs \<and> strict_prefix rest (enc (cs ! k))"
        "load_loop \<lparr>buf = (pre @ enc c) @ p', pos = length (pre @ enc c)\<rparr> (out @ [c]) = ((out @ [c]) @ take k cs, length rest)"
      by blast
    have "c \<noteq> []" using ok(1) by (simp add: args_ok_def)
    then have "load_loop \<lparr>buf = pre @ p, pos = length pre\<rparr> out
        = load_loop \<lparr>buf = (pre @ enc c) @ p', pos = length (pre @ enc c)\<rparr> (out @ [c])"
      using RespParser_Next_enc [OF ok(1), of pre p'] by (subst load_loop.simps) (simp add: p)
    with k show ?thesis by (intro exI [of _ "Suc k"] exI [of _ rest]) (auto simp: p)
  next
    case False
    with Cons.prems(2) have "strict_prefix p (enc c)"
      by (auto simp: prefix_append strict_prefix_def)
    from RespParser_Next_cut [OF ok(1) this, of pre] this show ?thesis
      by (intro exI [of _ 0] exI [of _ p]) (auto simp: load_loop.simps buffered_def)
  qed
qed

lemma Aof_LoadAll_cut:
  assumes "list_all args_ok cmds" "files d path = Some p" "prefix p (concat (map enc cmds))" "can_open d path"
  shows "\<exists>k rest. k \<le> length cmds \<and> p = concat (map enc (take k cmds)) @ rest
       \<and> (rest = [] \<or> k < length cmds \<and> strict_prefix rest (enc (cmds ! k)))
       \<and> Aof_LoadAll path d = Some (take k cmds, length rest)"
proof (cases "p = []")
  case True
  with assms show ?thesis by (intro exI [of _ 0] exI [of _ "[]"]) (simp add: Aof_LoadAll_def)
next
  case False
  with assms load_loop_cut [OF assms(1,3), of "[]" "[]"] show ?thesis
    by (simp add: Aof_LoadAll_def RespParser_Append_def parser_new_def)
qed

lemma enc_prefix_count:
  assumes "concat (map enc cmds) = concat (map enc (take k cmds)) @ rest" "k \<le> length cmds"
    "rest = [] \<or> k < length cmds \<and> strict_prefix rest (enc (cmds ! k))"
  shows "k = length cmds"
proof (rule ccontr)
  assume "k \<noteq> length cmds"
  with assms(2) have k: "k < length cmds" by simp
  then have "drop k cmds = cmds ! k # drop (Suc k) cmds" by (simp add: Cons_nth_drop_Suc)
  then have "concat (map enc cmds) = concat (map enc (take k cmds)) @ enc (cmds ! k) @ concat (map enc (drop (Suc k) cmds))"
    by (metis append_take_drop_id concat.simps(2) concat_append list.simps(9) map_append)
  with assms(1) have "rest = enc (cmds ! k) @ concat (map enc (drop (Suc k) cmds))" by simp
  with assms(3) show False by (auto simp: strict_prefix_def prefix_def)
qed

subsection \<open>Crashes\<close>

text \<open>After a crash of the process the file is what the operating system holds; after a power failure
  it is what was synchronised.\<close>

definition power_fail :: "disk \<Rightarrow> disk" where
  "power_fail d = d\<lparr>files := durable d\<rparr>"

text \<open>An append-only file just opened on a file with the given bytes, all of them durable.\<close>

definition opened :: "aof \<times> disk \<Rightarrow> string \<Rightarrow> bool" where
  "opened ad bytes \<longleftrightarrow> af_open (fst ad) \<and> healthy (snd ad) \<and> af_stdio (fst ad) = [] \<and> af_buffer (fst ad) = []
     \<and> can_open (snd ad) (af_path (fst ad)) \<and> files (snd ad) (af_path (fst ad)) = Some bytes
     \<and> durable (snd ad) (af_path (fst ad)) = Some bytes"

lemma openedD:
  assumes "opened ad bytes"
  shows "af_open (fst ad)" "healthy (snd ad)" "written ad = bytes" "aof_log ad = bytes"
    "can_open (snd ad) (af_path (fst ad))" "durable (snd ad) (af_path (fst ad)) = Some bytes"
  using assms by (simp_all add: opened_def aof_log_def content_def)

lemma Aof_Open_opened:
  assumes "files d path = Some bytes" "durable d path = Some bytes" "can_open d path" "healthy d"
    "\<not> af_open a" "af_buffer a = []"
  shows "\<exists>ad. Aof_Open path pol (a, d) = (True, ad) \<and> opened ad bytes \<and> af_path (fst ad) = path \<and> af_policy (fst ad) = pol"
  using assms by (simp add: Aof_Open_def opened_def content_def healthy_def fun_upd_idem)

lemma written_files: "written ad \<noteq> [] \<Longrightarrow> files (snd ad) (af_path (fst ad)) = Some (written ad)"
  by (auto simp: content_def split: option.splits)

lemma LoadAll_prefix:
  assumes ok: "list_all args_ok cmds" and p: "prefix (content d path) (concat (map enc cmds))" and o: "can_open d path"
  shows "\<exists>k t. k \<le> length cmds \<and> Aof_LoadAll path d = Some (take k cmds, t)
    \<and> (content d path = concat (map enc cmds) \<longrightarrow> k = length cmds \<and> t = 0)
    \<and> (\<forall>j\<le>length cmds. prefix (concat (map enc (take j cmds))) (content d path) \<longrightarrow> j \<le> k)"
proof (cases "files d path")
  case None
  have e: "j = 0" if "j \<le> length cmds" "concat (map enc (take j cmds)) = []" for j
    using that by (cases cmds; cases j) (auto simp: enc_def)
  have c: "content d path = []" "Aof_LoadAll path d = Some ([], 0)" using None by (simp_all add: Aof_LoadAll_def content_def)
  have h1: "0 = length cmds" if "content d path = concat (map enc cmds)"
  proof -
    have "concat (map enc (take (length cmds) cmds)) = []" using that c(1) by (simp only: take_all order_refl)
    from e [OF order_refl this] show ?thesis by (rule sym)
  qed
  have h2: "j \<le> 0" if "j \<le> length cmds" "prefix (concat (map enc (take j cmds))) (content d path)" for j
    using e [OF that(1)] that(2) unfolding c(1) prefix_Nil by (simp only: order_refl)
  show ?thesis using c(2) h1 h2 by (intro exI [of _ 0] exI [of _ 0]) (simp only: take_0 le0 simp_thms, blast)
next
  case (Some bytes)
  then have c: "content d path = bytes" by (simp add: content_def)
  from Aof_LoadAll_cut [OF ok Some p [unfolded c] o] obtain k rest where
    k: "k \<le> length cmds" "bytes = concat (map enc (take k cmds)) @ rest"
      "rest = [] \<or> k < length cmds \<and> strict_prefix rest (enc (cmds ! k))"
      "Aof_LoadAll path d = Some (take k cmds, length rest)" by blast
  have full: "k = length cmds \<and> length rest = 0" if "bytes = concat (map enc cmds)"
  proof -
    have kk: "k = length cmds" using enc_prefix_count [OF _ k(1,3)] that k(2) by simp
    then show ?thesis using k(3) by auto
  qed
  have "j \<le> k" if j: "j \<le> length cmds" "prefix (concat (map enc (take j cmds))) bytes" for j
  proof (rule ccontr)
    assume "\<not> j \<le> k"
    then have kj: "k < j" by simp
    then have "k < length (take j cmds)" using j(1) by simp
    from id_take_nth_drop [OF this] kj
    obtain ys where jk: "take j cmds = take k cmds @ cmds ! k # ys"
      by (simp only: take_take nth_take min.absorb1 less_imp_le)
    then have "prefix (enc (cmds ! k) @ concat (map enc ys)) rest"
      using j(2) unfolding k(2) jk by simp
    then have "prefix (enc (cmds ! k)) rest" by (rule append_prefixD)
    moreover have "enc (cmds ! k) \<noteq> []" by (simp add: enc_def)
    ultimately show False using k(3) by (metis prefix_Nil prefix_order.less_le_not_le)
  qed
  with k full show ?thesis unfolding c by blast
qed

lemma crash_contents:
  assumes o: "opened ad bytes" and ne: "[] \<notin> set (appended es)"
  defines "ad' \<equiv> aof_run es ad"
  shows "af_path (fst ad') = af_path (fst ad)" "can_open (snd ad') = can_open (snd ad)"
    "prefix (written ad') (aof_log ad')" "prefix bytes (written ad')" "aof_log ad' = bytes @ concat (map enc (appended es))"
    "\<exists>x. durable (snd ad') (af_path (fst ad)) = Some x \<and> prefix bytes x \<and> prefix x (written ad')"
proof -
  note op = openedD [OF o]
  from aof_run_ok [OF op(1,2) ne] have g: "grows ad ad'" and l: "aof_log ad' = bytes @ concat (map enc (appended es))"
    by (simp_all add: ad'_def op(4))
  show "af_path (fst ad') = af_path (fst ad)" "can_open (snd ad') = can_open (snd ad)" using g by (simp_all add: grows_def)
  show "prefix (written ad') (aof_log ad')" by (simp add: aof_log_def)
  show w: "prefix bytes (written ad')" using g unfolding grows_def op(3) by blast
  show "aof_log ad' = bytes @ concat (map enc (appended es))" by (rule l)
  have "durable (snd ad') (af_path (fst ad)) = durable (snd ad) (af_path (fst ad))
      \<or> (\<exists>x. durable (snd ad') (af_path (fst ad)) = Some x \<and> prefix (written ad) x \<and> prefix x (written ad'))"
    using g unfolding grows_def by blast
  then show "\<exists>x. durable (snd ad') (af_path (fst ad)) = Some x \<and> prefix bytes x \<and> prefix x (written ad')"
    unfolding op(3,6) using w by auto
qed

lemma crash_loads:
  assumes "opened ad (concat (map enc old))" "list_all args_ok old" "list_all args_ok (appended es)"
    "d = snd (aof_run es ad) \<or> d = power_fail (snd (aof_run es ad))"
  shows "\<exists>k t. length old \<le> k \<and> Aof_LoadAll (af_path (fst ad)) d = Some (take k (old @ appended es), t)"
proof -
  let ?p = "af_path (fst ad)" let ?cs = "old @ appended es" let ?ad = "aof_run es ad"
  have "[] \<notin> set (appended es)" using assms(3) by (auto simp: list_all_iff args_ok_def)
  note c = crash_contents [OF assms(1) this]
  have log: "aof_log ?ad = concat (map enc ?cs)" using c(5) by simp
  have "\<exists>x. content d ?p = x \<and> prefix (concat (map enc old)) x \<and> prefix x (concat (map enc ?cs)) \<and> can_open d = can_open (snd ad)"
  proof (cases "d = snd ?ad")
    case True
    then show ?thesis using c(1-4) log by simp
  next
    case False
    with assms(4) have d: "d = power_fail (snd ?ad)" by simp
    from c(6) obtain x where x: "durable (snd ?ad) ?p = Some x" "prefix (concat (map enc old)) x" "prefix x (written ?ad)" by blast
    then have "prefix x (concat (map enc ?cs))" using c(3) log prefix_order.trans by metis
    then show ?thesis using d x c(2) by (simp add: power_fail_def content_def)
  qed
  moreover have "can_open (snd ad) ?p" by (rule openedD(5) [OF assms(1)])
  moreover have "list_all args_ok ?cs" using assms(2,3) by simp
  moreover have "take (length old) ?cs = old" by simp
  ultimately show ?thesis using LoadAll_prefix [of ?cs d ?p] by (metis le_add1 length_append)
qed

text \<open>Crash recovery. A file holding commands is opened and any sequence of appends, background flushes and synchronisations runs on it, under any policy and with any splitting of the writes. Whether the process crashes or the power fails at the end, LoadAll returns a prefix of the old and the appended commands that contains all the old ones: no command is lost in the middle, altered or duplicated.\<close>

theorem aof_crash_recovery:
  assumes "opened ad (concat (map enc old))" "list_all args_ok old" "list_all args_ok (appended es)"
    "d = snd (aof_run es ad) \<or> d = power_fail (snd (aof_run es ad))"
  shows "\<exists>k t. length old \<le> k \<and> Aof_LoadAll (af_path (fst ad)) d = Some (take k (old @ appended es), t)"
  by (rule crash_loads [OF assms])

text \<open>A concrete file for the witnesses.\<close>

definition sample_disk :: disk where
  "sample_disk = \<lparr>files = [''f'' \<mapsto> []], durable = [''f'' \<mapsto> []], can_open = (\<lambda>_. True),
     fwrites = (\<lambda>_. 7), spills = (\<lambda>_. 3)\<rparr>"

definition sample_aof :: "AofSyncPolicy \<Rightarrow> aof \<times> disk" where
  "sample_aof pol = snd (Aof_Open ''f'' pol (Aof_new, sample_disk))"

lemma sample_opened: "opened (sample_aof pol) []" "af_path (fst (sample_aof pol)) = ''f''"
    "af_policy (fst (sample_aof pol)) = pol"
  using Aof_Open_opened [of sample_disk "''f''" "[]" Aof_new pol]
  by (auto simp: sample_aof_def sample_disk_def healthy_def Aof_new_def)

theorem aof_crash_recovery_witness:
  "\<exists>k t. Aof_LoadAll ''f'' (power_fail (snd (aof_run [EvAppend [''SET'', ''a'', ''1''], EvFlush, EvAppend [''DEL'', ''a'']] (sample_aof kEverySec))))
     = Some (take k [[''SET'', ''a'', ''1''], [''DEL'', ''a'']], t)"
  using aof_crash_recovery [of "sample_aof kEverySec" "[]" "[EvAppend [''SET'', ''a'', ''1''], EvFlush, EvAppend [''DEL'', ''a'']]"]
  by (auto simp: sample_opened args_ok_def bulk_ok_def)

subsection \<open>What a policy promises\<close>

text \<open>Under \<open>always\<close> and \<open>everysec\<close> nothing waits in the buffer of the \<open>FILE*\<close>, and what was written is
  durable; under \<open>always\<close> nothing waits in the object either.\<close>

definition settled :: "aof \<times> disk \<Rightarrow> bool" where
  "settled ad \<longleftrightarrow> af_stdio (fst ad) = [] \<and> durable (snd ad) (af_path (fst ad)) = Some (written ad)
     \<and> (af_policy (fst ad) = kAlways \<longrightarrow> af_buffer (fst ad) = [])"

lemma synced_settled:
  assumes "grows ad ad'" "written ad' = aof_log ad'" "durable (snd ad') (af_path (fst ad)) = Some (aof_log ad')"
  shows "settled ad'"
proof -
  have "af_stdio (fst ad') = []" "af_buffer (fst ad') = []" using assms(2) by (simp_all add: aof_log_def)
  moreover have "af_path (fst ad') = af_path (fst ad)" using assms(1) by (simp add: grows_def)
  ultimately show ?thesis using assms(2,3) by (simp add: settled_def)
qed

lemma settled_step:
  assumes op: "af_open (fst ad)" "healthy (snd ad)" and pol: "af_policy (fst ad) \<noteq> kNo"
    and s: "settled ad" and ne: "[] \<notin> set (appended [e])"
  shows "settled (aof_step e ad)"
    and "e \<noteq> EvFlush \<or> af_buffer (fst ad) = [] \<or> durable (snd (aof_step e ad)) (af_path (fst ad)) = Some (aof_log ad)"
proof -
  note sy = Aof_SyncNow_ok [OF op] and fl = Aof_FlushIfNeeded_ok [OF op]
  have flush: "settled (Aof_FlushIfNeeded ad)"
  proof (cases "af_buffer (fst ad) = []")
    case True
    then show ?thesis using s by (simp add: Aof_FlushIfNeeded_def)
  next
    case False
    with s pol have "af_policy (fst ad) = kEverySec" by (cases "af_policy (fst ad)") (auto simp: settled_def)
    note d = fl(3) [OF this False]
    have w: "prefix (written (Aof_FlushIfNeeded ad)) (aof_log ad)" using fl(2) by (metis aof_log_def prefixI)
    have "prefix (aof_log ad) (written (Aof_FlushIfNeeded ad))"
    proof -
      have "durable (snd ad) (af_path (fst ad)) \<noteq> Some (aof_log ad)"
        using s False by (simp add: settled_def aof_log_def)
      then show ?thesis using fl(1) d unfolding grows_def by auto
    qed
    with w have "written (Aof_FlushIfNeeded ad) = aof_log ad" by (rule prefix_order.antisym)
    then show ?thesis using synced_settled [OF fl(1)] d fl(2) by simp
  qed
  have append: "settled (Aof_Append args ad)" if "args \<noteq> []" for args
  proof -
    obtain a d where ad: "ad = (a, d)" by (cases ad) auto
    let ?ad1 = "(a\<lparr>af_buffer := af_buffer a @ enc args, af_total := af_total a + length (enc args)\<rparr>, d)"
    have eq: "Aof_Append args ad =
        (if af_policy a = kAlways \<or> af_threshold a \<le> length (af_buffer a @ enc args) then Aof_SyncNow ?ad1 else ?ad1)"
      using op that by (simp add: Aof_Append_def ad Let_def EncodeCommand_enc)
    have op1: "af_open (fst ?ad1)" "healthy (snd ?ad1)" using op ad by simp_all
    note sy1 = Aof_SyncNow_ok [OF op1]
    have "settled (Aof_SyncNow ?ad1)" using synced_settled [OF sy1(1)] sy1(2-4) by simp
    then show ?thesis unfolding eq using s by (auto simp: settled_def ad)
  qed
  show "settled (aof_step e ad)"
    using flush append ne synced_settled [OF sy(1)] sy(2-4) by (cases e) auto
  show "e \<noteq> EvFlush \<or> af_buffer (fst ad) = [] \<or> durable (snd (aof_step e ad)) (af_path (fst ad)) = Some (aof_log ad)"
    using fl(3) s pol by (cases "af_policy (fst ad)") (auto simp: settled_def)
qed

lemma settled_run:
  "af_open (fst ad) \<Longrightarrow> healthy (snd ad) \<Longrightarrow> af_policy (fst ad) \<noteq> kNo \<Longrightarrow> settled ad \<Longrightarrow>
     [] \<notin> set (appended es) \<Longrightarrow> settled (aof_run es ad)"
proof (induction es arbitrary: ad)
  case (Cons e es)
  have ne: "[] \<notin> set (appended [e])" "[] \<notin> set (appended es)" using Cons.prems(5) by (cases e; auto)+
  from aof_run_ok [OF Cons.prems(1,2) ne(1)] have "grows ad (aof_step e ad)" by simp
  then have "af_open (fst (aof_step e ad))" "healthy (snd (aof_step e ad))" "af_policy (fst (aof_step e ad)) \<noteq> kNo"
    using Cons.prems by (simp_all add: grows_def)
  with Cons.IH settled_step(1) [OF Cons.prems(1-4) ne(1)] ne(2) show ?case by simp
qed simp

lemma opened_settled: "opened ad bytes \<Longrightarrow> settled ad"
  by (simp add: opened_def settled_def content_def)

lemma appended_append: "appended (es @ es') = appended es @ appended es'"
  by (induction es rule: appended.induct) auto

lemma aof_run_append: "aof_run (es @ es') ad = aof_run es' (aof_run es ad)"
  by (induction es arbitrary: ad) auto

text \<open>appendfsync always. Under the policy always, after any sequence of appends, flushes and synchronisations a power failure loses nothing: LoadAll returns exactly the old commands and all appended ones, with no truncated bytes.\<close>

theorem aof_always_durable:
  assumes "opened ad (concat (map enc old))" "af_policy (fst ad) = kAlways"
    "list_all args_ok old" "list_all args_ok (appended es)"
  shows "Aof_LoadAll (af_path (fst ad)) (power_fail (snd (aof_run es ad))) = Some (old @ appended es, 0)"
proof -
  let ?p = "af_path (fst ad)" let ?cs = "old @ appended es" let ?ad = "aof_run es ad"
  note op = openedD [OF assms(1)]
  have ne: "[] \<notin> set (appended es)" using assms(4) by (auto simp: list_all_iff args_ok_def)
  note c = crash_contents [OF assms(1) ne]
  from aof_run_ok [OF op(1,2) ne] have "af_policy (fst ?ad) = kAlways" using assms(2) by (simp add: grows_def)
  moreover have "settled ?ad" using settled_run [OF op(1,2) _ opened_settled [OF assms(1)] ne] assms(2) by simp
  ultimately have "durable (snd ?ad) ?p = Some (aof_log ?ad)" using c(1) by (simp add: settled_def aof_log_def)
  then have "content (power_fail (snd ?ad)) ?p = concat (map enc ?cs)" using c(5) by (simp add: power_fail_def content_def)
  moreover have "can_open (power_fail (snd ?ad)) ?p" using op(5) c(2) by (simp add: power_fail_def)
  moreover have "list_all args_ok ?cs" using assms(3,4) by simp
  ultimately show ?thesis using LoadAll_prefix [of ?cs "power_fail (snd ?ad)" ?p] by auto
qed

theorem aof_always_durable_witness:
  "Aof_LoadAll ''f'' (power_fail (snd (aof_run [EvAppend [''SET'', ''a'', ''1''], EvAppend [''DEL'', ''a'']] (sample_aof kAlways))))
     = Some ([[''SET'', ''a'', ''1''], [''DEL'', ''a'']], 0)"
  using aof_always_durable [of "sample_aof kAlways" "[]" "[EvAppend [''SET'', ''a'', ''1''], EvAppend [''DEL'', ''a'']]"]
  by (simp add: sample_opened args_ok_def bulk_ok_def)

text \<open>appendfsync everysec. Under the policy everysec, everything appended before a background flush survives a power failure at any later time: at most the commands appended since the last flush are lost.\<close>

theorem aof_everysec_bound:
  assumes "opened ad (concat (map enc old))" "af_policy (fst ad) = kEverySec"
    "list_all args_ok old" "list_all args_ok (appended (es @ EvFlush # es'))"
  shows "\<exists>k t. length (old @ appended es) \<le> k
    \<and> Aof_LoadAll (af_path (fst ad)) (power_fail (snd (aof_run (es @ EvFlush # es') ad)))
        = Some (take k (old @ appended es @ appended es'), t)"
proof -
  let ?p = "af_path (fst ad)" let ?cs = "old @ appended es @ appended es'"
  let ?ad1 = "aof_run es ad" let ?ad2 = "Aof_FlushIfNeeded ?ad1" let ?ad3 = "aof_run es' ?ad2"
  note op = openedD [OF assms(1)]
  have run: "aof_run (es @ EvFlush # es') ad = ?ad3" by (simp add: aof_run_append)
  have app: "appended (es @ EvFlush # es') = appended es @ appended es'" by (simp add: appended_append)
  have ne: "[] \<notin> set (appended es)" "[] \<notin> set (appended es')" "[] \<notin> set (appended (es @ EvFlush # es'))"
    using assms(4) by (auto simp: app list_all_iff args_ok_def)
  note c = crash_contents [OF assms(1) ne(3), unfolded run app]
  from aof_run_ok [OF op(1,2) ne(1)] have g1: "grows ad ?ad1" and l1: "aof_log ?ad1 = concat (map enc (old @ appended es))"
    by (simp_all add: op(4))
  then have o1: "af_open (fst ?ad1)" "healthy (snd ?ad1)" "af_policy (fst ?ad1) = kEverySec" "af_path (fst ?ad1) = ?p"
    using op assms(2) by (simp_all add: grows_def)
  note fl = Aof_FlushIfNeeded_ok [OF o1(1,2)]
  have s1: "settled ?ad1" using settled_run [OF op(1,2) _ opened_settled [OF assms(1)] ne(1)] assms(2) by simp
  have d2: "durable (snd ?ad2) ?p = Some (aof_log ?ad1)"
  proof (cases "af_buffer (fst ?ad1) = []")
    case True
    then show ?thesis using s1 o1 by (simp add: Aof_FlushIfNeeded_def settled_def aof_log_def)
  next
    case False
    then show ?thesis using fl(3) o1 by simp
  qed
  have o2: "af_open (fst ?ad2)" "healthy (snd ?ad2)" "af_path (fst ?ad2) = ?p" using fl(1) o1 by (simp_all add: grows_def)
  have s2: "settled ?ad2" using settled_step(1) [OF o1(1,2) _ s1, of EvFlush] o1(3) by simp
  then have w2: "written ?ad2 = aof_log ?ad1" using d2 o2 by (simp add: settled_def)
  from aof_run_ok [OF o2(1,2) ne(2)] have "grows ?ad2 ?ad3" by simp
  then have d: "durable (snd ?ad3) ?p = durable (snd ?ad2) ?p
      \<or> (\<exists>x. durable (snd ?ad3) ?p = Some x \<and> prefix (written ?ad2) x \<and> prefix x (written ?ad3))"
    unfolding grows_def o2 by blast
  from c(6) obtain y where "durable (snd ?ad3) ?p = Some y" "prefix y (written ?ad3)" by blast
  with d d2 w2 l1 have "\<exists>x. durable (snd ?ad3) ?p = Some x \<and> prefix (concat (map enc (old @ appended es))) x \<and> prefix x (written ?ad3)"
    by auto
  then obtain x where x: "durable (snd ?ad3) ?p = Some x" "prefix (concat (map enc (old @ appended es))) x" "prefix x (written ?ad3)"
    by blast
  have cx: "content (power_fail (snd ?ad3)) ?p = x" using x(1) by (simp add: power_fail_def content_def)
  have "prefix x (concat (map enc ?cs))" using x(3) c(3,5) prefix_order.trans by fastforce
  moreover have "can_open (power_fail (snd ?ad3)) ?p" using op(5) c(2) by (simp add: power_fail_def)
  moreover have "list_all args_ok ?cs" using assms(3,4) by (simp add: app)
  ultimately obtain k t where k: "Aof_LoadAll ?p (power_fail (snd ?ad3)) = Some (take k ?cs, t)"
    "\<forall>j\<le>length ?cs. prefix (concat (map enc (take j ?cs))) x \<longrightarrow> j \<le> k"
    using LoadAll_prefix [of ?cs "power_fail (snd ?ad3)" ?p] unfolding cx by blast
  have "take (length (old @ appended es)) ?cs = old @ appended es" by simp
  then have "length (old @ appended es) \<le> k" using k(2) x(2) by (metis le_add1 length_append append_assoc)
  with k(1) run show ?thesis by auto
qed

theorem aof_everysec_bound_witness:
  "\<exists>k t. 1 \<le> k \<and> Aof_LoadAll ''f'' (power_fail (snd (aof_run [EvAppend [''SET'', ''a'', ''1''], EvFlush, EvAppend [''DEL'', ''a'']] (sample_aof kEverySec))))
     = Some (take k [[''SET'', ''a'', ''1''], [''DEL'', ''a'']], t)"
  using aof_everysec_bound [of "sample_aof kEverySec" "[]" "[EvAppend [''SET'', ''a'', ''1'']]" "[EvAppend [''DEL'', ''a'']]"]
  by (simp add: sample_opened args_ok_def bulk_ok_def)

lemma Aof_Close_ok:
  assumes "af_open (fst ad)" "n = fwrites (snd ad) 0"
  shows "durable (snd (Aof_Close ad)) (af_path (fst ad)) = Some (written ad @ af_stdio (fst ad) @ take n (af_buffer (fst ad)))
    \<and> af_buffer (fst (Aof_Close ad)) = [] \<and> \<not> af_open (fst (Aof_Close ad))"
proof -
  have fin: "durable (snd (fclose (FsyncFile (fflush (a, d))))) (af_path a) = Some (content d (af_path a) @ af_stdio a)
      \<and> af_buffer (fst (fclose (FsyncFile (fflush (a, d))))) = af_buffer a \<and> \<not> af_open (fst (fclose (FsyncFile (fflush (a, d)))))"
    for a d by (simp add: fclose_def fflush_def FsyncFile_def content_def)
  show ?thesis
  proof (cases "af_buffer (fst ad) = []")
    case True
    with assms fin [of "fst ad" "snd ad"] show ?thesis by (simp add: Aof_Close_def)
  next
    case False
    obtain m a1 d1 where w: "fwrite_once (af_buffer (fst ad)) ad = (m, a1, d1)" by (metis prod.exhaust)
    note f = fwrite_once_ok [OF w]
    have "take m (af_buffer (fst ad)) = take n (af_buffer (fst ad))"
      using w assms(2) by (auto simp: fwrite_once_def Let_def min_def split: prod.splits)
    moreover have "af_path a1 = af_path (fst ad)" using f(2) by (simp add: grows_def)
    ultimately have wr: "content d1 (af_path (fst ad)) @ af_stdio a1 = written ad @ af_stdio (fst ad) @ take n (af_buffer (fst ad))"
      "af_path a1 = af_path (fst ad)" using f(4) by simp_all
    define a2 where "a2 = (if m = length (af_buffer a1) then a1\<lparr>af_file_size := af_file_size a1 + int m\<rparr> else a1)\<lparr>af_buffer := []\<rparr>"
    have "Aof_Close ad = fclose (FsyncFile (fflush (a2, d1)))"
      using False assms(1) w by (simp add: Aof_Close_def a2_def)
    moreover have "af_path a2 = af_path a1" "af_stdio a2 = af_stdio a1" "af_buffer a2 = []" by (simp_all add: a2_def)
    ultimately show ?thesis using fin [of a2 d1] wr by simp
  qed
qed

text \<open>Close. Closing writes the buffer with a single fwrite: when that call accepts everything, the file and the durable bytes are the whole log; when it is short (the loop of WriteToFile would go on), the rest of the buffer is dropped without an error to the caller.\<close>

theorem aof_close_short_write:
  assumes "af_open (fst ad)" "n = fwrites (snd ad) 0"
  shows "durable (snd (Aof_Close ad)) (af_path (fst ad)) = Some (written ad @ af_stdio (fst ad) @ take n (af_buffer (fst ad)))
    \<and> af_buffer (fst (Aof_Close ad)) = [] \<and> \<not> af_open (fst (Aof_Close ad))"
  by (rule Aof_Close_ok [OF assms])

theorem aof_close_short_write_witness:
  "durable (snd (Aof_Close (Aof_Append [''DEL'', ''a''] (sample_aof kNo)))) ''f'' = Some (take 7 (enc [''DEL'', ''a'']))"
proof -
  let ?ad = "Aof_Append [''DEL'', ''a''] (sample_aof kNo)"
  have s: "sample_aof kNo = (Aof_new\<lparr>af_open := True, af_path := ''f'', af_policy := kNo\<rparr>, sample_disk)"
    by (simp add: sample_aof_def Aof_Open_def Aof_new_def sample_disk_def content_def fun_upd_idem)
  have "length (enc [''DEL'', ''a'']) < 4194304" by (simp add: enc_def Resp_Facts.bulk_def dec_of_nat.simps)
  then have ad: "?ad = (fst (sample_aof kNo)\<lparr>af_buffer := enc [''DEL'', ''a''], af_total := length (enc [''DEL'', ''a''])\<rparr>, sample_disk)"
    by (simp add: s Aof_Append_def Aof_new_def Let_def EncodeCommand_enc)
  have f: "af_open (fst ?ad)" "7 = fwrites (snd ?ad) 0" "af_path (fst ?ad) = ''f''" "af_buffer (fst ?ad) = enc [''DEL'', ''a'']"
    "written ?ad = []" "af_stdio (fst ?ad) = []"
    unfolding ad unfolding s by (simp_all add: Aof_new_def sample_disk_def content_def)
  show ?thesis using aof_close_short_write [OF f(1,2)] f(3-6) by simp
qed

end
