(* ===== verification/Command.thy ===== *)
theory Command
  imports Store_Refine Aof Glob "HOL-Library.Signed_Division"
begin

section \<open>The command layer (src/command.cpp, include/rl/command.h)\<close>

text \<open>
  One definition per handler, over the whole state a handler can reach: the store, the append-only
  file and the disk under it, the readings of the monotonic clock (each call of \<open>NowMs()\<close> consumes
  one, in the order of the code), the random numbers of the skip lists, the counters, and what
  \<open>INFO\<close> asks the platform for.  A handler receives the arguments and returns the reply it wrote
  and the new state; \<open>None\<close> is a skip-list access outside the heap or a loop that never ends, which
  the theorems exclude.  \<open>ctx.aof == nullptr\<close> behaves as a closed file and is modelled as one.
\<close>

text \<open>The counters of \<open>Stats\<close> (include/rl/stats.h), as 64-bit values.\<close>

record stats =
  st_commands :: u64
  st_hits :: u64
  st_misses :: u64
  st_expired :: u64
  st_total_conns :: u64
  st_current_conns :: int
  st_rejected :: u64
  st_bytes_in :: u64
  st_bytes_out :: u64
  st_proto_errors :: u64
  st_used_memory :: int
  st_start_ms :: int

text \<open>The fields of \<open>ServerContext\<close> that \<open>INFO\<close> prints, and the platform: process id, and the
  memory estimate of the store's containers.\<close>

record server_info =
  si_version :: string
  si_shard_count :: nat
  si_loop_count :: nat
  si_pid :: int
  si_memory :: "store \<Rightarrow> nat"

record world =
  w_store :: store
  w_aof :: aof
  w_disk :: disk
  w_clock :: "nat \<Rightarrow> int"
  w_rng :: rng
  w_stats :: stats
  w_info :: server_info

type_synonym handler = "string list \<Rightarrow> world \<Rightarrow> (string \<times> world) option"

subsection \<open>Clock, store and file\<close>

definition NowMs :: "world \<Rightarrow> int \<times> world" where
  "NowMs w = (w_clock w 0, w\<lparr>w_clock := (\<lambda>i. w_clock w (Suc i))\<rparr>)"

text \<open>A store operation that reads the clock at its start.\<close>

definition timed :: "(int \<Rightarrow> store \<Rightarrow> 'r \<times> store) \<Rightarrow> world \<Rightarrow> 'r \<times> world" where
  "timed f w = (let (now, w) = NowMs w; (r, st) = f now (w_store w) in (r, w\<lparr>w_store := st\<rparr>))"

text \<open>\<open>if (ctx.aof != nullptr && ctx.aof->is_open()) ctx.aof->Append(args);\<close>\<close>

definition Persist :: "string list \<Rightarrow> world \<Rightarrow> world" where
  "Persist args w =
     (if af_open (w_aof w)
      then let (a, d) = Aof_Append args (w_aof w, w_disk w) in w\<lparr>w_aof := a, w_disk := d\<rparr>
      else w)"

definition set_zset :: "nat \<Rightarrow> zset \<Rightarrow> world \<Rightarrow> world" where
  "set_zset r z w = w\<lparr>w_store := (w_store w)\<lparr>zheap := (zheap (w_store w))(r \<mapsto> z)\<rparr>\<rparr>"

subsection \<open>Replies\<close>

abbreviation err_not_int :: string where
  "err_not_int \<equiv> ''ERR value is not an integer or out of range''"

abbreviation err_syntax :: string where
  "err_syntax \<equiv> ''ERR syntax error''"

definition ReplyError :: "string \<Rightarrow> string" where
  "ReplyError msg = EncodeError msg []"

definition ReplyWrongArgs :: "string \<Rightarrow> string" where
  "ReplyWrongArgs cmd = ReplyError (''ERR wrong number of arguments for '' @ [CHR 0x27] @ cmd @ [CHR 0x27] @ '' command'')"

definition ReplyNotInt :: string where
  "ReplyNotInt = ReplyError err_not_int"

definition ReplyWrongType :: string where
  "ReplyWrongType = ReplyError ''WRONGTYPE Operation against a key holding the wrong kind of value''"

definition ParseExpireArg :: "string \<Rightarrow> int \<Rightarrow> int option" where
  "ParseExpireArg arg multiplier =
     (case ParseInt64 arg of
        None \<Rightarrow> None
      | Some v \<Rightarrow> if v > INT64_MAX sdiv multiplier \<or> v < INT64_MIN sdiv multiplier then None
                  else Some (v * multiplier))"

subsection \<open>PING, ECHO\<close>

definition CmdPing :: handler where
  "CmdPing args w =
     Some (if length args > 2 then (ReplyWrongArgs ''ping'', w)
           else if length args = 1 then (EncodeSimpleString ''PONG'' [], w)
           else (EncodeBulkString (args ! 1) [], w))"

definition CmdEcho :: handler where
  "CmdEcho args w =
     Some (if length args \<noteq> 2 then (ReplyWrongArgs ''echo'', w)
           else (EncodeBulkString (args ! 1) [], w))"

subsection \<open>SET\<close>

record set_parse =
  sp_opts :: SetOptions
  sp_relative :: bool
  sp_value :: int

text \<open>The loop over the options: an error message, or the options collected.  \<open>v * 1000\<close> of
  \<open>EXAT\<close> is not checked below, and wraps.\<close>

fun set_options :: "string list \<Rightarrow> set_parse \<Rightarrow> string + set_parse" where
  "set_options [] p = Inr p"
| "set_options (a # rest) p =
     (let opt = ToLowerAscii a; os = sp_opts p in
      if opt = ''nx'' then
        if so_xx os then Inl err_syntax else set_options rest (p\<lparr>sp_opts := os\<lparr>so_nx := True\<rparr>\<rparr>)
      else if opt = ''xx'' then
        if so_nx os then Inl err_syntax else set_options rest (p\<lparr>sp_opts := os\<lparr>so_xx := True\<rparr>\<rparr>)
      else if opt = ''keepttl'' then set_options rest (p\<lparr>sp_opts := os\<lparr>so_keep_ttl := True\<rparr>\<rparr>)
      else if opt = ''ex'' \<or> opt = ''px'' \<or> opt = ''exat'' \<or> opt = ''pxat'' then
        (case rest of
           [] \<Rightarrow> Inl err_syntax
         | raw # rest' \<Rightarrow>
             if so_has_expire os then Inl err_syntax
             else
               (case ParseInt64 raw of
                  None \<Rightarrow> Inl err_not_int
                | Some v \<Rightarrow>
                    let p' = p\<lparr>sp_opts := os\<lparr>so_has_expire := True\<rparr>\<rparr> in
                    if (opt = ''ex'' \<or> opt = ''px'') \<and> v \<le> 0
                    then Inl (''ERR invalid expire time in '' @ [CHR 0x27] @ ''set'' @ [CHR 0x27] @ '' command'')
                    else if opt = ''ex'' then
                      if v > INT64_MAX sdiv 1000 then Inl err_not_int
                      else set_options rest' (p'\<lparr>sp_value := v * 1000, sp_relative := True\<rparr>)
                    else if opt = ''px'' then
                      set_options rest' (p'\<lparr>sp_value := v, sp_relative := True\<rparr>)
                    else if opt = ''exat'' then
                      if v > INT64_MAX sdiv 1000 then Inl err_not_int
                      else set_options rest' (p'\<lparr>sp_value := i64 (v * 1000), sp_relative := False\<rparr>)
                    else set_options rest' (p'\<lparr>sp_value := v, sp_relative := False\<rparr>)))
      else Inl err_syntax)"

definition set_parse0 :: set_parse where
  "set_parse0 = \<lparr>sp_opts = default_opts, sp_relative = False, sp_value = 0\<rparr>"

text \<open>The absolute time: \<open>NowMs() + expire_value\<close> wraps, and a time that is past becomes one
  millisecond from now.\<close>

definition set_deadline :: "set_parse \<Rightarrow> world \<Rightarrow> SetOptions \<times> world" where
  "set_deadline p w =
     (let os = sp_opts p in
      if \<not> so_has_expire os then (os, w)
      else
        let (t, w) = (if sp_relative p then let (now, w) = NowMs w in (i64 (now + sp_value p), w)
                       else (sp_value p, w));
            (now, w) = NowMs w;
            (t, w) = (if t \<le> now then let (now, w) = NowMs w in (i64 (now + 1), w) else (t, w))
        in (os\<lparr>so_expire_at_ms := t\<rparr>, w))"

definition set_aof_args :: "string \<Rightarrow> string \<Rightarrow> SetOptions \<Rightarrow> string list" where
  "set_aof_args key value os =
     [''SET'', key, value]
       @ (if so_expire_at_ms os \<noteq> 0 then [''PXAT'', dec_of_int (so_expire_at_ms os)] else [])
       @ (if so_keep_ttl os then [''KEEPTTL''] else [])"

definition CmdSet :: handler where
  "CmdSet args w =
     Some (if length args < 3 then (ReplyWrongArgs ''set'', w)
           else
             let key = args ! 1; value = args ! 2 in
             case set_options (drop 3 args) set_parse0 of
               Inl msg \<Rightarrow> (ReplyError msg, w)
             | Inr p \<Rightarrow>
                 let (opts, w) = set_deadline p w;
                     (r, w) = timed (\<lambda>now. Store_Set now key (VString value) opts) w
                 in if r = kNotSetNx \<or> r = kNotSetXx then (EncodeNullBulk [], w)
                    else (EncodeSimpleString ''OK'' [], Persist (set_aof_args key value opts) w))"

subsection \<open>GET, DEL, EXISTS\<close>

definition CmdGet :: handler where
  "CmdGet args w =
     Some (if length args \<noteq> 2 then (ReplyWrongArgs ''get'', w)
           else
             let (v, w) = timed (\<lambda>now. Store_Get now (args ! 1)) w in
             case v of
               None \<Rightarrow> (EncodeNullBulk [], w\<lparr>w_stats := (w_stats w)\<lparr>st_misses := st_misses (w_stats w) + 1\<rparr>\<rparr>)
             | Some v \<Rightarrow> (EncodeBulkString (AsString v) [],
                          w\<lparr>w_stats := (w_stats w)\<lparr>st_hits := st_hits (w_stats w) + 1\<rparr>\<rparr>))"

definition CmdDel :: handler where
  "CmdDel args w =
     Some (if length args < 2 then (ReplyWrongArgs ''del'', w)
           else
             let (n, st) = Store_DelMulti (drop 1 args) (w_store w);
                 w = w\<lparr>w_store := st\<rparr>
             in (EncodeInteger n [], if n > 0 then Persist args w else w))"

fun count_exists :: "string list \<Rightarrow> world \<Rightarrow> int \<times> world" where
  "count_exists [] w = (0, w)"
| "count_exists (k # ks) w =
     (let (b, w) = timed (\<lambda>now. Store_Exists now k) w; (n, w) = count_exists ks w
      in (if b then n + 1 else n, w))"

definition CmdExists :: handler where
  "CmdExists args w =
     Some (if length args < 2 then (ReplyWrongArgs ''exists'', w)
           else let (n, w) = count_exists (drop 1 args) w in (EncodeInteger n [], w))"

subsection \<open>INCR, DECR\<close>

definition CmdIncrBy :: "bool \<Rightarrow> handler" where
  "CmdIncrBy is_decr args w =
     Some (if length args \<noteq> 2 \<and> length args \<noteq> 3
           then (ReplyWrongArgs (if is_decr then ''decr'' else ''incr''), w)
           else
             case (if length args = 3 then ParseInt64 (args ! 2) else Some 1) of
               None \<Rightarrow> (ReplyNotInt, w)
             | Some delta \<Rightarrow>
                 if is_decr \<and> delta = INT64_MIN then (ReplyNotInt, w)
                 else
                   let delta = (if is_decr then - delta else delta);
                       (v, w) = timed (\<lambda>now. Store_IncrBy now (args ! 1) delta) w
                   in case v of
                        None \<Rightarrow> (ReplyError err_not_int, w)
                      | Some value \<Rightarrow>
                          (EncodeInteger value [], Persist [''INCRBY'', args ! 1, dec_of_int delta] w))"

definition CmdIncr :: handler where "CmdIncr = CmdIncrBy False"
definition CmdDecr :: handler where "CmdDecr = CmdIncrBy True"
definition CmdDecrBy :: handler where "CmdDecrBy = CmdIncrBy True"

subsection \<open>EXPIRE, TTL\<close>

definition CmdExpireGeneric :: "int \<Rightarrow> string \<Rightarrow> handler" where
  "CmdExpireGeneric multiplier name args w =
     Some (if length args \<noteq> 3 then (ReplyWrongArgs name, w)
           else
             let key = args ! 1 in
             case ParseExpireArg (args ! 2) multiplier of
               None \<Rightarrow> (ReplyNotInt, w)
             | Some ttl_value \<Rightarrow>
                 let (now, w) = NowMs w;
                     at_ms = i64 (now + ttl_value);
                     ((changed, removed), w) = timed (\<lambda>now. Store_ExpireAt now key at_ms) w
                 in if removed \<and> \<not> changed then (EncodeInteger 0 [], w)
                    else if removed \<and> changed then (EncodeInteger 1 [], Persist [''DEL'', key] w)
                    else (EncodeInteger 1 [], Persist [''PEXPIREAT'', key, dec_of_int at_ms] w))"

definition CmdExpire :: handler where "CmdExpire = CmdExpireGeneric 1000 ''expire''"
definition CmdPExpire :: handler where "CmdPExpire = CmdExpireGeneric 1 ''pexpire''"

definition CmdPExpireAt :: handler where
  "CmdPExpireAt args w =
     Some (if length args \<noteq> 3 then (ReplyWrongArgs ''pexpireat'', w)
           else
             case ParseInt64 (args ! 2) of
               None \<Rightarrow> (ReplyNotInt, w)
             | Some at_ms \<Rightarrow>
                 let ((changed, removed), w) = timed (\<lambda>now. Store_ExpireAt now (args ! 1) at_ms) w
                 in if \<not> changed \<and> removed then (EncodeInteger 0 [], w)
                    else (EncodeInteger 1 [], Persist args w))"

definition CmdTtlGeneric :: "int \<Rightarrow> handler" where
  "CmdTtlGeneric divisor args w =
     Some (if length args \<noteq> 2 then (ReplyWrongArgs ''ttl'', w)
           else
             let (ms, w) = timed (\<lambda>now. Store_TtlMs now (args ! 1)) w in
             if ms = -2 \<or> ms = -1 then (EncodeInteger ms [], w)
             else (EncodeInteger (i64 (ms + divisor - 1) sdiv divisor) [], w))"

definition CmdTtl :: handler where "CmdTtl = CmdTtlGeneric 1000"
definition CmdPTtl :: handler where "CmdPTtl = CmdTtlGeneric 1"

subsection \<open>TYPE, KEYS, DBSIZE, FLUSHALL\<close>

definition CmdType :: handler where
  "CmdType args w =
     Some (if length args \<noteq> 2 then (ReplyWrongArgs ''type'', w)
           else let (t, w) = timed (\<lambda>now. Store_TypeOf now (args ! 1)) w
                in (EncodeSimpleString (ValueTypeName t) [], w))"

definition EncodeBulks :: "string list \<Rightarrow> string \<Rightarrow> string" where
  "EncodeBulks ks out = foldl (\<lambda>acc k. EncodeBulkString k acc) out ks"

fun glob_filter :: "string \<Rightarrow> (string \<times> rvalue \<times> int) list \<Rightarrow> string list option" where
  "glob_filter pat [] = Some []"
| "glob_filter pat ((k, v, x) # rows) =
     do { b \<leftarrow> GlobMatch pat k; ks \<leftarrow> glob_filter pat rows; Some (if b then k # ks else ks) }"

definition CmdKeys :: handler where
  "CmdKeys args w =
     (if length args \<noteq> 2 then Some (ReplyWrongArgs ''keys'', w)
      else
        let (rows, w) = timed (\<lambda>now st. (Store_ForEach now st, st)) w in
        do { matched \<leftarrow> glob_filter (args ! 1) rows;
             Some (EncodeBulks matched (EncodeArrayHeader (length matched) []), w) })"

definition CmdDbSize :: handler where
  "CmdDbSize args w =
     Some (if length args \<noteq> 1 then (ReplyWrongArgs ''dbsize'', w)
           else (EncodeInteger (int (Store_Size (w_store w))) [], w))"

text \<open>\<open>fopen(path, "wb")\<close>, one \<open>fwrite\<close>, \<open>fclose\<close>: the file holds what \<open>fwrite\<close> accepted, and
  nothing of it is synchronised.\<close>

definition truncate_rewrite :: "string \<Rightarrow> string \<Rightarrow> disk \<Rightarrow> disk" where
  "truncate_rewrite path data d =
     (if can_open d path
      then d\<lparr>files := (files d)(path \<mapsto> take (min (fwrites d 0) (length data)) data),
             fwrites := (\<lambda>i. fwrites d (Suc i)), spills := (\<lambda>i. spills d (Suc i))\<rparr>
      else d)"

definition CmdFlushAll :: handler where
  "CmdFlushAll args w =
     Some (if length args \<noteq> 1 then (ReplyWrongArgs ''flushall'', w)
           else
             let w = w\<lparr>w_store := Store_FlushAll (w_store w)\<rparr> in
             (EncodeSimpleString ''OK'' [],
              if af_open (w_aof w)
              then let path = af_path (w_aof w);
                       policy = af_policy (w_aof w);
                       (a, d) = Aof_Close (w_aof w, w_disk w);
                       d = truncate_rewrite path (EncodeCommand [''FLUSHALL''] []) d;
                       (ok, a, d) = Aof_Open path policy (a, d)
                   in w\<lparr>w_aof := a, w_disk := d\<rparr>
              else w))"

subsection \<open>INFO\<close>

text \<open>\<open>%.2f\<close> of a non-negative number: two decimals, the tie to even.\<close>

definition format_2f :: "rat \<Rightarrow> string" where
  "format_2f x =
     (let n = nat (round_even (x * 100)) in
      dec_of_nat (n div 100) @ ''.'' @ [digit_char (n mod 100 div 10), digit_char (n mod 10)])"

definition hit_rate_string :: "stats \<Rightarrow> string" where
  "hit_rate_string s =
     (let h = st_hits s; m = st_misses s in
      if h + m = 0 then ''0.00''
      else let dbl = (\<lambda>x. case round_double x of Fin r \<Rightarrow> r | _ \<Rightarrow> 0);
               num = dbl (100 * dbl (of_nat (unat h)))
           in format_2f (dbl (num / dbl (of_nat (unat (h + m))))))"

text \<open>\<open>uptime_seconds\<close> reads the clock when a start time was recorded.\<close>

definition uptime_seconds :: "world \<Rightarrow> int \<times> world" where
  "uptime_seconds w =
     (let start = st_start_ms (w_stats w) in
      if start = 0 then (0, w) else let (now, w) = NowMs w in (i64 (now - start) sdiv 1000, w))"

text \<open>\<open>snprintf(buf, 1024, ...)\<close> keeps at most 1023 bytes of a piece.  A 64-bit counter is printed
  as \<open>long long\<close>.\<close>

abbreviation (input) piece :: "string \<Rightarrow> string" where "piece s \<equiv> take 1023 s"
abbreviation (input) lld :: "u64 \<Rightarrow> string" where "lld n \<equiv> dec_of_int (sint n)"

definition info_text :: "int \<Rightarrow> world \<Rightarrow> string" where
  "info_text uptime w =
     (let s = w_stats w; i = w_info w; a = w_aof w; mem = si_memory i (w_store w) in
      ''# Server'' @ kCRLF
      @ piece (''redis_lite_version:'' @ si_version i @ kCRLF)
      @ piece (''uptime_in_seconds:'' @ dec_of_int uptime @ kCRLF)
      @ piece (''process_id:'' @ dec_of_int (si_pid i) @ kCRLF)
      @ kCRLF @ ''# Clients'' @ kCRLF
      @ piece (''connected_clients:'' @ dec_of_int (st_current_conns s) @ kCRLF)
      @ piece (''total_connections_received:'' @ lld (st_total_conns s) @ kCRLF)
      @ piece (''rejected_connections:'' @ lld (st_rejected s) @ kCRLF)
      @ kCRLF @ ''# Memory'' @ kCRLF
      @ piece (''used_memory:'' @ dec_of_nat mem @ kCRLF
               @ ''used_memory_human:'' @ format_2f (of_nat mem / 1024) @ ''K'' @ kCRLF)
      @ kCRLF @ ''# Stats'' @ kCRLF
      @ piece (''total_commands_processed:'' @ lld (st_commands s) @ kCRLF)
      @ piece (''expired_keys:'' @ lld (st_expired s) @ kCRLF)
      @ piece (''keyspace_hits:'' @ hit_rate_string s @ ''%'' @ kCRLF)
      @ piece (''total_net_input_bytes:'' @ lld (st_bytes_in s) @ kCRLF)
      @ piece (''total_net_output_bytes:'' @ lld (st_bytes_out s) @ kCRLF)
      @ piece (''protocol_errors:'' @ lld (st_proto_errors s) @ kCRLF)
      @ kCRLF @ ''# Persistence'' @ kCRLF
      @ piece (''aof_enabled:'' @ (if af_open a then ''1'' else ''0'') @ kCRLF)
      @ (if af_open a
         then piece (''aof_path:'' @ c_string (af_path a) @ kCRLF
                     @ ''aof_current_size:'' @ dec_of_int (af_file_size a) @ kCRLF)
            @ piece (''aof_fsync_policy:'' @ AofPolicyName (af_policy a) @ kCRLF
                     @ ''aof_pending_bytes:'' @ dec_of_nat (length (af_buffer a)) @ kCRLF)
         else [])
      @ kCRLF @ ''# Keyspace'' @ kCRLF
      @ piece (''db0:keys='' @ dec_of_nat (Store_Size (w_store w))
               @ '',expires='' @ dec_of_nat (Store_ExpiresCount (w_store w))
               @ '',shards='' @ dec_of_nat (si_shard_count i) @ kCRLF)
      @ kCRLF @ ''# Architecture'' @ kCRLF
      @ piece (''reactor_loops:'' @ dec_of_nat (si_loop_count i) @ kCRLF
               @ ''shard_count:'' @ dec_of_nat (si_shard_count i) @ kCRLF)
      @ piece (''edge_trigger:1'' @ kCRLF))"

definition CmdInfo :: handler where
  "CmdInfo args w =
     Some (let (uptime, w) = uptime_seconds w in
           (EncodeBulkString (info_text uptime w) [],
            w\<lparr>w_stats := (w_stats w)\<lparr>st_used_memory := int (si_memory (w_info w) (w_store w))\<rparr>\<rparr>))"

subsection \<open>Ordered sets\<close>

text \<open>\<open>AcquireZSet\<close>: the reply already written, or the reference of the set.\<close>

definition AcquireZSet :: "string \<Rightarrow> bool \<Rightarrow> world \<Rightarrow> (string + nat) \<times> world" where
  "AcquireZSet key create w =
     (let (g, w) = timed (\<lambda>now. if create then Store_GetOrCreateZSet now key else Store_GetZSet now key) w
      in case g of
           ZRef r \<Rightarrow> (Inr r, w)
         | ZWrongType \<Rightarrow> (Inl ReplyWrongType, w)
         | ZMissing \<Rightarrow> (Inl (EncodeNullBulk []), w))"

text \<open>What a handler does with the set it acquired; a dangling reference is \<open>None\<close>.\<close>

definition with_zset ::
    "string \<Rightarrow> bool \<Rightarrow> (nat \<Rightarrow> zset \<Rightarrow> world \<Rightarrow> (string \<times> world) option) \<Rightarrow> world \<Rightarrow> (string \<times> world) option" where
  "with_zset key create f w =
     (case AcquireZSet key create w of
        (Inl reply, w) \<Rightarrow> Some (reply, w)
      | (Inr r, w) \<Rightarrow> do { z \<leftarrow> zheap (w_store w) r; f r z w })"

fun parse_pairs :: "string list \<Rightarrow> (score \<times> string) list option" where
  "parse_pairs (s # m # rest) =
     (case ParseZScore s of
        None \<Rightarrow> None
      | Some r \<Rightarrow> map_option (\<lambda>ps. (Fin r, m) # ps) (parse_pairs rest))"
| "parse_pairs _ = Some []"

fun add_pairs :: "(score \<times> string) list \<Rightarrow> zset \<Rightarrow> rng \<Rightarrow> (int \<times> zset \<times> rng) option" where
  "add_pairs [] z g = Some (0, z, g)"
| "add_pairs ((s, m) # ps) z g =
     do { (new, z, g) \<leftarrow> ZSet_Add m s z g;
          (n, z, g) \<leftarrow> add_pairs ps z g;
          Some (if new then n + 1 else n, z, g) }"

definition CmdZAdd :: handler where
  "CmdZAdd args w =
     (if length args < 4 \<or> length args mod 2 \<noteq> 0 then Some (ReplyWrongArgs ''zadd'', w)
      else with_zset (args ! 1) True
        (\<lambda>r z w. case parse_pairs (drop 2 args) of
             None \<Rightarrow> Some (ReplyError ''ERR value is not a valid float'', w)
           | Some pairs \<Rightarrow>
               do { (added, z, g) \<leftarrow> add_pairs pairs z (w_rng w);
                    let w = (set_zset r z w)\<lparr>w_rng := g\<rparr>;
                    Some (EncodeInteger added [],
                          foldl (\<lambda>w (s, m). Persist [''ZADD'', args ! 1, ZScoreToString s, m] w) w pairs) }) w)"

definition CmdZScore :: handler where
  "CmdZScore args w =
     (if length args \<noteq> 3 then Some (ReplyWrongArgs ''zscore'', w)
      else with_zset (args ! 1) False
        (\<lambda>r z w. Some (case ZSet_GetScore (args ! 2) z of
             None \<Rightarrow> (EncodeNullBulk [], w)
           | Some s \<Rightarrow> (EncodeBulkString (ZScoreToString s) [], w))) w)"

text \<open>\<open>ZCARD\<close> and \<open>ZCOUNT\<close> answer 0 for a missing key.\<close>

definition read_zset ::
    "string \<Rightarrow> (zset \<Rightarrow> string option) \<Rightarrow> world \<Rightarrow> (string \<times> world) option" where
  "read_zset key f w =
     (case timed (\<lambda>now. Store_GetZSet now key) w of
        (ZWrongType, w) \<Rightarrow> Some (ReplyWrongType, w)
      | (ZMissing, w) \<Rightarrow> Some (EncodeInteger 0 [], w)
      | (ZRef r, w) \<Rightarrow> do { z \<leftarrow> zheap (w_store w) r; out \<leftarrow> f z; Some (out, w) })"

definition CmdZCard :: handler where
  "CmdZCard args w =
     (if length args \<noteq> 2 then Some (ReplyWrongArgs ''zcard'', w)
      else read_zset (args ! 1) (\<lambda>z. Some (EncodeInteger (int (ZSet_Size z)) [])) w)"

definition CmdZIncrBy :: handler where
  "CmdZIncrBy args w =
     (if length args \<noteq> 4 then Some (ReplyWrongArgs ''zincrby'', w)
      else case ParseZScore (args ! 2) of
        None \<Rightarrow> Some (ReplyError ''ERR value is not a valid float'', w)
      | Some delta \<Rightarrow>
          with_zset (args ! 1) True
            (\<lambda>r z w. do { (now, was_present, z, g) \<leftarrow> ZSet_IncrBy (args ! 3) delta z (w_rng w);
                          let w = (set_zset r z w)\<lparr>w_rng := g\<rparr>;
                          Some (EncodeBulkString (ZScoreToString now) [], Persist args w) }) w)"

definition CmdZRankGeneric :: "bool \<Rightarrow> handler" where
  "CmdZRankGeneric rv args w =
     (if length args \<noteq> 3 then Some (ReplyWrongArgs (if rv then ''zrevrank'' else ''zrank''), w)
      else with_zset (args ! 1) False
        (\<lambda>r z w. do { rank \<leftarrow> ZSet_Rank (args ! 2) z;
             Some (case rank of
                None \<Rightarrow> (EncodeNullBulk [], w)
              | Some k \<Rightarrow> (EncodeInteger (if rv then sint (of_nat (ZSet_Size z) - 1 - k) else sint k) [], w)) }) w)"

definition CmdZRank :: handler where "CmdZRank = CmdZRankGeneric False"
definition CmdZRevRank :: handler where "CmdZRevRank = CmdZRankGeneric True"

definition NormalizeRange :: "int \<Rightarrow> int \<Rightarrow> nat \<Rightarrow> (u64 \<times> u64) option" where
  "NormalizeRange start stop sz =
     (if sz = 0 then None
      else let n = int sz;
               start = (if start < 0 then start + n else start);
               stop = (if stop < 0 then stop + n else stop);
               start = (if start < 0 then 0 else start);
               stop = (if stop \<ge> n then n - 1 else stop)
           in if start > stop \<or> start \<ge> n then None else Some (of_int start, of_int stop))"

text \<open>The array of a range: the members, with their scores when asked for.\<close>

definition encode_nodes :: "bool \<Rightarrow> snode list \<Rightarrow> string" where
  "encode_nodes with_scores nds =
     EncodeBulks (concat (map (\<lambda>n. nd_member n # (if with_scores then [ZScoreToString (nd_score n)] else [])) nds))
       (EncodeArrayHeader (if with_scores then length nds * 2 else length nds) [])"

text \<open>The optional fifth argument: \<open>None\<close> is the syntax error.\<close>

definition with_scores_arg :: "string list \<Rightarrow> bool option" where
  "with_scores_arg args =
     (if length args = 5 then if ToLowerAscii (args ! 4) \<noteq> ''withscores'' then None else Some True
      else Some False)"

definition CmdZRangeGeneric :: "bool \<Rightarrow> handler" where
  "CmdZRangeGeneric rv args w =
     (if length args \<noteq> 4 \<and> length args \<noteq> 5
      then Some (ReplyWrongArgs (if rv then ''zrevrange'' else ''zrange''), w)
      else case with_scores_arg args of
        None \<Rightarrow> Some (ReplyError err_syntax, w)
      | Some ws \<Rightarrow>
        (case (ParseInt64 (args ! 2), ParseInt64 (args ! 3)) of
           (Some start, Some stop) \<Rightarrow>
             with_zset (args ! 1) False
               (\<lambda>r z w. case NormalizeRange start stop (ZSet_Size z) of
                    None \<Rightarrow> Some (EncodeArrayHeader 0 [], w)
                  | Some (lo, hi) \<Rightarrow>
                      do { nds \<leftarrow> ZSet_RangeByRank lo hi z;
                           Some (encode_nodes ws (if rv then rev nds else nds), w) }) w
         | _ \<Rightarrow> Some (ReplyNotInt, w)))"

definition CmdZRange :: handler where "CmdZRange = CmdZRangeGeneric False"
definition CmdZRevRange :: handler where "CmdZRevRange = CmdZRangeGeneric True"

definition ParseScoreBound :: "string \<Rightarrow> (score \<times> bool) option" where
  "ParseScoreBound text =
     (if text = [] then None
      else let exclusive = (hd text = CHR ''(''); p = (if exclusive then tl text else text) in
        if p = [] then None
        else let lower = map lower_char p in
          if lower = ''-inf'' then Some (NInf, exclusive)
          else if lower = ''+inf'' \<or> lower = ''inf'' then Some (PInf, exclusive)
          else map_option (\<lambda>v. (Fin v, exclusive)) (ParseZScore p))"

definition CmdZRangeByScore :: handler where
  "CmdZRangeByScore args w =
     (if length args \<noteq> 4 \<and> length args \<noteq> 5 then Some (ReplyWrongArgs ''zrangebyscore'', w)
      else case with_scores_arg args of
        None \<Rightarrow> Some (ReplyError err_syntax, w)
      | Some ws \<Rightarrow>
        (case (ParseScoreBound (args ! 2), ParseScoreBound (args ! 3)) of
           (Some (mn, min_ex), Some (mx, max_ex)) \<Rightarrow>
             with_zset (args ! 1) False
               (\<lambda>r z w. do { nds \<leftarrow> ZSet_RangeByScore mn mx min_ex max_ex z;
                            Some (encode_nodes ws nds, w) }) w
         | _ \<Rightarrow> Some (ReplyError ''ERR min or max is not a float'', w)))"

definition CmdZCount :: handler where
  "CmdZCount args w =
     (if length args \<noteq> 4 then Some (ReplyWrongArgs ''zcount'', w)
      else case (ParseScoreBound (args ! 2), ParseScoreBound (args ! 3)) of
        (Some (mn, min_ex), Some (mx, max_ex)) \<Rightarrow>
          read_zset (args ! 1)
            (\<lambda>z. do { nds \<leftarrow> ZSet_RangeByScore mn mx min_ex max_ex z;
                      Some (EncodeInteger (int (length nds)) []) }) w
      | _ \<Rightarrow> Some (ReplyError ''ERR min or max is not a float'', w))"

fun remove_members :: "string list \<Rightarrow> zset \<Rightarrow> (int \<times> zset) option" where
  "remove_members [] z = Some (0, z)"
| "remove_members (m # ms) z =
     do { (b, z) \<leftarrow> ZSet_Remove m z; (n, z) \<leftarrow> remove_members ms z; Some (if b then n + 1 else n, z) }"

definition CmdZRem :: handler where
  "CmdZRem args w =
     (if length args < 3 then Some (ReplyWrongArgs ''zrem'', w)
      else with_zset (args ! 1) False
        (\<lambda>r z w. do { (removed, z) \<leftarrow> remove_members (drop 2 args) z;
             let w = set_zset r z w;
             let w = w\<lparr>w_store := RemoveIfEmptyZSet (args ! 1) (w_store w)\<rparr>;
             Some (EncodeInteger removed [], if removed > 0 then Persist args w else w) }) w)"

subsection \<open>The table and the dispatcher\<close>

text \<open>A row: the name, the handler, whether the command writes (no code reads this field).\<close>

definition kCommandTable :: "(string \<times> handler \<times> bool) list" where
  "kCommandTable =
     [(''ping'', CmdPing, False),
      (''echo'', CmdEcho, False),
      (''set'', CmdSet, True),
      (''get'', CmdGet, False),
      (''del'', CmdDel, True),
      (''exists'', CmdExists, False),
      (''incr'', CmdIncr, True),
      (''decr'', CmdDecr, True),
      (''incrby'', CmdIncrBy False, True),
      (''decrby'', CmdDecrBy, True),
      (''expire'', CmdExpire, True),
      (''pexpire'', CmdPExpire, True),
      (''pexpireat'', CmdPExpireAt, True),
      (''ttl'', CmdTtl, False),
      (''pttl'', CmdPTtl, False),
      (''type'', CmdType, False),
      (''keys'', CmdKeys, False),
      (''dbsize'', CmdDbSize, False),
      (''flushall'', CmdFlushAll, True),
      (''info'', CmdInfo, False),
      (''zadd'', CmdZAdd, True),
      (''zscore'', CmdZScore, False),
      (''zcard'', CmdZCard, False),
      (''zincrby'', CmdZIncrBy, True),
      (''zrank'', CmdZRank, False),
      (''zrevrank'', CmdZRevRank, False),
      (''zrange'', CmdZRange, False),
      (''zrevrange'', CmdZRevRange, False),
      (''zrangebyscore'', CmdZRangeByScore, False),
      (''zcount'', CmdZCount, False),
      (''zrem'', CmdZRem, True)]"

definition Execute :: handler where
  "Execute args w =
     (if args = [] then Some (ReplyError ''ERR empty command'', w)
      else
        let w = w\<lparr>w_stats := (w_stats w)\<lparr>st_commands := st_commands (w_stats w) + 1\<rparr>\<rparr>;
            name = ToLowerAscii (hd args)
        in case map_of kCommandTable name of
             None \<Rightarrow> Some (ReplyError (''ERR unknown command '' @ [CHR 0x27] @ hd args @ [CHR 0x27]), w)
           | Some (h, is_write) \<Rightarrow> h (name # tl args) w)"

fun Replay :: "string list list \<Rightarrow> world \<Rightarrow> world option" where
  "Replay [] w = Some w"
| "Replay (cmd # cmds) w = do { (reply, w) \<leftarrow> Execute cmd w; Replay cmds w }"

text \<open>\<open>-1\<close> is a failed load; the count is converted to \<open>int\<close>.\<close>

definition LoadAof :: "string \<Rightarrow> world \<Rightarrow> (int \<times> world) option" where
  "LoadAof path w =
     (case Aof_LoadAll path (w_disk w) of
        None \<Rightarrow> Some (-1, w)
      | Some (commands, truncated) \<Rightarrow>
          do { w \<leftarrow> Replay commands w; Some (sint (of_nat (length commands) :: 32 word), w) })"

end
