(* ===== verification/Connection.thy ===== *)
theory Connection
  imports Command
begin

unbundle bit_operations_syntax

section \<open>A client connection (src/connection.cpp, include/rl/connection.h)\<close>

text \<open>
  One connection is driven by the thread of its event loop only, so an operation is one function of
  the connection, the socket and the server's state.  The kernel is the list of the results the
  next system calls have: an empty list is \<open>EAGAIN\<close> (nothing arrived, or no room to send).
  \<open>sk_sent\<close> collects the bytes the kernel has accepted: what the peer receives.  The event mask is
  the word registered with the poller.  \<open>cn_on_close\<close> is set while the callback of the connection
  manager is; \<open>MarkClosed\<close> clears it when it calls it.  A \<open>reply\<close> that was moved from is empty.
\<close>

subsection \<open>State\<close>

abbreviation kEventReadable :: u32 where "kEventReadable \<equiv> 1"
abbreviation kEventWritable :: u32 where "kEventWritable \<equiv> 4"
abbreviation kEventError :: u32 where "kEventError \<equiv> 8"
abbreviation kEventHup :: u32 where "kEventHup \<equiv> 16"

abbreviation kMaxOutputBuffer :: nat where "kMaxOutputBuffer \<equiv> 67108864"
abbreviation kMaxQueryBuffer :: nat where "kMaxQueryBuffer \<equiv> 67108864"

datatype recv_result = RecvData string | RecvFin | RecvAgain | RecvIntr | RecvErr
datatype send_result = Sent nat | SendAgain | SendIntr | SendErr

record socket =
  sk_recvs :: "recv_result list"
  sk_sends :: "send_result list"
  sk_sent :: string

record connection =
  cn_fd :: "int option"
  cn_parser :: resp_parser
  cn_output :: "string list"
  cn_offset :: nat
  cn_bytes :: nat
  cn_events :: u32
  cn_closed :: bool
  cn_close_after :: bool
  cn_handled :: u64
  cn_connected_at :: int
  cn_on_close :: bool

text \<open>The constructor reads the clock; \<open>Start\<close> registers the readable event.\<close>

definition Connection_new :: "int \<Rightarrow> world \<Rightarrow> connection \<times> world" where
  "Connection_new fd w =
     (let (now, w) = NowMs w in
      (\<lparr>cn_fd = Some fd, cn_parser = parser_new, cn_output = [], cn_offset = 0, cn_bytes = 0, cn_events = 0,
        cn_closed = False, cn_close_after = False, cn_handled = 0, cn_connected_at = now, cn_on_close = False\<rparr>, w))"

definition Connection_Start :: "connection \<Rightarrow> connection" where
  "Connection_Start c = c\<lparr>cn_events := kEventReadable\<rparr>"

definition push_reply :: "string \<Rightarrow> connection \<Rightarrow> connection" where
  "push_reply reply c = c\<lparr>cn_output := cn_output c @ [reply], cn_bytes := cn_bytes c + length reply\<rparr>"

subsection \<open>Closing and writing\<close>

definition MarkClosed :: "connection \<Rightarrow> connection" where
  "MarkClosed c =
     (if cn_closed c then c else c\<lparr>cn_closed := True, cn_fd := None, cn_on_close := False\<rparr>)"

definition EnableWriteIfNeeded :: "connection \<Rightarrow> connection" where
  "EnableWriteIfNeeded c =
     (if cn_events c AND kEventWritable \<noteq> 0 then c else c\<lparr>cn_events := cn_events c OR kEventWritable\<rparr>)"

definition DisableWriteIfIdle :: "connection \<Rightarrow> connection" where
  "DisableWriteIfIdle c =
     (if cn_output c = [] \<and> cn_events c AND kEventWritable \<noteq> 0
      then c\<lparr>cn_events := cn_events c AND NOT kEventWritable\<rparr> else c)"

text \<open>The loop of \<open>HandleWrite\<close>: one \<open>send\<close> of what is left of the front segment per iteration.  A
  result of \<open>0\<close> is an error.\<close>

function write_queue :: "connection \<Rightarrow> socket \<Rightarrow> connection \<times> socket" where
  "write_queue c s =
     (case cn_output c of
        [] \<Rightarrow> (let c = DisableWriteIfIdle c in (if cn_close_after c then MarkClosed c else c, s))
      | front # rest \<Rightarrow>
          (case sk_sends s of
             [] \<Rightarrow> (EnableWriteIfNeeded c, s)
           | r # rs \<Rightarrow>
               let s' = s\<lparr>sk_sends := rs\<rparr> in
               (case r of
                  SendAgain \<Rightarrow> (EnableWriteIfNeeded c, s')
                | SendIntr \<Rightarrow> write_queue c s'
                | SendErr \<Rightarrow> (MarkClosed c, s')
                | Sent k \<Rightarrow>
                    let remaining = length front - cn_offset c; n = min k remaining in
                    if n = 0 then (MarkClosed c, s')
                    else
                      let s' = s'\<lparr>sk_sent := sk_sent s @ take n (drop (cn_offset c) front)\<rparr>;
                          c = c\<lparr>cn_offset := cn_offset c + n, cn_bytes := cn_bytes c - n\<rparr>;
                          c = (if cn_offset c \<ge> length front then c\<lparr>cn_output := rest, cn_offset := 0\<rparr> else c)
                      in write_queue c s')))"
  by pat_completeness auto
termination
  by (relation "measure (\<lambda>(c, s). length (sk_sends s))") auto

declare write_queue.simps [simp del]

definition HandleWrite :: "connection \<Rightarrow> socket \<Rightarrow> connection \<times> socket" where
  "HandleWrite c s = (if cn_closed c then (c, s) else write_queue c s)"

text \<open>\<open>Close()\<close> on the thread of the loop.\<close>

definition Connection_Close :: "connection \<Rightarrow> socket \<Rightarrow> connection \<times> socket" where
  "Connection_Close c s =
     (if cn_closed c then (c, s)
      else if cn_output c \<noteq> [] then HandleWrite (c\<lparr>cn_close_after := True\<rparr>) s
      else (MarkClosed c, s))"

subsection \<open>Commands\<close>

definition AddBytesIn :: "nat \<Rightarrow> world \<Rightarrow> world" where
  "AddBytesIn n w = w\<lparr>w_stats := (w_stats w)\<lparr>st_bytes_in := st_bytes_in (w_stats w) + of_nat n\<rparr>\<rparr>"

definition AddBytesOut :: "nat \<Rightarrow> world \<Rightarrow> world" where
  "AddBytesOut n w = w\<lparr>w_stats := (w_stats w)\<lparr>st_bytes_out := st_bytes_out (w_stats w) + of_nat n\<rparr>\<rparr>"

definition IncProtocolErrors :: "world \<Rightarrow> world" where
  "IncProtocolErrors w = w\<lparr>w_stats := (w_stats w)\<lparr>st_proto_errors := st_proto_errors (w_stats w) + 1\<rparr>\<rparr>"

text \<open>\<open>ProcessInput\<close>: every complete command in the buffer, in order; \<open>None\<close> is a command that does
  not return.\<close>

function ProcessInput :: "connection \<Rightarrow> world \<Rightarrow> (connection \<times> world) option" where
  "ProcessInput c w =
     (case RespParser_Next (cn_parser c) of
        (NextThrow e, p) \<Rightarrow>
          Some ((push_reply (EncodeError (''ERR Protocol error: '' @ e) []) (c\<lparr>cn_parser := p\<rparr>))\<lparr>cn_close_after := True\<rparr>,
                IncProtocolErrors w)
      | (NextFalse, p) \<Rightarrow> Some (c\<lparr>cn_parser := p\<rparr>, w)
      | (NextCmd args, p) \<Rightarrow>
          let c = c\<lparr>cn_parser := p\<rparr> in
          if args = [] then ProcessInput c w
          else
            (case Execute args w of
               None \<Rightarrow> None
             | Some (reply, w) \<Rightarrow>
                 let c = push_reply reply (c\<lparr>cn_handled := cn_handled c + 1\<rparr>);
                     w = AddBytesOut (length reply) w
                 in if cn_bytes c > kMaxOutputBuffer then Some (c\<lparr>cn_close_after := True\<rparr>, w)
                    else ProcessInput c w))"
  by pat_completeness auto
termination
  by (relation "measure (\<lambda>(c, w). length (buf (cn_parser c)) - pos (cn_parser c))")
    (auto simp: push_reply_def dest: RespParser_Next_less [OF sym])

declare ProcessInput.simps [simp del]

subsection \<open>Reading\<close>

text \<open>The edge-triggered loop: receive until the kernel has nothing more.  The result is what ended
  it: end of stream, error, or an empty kernel buffer.\<close>

fun recv_loop :: "recv_result list \<Rightarrow> connection \<Rightarrow> world \<Rightarrow> recv_result \<times> recv_result list \<times> connection \<times> world" where
  "recv_loop [] c w = (RecvAgain, [], c, w)"
| "recv_loop (r # rs) c w =
     (case r of
        RecvData d \<Rightarrow> recv_loop rs (c\<lparr>cn_parser := RespParser_Append d (cn_parser c)\<rparr>) (AddBytesIn (length d) w)
      | RecvIntr \<Rightarrow> recv_loop rs c w
      | r \<Rightarrow> (r, rs, c, w))"

abbreviation err_query_limit :: string where
  "err_query_limit \<equiv> ''ERR Protocol error: query buffer limit exceeded''"

text \<open>\<open>HandleRead\<close>: the boolean is its result, whether the connection is still there.\<close>

definition HandleRead :: "connection \<Rightarrow> socket \<Rightarrow> world \<Rightarrow> (bool \<times> connection \<times> socket \<times> world) option" where
  "HandleRead c s w =
     (case recv_loop (sk_recvs s) c w of (r, rs, c, w) \<Rightarrow>
        let s = s\<lparr>sk_recvs := rs\<rparr> in
        if r = RecvFin then
          do { (c, w) \<leftarrow> ProcessInput c w;
               if cn_output c \<noteq> []
               then let (c, s) = HandleWrite (c\<lparr>cn_close_after := True\<rparr>) s in Some (True, c, s, w)
               else Some (False, MarkClosed c, s, w) }
        else if r = RecvErr then Some (False, MarkClosed c, s, w)
        else if buffered (cn_parser c) > kMaxQueryBuffer
        then let (c, s) = HandleWrite ((push_reply (EncodeError err_query_limit []) c)\<lparr>cn_close_after := True\<rparr>) s
             in Some (True, c, s, w)
        else
          do { (c, w) \<leftarrow> ProcessInput c w;
               let (c, s) = (if cn_output c \<noteq> [] then HandleWrite c s else (c, s));
               Some (\<not> cn_closed c, c, s, w) })"

definition HandleEvent :: "u32 \<Rightarrow> connection \<Rightarrow> socket \<Rightarrow> world \<Rightarrow> (connection \<times> socket \<times> world) option" where
  "HandleEvent events c s w =
     (if cn_closed c then Some (c, s, w)
      else if events AND (kEventError OR kEventHup) \<noteq> 0 then
        do { (alive, c, s, w) \<leftarrow> (if events AND kEventReadable \<noteq> 0 then HandleRead c s w else Some (True, c, s, w));
             if \<not> alive then Some (c, s, w)
             else if cn_output c \<noteq> []
             then let (c, s) = HandleWrite (c\<lparr>cn_close_after := True\<rparr>) s in Some (c, s, w)
             else Some (MarkClosed c, s, w) }
      else
        do { (alive, c, s, w) \<leftarrow> (if events AND kEventReadable \<noteq> 0 then HandleRead c s w else Some (True, c, s, w));
             if \<not> alive then Some (c, s, w)
             else if events AND kEventWritable \<noteq> 0 then let (c, s) = HandleWrite c s in Some (c, s, w)
             else Some (c, s, w) })"

end
