(* ===== verification/Command_Inv.thy ===== *)
theory Command_Inv
  imports Command Store_Inv
begin

section \<open>What every command keeps\<close>

text \<open>
  The invariant of the server state, and that every handler, from a state with the invariant,
  terminates without touching memory it does not own, keeps the invariant and writes exactly one
  well-formed RESP value.
\<close>

definition clock_ok :: "(nat \<Rightarrow> int) \<Rightarrow> bool" where
  "clock_ok c \<longleftrightarrow> (\<forall>i. 0 \<le> c i \<and> c i \<le> c (Suc i) \<and> c i \<le> INT64_MAX)"

subsection \<open>One RESP value\<close>

definition line_ok :: "string \<Rightarrow> bool" where
  "line_ok s \<longleftrightarrow> CR \<notin> set s \<and> LF \<notin> set s"

inductive resp_value :: "string \<Rightarrow> bool" where
  simple: "line_ok s \<Longrightarrow> resp_value (''+'' @ s @ kCRLF)"
| error: "line_ok s \<Longrightarrow> resp_value (''-'' @ s @ kCRLF)"
| integer: "resp_value ('':'' @ dec_of_int n @ kCRLF)"
| bulk: "resp_value (''$'' @ dec_of_nat (length s) @ kCRLF @ s @ kCRLF)"
| null: "resp_value (''$-1'' @ kCRLF)"
| array: "(\<And>v. v \<in> set vs \<Longrightarrow> resp_value v) \<Longrightarrow>
     resp_value (''*'' @ dec_of_nat (length vs) @ kCRLF @ concat vs)"

lemma line_ok_simps [simp]:
  "line_ok []" "line_ok (c # s) \<longleftrightarrow> c \<noteq> CR \<and> c \<noteq> LF \<and> line_ok s" "line_ok (s @ t) \<longleftrightarrow> line_ok s \<and> line_ok t"
  by (auto simp: line_ok_def)

lemma resp_EncodeBulks:
  "EncodeBulks ks out = out @ concat (map Resp_Facts.bulk ks)"
  by (induction ks arbitrary: out) (simp_all add: EncodeBulks_def EncodeBulkString_def Resp_Facts.bulk_def)

lemma resp_encoders [rl_bytes]:
  "line_ok s \<Longrightarrow> resp_value (EncodeSimpleString s [])"
  "line_ok s \<Longrightarrow> resp_value (ReplyError s)"
  "line_ok s \<Longrightarrow> resp_value (ReplyWrongArgs s)"
  "resp_value ReplyNotInt" "resp_value ReplyWrongType"
  "resp_value (EncodeInteger n [])" "resp_value (EncodeBulkString s [])" "resp_value (EncodeNullBulk [])"
  using resp_value.simple [of s] resp_value.error [of s] resp_value.integer [of n] resp_value.bulk [of s] resp_value.null
    resp_value.error [of err_not_int]
    resp_value.error [of "''ERR wrong number of arguments for '' @ [CHR 0x27] @ s @ [CHR 0x27] @ '' command''"]
    resp_value.error [of "''WRONGTYPE Operation against a key holding the wrong kind of value''"]
  by (simp_all add: EncodeSimpleString_def ReplyError_def ReplyWrongArgs_def ReplyNotInt_def ReplyWrongType_def
      EncodeError_def EncodeInteger_def EncodeBulkString_def EncodeNullBulk_def)

lemma resp_array: "resp_value (EncodeBulks ks (EncodeArrayHeader (length ks) []))"
  using resp_value.array [of "map Resp_Facts.bulk ks"] resp_value.bulk
  by (auto simp: resp_EncodeBulks EncodeArrayHeader_def Resp_Facts.bulk_def)

lemma resp_nodes: "resp_value (encode_nodes ws nds)"
proof -
  let ?ks = "concat (map (\<lambda>n. nd_member n # (if ws then [ZScoreToString (nd_score n)] else [])) nds)"
  have "length ?ks = (if ws then length nds * 2 else length nds)" by (induction nds) auto
  then show ?thesis using resp_array [of ?ks] by (simp add: encode_nodes_def)
qed

subsection \<open>The state of a handler\<close>

definition w_good :: "nat \<Rightarrow> world \<Rightarrow> bool" where
  "w_good n w \<longleftrightarrow> good n (w_store w) \<and> clock_ok (w_clock w)"

lemma w_good_cong [simp]:
  "w_good n (w\<lparr>w_stats := s\<rparr>) = w_good n w" "w_good n (w\<lparr>w_rng := g\<rparr>) = w_good n w"
  "w_good n (w\<lparr>w_aof := a, w_disk := d\<rparr>) = w_good n w"
  "w_good n (w\<lparr>w_store := st\<rparr>) \<longleftrightarrow> good n st \<and> clock_ok (w_clock w)"
  by (simp_all add: w_good_def)

lemma w_good_less: "w_good n w \<Longrightarrow> m \<le> n \<Longrightarrow> w_good m w"
  by (auto simp: w_good_def intro: good_less)

lemma clock_shift: "clock_ok c \<Longrightarrow> clock_ok (\<lambda>i. c (Suc i))"
  by (simp add: clock_ok_def)

lemma NowMs_ok: "w_good n w \<Longrightarrow> NowMs w = (now, w') \<Longrightarrow> w_good n w' \<and> 0 \<le> now \<and> now \<le> INT64_MAX"
  by (auto simp: NowMs_def w_good_def clock_ok_def)

lemma timed_ok: "keeps f \<Longrightarrow> w_good n w \<Longrightarrow> timed f w = (r, w') \<Longrightarrow> w_good n w'"
  by (auto simp: timed_def NowMs_def keeps_def w_good_def Let_def dest: clock_shift split: prod.splits)
    (metis snd_conv)

lemma Persist_ok [simp]: "w_good n (Persist args w) = w_good n w"
  "w_store (Persist args w) = w_store w" "w_clock (Persist args w) = w_clock w"
  by (auto simp: Persist_def w_good_def split: prod.splits)

lemma Persist_pairs_ok [simp]:
  "w_good n (foldl (\<lambda>w (s, m). Persist (g s m) w) w ps) = w_good n w"
proof (induction ps arbitrary: w)
  case (Cons p ps)
  obtain s m where "p = (s, m)" by (cases p) auto
  then show ?case using Cons [of "Persist (g s m) w"] by simp
qed simp

text \<open>What is claimed of a handler.\<close>

definition handler_ok :: "handler \<Rightarrow> bool" where
  "handler_ok h \<longleftrightarrow> (\<forall>args w n. args \<noteq> [] \<and> w_good (n + length args) w \<longrightarrow>
     (\<exists>reply w'. h args w = Some (reply, w') \<and> w_good n w' \<and> resp_value reply))"

lemma handler_okI:
  assumes "\<And>args w n. args \<noteq> [] \<Longrightarrow> w_good (n + length args) w \<Longrightarrow>
     \<exists>reply w'. h args w = Some (reply, w') \<and> w_good (n + length args) w' \<and> resp_value reply"
  shows "handler_ok h"
  unfolding handler_ok_def
proof (intro allI impI)
  fix args :: "string list" and w :: world and n :: nat assume "args \<noteq> [] \<and> w_good (n + length args) w"
  with assms [of args n w] obtain reply w' where
    "h args w = Some (reply, w')" "w_good (n + length args) w'" "resp_value reply" by blast
  with w_good_less [of "n + length args" w' n]
  show "\<exists>reply w'. h args w = Some (reply, w') \<and> w_good n w' \<and> resp_value reply" by simp
qed

subsection \<open>Strings, counters and keys\<close>

lemma handler_simple [rl_inv]:
  "handler_ok CmdPing" "handler_ok CmdEcho" "handler_ok CmdDbSize"
  by (rule handler_okI; auto simp: CmdPing_def CmdEcho_def CmdDbSize_def intro!: resp_encoders)+

definition parse_ok :: "set_parse \<Rightarrow> bool" where
  "parse_ok p \<longleftrightarrow> int64_range (sp_value p) \<and> so_expire_at_ms (sp_opts p) = 0"

lemma sdiv_1000 [simp]: "INT64_MAX sdiv 1000 = 9223372036854775"
  by (simp add: signed_divide_int_def)

lemma set_options_ok:
  "parse_ok p \<Longrightarrow> (case set_options as p of Inl msg \<Rightarrow> line_ok msg | Inr p' \<Rightarrow> parse_ok p')"
proof (induction as p rule: set_options.induct)
  case (1 p)
  then show ?case by simp
next
  case (2 a rest p)
  let ?opt = "ToLowerAscii a"
  note IH = "2.IH" [OF refl refl]
  consider "?opt = ''nx''" | "?opt = ''xx''" | "?opt = ''keepttl''"
    | (exp) "?opt = ''ex'' \<or> ?opt = ''px'' \<or> ?opt = ''exat'' \<or> ?opt = ''pxat''"
    | "?opt \<notin> {''nx'', ''xx'', ''keepttl'', ''ex'', ''px'', ''exat'', ''pxat''}" by blast
  then show ?case
  proof cases
    case 1
    show ?thesis using IH(1) [OF 1] "2.prems" by (simp add: Let_def 1 parse_ok_def)
  next
    case 2
    show ?thesis using IH(2) [OF _ 2] "2.prems" by (simp add: Let_def 2 parse_ok_def)
  next
    case 3
    show ?thesis using IH(3) [OF _ _ 3] "2.prems" by (simp add: Let_def 3 parse_ok_def)
  next
    case exp
    then have n: "?opt \<noteq> ''nx''" "?opt \<noteq> ''xx''" "?opt \<noteq> ''keepttl''" by auto
    show ?thesis
    proof (cases rest)
      case Nil
      then show ?thesis using n by (simp add: Let_def)
    next
      case (Cons raw rest')
      show ?thesis
      proof (cases "so_has_expire (sp_opts p) \<or> ParseInt64 raw = None")
        case True
        then show ?thesis using n exp Cons by (auto simp: Let_def)
      next
        case False
        then obtain v where v: "ParseInt64 raw = Some v" "\<not> so_has_expire (sp_opts p)" by auto
        note r = ParseInt64_range [OF v(1)]
        note IH' = IH(4-7) [OF n exp Cons v(2,1) refl]
        show ?thesis
          using n exp Cons v r "2.prems" IH' i64_range [of "v * 1000"]
          by (elim disjE) (simp_all add: Let_def parse_ok_def int64_range_def)
      qed
    qed
  next
    case 5
    then show ?thesis by (simp add: Let_def)
  qed
qed

lemma set_deadline_ok:
  assumes g: "w_good n w" and p: "parse_ok p"
    and d: "set_deadline p w = (opts, w')"
  shows "w_good n w' \<and> int64_range (so_expire_at_ms opts)"
proof -
  note N = NowMs_def w_good_def clock_ok_def
  show ?thesis
    using g p d i64_range by (auto simp: set_deadline_def Let_def N parse_ok_def int64_range_def split: if_splits)
qed

lemma handler_Set [rl_inv]: "handler_ok CmdSet"
proof (rule handler_okI)
  fix args :: "string list" and w :: world and n :: nat assume g: "w_good (n + length args) w"
  show "\<exists>reply w'. CmdSet args w = Some (reply, w') \<and> w_good (n + length args) w' \<and> resp_value reply"
  proof (cases "length args < 3")
    case True
    with g show ?thesis by (simp add: CmdSet_def resp_encoders)
  next
    case False
    obtain r where r: "set_options (drop 3 args) set_parse0 = r" by blast
    have "parse_ok set_parse0" by (simp add: parse_ok_def set_parse0_def default_opts_def int64_range_def)
    from set_options_ok [OF this, of "drop 3 args"] have so: "case r of Inl msg \<Rightarrow> line_ok msg | Inr p' \<Rightarrow> parse_ok p'"
      unfolding r .
    show ?thesis
    proof (cases r)
      case (Inl msg)
      with g r so False show ?thesis by (simp add: CmdSet_def resp_encoders)
    next
      case (Inr p)
      obtain opts w1 where d: "set_deadline p w = (opts, w1)" by (cases "set_deadline p w") auto
      obtain res w2 where t: "timed (\<lambda>now. Store_Set now (args ! 1) (VString (args ! 2)) opts) w1 = (res, w2)"
        by (cases "timed (\<lambda>now. Store_Set now (args ! 1) (VString (args ! 2)) opts) w1") auto
      from set_deadline_ok [OF g _ d] so Inr have "w_good (n + length args) w1" "int64_range (so_expire_at_ms opts)" by auto
      with timed_ok [OF keeps_Set _ t] have "w_good (n + length args) w2" by blast
      with False r Inr d t show ?thesis by (auto simp: CmdSet_def resp_encoders)
    qed
  qed
qed

lemma handler_Get [rl_inv]: "handler_ok CmdGet"
proof (rule handler_okI)
  fix args :: "string list" and w :: world and n :: nat assume g: "w_good (n + length args) w"
  show "\<exists>reply w'. CmdGet args w = Some (reply, w') \<and> w_good (n + length args) w' \<and> resp_value reply"
    using g timed_ok [OF keeps_reads(1) g, of "args ! 1"]
    by (cases "timed (\<lambda>now. Store_Get now (args ! 1)) w")
      (auto simp: CmdGet_def resp_encoders split: option.splits)
qed

lemma handler_Del [rl_inv]: "handler_ok CmdDel"
proof (rule handler_okI)
  fix args :: "string list" and w :: world and n :: nat assume g: "w_good (n + length args) w"
  then have "good (n + length args) (snd (Store_DelMulti (drop 1 args) (w_store w)))"
    by (auto simp: w_good_def intro: good_DelMulti)
  with g show "\<exists>reply w'. CmdDel args w = Some (reply, w') \<and> w_good (n + length args) w' \<and> resp_value reply"
    by (auto simp: CmdDel_def resp_encoders case_prod_beta Let_def w_good_def)
qed

lemma count_exists_ok: "w_good n w \<Longrightarrow> w_good n (snd (count_exists ks w))"
proof (induction ks arbitrary: w)
  case (Cons k ks)
  obtain b w1 where t: "timed (\<lambda>now. Store_Exists now k) w = (b, w1)"
    by (cases "timed (\<lambda>now. Store_Exists now k) w") auto
  from Cons.IH [OF timed_ok [OF keeps_reads(2) Cons.prems t]] t show ?case
    by (simp add: case_prod_beta Let_def)
qed simp

lemma handler_Exists [rl_inv]: "handler_ok CmdExists"
  by (rule handler_okI) (auto simp: CmdExists_def resp_encoders case_prod_beta Let_def intro: count_exists_ok)

lemma handler_IncrBy: "handler_ok (CmdIncrBy d)"
proof (rule handler_okI)
  fix args :: "string list" and w :: world and n :: nat assume g: "w_good (n + length args) w"
  let ?o = "if length args = 3 then ParseInt64 (args ! 2) else Some 1"
  show "\<exists>reply w'. CmdIncrBy d args w = Some (reply, w') \<and> w_good (n + length args) w' \<and> resp_value reply"
  proof (cases ?o)
    case None
    with g show ?thesis by (auto simp: CmdIncrBy_def resp_encoders)
  next
    case (Some delta)
    then have "int64_range delta" by (auto simp: int64_range_def split: if_splits dest: ParseInt64_range)
    then have r: "\<not> (d \<and> delta = INT64_MIN) \<Longrightarrow> int64_range (if d then - delta else delta)"
      by (auto intro: int64_range_neg)
    let ?f = "\<lambda>now. Store_IncrBy now (args ! 1) (if d then - delta else delta)"
    obtain v w1 where t: "timed ?f w = (v, w1)" by (cases "timed ?f w") auto
    with timed_ok [OF keeps_IncrBy [OF r] g t]
    have "\<not> (d \<and> delta = INT64_MIN) \<Longrightarrow> w_good (n + length args) w1" by blast
    with g Some t show ?thesis
      by (auto simp: CmdIncrBy_def resp_encoders Let_def simp del: if_split_asm split: option.splits)
  qed
qed

lemma handler_Expire: "handler_ok (CmdExpireGeneric m name)" if "line_ok name"
proof (rule handler_okI)
  fix args :: "string list" and w :: world and n :: nat assume g: "w_good (n + length args) w"
  show "\<exists>reply w'. CmdExpireGeneric m name args w = Some (reply, w') \<and> w_good (n + length args) w' \<and> resp_value reply"
  proof (cases "ParseExpireArg (args ! 2) m")
    case None
    with g that show ?thesis by (auto simp: CmdExpireGeneric_def resp_encoders)
  next
    case (Some v)
    obtain now w1 where t1: "NowMs w = (now, w1)" by (cases "NowMs w") auto
    let ?f = "\<lambda>t. Store_ExpireAt t (args ! 1) (i64 (now + v))"
    obtain b c w2 where t2: "timed ?f w1 = ((b, c), w2)" by (metis prod.exhaust)
    have "w_good (n + length args) w2"
      using timed_ok [OF keeps_ExpireAt [OF i64_range] _ t2] NowMs_ok [OF g t1] by blast
    with g that Some t1 t2 show ?thesis by (auto simp: CmdExpireGeneric_def resp_encoders Let_def)
  qed
qed

lemma handler_PExpireAt [rl_inv]: "handler_ok CmdPExpireAt"
proof (rule handler_okI)
  fix args :: "string list" and w :: world and n :: nat assume g: "w_good (n + length args) w"
  show "\<exists>reply w'. CmdPExpireAt args w = Some (reply, w') \<and> w_good (n + length args) w' \<and> resp_value reply"
  proof (cases "ParseInt64 (args ! 2)")
    case None
    with g show ?thesis by (auto simp: CmdPExpireAt_def resp_encoders)
  next
    case (Some v)
    let ?f = "\<lambda>t. Store_ExpireAt t (args ! 1) v"
    obtain b c w2 where t2: "timed ?f w = ((b, c), w2)" by (metis prod.exhaust)
    have "w_good (n + length args) w2"
      using timed_ok [OF keeps_ExpireAt [OF ParseInt64_range [OF Some]] g t2] .
    with g Some t2 show ?thesis by (auto simp: CmdPExpireAt_def resp_encoders Let_def)
  qed
qed

lemma handler_Ttl: "handler_ok (CmdTtlGeneric d)"
proof (rule handler_okI)
  fix args :: "string list" and w :: world and n :: nat assume g: "w_good (n + length args) w"
  obtain ms w1 where t: "timed (\<lambda>now. Store_TtlMs now (args ! 1)) w = (ms, w1)"
    by (cases "timed (\<lambda>now. Store_TtlMs now (args ! 1)) w") auto
  from timed_ok [OF keeps_reads(4) g t] g t
  show "\<exists>reply w'. CmdTtlGeneric d args w = Some (reply, w') \<and> w_good (n + length args) w' \<and> resp_value reply"
    by (auto simp: CmdTtlGeneric_def resp_encoders Let_def)
qed

lemma handler_Type [rl_inv]: "handler_ok CmdType"
proof (rule handler_okI)
  fix args :: "string list" and w :: world and n :: nat assume g: "w_good (n + length args) w"
  obtain ty w1 where t: "timed (\<lambda>now. Store_TypeOf now (args ! 1)) w = (ty, w1)"
    by (cases "timed (\<lambda>now. Store_TypeOf now (args ! 1)) w") auto
  have "line_ok (ValueTypeName ty)" by (cases ty) simp_all
  with timed_ok [OF keeps_reads(3) g t] g t
  show "\<exists>reply w'. CmdType args w = Some (reply, w') \<and> w_good (n + length args) w' \<and> resp_value reply"
    by (auto simp: CmdType_def resp_encoders Let_def)
qed

lemma glob_filter_total: "\<exists>ks. glob_filter pat rows = Some ks"
  by (induction pat rows rule: glob_filter.induct) (auto simp: GlobMatch_tokens)

lemma handler_Keys [rl_inv]: "handler_ok CmdKeys"
proof (rule handler_okI)
  fix args :: "string list" and w :: world and n :: nat assume g: "w_good (n + length args) w"
  let ?f = "\<lambda>now st. (Store_ForEach now st, st)"
  have "keeps ?f" by (simp add: keeps_def)
  obtain rows w1 where t: "timed ?f w = (rows, w1)" by (cases "timed ?f w") auto
  obtain ks where "glob_filter (args ! 1) rows = Some ks" using glob_filter_total by blast
  with timed_ok [OF \<open>keeps ?f\<close> g t] g t resp_array [of ks]
  show "\<exists>reply w'. CmdKeys args w = Some (reply, w') \<and> w_good (n + length args) w' \<and> resp_value reply"
    by (auto simp: CmdKeys_def resp_encoders)
qed

lemma handler_FlushAll [rl_inv]: "handler_ok CmdFlushAll"
  by (rule handler_okI)
    (auto simp: CmdFlushAll_def Let_def resp_encoders w_good_def case_prod_beta intro: good_FlushAll)

lemma handler_Info [rl_inv]: "handler_ok CmdInfo"
proof (rule handler_okI)
  fix args :: "string list" and w :: world and n :: nat assume g: "w_good (n + length args) w"
  obtain u w1 where u: "uptime_seconds w = (u, w1)" by (cases "uptime_seconds w") auto
  with g have "w_good (n + length args) w1"
    by (auto simp: uptime_seconds_def Let_def NowMs_def w_good_def dest: clock_shift split: if_splits)
  with u show "\<exists>reply w'. CmdInfo args w = Some (reply, w') \<and> w_good (n + length args) w' \<and> resp_value reply"
    by (simp add: CmdInfo_def resp_encoders)
qed

subsection \<open>Ordered sets\<close>

lemma GetZSet_ref:
  assumes "store_ok st"
  shows "Store_GetZSet now key st = (ZRef r, st') \<Longrightarrow> \<exists>e. lookup st' key = Some e \<and> en_value e = VZSet r"
    and "Store_GetOrCreateZSet now key st = (ZRef r, st') \<Longrightarrow> zrefs_ok st \<Longrightarrow> \<exists>e. lookup st' key = Some e \<and> en_value e = VZSet r"
proof -
  obtain f st1 where f: "find_live now key st = (f, st1)" by (cases "find_live now key st") auto
  note fl = find_live_ok [OF assms f]
  show "Store_GetZSet now key st = (ZRef r, st') \<Longrightarrow> \<exists>e. lookup st' key = Some e \<and> en_value e = VZSet r"
    using f fl(3) by (auto simp: Store_GetZSet_def split: option.splits rvalue.splits)
  show "Store_GetOrCreateZSet now key st = (ZRef r, st') \<Longrightarrow> zrefs_ok st \<Longrightarrow> \<exists>e. lookup st' key = Some e \<and> en_value e = VZSet r"
    using Store_GetOrCreateZSet_ok [OF assms] by fastforce
qed

text \<open>The set a handler acquired: it is the set of a key, well-formed, with room.\<close>

definition zset_at :: "nat \<Rightarrow> string \<Rightarrow> nat \<Rightarrow> zset \<Rightarrow> world \<Rightarrow> bool" where
  "zset_at m key r z w \<longleftrightarrow>
     (\<exists>e. lookup (w_store w) key = Some e \<and> en_value e = VZSet r) \<and> zheap (w_store w) r = Some z
     \<and> (\<exists>f. zset_rep z f) \<and> ZSet_Size z + m \<le> sl_max"

lemma zset_atI:
  assumes "w_good m w" "lookup (w_store w) key = Some e" "en_value e = VZSet r"
  shows "\<exists>z. zset_at m key r z w"
proof -
  have g: "good m (w_store w)" using assms(1) by (simp add: w_good_def)
  from zrefs_okD(1) [OF goodD(2) [OF g] assms(2,3)] obtain z f where z: "zheap (w_store w) r = Some z" "zset_rep z f" by blast
  moreover have "ZSet_Size z + m \<le> sl_max" using g assms(2,3) z(1) unfolding good_def zroom_def by blast
  ultimately show ?thesis using assms(2,3) unfolding zset_at_def by blast
qed

lemma with_zset_ok:
  assumes g: "w_good m w" and nm: "n \<le> m"
    and f: "\<And>r z w. w_good m w \<Longrightarrow> zset_at m key r z w \<Longrightarrow>
      \<exists>reply w'. f r z w = Some (reply, w') \<and> w_good n w' \<and> resp_value reply"
  shows "\<exists>reply w'. with_zset key create f w = Some (reply, w') \<and> w_good n w' \<and> resp_value reply"
proof -
  let ?f = "\<lambda>now. if create then Store_GetOrCreateZSet now key else Store_GetZSet now key"
  have k: "keeps ?f" using keeps_GetOrCreate [of key] keeps_reads(5) [of key] by (simp add: keeps_def)
  obtain x w1 where t: "timed ?f w = (x, w1)" by (cases "timed ?f w") auto
  note g1 = timed_ok [OF k g t]
  show ?thesis
  proof (cases x)
    case ZMissing
    with t w_good_less [OF g1 nm] show ?thesis by (simp add: with_zset_def AcquireZSet_def resp_encoders)
  next
    case ZWrongType
    with t w_good_less [OF g1 nm] show ?thesis by (simp add: with_zset_def AcquireZSet_def resp_encoders)
  next
    case (ZRef r)
    have "good m (w_store w)" using g by (simp add: w_good_def)
    note st = goodD(1,2) [OF this]
    have "?f (w_clock w 0) (w_store w) = (ZRef r, w_store w1)"
      using t ZRef by (auto simp: timed_def NowMs_def split: prod.splits)
    with GetZSet_ref [OF st(1)] st(2) obtain e where "lookup (w_store w1) key = Some e" "en_value e = VZSet r"
      by (cases create) (auto, blast+)
    with zset_atI [OF g1] obtain z where z: "zset_at m key r z w1" by blast
    then have "zheap (w_store w1) r = Some z" by (simp add: zset_at_def)
    with f [OF g1 z] t ZRef show ?thesis by (simp add: with_zset_def AcquireZSet_def)
  qed
qed

lemma read_zset_ok:
  assumes g: "w_good m w" and f: "\<And>z fm. zset_rep z fm \<Longrightarrow> \<exists>out. f z = Some out \<and> resp_value out"
  shows "\<exists>reply w'. read_zset key f w = Some (reply, w') \<and> w_good m w' \<and> resp_value reply"
proof -
  let ?f = "\<lambda>now. Store_GetZSet now key"
  obtain x w1 where t: "timed ?f w = (x, w1)" by (cases "timed ?f w") auto
  note g1 = timed_ok [OF keeps_reads(5) g t]
  show ?thesis
  proof (cases x)
    case (ZRef r)
    have "good m (w_store w)" using g by (simp add: w_good_def)
    note st = goodD(1) [OF this]
    have "?f (w_clock w 0) (w_store w) = (ZRef r, w_store w1)"
      using t ZRef by (auto simp: timed_def NowMs_def split: prod.splits)
    with GetZSet_ref(1) [OF st] zset_atI [OF g1] obtain z where "zset_at m key r z w1" by blast
    then obtain fm where z: "zheap (w_store w1) r = Some z" "zset_rep z fm" by (auto simp: zset_at_def)
    with f [OF z(2)] g1 t ZRef show ?thesis by (auto simp: read_zset_def)
  qed (use t g1 in \<open>auto simp: read_zset_def resp_encoders\<close>)
qed

lemma w_good_set_zset:
  assumes "w_good n w" "zset_at m key r z w" "zset_rep z' f" "ZSet_Size z' + n \<le> sl_max"
  shows "w_good n (set_zset r z' w)"
  using assms good_set_zset [of n "w_store w" key _ r z' f] by (auto simp: w_good_def zset_at_def set_zset_def)

lemma add_pairs_ok:
  "zset_rep z f \<Longrightarrow> ZSet_Size z + length ps \<le> sl_max \<Longrightarrow>
     \<exists>added z' g' f'. add_pairs ps z g = Some (added, z', g') \<and> zset_rep z' f' \<and> ZSet_Size z' \<le> ZSet_Size z + length ps"
proof (induction ps arbitrary: z f g)
  case (Cons p ps)
  obtain s m where p: "p = (s, m)" by (cases p) auto
  note fin = zset_rep_finite [OF Cons.prems(1)] and sz = zset_rep_size [OF Cons.prems(1)]
  have "card (dom f) < sl_max" using Cons.prems(2) sz by simp
  with ZSet_Add_rep [OF Cons.prems(1), of m s g] obtain z1 g1 where
    a: "ZSet_Add m s z g = Some (f m = None, z1, g1)" "zset_rep z1 (f(m \<mapsto> s))" by auto
  have "card (dom (f(m \<mapsto> s))) \<le> Suc (card (dom f))" using fin by (simp add: card_insert_if)
  then have "ZSet_Size z1 \<le> Suc (ZSet_Size z)" using zset_rep_size [OF a(2)] sz by simp
  with Cons.IH [OF a(2), of g1] Cons.prems(2) a(1) p show ?case by fastforce
qed auto

lemma parse_pairs_length: "parse_pairs as = Some ps \<Longrightarrow> length ps \<le> length as"
  by (induction as arbitrary: ps rule: parse_pairs.induct) (fastforce split: option.splits)+

lemma handler_ZAdd [rl_inv]: "handler_ok CmdZAdd"
  unfolding handler_ok_def
proof (intro allI impI, elim conjE)
  fix args :: "string list" and w :: world and n :: nat
  assume g: "w_good (n + length args) w"
  let ?f = "\<lambda>r z w. case parse_pairs (drop 2 args) of
       None \<Rightarrow> Some (ReplyError ''ERR value is not a valid float'', w)
     | Some pairs \<Rightarrow>
         do { (added, z, g) \<leftarrow> add_pairs pairs z (w_rng w);
              let w = (set_zset r z w)\<lparr>w_rng := g\<rparr>;
              Some (EncodeInteger added [],
                    foldl (\<lambda>w (s, m). Persist [''ZADD'', args ! 1, ZScoreToString s, m] w) w pairs) }"
  have "\<exists>reply w'. ?f r z w = Some (reply, w') \<and> w_good n w' \<and> resp_value reply"
    if gw: "w_good (n + length args) w" and za: "zset_at (n + length args) (args ! 1) r z w" for r z w
  proof (cases "parse_pairs (drop 2 args)")
    case None
    with w_good_less [OF gw, of n] show ?thesis by (simp add: resp_encoders)
  next
    case (Some pairs)
    have len: "length pairs \<le> length args" using parse_pairs_length [OF Some] by simp
    from za obtain f where f: "zset_rep z f" "ZSet_Size z + (n + length args) \<le> sl_max" by (auto simp: zset_at_def)
    with add_pairs_ok [OF f(1), of pairs "w_rng w"] len obtain added z' g' f' where
      a: "add_pairs pairs z (w_rng w) = Some (added, z', g')" "zset_rep z' f'" "ZSet_Size z' \<le> ZSet_Size z + length pairs"
      by fastforce
    have "w_good n w" using gw by (rule w_good_less) simp
    then have "w_good n (set_zset r z' w)"
      by (rule w_good_set_zset [OF _ za a(2)]) (use a(3) f(2) len in linarith)
    with Some a(1) show ?thesis by (simp add: resp_encoders Let_def)
  qed
  then have "\<exists>reply w'. with_zset (args ! 1) True ?f w = Some (reply, w') \<and> w_good n w' \<and> resp_value reply"
    by (intro with_zset_ok [OF g]) auto
  then show "\<exists>reply w'. CmdZAdd args w = Some (reply, w') \<and> w_good n w' \<and> resp_value reply"
    using w_good_less [OF g, of n] by (auto simp: CmdZAdd_def resp_encoders)
qed

lemma handler_ZScore [rl_inv]: "handler_ok CmdZScore"
proof (rule handler_okI)
  fix args :: "string list" and w :: world and n :: nat assume g: "w_good (n + length args) w"
  show "\<exists>reply w'. CmdZScore args w = Some (reply, w') \<and> w_good (n + length args) w' \<and> resp_value reply"
    using g by (auto simp: CmdZScore_def resp_encoders intro!: with_zset_ok [OF g] split: option.splits)
qed

lemma handler_ZCard [rl_inv]: "handler_ok CmdZCard"
proof (rule handler_okI)
  fix args :: "string list" and w :: world and n :: nat assume g: "w_good (n + length args) w"
  have "\<exists>reply w'. read_zset (args ! 1) (\<lambda>z. Some (EncodeInteger (int (ZSet_Size z)) [])) w = Some (reply, w')
      \<and> w_good (n + length args) w' \<and> resp_value reply"
    by (rule read_zset_ok [OF g]) (simp add: resp_encoders)
  with g show "\<exists>reply w'. CmdZCard args w = Some (reply, w') \<and> w_good (n + length args) w' \<and> resp_value reply"
    by (cases "length args = 2") (simp_all only: CmdZCard_def resp_encoders if_True if_False, simp_all add: resp_encoders)
qed

lemma handler_ZIncrBy [rl_inv]: "handler_ok CmdZIncrBy"
  unfolding handler_ok_def
proof (intro allI impI, elim conjE)
  fix args :: "string list" and w :: world and n :: nat
  assume g: "w_good (n + length args) w" and ne: "args \<noteq> []"
  let ?f = "\<lambda>delta r z w. do { (now, was_present, z, g) \<leftarrow> ZSet_IncrBy (args ! 3) delta z (w_rng w);
                let w = (set_zset r z w)\<lparr>w_rng := g\<rparr>;
                Some (EncodeBulkString (ZScoreToString now) [], Persist args w) }"
  have "\<exists>reply w'. ?f d r z w = Some (reply, w') \<and> w_good n w' \<and> resp_value reply"
    if gw: "w_good (n + length args) w" and za: "zset_at (n + length args) (args ! 1) r z w" for d r z w
  proof -
    from za obtain f where f: "zset_rep z f" "ZSet_Size z + (n + length args) \<le> sl_max" by (auto simp: zset_at_def)
    note sz = zset_rep_size [OF f(1)]
    have "card (dom f) < sl_max" using f(2) ne sz by (cases args) auto
    with ZSet_IncrBy_rep [OF f(1), of "args ! 3" d "w_rng w"] obtain z' g' where
      a: "ZSet_IncrBy (args ! 3) d z (w_rng w) = Some (incr_score f (args ! 3) d, f (args ! 3) \<noteq> None, z', g')"
        "zset_rep z' (f(args ! 3 \<mapsto> incr_score f (args ! 3) d))" by blast
    have "card (dom (f(args ! 3 \<mapsto> incr_score f (args ! 3) d))) \<le> Suc (card (dom f))"
      using zset_rep_finite [OF f(1)] by (simp add: card_insert_if)
    then have "ZSet_Size z' + n \<le> sl_max" using zset_rep_size [OF a(2)] sz f(2) ne by (cases args) auto
    moreover have "w_good n w" using gw by (rule w_good_less) simp
    ultimately have "w_good n (set_zset r z' w)" by (intro w_good_set_zset [OF _ za a(2)])
    with a(1) show ?thesis by (simp add: resp_encoders Let_def)
  qed
  then have "\<exists>reply w'. with_zset (args ! 1) True (?f d) w = Some (reply, w') \<and> w_good n w' \<and> resp_value reply" for d
    by (intro with_zset_ok [OF g]) auto
  then show "\<exists>reply w'. CmdZIncrBy args w = Some (reply, w') \<and> w_good n w' \<and> resp_value reply"
    using w_good_less [OF g, of n] by (auto simp: CmdZIncrBy_def resp_encoders split: option.splits)
qed

lemma handler_ZRank: "handler_ok (CmdZRankGeneric rv)"
proof (rule handler_okI)
  fix args :: "string list" and w :: world and n :: nat assume g: "w_good (n + length args) w"
  have "\<exists>k. ZSet_Rank (args ! 2) z = Some k" if "zset_at m key r z w" for m key r z w
    using that ZSet_Rank_rep unfolding zset_at_def by blast
  then show "\<exists>reply w'. CmdZRankGeneric rv args w = Some (reply, w') \<and> w_good (n + length args) w' \<and> resp_value reply"
    using g by (fastforce simp: CmdZRankGeneric_def resp_encoders intro!: with_zset_ok [OF g] split: option.splits)
qed

text \<open>The indices \<open>ZRANGE\<close> means: a negative index counts from the end, both are clipped.\<close>

definition norm_start :: "int \<Rightarrow> nat \<Rightarrow> int" where
  "norm_start i n = max 0 (if i < 0 then i + int n else i)"

definition norm_stop :: "int \<Rightarrow> nat \<Rightarrow> int" where
  "norm_stop i n = (let s = (if i < 0 then i + int n else i) in if s \<ge> int n then int n - 1 else s)"

lemma NormalizeRange_norm:
  "NormalizeRange start stop n =
     (if norm_start start n \<le> norm_stop stop n then Some (of_int (norm_start start n), of_int (norm_stop stop n)) else None)"
  by (auto simp: NormalizeRange_def norm_start_def norm_stop_def Let_def max_def)

lemma NormalizeRange_bounds:
  assumes "NormalizeRange start stop sz = Some (lo, hi)" "sz \<le> sl_max"
  shows "unat lo = nat (norm_start start sz) \<and> unat hi = nat (norm_stop stop sz)
    \<and> unat lo \<le> unat hi \<and> unat hi < sz"
proof -
  let ?a = "norm_start start sz" let ?b = "norm_stop stop sz"
  from assms(1) have "?a \<le> ?b" "lo = of_int ?a" "hi = of_int ?b"
    by (auto simp: NormalizeRange_norm split: if_splits)
  moreover have r: "0 \<le> ?a" "?b < int sz" by (simp_all add: norm_start_def norm_stop_def Let_def)
  ultimately have "lo = of_nat (nat ?a)" "hi = of_nat (nat ?b)" by simp_all
  moreover have "nat ?a \<le> nat ?b" "nat ?b < sz" using r \<open>?a \<le> ?b\<close> by auto
  ultimately show ?thesis using assms(2) by (simp add: unat_of_nat_u64)
qed

lemma handler_ZRange: "handler_ok (CmdZRangeGeneric rv)"
proof (rule handler_okI)
  fix args :: "string list" and w :: world and n :: nat assume g: "w_good (n + length args) w"
  let ?f = "\<lambda>ws start stop r z w. case NormalizeRange start stop (ZSet_Size z) of
        None \<Rightarrow> Some (EncodeArrayHeader 0 [], w)
      | Some (lo, hi) \<Rightarrow>
          do { nds \<leftarrow> ZSet_RangeByRank lo hi z;
               Some (encode_nodes ws (if rv then rev nds else nds), w) }"
  have "\<exists>reply w'. ?f ws start stop r z w = Some (reply, w') \<and> w_good (n + length args) w' \<and> resp_value reply"
    if gw: "w_good (n + length args) w" and za: "zset_at (n + length args) (args ! 1) r z w" for ws start stop r z w
  proof (cases "NormalizeRange start stop (ZSet_Size z)")
    case None
    have "resp_value (EncodeArrayHeader 0 [])" using resp_array [of "[]"] by (simp add: resp_EncodeBulks)
    with None gw show ?thesis by simp
  next
    case (Some x)
    obtain lo hi where x: "x = (lo, hi)" by (cases x) auto
    from za obtain f where f: "zset_rep z f" "ZSet_Size z \<le> sl_max" by (auto simp: zset_at_def)
    from NormalizeRange_bounds [OF _ f(2)] Some x have "unat hi < 18446744073709551615" using f(2) by fastforce
    with ZSet_RangeByRank_rep [OF f(1), of hi lo] obtain nds where "ZSet_RangeByRank lo hi z = Some nds" by blast
    with Some x gw show ?thesis by (simp add: resp_nodes)
  qed
  then have "\<exists>reply w'. with_zset (args ! 1) False (?f ws start stop) w = Some (reply, w')
      \<and> w_good (n + length args) w' \<and> resp_value reply" for ws start stop
    by (intro with_zset_ok [OF g]) auto
  then show "\<exists>reply w'. CmdZRangeGeneric rv args w = Some (reply, w') \<and> w_good (n + length args) w' \<and> resp_value reply"
    using g by (auto simp: CmdZRangeGeneric_def resp_encoders split: option.splits)
qed

lemma handler_ZRangeByScore [rl_inv]: "handler_ok CmdZRangeByScore"
proof (rule handler_okI)
  fix args :: "string list" and w :: world and n :: nat assume g: "w_good (n + length args) w"
  let ?f = "\<lambda>ws mn mx a b r z w. do { nds \<leftarrow> ZSet_RangeByScore mn mx a b z; Some (encode_nodes ws nds, w) }"
  have "\<exists>reply w'. ?f ws mn mx a b r z w = Some (reply, w') \<and> w_good (n + length args) w' \<and> resp_value reply"
    if gw: "w_good (n + length args) w" and za: "zset_at (n + length args) (args ! 1) r z w" for ws mn mx a b r z and w :: world
  proof -
    from za obtain f where "zset_rep z f" by (auto simp: zset_at_def)
    from ZSet_RangeByScore_rep [OF this] obtain nds where "ZSet_RangeByScore mn mx a b z = Some nds" by blast
    with gw show ?thesis by (simp add: resp_nodes)
  qed
  then have "\<exists>reply w'. with_zset (args ! 1) False (?f ws mn mx a b) w = Some (reply, w')
      \<and> w_good (n + length args) w' \<and> resp_value reply" for ws mn mx a b
    by (intro with_zset_ok [OF g]) auto
  then show "\<exists>reply w'. CmdZRangeByScore args w = Some (reply, w') \<and> w_good (n + length args) w' \<and> resp_value reply"
    using g by (auto simp: CmdZRangeByScore_def resp_encoders split: option.splits)
qed

lemma handler_ZCount [rl_inv]: "handler_ok CmdZCount"
proof (rule handler_okI)
  fix args :: "string list" and w :: world and n :: nat assume g: "w_good (n + length args) w"
  let ?f = "\<lambda>mn mx a b z. do { nds \<leftarrow> ZSet_RangeByScore mn mx a b z; Some (EncodeInteger (int (length nds)) []) }"
  have "\<exists>out. ?f mn mx a b z = Some out \<and> resp_value out" if "zset_rep z fm" for mn mx a b z fm
    using ZSet_RangeByScore_rep [OF that, of mn mx a b] by (auto simp: resp_encoders)
  then have "\<exists>reply w'. read_zset (args ! 1) (?f mn mx a b) w = Some (reply, w')
      \<and> w_good (n + length args) w' \<and> resp_value reply" for mn mx a b
    by (intro read_zset_ok [OF g])
  then show "\<exists>reply w'. CmdZCount args w = Some (reply, w') \<and> w_good (n + length args) w' \<and> resp_value reply"
    using g by (auto simp: CmdZCount_def resp_encoders split: option.splits)
qed

lemma remove_members_ok:
  "zset_rep z f \<Longrightarrow> \<exists>k z' f'. remove_members ms z = Some (k, z') \<and> zset_rep z' f' \<and> ZSet_Size z' \<le> ZSet_Size z"
proof (induction ms arbitrary: z f)
  case (Cons m ms)
  from ZSet_Remove_rep [OF Cons.prems, of m] obtain z1 where
    r: "ZSet_Remove m z = Some (f m \<noteq> None, z1)" "zset_rep z1 (f(m := None))" by blast
  have "card (dom (f(m := None))) \<le> card (dom f)"
    using zset_rep_finite [OF Cons.prems] by (intro card_mono) auto
  then have "ZSet_Size z1 \<le> ZSet_Size z" using zset_rep_size [OF Cons.prems] zset_rep_size [OF r(2)] by simp
  with Cons.IH [OF r(2)] r(1) show ?case by fastforce
qed auto

lemma handler_ZRem [rl_inv]: "handler_ok CmdZRem"
proof (rule handler_okI)
  fix args :: "string list" and w :: world and n :: nat assume g: "w_good (n + length args) w"
  let ?f = "\<lambda>r z w. do { (removed, z) \<leftarrow> remove_members (drop 2 args) z;
             let w = set_zset r z w;
             let w = w\<lparr>w_store := RemoveIfEmptyZSet (args ! 1) (w_store w)\<rparr>;
             Some (EncodeInteger removed [], if removed > 0 then Persist args w else w) }"
  have "\<exists>reply w'. ?f r z w = Some (reply, w') \<and> w_good (n + length args) w' \<and> resp_value reply"
    if gw: "w_good (n + length args) w" and za: "zset_at (n + length args) (args ! 1) r z w" for r z and w :: world
  proof -
    from za obtain f where f: "zset_rep z f" "ZSet_Size z + (n + length args) \<le> sl_max" by (auto simp: zset_at_def)
    from remove_members_ok [OF f(1), of "drop 2 args"] obtain k z' f' where
      r: "remove_members (drop 2 args) z = Some (k, z')" "zset_rep z' f'" "ZSet_Size z' \<le> ZSet_Size z" by blast
    have "w_good (n + length args) (set_zset r z' w)"
      by (rule w_good_set_zset [OF gw za r(2)]) (use r(3) f(2) in linarith)
    then have "good (n + length args) (RemoveIfEmptyZSet (args ! 1) (w_store (set_zset r z' w)))"
      "clock_ok (w_clock (set_zset r z' w))"
      using good_RemoveIfEmpty by (simp_all add: w_good_def)
    with r(1) show ?thesis by (simp add: resp_encoders Let_def)
  qed
  then have "\<exists>reply w'. with_zset (args ! 1) False ?f w = Some (reply, w') \<and> w_good (n + length args) w' \<and> resp_value reply"
    by (intro with_zset_ok [OF g]) auto
  then show "\<exists>reply w'. CmdZRem args w = Some (reply, w') \<and> w_good (n + length args) w' \<and> resp_value reply"
    using g by (auto simp: CmdZRem_def resp_encoders)
qed

subsection \<open>The table\<close>

lemma table_ok: "(name, h, b) \<in> set kCommandTable \<Longrightarrow> handler_ok h"
  using handler_IncrBy [of False] handler_IncrBy [of True] handler_Expire [of "''expire''"] handler_Expire [of "''pexpire''"]
    handler_Ttl handler_ZRank handler_ZRange
  by (auto simp: kCommandTable_def rl_inv CmdIncr_def CmdDecr_def CmdDecrBy_def CmdExpire_def CmdPExpire_def
      CmdTtl_def CmdPTtl_def CmdZRank_def CmdZRevRank_def CmdZRange_def CmdZRevRange_def)

definition known :: "string list \<Rightarrow> bool" where
  "known args \<longleftrightarrow> map_of kCommandTable (ToLowerAscii (hd args)) \<noteq> None"

lemma Execute_ok:
  assumes g: "w_good (n + length args) w" and name: "args \<noteq> [] \<Longrightarrow> known args \<or> line_ok (hd args)"
  shows "\<exists>reply w'. Execute args w = Some (reply, w') \<and> w_good n w' \<and> resp_value reply"
proof (cases "args = []")
  case True
  with g show ?thesis by (simp add: Execute_def resp_encoders)
next
  case False
  let ?w = "w\<lparr>w_stats := (w_stats w)\<lparr>st_commands := st_commands (w_stats w) + 1\<rparr>\<rparr>"
  show ?thesis
  proof (cases "map_of kCommandTable (ToLowerAscii (hd args))")
    case None
    with name False have "line_ok (hd args)" by (simp add: known_def)
    with None False w_good_less [OF g, of n] show ?thesis by (simp add: Execute_def Let_def resp_encoders)
  next
    case (Some hb)
    obtain h b where hb: "hb = (h, b)" by (cases hb) auto
    have "handler_ok h" using table_ok map_of_SomeD Some hb by fast
    moreover have "length (ToLowerAscii (hd args) # tl args) = length args" using False by simp
    ultimately have "\<exists>reply w'. h (ToLowerAscii (hd args) # tl args) ?w = Some (reply, w') \<and> w_good n w' \<and> resp_value reply"
      using g unfolding handler_ok_def by (metis list.discI w_good_cong(1))
    then show ?thesis using Some hb False by (simp add: Execute_def Let_def)
  qed
qed

end
