(* ===== verification/Connection_Facts.thy ===== *)
theory Connection_Facts
  imports Connection Command_Inv
begin

section \<open>What a connection guarantees\<close>

text \<open>
  The bytes still to be sent are \<open>pending\<close>, the bytes received and not yet parsed \<open>unread\<close>.  The
  write path: no byte is lost, repeated or reordered whatever the kernel does, and the writable event
  is subscribed exactly while something is pending.  The read path: commands are executed in the
  order they were sent, each gets one reply, and the replies leave in that order.
\<close>

subsection \<open>The output queue\<close>

definition pending :: "connection \<Rightarrow> string" where
  "pending c = drop (cn_offset c) (concat (cn_output c))"

definition unread :: "connection \<Rightarrow> string" where
  "unread c = drop (pos (cn_parser c)) (buf (cn_parser c))"

definition conn_ok :: "connection \<Rightarrow> bool" where
  "conn_ok c \<longleftrightarrow> (\<forall>r\<in>set (cn_output c). r \<noteq> []) \<and> cn_bytes c = length (pending c)
     \<and> (if cn_output c = [] then cn_offset c = 0 else cn_offset c < length (hd (cn_output c)))
     \<and> pos (cn_parser c) \<le> length (buf (cn_parser c))"

lemma conn_ok_pending: "conn_ok c \<Longrightarrow> pending c = [] \<longleftrightarrow> cn_output c = []"
  by (cases "cn_output c") (auto simp: conn_ok_def pending_def)

lemma push_reply_ok:
  assumes "conn_ok c" "r \<noteq> []"
  shows "conn_ok (push_reply r c)" "pending (push_reply r c) = pending c @ r"
proof -
  have le: "cn_offset c \<le> length (concat (cn_output c))"
    using assms(1) by (cases "cn_output c") (auto simp: conn_ok_def)
  then show p: "pending (push_reply r c) = pending c @ r" by (simp add: pending_def push_reply_def)
  show "conn_ok (push_reply r c)" using assms p
    by (cases "cn_output c") (auto simp: conn_ok_def push_reply_def pending_def)
qed

lemma conn_ok_cong [simp]:
  "conn_ok (c\<lparr>cn_close_after := b\<rparr>) = conn_ok c" "conn_ok (c\<lparr>cn_events := e\<rparr>) = conn_ok c" "conn_ok (c\<lparr>cn_handled := h\<rparr>) = conn_ok c"
  "conn_ok (MarkClosed c) = conn_ok c" "conn_ok (EnableWriteIfNeeded c) = conn_ok c" "conn_ok (DisableWriteIfIdle c) = conn_ok c"
  by (simp_all add: conn_ok_def pending_def MarkClosed_def EnableWriteIfNeeded_def DisableWriteIfIdle_def)

lemma pending_cong [simp]:
  "pending (c\<lparr>cn_close_after := b\<rparr>) = pending c" "pending (c\<lparr>cn_parser := p\<rparr>) = pending c" "pending (c\<lparr>cn_handled := h\<rparr>) = pending c"
  "pending (MarkClosed c) = pending c" "pending (EnableWriteIfNeeded c) = pending c" "pending (DisableWriteIfIdle c) = pending c"
  by (simp_all add: pending_def MarkClosed_def EnableWriteIfNeeded_def DisableWriteIfIdle_def)

lemma closing_fields [simp]:
  "cn_closed (MarkClosed c)" "cn_output (MarkClosed c) = cn_output c" "cn_parser (MarkClosed c) = cn_parser c"
  "cn_close_after (MarkClosed c) = cn_close_after c" "cn_handled (MarkClosed c) = cn_handled c"
  "cn_closed (EnableWriteIfNeeded c) = cn_closed c" "cn_output (EnableWriteIfNeeded c) = cn_output c"
  "cn_parser (EnableWriteIfNeeded c) = cn_parser c" "cn_close_after (EnableWriteIfNeeded c) = cn_close_after c"
  "cn_handled (EnableWriteIfNeeded c) = cn_handled c"
  "cn_closed (DisableWriteIfIdle c) = cn_closed c" "cn_output (DisableWriteIfIdle c) = cn_output c"
  "cn_parser (DisableWriteIfIdle c) = cn_parser c" "cn_close_after (DisableWriteIfIdle c) = cn_close_after c"
  "cn_handled (DisableWriteIfIdle c) = cn_handled c"
  by (simp_all add: MarkClosed_def EnableWriteIfNeeded_def DisableWriteIfIdle_def)

text \<open>The writable event is subscribed.\<close>

definition wants_write :: "connection \<Rightarrow> bool" where
  "wants_write c \<longleftrightarrow> cn_events c AND kEventWritable \<noteq> 0"

lemma mask_laws: "(e OR m) AND m = m" "(e AND NOT m) AND m = 0" for e m :: u32
  by (rule bit_word_eqI; auto simp: bit_simps)+

lemma wants_write_simps [simp]:
  "wants_write (EnableWriteIfNeeded c)" "cn_output c = [] \<Longrightarrow> \<not> wants_write (DisableWriteIfIdle c)"
  "wants_write (MarkClosed c) = wants_write c" "wants_write (c\<lparr>cn_close_after := b\<rparr>) = wants_write c"
  by (auto simp: wants_write_def EnableWriteIfNeeded_def DisableWriteIfIdle_def MarkClosed_def mask_laws mask_laws(2) [of _ kEventWritable, simplified])

text \<open>A result of \<open>send\<close> after which the connection is given up.\<close>

definition send_bad :: "send_result \<Rightarrow> bool" where
  "send_bad r \<longleftrightarrow> r = SendErr \<or> r = Sent 0"

text \<open>One successful \<open>send\<close>.\<close>

definition advance :: "nat \<Rightarrow> connection \<Rightarrow> connection" where
  "advance n c =
     (let c' = c\<lparr>cn_offset := cn_offset c + n, cn_bytes := cn_bytes c - n\<rparr> in
      if cn_offset c + n \<ge> length (hd (cn_output c)) then c'\<lparr>cn_output := tl (cn_output c), cn_offset := 0\<rparr> else c')"

lemma advance_ok:
  assumes "conn_ok c" "cn_output c = front # rest" "n \<le> length front - cn_offset c" "0 < n"
  shows "conn_ok (advance n c)" "pending c = take n (drop (cn_offset c) front) @ pending (advance n c)"
proof -
  have o: "cn_offset c < length front" using assms(1,2) by (simp add: conn_ok_def)
  have p: "pending (advance n c) = drop (cn_offset c + n) front @ concat rest"
    using assms(2,3) o by (auto simp: advance_def pending_def Let_def)
  have q: "pending c = drop (cn_offset c) front @ concat rest" using assms(2) o by (simp add: pending_def)
  show e: "pending c = take n (drop (cn_offset c) front) @ pending (advance n c)"
    unfolding p q using append_take_drop_id [of n "drop (cn_offset c) front"] by (simp add: add.commute)
  have "length (pending (advance n c)) = cn_bytes c - n"
    using e assms(1,3) o by (simp add: conn_ok_def)
  moreover have "cn_bytes (advance n c) = cn_bytes c - n" by (simp add: advance_def Let_def)
  moreover have "if cn_output (advance n c) = [] then cn_offset (advance n c) = 0 else cn_offset (advance n c) < length (hd (cn_output (advance n c)))"
    using assms(1,2) by (cases rest) (auto simp: advance_def Let_def conn_ok_def)
  ultimately show "conn_ok (advance n c)" using assms(1,2)
    by (auto simp: conn_ok_def advance_def Let_def split: if_splits)
qed

lemma advance_fields [simp]:
  "cn_closed (advance n c) = cn_closed c" "cn_parser (advance n c) = cn_parser c" "cn_close_after (advance n c) = cn_close_after c"
  "cn_events (advance n c) = cn_events c" "cn_handled (advance n c) = cn_handled c"
  by (simp_all add: advance_def Let_def)

lemma write_queue_unfold:
  "write_queue c s =
     (case cn_output c of
        [] \<Rightarrow> (if cn_close_after c then MarkClosed (DisableWriteIfIdle c) else DisableWriteIfIdle c, s)
      | front # rest \<Rightarrow>
          (case sk_sends s of
             [] \<Rightarrow> (EnableWriteIfNeeded c, s)
           | SendAgain # rs \<Rightarrow> (EnableWriteIfNeeded c, s\<lparr>sk_sends := rs\<rparr>)
           | SendIntr # rs \<Rightarrow> write_queue c (s\<lparr>sk_sends := rs\<rparr>)
           | SendErr # rs \<Rightarrow> (MarkClosed c, s\<lparr>sk_sends := rs\<rparr>)
           | Sent k # rs \<Rightarrow>
               if min k (length front - cn_offset c) = 0 then (MarkClosed c, s\<lparr>sk_sends := rs\<rparr>)
               else write_queue (advance (min k (length front - cn_offset c)) c)
                      (s\<lparr>sk_sends := rs, sk_sent := sk_sent s @ take (min k (length front - cn_offset c)) (drop (cn_offset c) front)\<rparr>)))"
  by (subst write_queue.simps) (auto simp: advance_def Let_def split: list.split send_result.split)

lemma write_queue_ok:
  assumes "conn_ok c" "write_queue c s = (c', s')" "\<not> cn_closed c"
  shows "conn_ok c' \<and> sk_sent s' @ pending c' = sk_sent s @ pending c \<and> sk_recvs s' = sk_recvs s
     \<and> cn_parser c' = cn_parser c \<and> cn_close_after c' = cn_close_after c \<and> cn_handled c' = cn_handled c
     \<and> (\<not> cn_closed c' \<longrightarrow> (wants_write c' \<longleftrightarrow> cn_output c' \<noteq> []))
     \<and> (cn_closed c' \<longrightarrow> (\<exists>r\<in>set (sk_sends s). send_bad r) \<or> cn_close_after c \<and> cn_output c' = [])
     \<and> (\<not> cn_closed c' \<longrightarrow> cn_close_after c \<longrightarrow> cn_output c' \<noteq> [])"
  using assms
proof (induction "length (sk_sends s)" arbitrary: c s rule: less_induct)
  case less
  show ?case
  proof (cases "cn_output c")
    case Nil
    then show ?thesis using less.prems by (subst (asm) write_queue_unfold) (auto split: if_splits)
  next
    case (Cons front rest)
    note out = Cons
    have o: "cn_offset c < length front" using less.prems(1) out by (simp add: conn_ok_def)
    show ?thesis
    proof (cases "sk_sends s")
      case Nil
      then show ?thesis using less.prems out by (subst (asm) write_queue_unfold) auto
    next
      case (Cons r rs)
      show ?thesis
      proof (cases r)
        case (Sent k)
        let ?n = "min k (length front - cn_offset c)"
        let ?s = "s\<lparr>sk_sends := rs, sk_sent := sk_sent s @ take ?n (drop (cn_offset c) front)\<rparr>"
        show ?thesis
        proof (cases "?n = 0")
          case True
          then have "k = 0" using o by simp
          then show ?thesis using less.prems out Cons Sent True
            by (subst (asm) write_queue_unfold) (auto simp: send_bad_def)
        next
          case False
          note a = advance_ok [OF less.prems(1) out, of ?n]
          have w: "write_queue (advance ?n c) ?s = (c', s')"
            using less.prems(2) out Cons Sent False by (subst (asm) write_queue_unfold) simp
          have "length (sk_sends ?s) < length (sk_sends s)" using Cons by simp
          from less.hyps [OF this _ w] a less.prems(3) False Cons show ?thesis by auto
        qed
      next
        case SendIntr
        have w: "write_queue c (s\<lparr>sk_sends := rs\<rparr>) = (c', s')"
          using less.prems(2) out Cons SendIntr by (subst (asm) write_queue_unfold) simp
        have "length (sk_sends (s\<lparr>sk_sends := rs\<rparr>)) < length (sk_sends s)" using Cons by simp
        from less.hyps [OF this less.prems(1) w] less.prems(3) Cons show ?thesis by auto
      qed (use less.prems out Cons in \<open>subst (asm) write_queue_unfold, auto simp: send_bad_def\<close>)+
    qed
  qed
qed

lemma HandleWrite_ok:
  assumes "conn_ok c" "HandleWrite c s = (c', s')"
  shows "conn_ok c' \<and> sk_sent s' @ pending c' = sk_sent s @ pending c \<and> sk_recvs s' = sk_recvs s
     \<and> cn_parser c' = cn_parser c \<and> cn_close_after c' = cn_close_after c \<and> cn_handled c' = cn_handled c
     \<and> (cn_closed c \<longrightarrow> c' = c \<and> s' = s)
     \<and> (\<not> cn_closed c' \<longrightarrow> (wants_write c' \<longleftrightarrow> cn_output c' \<noteq> []))
     \<and> (\<not> cn_closed c \<and> cn_closed c' \<longrightarrow> (\<exists>r\<in>set (sk_sends s). send_bad r) \<or> cn_close_after c \<and> cn_output c' = [])"
  using write_queue_ok [OF assms(1), of s c' s'] assms by (cases "cn_closed c") (auto simp: HandleWrite_def)

text \<open>With room in the kernel everything is sent.\<close>

lemma write_queue_drains:
  "conn_ok c \<Longrightarrow> \<not> cn_closed c \<Longrightarrow> write_queue c s = (c', s') \<Longrightarrow> \<forall>r\<in>set (sk_sends s). \<exists>k>0. r = Sent k \<Longrightarrow>
     length (pending c) \<le> length (sk_sends s) \<Longrightarrow> cn_output c' = []"
proof (induction "length (sk_sends s)" arbitrary: c s rule: less_induct)
  case less
  show ?case
  proof (cases "cn_output c")
    case Nil
    then show ?thesis using less.prems by (subst (asm) write_queue_unfold) (auto split: if_splits)
  next
    case (Cons front rest)
    note out = Cons
    then have "pending c \<noteq> []" using conn_ok_pending [OF less.prems(1)] by simp
    then obtain r rs where rs: "sk_sends s = r # rs" using less.prems(5) by (cases "sk_sends s") auto
    then obtain k where k: "r = Sent k" "0 < k" using less.prems(4) by auto
    let ?n = "min k (length front - cn_offset c)"
    let ?s = "s\<lparr>sk_sends := rs, sk_sent := sk_sent s @ take ?n (drop (cn_offset c) front)\<rparr>"
    have o: "cn_offset c < length front" using less.prems(1) out by (simp add: conn_ok_def)
    then have n: "0 < ?n" using k by simp
    note a = advance_ok [OF less.prems(1) out _ n]
    have w: "write_queue (advance ?n c) ?s = (c', s')"
      using less.prems(3) out rs k n by (subst (asm) write_queue_unfold) simp
    have "length (pending (advance ?n c)) \<le> length (sk_sends ?s)"
      using arg_cong [OF a(2), of length] less.prems(5) n rs o by (simp del: min_less_iff_conj)
    then show ?thesis using less.hyps [OF _ a(1) _ w] less.prems(2,4) rs by simp
  qed
qed

subsection \<open>Commands in, replies out\<close>

text \<open>The commands executed one after the other, with the replies they write.\<close>

fun serve :: "string list list \<Rightarrow> world \<Rightarrow> (string list \<times> world) option" where
  "serve [] w = Some ([], w)"
| "serve (a # as) w =
     do { (r, w) \<leftarrow> Execute a w; (rs, w) \<leftarrow> serve as (AddBytesOut (length r) w); Some (r # rs, w) }"

lemma serve_append:
  "serve (xs @ ys) w = (case serve xs w of None \<Rightarrow> None
     | Some (as, w1) \<Rightarrow> (case serve ys w1 of None \<Rightarrow> None | Some (bs, w2) \<Rightarrow> Some (as @ bs, w2)))"
proof (induction xs arbitrary: w)
  case (Cons a xs)
  show ?case
  proof (cases "Execute a w")
    case (Some p)
    then show ?thesis using Cons.IH [of "AddBytesOut (length (fst p)) (snd p)"]
      by (cases p) (auto split: option.splits)
  qed simp
qed (simp split: option.split)

text \<open>What the client may send: commands within the limits of the protocol, whose name is known or
  at least one line.\<close>

definition request_ok :: "string list \<Rightarrow> bool" where
  "request_ok args \<longleftrightarrow> args_ok args \<and> (known args \<or> line_ok (hd args))"

definition cost :: "string list list \<Rightarrow> nat" where
  "cost cmds = sum_list (map length cmds)"

lemma cost_simps [simp]: "cost [] = 0" "cost (a # as) = length a + cost as"
  by (simp_all add: cost_def)

lemma resp_value_nonempty: "resp_value r \<Longrightarrow> r \<noteq> []"
  by (cases r rule: resp_value.cases) auto

lemma AddBytes_fields [simp]:
  "w_good n (AddBytesOut k w) = w_good n w" "w_good n (AddBytesIn k w) = w_good n w" "w_good n (IncProtocolErrors w) = w_good n w"
  by (simp_all add: AddBytesOut_def AddBytesIn_def IncProtocolErrors_def)

lemma Execute_request:
  assumes "w_good (length a + n) w" "request_ok a"
  obtains r w' where "Execute a w = Some (r, w')" "w_good n w'" "resp_value r"
  using Execute_ok [of n a w] assms by (auto simp: request_ok_def add.commute)

lemma serve_ok:
  "w_good (n + cost cmds) w \<Longrightarrow> list_all request_ok cmds \<Longrightarrow>
     \<exists>rs w'. serve cmds w = Some (rs, w') \<and> w_good n w' \<and> length rs = length cmds \<and> list_all resp_value rs"
proof (induction cmds arbitrary: w)
  case (Cons a as)
  have "w_good (length a + (n + cost as)) w" using Cons.prems(1) by (simp add: add.left_commute add.commute)
  then obtain r w1 where r: "Execute a w = Some (r, w1)" "w_good (n + cost as) w1" "resp_value r"
    by (rule Execute_request) (use Cons.prems(2) in auto)
  with Cons.IH [of "AddBytesOut (length r) w1"] Cons.prems(2) show ?case by fastforce
qed simp

text \<open>The bytes of a stream of commands that have arrived so far.\<close>

abbreviation stream :: "string list list \<Rightarrow> string" where
  "stream cmds \<equiv> concat (map enc cmds)"

lemma unread_parser:
  assumes "pos p \<le> length (buf p)"
  shows "p = \<lparr>buf = take (pos p) (buf p) @ drop (pos p) (buf p), pos = length (take (pos p) (buf p))\<rparr>"
  using assms by (cases p) simp

text \<open>Within the limit of the output buffer, \<open>ProcessInput\<close> executes exactly the complete commands.\<close>

lemma Next_stream:
  assumes "conn_ok c" "list_all args_ok cmds" "prefix (unread c) (stream cmds)"
  obtains
    (more) "RespParser_Next (cn_parser c) = (NextFalse, cn_parser c)" "cmds = [] \<and> unread c = [] \<or> cmds \<noteq> [] \<and> strict_prefix (unread c) (enc (hd cmds))"
  | (cmd) a rest p where "cmds = a # rest" "RespParser_Next (cn_parser c) = (NextCmd a, p)" "args_ok a" "a \<noteq> []"
      "unread c = enc a @ drop (pos p) (buf p)" "prefix (drop (pos p) (buf p)) (stream rest)" "pos p \<le> length (buf p)"
proof -
  have le: "pos (cn_parser c) \<le> length (buf (cn_parser c))" using assms(1) by (simp add: conn_ok_def)
  let ?pre = "take (pos (cn_parser c)) (buf (cn_parser c))"
  have p: "cn_parser c = \<lparr>buf = ?pre @ unread c, pos = length ?pre\<rparr>" using unread_parser [OF le] by (simp add: unread_def)
  show ?thesis
  proof (cases cmds)
    case Nil
    then have u: "unread c = []" using assms(3) by simp
    then have "RespParser_Next (cn_parser c) = (NextFalse, cn_parser c)"
      by (subst (1 2) p) (simp add: RespParser_Next_def Ensure_def)
    with u Nil show ?thesis by (intro more) auto
  next
    case (Cons a rest)
    then have a: "args_ok a" using assms(2) by simp
    from assms(3) Cons have "prefix (unread c) (enc a @ stream rest)" by simp
    then have "strict_prefix (unread c) (enc a) \<or> (\<exists>q. unread c = enc a @ q \<and> prefix q (stream rest))"
      by (cases "unread c = enc a") (auto simp: prefix_append strict_prefix_def)
    then consider "strict_prefix (unread c) (enc a)" | q where "unread c = enc a @ q" "prefix q (stream rest)" by blast
    then show ?thesis
    proof cases
      case 1
      then have "RespParser_Next (cn_parser c) = (NextFalse, cn_parser c)"
        using RespParser_Next_cut [OF a 1, of ?pre] p by metis
      with 1 Cons show ?thesis by (intro more) auto
    next
      case (2 q)
      let ?p = "\<lparr>buf = ?pre @ enc a @ q, pos = length ?pre + length (enc a)\<rparr>"
      have "RespParser_Next (cn_parser c) = (NextCmd a, ?p)"
        using RespParser_Next_enc [OF a, of ?pre q] p 2(1) by metis
      moreover have "a \<noteq> []" using a by (simp add: args_ok_def)
      ultimately show ?thesis using 2 Cons a by (intro cmd [of a rest ?p]) auto
    qed
  qed
qed

text \<open>The reply of the next command is queued.\<close>

definition replied :: "resp_parser \<Rightarrow> string \<Rightarrow> connection \<Rightarrow> connection" where
  "replied p r c = push_reply r (c\<lparr>cn_parser := p, cn_handled := cn_handled c + 1\<rparr>)"

lemma ProcessInput_cmd:
  assumes "RespParser_Next (cn_parser c) = (NextCmd a, p)" "a \<noteq> []" "Execute a w = Some (r, w1)"
  shows "ProcessInput c w =
     (if cn_bytes (replied p r c) > kMaxOutputBuffer
      then Some ((replied p r c)\<lparr>cn_close_after := True\<rparr>, AddBytesOut (length r) w1)
      else ProcessInput (replied p r c) (AddBytesOut (length r) w1))"
  using assms by (subst ProcessInput.simps) (simp add: replied_def Let_def)

lemma ProcessInput_more:
  "RespParser_Next (cn_parser c) = (NextFalse, cn_parser c) \<Longrightarrow> ProcessInput c w = Some (c, w)"
  by (subst ProcessInput.simps) simp

lemma replied_ok:
  assumes "conn_ok c" "r \<noteq> []" "pos p \<le> length (buf p)"
  shows "conn_ok (replied p r c)" "pending (replied p r c) = pending c @ r" "unread (replied p r c) = drop (pos p) (buf p)"
    "cn_closed (replied p r c) = cn_closed c" "cn_close_after (replied p r c) = cn_close_after c"
    "cn_events (replied p r c) = cn_events c" "cn_handled (replied p r c) = cn_handled c + 1"
proof -
  let ?c = "c\<lparr>cn_parser := p, cn_handled := cn_handled c + 1\<rparr>"
  have "conn_ok ?c" "pending ?c = pending c" using assms by (simp_all add: conn_ok_def pending_def)
  then show "conn_ok (replied p r c)" "pending (replied p r c) = pending c @ r"
    using push_reply_ok [of ?c r] assms(2) by (simp_all add: replied_def)
qed (simp_all add: replied_def push_reply_def unread_def)

lemma ProcessInput_stream:
  assumes "conn_ok c" "list_all request_ok cmds" "prefix (unread c) (stream cmds)" "w_good (n + cost cmds) w"
  shows "\<exists>c' w' k rs. ProcessInput c w = Some (c', w') \<and> conn_ok c' \<and> k \<le> length cmds
     \<and> serve (take k cmds) w = Some (rs, w') \<and> length rs = k \<and> list_all resp_value rs
     \<and> w_good (n + cost (drop k cmds)) w'
     \<and> unread c = stream (take k cmds) @ unread c' \<and> prefix (unread c') (stream (drop k cmds))
     \<and> pending c' = pending c @ concat rs \<and> cn_closed c' = cn_closed c \<and> cn_events c' = cn_events c
     \<and> cn_handled c' = cn_handled c + of_nat k
     \<and> (cn_close_after c' = cn_close_after c \<and> (k < length cmds \<longrightarrow> strict_prefix (unread c') (enc (cmds ! k)))
        \<or> cn_close_after c' \<and> length (pending c') > kMaxOutputBuffer)"
  using assms
proof (induction cmds arbitrary: c w)
  case Nil
  from Nil.prems(3) have u: "unread c = []" by simp
  then have "RespParser_Next (cn_parser c) = (NextFalse, cn_parser c)"
    using Next_stream [OF Nil.prems(1), of "[]"] by auto
  from ProcessInput_more [OF this] Nil.prems u show ?case
    by (intro exI [of _ c] exI [of _ w] exI [of _ 0] exI [of _ "[]"]) simp
next
  case (Cons a cmds)
  have ok: "list_all args_ok (a # cmds)" using Cons.prems(2) by (auto simp: request_ok_def list_all_iff)
  show ?case
  proof (rule Next_stream [OF Cons.prems(1) ok Cons.prems(3)])
    assume m: "RespParser_Next (cn_parser c) = (NextFalse, cn_parser c)"
      "a # cmds = [] \<and> unread c = [] \<or> a # cmds \<noteq> [] \<and> strict_prefix (unread c) (enc (hd (a # cmds)))"
    from ProcessInput_more [OF m(1)] m(2) Cons.prems show ?case
      by (intro exI [of _ c] exI [of _ w] exI [of _ 0] exI [of _ "[]"]) simp
  next
    fix a' rest p
    assume m: "a # cmds = a' # rest" "RespParser_Next (cn_parser c) = (NextCmd a', p)" "args_ok a'" "a' \<noteq> []"
      "unread c = enc a' @ drop (pos p) (buf p)" "prefix (drop (pos p) (buf p)) (stream rest)" "pos p \<le> length (buf p)"
    have "w_good (length a + (n + cost cmds)) w" using Cons.prems(4) by (simp add: add.left_commute add.commute)
    then obtain r w1 where r: "Execute a w = Some (r, w1)" "w_good (n + cost cmds) w1" "resp_value r"
      by (rule Execute_request) (use Cons.prems(2) in auto)
    note rp = replied_ok [OF Cons.prems(1) resp_value_nonempty [OF r(3)] m(7)]
    let ?c = "replied p r c" and ?w = "AddBytesOut (length r) w1"
    have a: "a' = a" "rest = cmds" using m(1) by simp_all
    have P: "ProcessInput c w = (if cn_bytes ?c > kMaxOutputBuffer then Some (?c\<lparr>cn_close_after := True\<rparr>, ?w) else ProcessInput ?c ?w)"
      by (rule ProcessInput_cmd) (use m r a in auto)
    show ?case
    proof (cases "cn_bytes ?c > kMaxOutputBuffer")
      case True
      then have "length (pending ?c) > kMaxOutputBuffer" using rp(1) by (simp add: conn_ok_def)
      moreover have "serve (take 1 (a # cmds)) w = Some ([r], ?w)" using r(1) by simp
      ultimately show ?thesis using P True rp r m(5,6) a
        by (intro exI [of _ "?c\<lparr>cn_close_after := True\<rparr>"] exI [of _ ?w] exI [of _ 1] exI [of _ "[r]"])
          (simp add: unread_def)
    next
      case False
      have u: "prefix (unread ?c) (stream cmds)" using m(6) rp(3) a by simp
      from Cons.IH [OF rp(1) _ u, of ?w] Cons.prems(2) r(2) obtain c' w' k rs where
        ih: "ProcessInput ?c ?w = Some (c', w')" "conn_ok c'" "k \<le> length cmds"
          "serve (take k cmds) ?w = Some (rs, w')" "length rs = k" "list_all resp_value rs" "w_good (n + cost (drop k cmds)) w'"
          "unread ?c = stream (take k cmds) @ unread c'" "prefix (unread c') (stream (drop k cmds))"
          "pending c' = pending ?c @ concat rs" "cn_closed c' = cn_closed ?c" "cn_events c' = cn_events ?c"
          "cn_handled c' = cn_handled ?c + of_nat k"
          "cn_close_after c' = cn_close_after ?c \<and> (k < length cmds \<longrightarrow> strict_prefix (unread c') (enc (cmds ! k)))
            \<or> cn_close_after c' \<and> length (pending c') > kMaxOutputBuffer"
        by auto
      have "serve (take (Suc k) (a # cmds)) w = Some (r # rs, w')" using r(1) ih(4) by simp
      moreover have "unread c = stream (take (Suc k) (a # cmds)) @ unread c'"
        using m(5) rp(3) ih(8) a by simp
      ultimately show ?thesis using P False ih rp r(3)
        by (intro exI [of _ c'] exI [of _ w'] exI [of _ "Suc k"] exI [of _ "r # rs"]) (auto simp: add.assoc)
    qed
  qed
qed

subsection \<open>One event\<close>

text \<open>The kernel delivers data (and interrupted calls), then has nothing more.\<close>

definition quiet :: "recv_result list \<Rightarrow> bool" where
  "quiet rs \<longleftrightarrow> (\<forall>r\<in>set rs. r = RecvIntr \<or> (\<exists>d. r = RecvData d))"

fun data :: "recv_result list \<Rightarrow> string" where
  "data [] = []"
| "data (RecvData d # rs) = d @ data rs"
| "data (_ # rs) = data rs"

lemma recv_loop_quiet:
  "quiet rs \<Longrightarrow> recv_loop rs c w =
     (RecvAgain, [], c\<lparr>cn_parser := (cn_parser c)\<lparr>buf := buf (cn_parser c) @ data rs\<rparr>\<rparr>, AddBytesIn (length (data rs)) w)"
proof (induction rs arbitrary: c w)
  case (Cons r rs)
  then have q: "quiet rs" by (simp add: quiet_def)
  from Cons.prems consider "r = RecvIntr" | d where "r = RecvData d" by (auto simp: quiet_def)
  then show ?case
    by cases (use Cons.IH [OF q] in \<open>simp_all add: RespParser_Append_def AddBytesIn_def add.assoc\<close>)
qed (simp add: AddBytesIn_def)

lemma received_fields:
  assumes "conn_ok c"
  shows "conn_ok (c\<lparr>cn_parser := (cn_parser c)\<lparr>buf := buf (cn_parser c) @ d\<rparr>\<rparr>)"
    "unread (c\<lparr>cn_parser := (cn_parser c)\<lparr>buf := buf (cn_parser c) @ d\<rparr>\<rparr>) = unread c @ d"
  using assms by (simp_all add: conn_ok_def pending_def unread_def)

text \<open>The effect of one read, or one event, that executed \<open>k\<close> of the commands.\<close>

definition served ::
    "string list list \<Rightarrow> string \<Rightarrow> nat \<Rightarrow> connection \<Rightarrow> socket \<Rightarrow> world \<Rightarrow> nat \<Rightarrow> string list \<Rightarrow> connection \<Rightarrow> socket \<Rightarrow> world \<Rightarrow> bool"
  where
  "served cmds d n c s w k rs c' s' w' \<longleftrightarrow>
     conn_ok c' \<and> k \<le> length cmds \<and> length rs = k \<and> list_all resp_value rs
     \<and> serve (take k cmds) w = Some (rs, w') \<and> w_good (n + cost (drop k cmds)) w'
     \<and> unread c @ d = stream (take k cmds) @ unread c' \<and> prefix (unread c') (stream (drop k cmds))
     \<and> sk_sent s' @ pending c' = sk_sent s @ pending c @ concat rs
     \<and> (cn_close_after c' = cn_close_after c \<and> (k < length cmds \<longrightarrow> strict_prefix (unread c') (enc (cmds ! k))) \<or> cn_close_after c')
     \<and> (cn_closed c' \<longrightarrow> (\<exists>r\<in>set (sk_sends s). send_bad r) \<or> cn_close_after c')
     \<and> (\<not> cn_closed c' \<longrightarrow> (wants_write c' \<longleftrightarrow> cn_output c' \<noteq> []))
     \<and> (\<not> cn_close_after c \<and> length (pending c) + length (concat rs) \<le> kMaxOutputBuffer \<longrightarrow> \<not> cn_close_after c'
          \<and> (k < length cmds \<longrightarrow> strict_prefix (unread c') (enc (cmds ! k))))
     \<and> set (sk_sends s') \<subseteq> set (sk_sends s)"

lemma HandleWrite_sends: "HandleWrite c s = (c', s') \<Longrightarrow> set (sk_sends s') \<subseteq> set (sk_sends s)"
proof -
  have "write_queue c s = (c', s') \<Longrightarrow> set (sk_sends s') \<subseteq> set (sk_sends s)" for c s c' s'
  proof (induction "length (sk_sends s)" arbitrary: c s rule: less_induct)
    case less
    show ?case
    proof (cases "cn_output c")
      case Nil
      then show ?thesis using less.prems by (subst (asm) write_queue_unfold) auto
    next
      case (Cons front rest)
      note out = Cons
      show ?thesis
      proof (cases "sk_sends s")
        case Nil
        then show ?thesis using less.prems out by (subst (asm) write_queue_unfold) auto
      next
        case (Cons r rs)
        have "set (sk_sends s') \<subseteq> set (sk_sends t)" if "write_queue x t = (c', s')" "sk_sends t = rs" for x t
          by (rule less.hyps [OF _ that(1)]) (simp add: that(2) Cons)
        then show ?thesis using less.prems out Cons
          by (subst (asm) write_queue_unfold) (fastforce split: send_result.splits if_splits)
      qed
    qed
  qed
  then show "HandleWrite c s = (c', s') \<Longrightarrow> set (sk_sends s') \<subseteq> set (sk_sends s)"
    by (auto simp: HandleWrite_def split: if_splits)
qed

lemma HandleRead_served:
  assumes c: "conn_ok c" "\<not> cn_closed c" "wants_write c \<longleftrightarrow> cn_output c \<noteq> []"
    and r: "quiet (sk_recvs s)" "list_all request_ok cmds" "prefix (unread c @ data (sk_recvs s)) (stream cmds)"
    and l: "length (unread c @ data (sk_recvs s)) \<le> kMaxQueryBuffer" and g: "w_good (n + cost cmds) w"
  shows "\<exists>c' s' w' k rs. HandleRead c s w = Some (\<not> cn_closed c', c', s', w')
     \<and> served cmds (data (sk_recvs s)) n c s (AddBytesIn (length (data (sk_recvs s))) w) k rs c' s' w'"
proof -
  let ?d = "data (sk_recvs s)" and ?w = "AddBytesIn (length (data (sk_recvs s))) w"
  let ?c = "c\<lparr>cn_parser := (cn_parser c)\<lparr>buf := buf (cn_parser c) @ data (sk_recvs s)\<rparr>\<rparr>"
  let ?s = "s\<lparr>sk_recvs := []\<rparr>"
  note rf = received_fields [OF c(1), of ?d]
  have pf: "prefix (unread ?c) (stream cmds)" using r(3) rf(2) by simp
  have g': "w_good (n + cost cmds) ?w" using g by simp
  from ProcessInput_stream [OF rf(1) r(2) pf g'] obtain c1 w1 k rs where
    p: "ProcessInput ?c ?w = Some (c1, w1)" "conn_ok c1" "k \<le> length cmds"
      "serve (take k cmds) ?w = Some (rs, w1)" "length rs = k" "list_all resp_value rs" "w_good (n + cost (drop k cmds)) w1"
      "unread ?c = stream (take k cmds) @ unread c1" "prefix (unread c1) (stream (drop k cmds))"
      "pending c1 = pending ?c @ concat rs" "cn_closed c1 = cn_closed ?c" "cn_events c1 = cn_events ?c"
      "cn_close_after c1 = cn_close_after ?c \<and> (k < length cmds \<longrightarrow> strict_prefix (unread c1) (enc (cmds ! k)))
        \<or> cn_close_after c1 \<and> length (pending c1) > kMaxOutputBuffer"
    by blast
  have bl: "\<not> buffered (cn_parser ?c) > kMaxQueryBuffer"
    using l rf(2) by (simp add: buffered_def unread_def)
  obtain c2 s2 where h: "(if cn_output c1 \<noteq> [] then HandleWrite c1 ?s else (c1, ?s)) = (c2, s2)" by fastforce
  have run: "HandleRead c s w = Some (\<not> cn_closed c2, c2, s2, w1)"
    using bl p(1) h by (simp add: HandleRead_def recv_loop_quiet [OF r(1)] Let_def)
  have op: "\<not> cn_closed c1" using p(11) c(2) by simp
  have e: "cn_output c1 = [] \<Longrightarrow> cn_output c = []"
    using p(2,10) conn_ok_pending [OF p(2)] conn_ok_pending [OF c(1)] by simp
  have ww: "cn_output c1 = [] \<Longrightarrow> \<not> wants_write c1"
    using e c(3) p(12) by (simp add: wants_write_def)
  have "conn_ok c2 \<and> sk_sent s2 @ pending c2 = sk_sent s @ pending c1 \<and> cn_parser c2 = cn_parser c1
     \<and> cn_close_after c2 = cn_close_after c1 \<and> (\<not> cn_closed c2 \<longrightarrow> (wants_write c2 \<longleftrightarrow> cn_output c2 \<noteq> []))
     \<and> (cn_closed c2 \<longrightarrow> (\<exists>r\<in>set (sk_sends s). send_bad r) \<or> cn_close_after c1) \<and> set (sk_sends s2) \<subseteq> set (sk_sends s)"
  proof (cases "cn_output c1 = []")
    case True
    with h p(2) ww op show ?thesis by auto
  next
    case False
    with h have "HandleWrite c1 ?s = (c2, s2)" by simp
    from HandleWrite_ok [OF p(2) this] HandleWrite_sends [OF this] op show ?thesis by auto
  qed
  moreover from this have "unread c2 = unread c1" by (simp add: unread_def)
  ultimately have "served cmds ?d n c s ?w k rs c2 s2 w1"
    using p(3-10,13) rf(2) unfolding served_def by auto
  with run show ?thesis by blast
qed

text \<open>An event without error and hang-up; what it brings.\<close>

definition arrival :: "u32 \<Rightarrow> socket \<Rightarrow> string" where
  "arrival e s = (if e AND kEventReadable \<noteq> 0 then data (sk_recvs s) else [])"

definition reads :: "u32 \<Rightarrow> socket \<Rightarrow> world \<Rightarrow> world" where
  "reads e s w = (if e AND kEventReadable \<noteq> 0 then AddBytesIn (length (data (sk_recvs s))) w else w)"

lemma HandleEvent_served:
  assumes c: "conn_ok c" "\<not> cn_closed c" "wants_write c \<longleftrightarrow> cn_output c \<noteq> []"
    and r: "quiet (sk_recvs s)" "list_all request_ok cmds" "prefix (unread c @ arrival e s) (stream cmds)"
      "cmds = [] \<or> cn_close_after c \<or> strict_prefix (unread c) (enc (hd cmds))"
    and l: "length (unread c @ arrival e s) \<le> kMaxQueryBuffer" and g: "w_good (n + cost cmds) w"
    and e: "e AND (kEventError OR kEventHup) = 0"
  shows "\<exists>c' s' w' k rs. HandleEvent e c s w = Some (c', s', w') \<and> served cmds (arrival e s) n c s (reads e s w) k rs c' s' w'"
proof -
  let ?R = "if e AND kEventReadable \<noteq> 0 then HandleRead c s w else Some (True, c, s, w)"
  have "\<exists>c1 s1 w1 k rs. ?R = Some (\<not> cn_closed c1, c1, s1, w1) \<and> served cmds (arrival e s) n c s (reads e s w) k rs c1 s1 w1"
  proof (cases "e AND kEventReadable = 0")
    case True
    have "prefix (unread c) (stream cmds)" using r(3) True by (simp add: arrival_def)
    then have "served cmds [] n c s w 0 [] c s w"
      using c r(4) g by (auto simp: served_def hd_conv_nth)
    then show ?thesis using True c(2) by (auto simp: arrival_def reads_def)
  next
    case False
    then show ?thesis using HandleRead_served [OF c r(1,2) _ _ g] r(3) l by (auto simp: arrival_def reads_def)
  qed
  then obtain c1 s1 w1 k rs where
    R: "?R = Some (\<not> cn_closed c1, c1, s1, w1)" and sv: "served cmds (arrival e s) n c s (reads e s w) k rs c1 s1 w1"
    by blast
  have H: "HandleEvent e c s w = (if cn_closed c1 \<or> e AND kEventWritable = 0 then Some (c1, s1, w1)
      else let (c2, s2) = HandleWrite c1 s1 in Some (c2, s2, w1))"
    using R e c(2) unfolding HandleEvent_def by (auto split: prod.splits)
  show ?thesis
  proof (cases "cn_closed c1 \<or> e AND kEventWritable = 0")
    case True
    with H sv show ?thesis by auto
  next
    case False
    obtain c2 s2 where h: "HandleWrite c1 s1 = (c2, s2)" by (cases "HandleWrite c1 s1") auto
    have "conn_ok c1" using sv by (simp add: served_def)
    note w = HandleWrite_ok [OF this h] HandleWrite_sends [OF h]
    from w(1) have "unread c2 = unread c1" by (simp add: unread_def)
    with w sv False have "served cmds (arrival e s) n c s (reads e s w) k rs c2 s2 w1"
      unfolding served_def by auto
    with H False h show ?thesis by auto
  qed
qed

subsection \<open>The life of a connection\<close>

text \<open>A sequence of events: the mask, what the kernel has to receive, what it does with sends, and
  what the rest of the server (other clients, timers) did to the state before it.\<close>

type_synonym conn_event = "u32 \<times> recv_result list \<times> send_result list \<times> (world \<Rightarrow> world)"

fun conn_run :: "conn_event list \<Rightarrow> connection \<Rightarrow> socket \<Rightarrow> world \<Rightarrow> (connection \<times> socket \<times> world) option" where
  "conn_run [] c s w = Some (c, s, w)"
| "conn_run ((e, rs, ss, f) # es) c s w =
     do { (c, s, w) \<leftarrow> HandleEvent e c (s\<lparr>sk_recvs := rs, sk_sends := ss\<rparr>) (f w); conn_run es c s w }"

definition event_ok :: "conn_event \<Rightarrow> bool" where
  "event_ok ev \<longleftrightarrow> (case ev of (e, rs, ss, f) \<Rightarrow> quiet rs \<and> e AND (kEventError OR kEventHup) = 0
     \<and> (\<forall>n w. w_good n w \<longrightarrow> w_good n (f w)))"

fun event_data :: "conn_event \<Rightarrow> string" where
  "event_data (e, rs, ss, f) = (if e AND kEventReadable \<noteq> 0 then data rs else [])"

definition event_sends_ok :: "conn_event \<Rightarrow> bool" where
  "event_sends_ok ev \<longleftrightarrow> (\<forall>r\<in>set (fst (snd (snd ev))). \<not> send_bad r)"

text \<open>After \<open>D\<close> bytes of the stream: \<open>k\<close> commands have their replies.\<close>

definition conn_inv :: "string list list \<Rightarrow> nat \<Rightarrow> bool \<Rightarrow> string \<Rightarrow> nat \<Rightarrow> string list \<Rightarrow> connection \<Rightarrow> socket \<Rightarrow> world \<Rightarrow> bool" where
  "conn_inv cmds n sends D k rs c s w \<longleftrightarrow>
     conn_ok c \<and> k \<le> length cmds \<and> length rs = k \<and> list_all resp_value rs \<and> w_good (n + cost (drop k cmds)) w
     \<and> sk_sent s @ pending c = concat rs
     \<and> (cn_closed c \<longrightarrow> cn_close_after c \<or> \<not> sends)
     \<and> (\<not> cn_closed c \<longrightarrow> D = stream (take k cmds) @ unread c \<and> (wants_write c \<longleftrightarrow> cn_output c \<noteq> [])
          \<and> (cn_close_after c \<or> drop k cmds = [] \<or> strict_prefix (unread c) (enc (hd (drop k cmds)))))"

lemma servedD:
  assumes "served cmds d n c s w k rs c' s' w'"
  shows "conn_ok c'" "k \<le> length cmds" "length rs = k" "list_all resp_value rs" "w_good (n + cost (drop k cmds)) w'"
    "unread c @ d = stream (take k cmds) @ unread c'" "sk_sent s' @ pending c' = sk_sent s @ pending c @ concat rs"
    "cn_close_after c' \<or> k < length cmds \<longrightarrow> cn_close_after c' \<or> strict_prefix (unread c') (enc (cmds ! k))"
    "cn_closed c' \<Longrightarrow> (\<exists>r\<in>set (sk_sends s). send_bad r) \<or> cn_close_after c'"
    "\<not> cn_closed c' \<Longrightarrow> wants_write c' \<longleftrightarrow> cn_output c' \<noteq> []"
    "serve (take k cmds) w = Some (rs, w')"
    "\<not> cn_close_after c \<Longrightarrow> length (pending c) + length (concat rs) \<le> kMaxOutputBuffer \<Longrightarrow>
       \<not> cn_close_after c' \<and> (k < length cmds \<longrightarrow> strict_prefix (unread c') (enc (cmds ! k)))"
  using assms unfolding served_def by (elim conjE; assumption | blast)+

lemma conn_invD:
  assumes "conn_inv cmds n sends D k rs c s w"
  shows "conn_ok c" "k \<le> length cmds" "length rs = k" "list_all resp_value rs" "w_good (n + cost (drop k cmds)) w"
    "sk_sent s @ pending c = concat rs" "cn_closed c \<Longrightarrow> cn_close_after c \<or> \<not> sends"
    "\<not> cn_closed c \<Longrightarrow> D = stream (take k cmds) @ unread c" "\<not> cn_closed c \<Longrightarrow> wants_write c \<longleftrightarrow> cn_output c \<noteq> []"
    "\<not> cn_closed c \<Longrightarrow> cn_close_after c \<or> drop k cmds = [] \<or> strict_prefix (unread c) (enc (hd (drop k cmds)))"
  using assms unfolding conn_inv_def by (elim conjE; blast)+

lemma conn_inv_step:
  assumes i: "conn_inv cmds n sends D k rs c s w" and ok: "event_ok ev" "list_all request_ok cmds"
    and d: "prefix (D @ event_data ev) (stream cmds)" "length (stream cmds) \<le> kMaxQueryBuffer"
    and sd: "sends \<Longrightarrow> event_sends_ok ev"
  shows "\<exists>c' s' w' k' rs'. conn_run [ev] c s w = Some (c', s', w') \<and> conn_inv cmds n sends (D @ event_data ev) k' rs' c' s' w'"
proof -
  obtain e rv ss f where ev: "ev = (e, rv, ss, f)" by (cases ev) auto
  let ?s = "s\<lparr>sk_recvs := rv, sk_sends := ss\<rparr>"
  have fo: "w_good (n + cost (drop k cmds)) (f w)" using ok(1) conn_invD(5) [OF i] by (simp add: event_ok_def ev)
  show ?thesis
  proof (cases "cn_closed c")
    case True
    then have "conn_run [ev] c s w = Some (c, ?s, f w)" by (simp add: ev HandleEvent_def)
    moreover have "conn_inv cmds n sends (D @ event_data ev) k rs c ?s (f w)"
      using conn_invD [OF i] True fo unfolding conn_inv_def by simp
    ultimately show ?thesis by blast
  next
    case False
    have c: "conn_ok c" "wants_write c \<longleftrightarrow> cn_output c \<noteq> []" and D: "D = stream (take k cmds) @ unread c"
      and mx: "drop k cmds = [] \<or> cn_close_after c \<or> strict_prefix (unread c) (enc (hd (drop k cmds)))"
      using conn_invD(1,8-10) [OF i] False by blast+
    have ar: "arrival e ?s = event_data ev" by (simp add: arrival_def ev)
    have st: "stream cmds = stream (take k cmds) @ stream (drop k cmds)"
      by (metis append_take_drop_id concat_append map_append)
    have pf: "prefix (unread c @ arrival e ?s) (stream (drop k cmds))"
      using d(1) unfolding D ar st by simp
    have len: "length (unread c @ arrival e ?s) \<le> kMaxQueryBuffer"
      using prefix_length_le [OF pf] d(2) unfolding st by simp
    have rq: "list_all request_ok (drop k cmds)" using ok(2) by (auto simp: list_all_iff dest: in_set_dropD)
    have e: "e AND (kEventError OR kEventHup) = 0" "quiet rv" using ok(1) by (simp_all add: event_ok_def ev)
    have q: "quiet (sk_recvs ?s)" using e(2) by simp
    from HandleEvent_served [OF c(1) False c(2) q rq pf mx len fo e(1)] obtain c' s' w' j rs' where
      h: "HandleEvent e c ?s (f w) = Some (c', s', w')" and sv: "served (drop k cmds) (arrival e ?s) n c ?s (reads e ?s (f w)) j rs' c' s' w'"
      by blast
    have tk: "take (k + j) cmds = take k cmds @ take j (drop k cmds)" by (rule take_add)
    have nb: "sends \<Longrightarrow> \<not> (\<exists>r\<in>set ss. send_bad r)" using sd by (auto simp: event_sends_ok_def ev)
    have kl: "k + j \<le> length cmds" using servedD(2) [OF sv] conn_invD(2) [OF i] by simp
    have hd': "drop (k + j) cmds \<noteq> [] \<Longrightarrow> hd (drop (k + j) cmds) = drop k cmds ! j \<and> j < length (drop k cmds)"
      by (simp add: hd_drop_conv_nth)
    have "conn_inv cmds n sends (D @ event_data ev) (k + j) (rs @ rs') c' s' w'"
      unfolding conn_inv_def
    proof (intro conjI impI)
      show "conn_ok c'" "k + j \<le> length cmds" "length (rs @ rs') = k + j" "list_all resp_value (rs @ rs')"
        using servedD(1,3,4) [OF sv] conn_invD(3,4) [OF i] kl by simp_all
      show "w_good (n + cost (drop (k + j) cmds)) w'" using servedD(5) [OF sv] by (simp add: add.commute)
      show "sk_sent s' @ pending c' = concat (rs @ rs')"
        using servedD(7) [OF sv] conn_invD(6) [OF i] by (simp add: append_assoc [symmetric])
      show "cn_close_after c' \<or> \<not> sends" if "cn_closed c'" using servedD(9) [OF sv that] nb by auto
      show "D @ event_data ev = stream (take (k + j) cmds) @ unread c'" if "\<not> cn_closed c'"
        using servedD(6) [OF sv] unfolding D tk ar by simp
      show "wants_write c' \<longleftrightarrow> cn_output c' \<noteq> []" if "\<not> cn_closed c'" by (rule servedD(10) [OF sv that])
      show "cn_close_after c' \<or> drop (k + j) cmds = [] \<or> strict_prefix (unread c') (enc (hd (drop (k + j) cmds)))"
        using servedD(8) [OF sv] hd' by metis
    qed
    moreover have "conn_run [ev] c s w = Some (c', s', w')" using h by (simp add: ev)
    ultimately show ?thesis by blast
  qed
qed

lemma conn_run_append:
  "conn_run (ev # es) c s w = do { (c, s, w) \<leftarrow> conn_run [ev] c s w; conn_run es c s w }"
  by (cases ev) (simp add: bind_assoc case_prod_beta')

lemma conn_inv_run:
  "conn_inv cmds n sends D k rs c s w \<Longrightarrow> list_all event_ok es \<Longrightarrow> list_all request_ok cmds \<Longrightarrow>
     prefix (D @ concat (map event_data es)) (stream cmds) \<Longrightarrow> length (stream cmds) \<le> kMaxQueryBuffer \<Longrightarrow>
     (sends \<Longrightarrow> list_all event_sends_ok es) \<Longrightarrow>
     \<exists>c' s' w' k' rs'. conn_run es c s w = Some (c', s', w') \<and> conn_inv cmds n sends (D @ concat (map event_data es)) k' rs' c' s' w'"
proof (induction es arbitrary: D k rs c s w)
  case (Cons ev es)
  have pf: "prefix (D @ event_data ev) (stream cmds)"
    using Cons.prems(4) by (metis append.assoc append_prefixD concat.simps(2) list.simps(9))
  from conn_inv_step [OF Cons.prems(1) _ Cons.prems(3) pf Cons.prems(5)] Cons.prems(2,6) obtain c1 s1 w1 k1 rs1 where
    "conn_run [ev] c s w = Some (c1, s1, w1)" and i: "conn_inv cmds n sends (D @ event_data ev) k1 rs1 c1 s1 w1"
    by auto
  with Cons.IH [OF i] Cons.prems(2-6) show ?case by (subst conn_run_append) simp
qed auto

lemma Connection_new_inv:
  assumes "Connection_new fd w = (c, w1)" "w_good (n + cost cmds) w" "sk_sent s = []"
  shows "conn_inv cmds n sends [] 0 [] (Connection_Start c) s w1"
proof -
  have "w_good (n + cost cmds) w1"
    using assms(1,2) NowMs_ok [of "n + cost cmds" w] by (auto simp: Connection_new_def split: prod.splits)
  then show ?thesis using assms
    by (auto simp: conn_inv_def Connection_new_def Connection_Start_def conn_ok_def pending_def unread_def parser_new_def
        wants_write_def strict_prefix_def not_sym [OF enc_nonempty] split: prod.splits)
qed

lemma stream_take_le:
  assumes "list_all request_ok cmds" "k \<le> length cmds" "D = stream (take k cmds) @ u"
    "drop k cmds = [] \<or> strict_prefix u (enc (hd (drop k cmds)))" "j \<le> length cmds"
  shows "prefix (stream (take j cmds)) D \<longleftrightarrow> j \<le> k"
proof
  assume "j \<le> k"
  then have "take k cmds = take j cmds @ take (k - j) (drop j cmds)" by (metis le_add_diff_inverse take_add)
  then show "prefix (stream (take j cmds)) D" unfolding assms(3) by simp
next
  assume pf: "prefix (stream (take j cmds)) D"
  show "j \<le> k"
  proof (rule ccontr)
    assume "\<not> j \<le> k"
    then have kj: "k < j" and ne: "drop k cmds \<noteq> []" using assms(5) by auto
    then have u: "strict_prefix u (enc (hd (drop k cmds)))" using assms(4) by simp
    have "take j cmds = take k cmds @ take (j - k) (drop k cmds)" using kj by (metis le_add_diff_inverse less_imp_le take_add)
    moreover have "take (j - k) (drop k cmds) = hd (drop k cmds) # take (j - k - 1) (tl (drop k cmds))"
      using ne kj by (cases "drop k cmds"; cases "j - k") auto
    ultimately have "stream (take j cmds) = stream (take k cmds) @ enc (hd (drop k cmds)) @ stream (take (j - k - 1) (tl (drop k cmds)))"
      by simp
    with pf have "prefix (enc (hd (drop k cmds)) @ stream (take (j - k - 1) (tl (drop k cmds)))) u" unfolding assms(3) by simp
    then have "prefix (enc (hd (drop k cmds))) u" by (metis append_prefixD)
    with u show False using prefix_order.less_le_not_le by blast
  qed
qed

end
