(* ===== verification/Database.thy ===== *)
theory Database
  imports Command_Inv Aof_Facts
begin

section \<open>The database a client sees\<close>

text \<open>
  The abstraction of the server's state that the meaning of the commands is stated on: a finite map
  from keys to a value and a deadline, where a value is a string, an integer or a map from members
  to scores.  Shards, the TTL index, references to ordered sets, dictionaries and skip lists are
  gone, and so are keys that have expired.  For every command: the reply it writes and the database
  it leaves, as functions of the database it found, and the commands it appends to the file.
\<close>

datatype dval = DNone | DStr string | DInt int | DSet "string \<rightharpoonup> score"

type_synonym ddb = "string \<rightharpoonup> dval \<times> int"

fun dval_of :: "(nat \<Rightarrow> zset option) \<Rightarrow> rvalue \<Rightarrow> dval" where
  "dval_of h VNone = DNone"
| "dval_of h (VString s) = DStr s"
| "dval_of h (VInt n) = DInt n"
| "dval_of h (VZSet r) = DSet (case h r of None \<Rightarrow> Map.empty | Some z \<Rightarrow> map_of (zs_index z))"

fun dtext :: "dval \<Rightarrow> string" where
  "dtext (DStr s) = s"
| "dtext (DInt n) = dec_of_int n"
| "dtext v = []"

text \<open>The keys that have not expired at a time.\<close>

definition alive :: "int \<Rightarrow> ddb \<Rightarrow> ddb" where
  "alive t d = (\<lambda>k. case d k of None \<Rightarrow> None | Some (v, x) \<Rightarrow> if x \<noteq> 0 \<and> x \<le> t then None else Some (v, x))"

definition absm :: "(nat \<Rightarrow> zset option) \<Rightarrow> kspace \<Rightarrow> ddb" where
  "absm h m = (\<lambda>k. map_option (\<lambda>e. (dval_of h (en_value e), expire_at_ms e)) (m k))"

definition db :: "int \<Rightarrow> store \<Rightarrow> ddb" where
  "db t st = absm (zheap st) (vis t (lookup st))"

text \<open>The next reading of the clock; the database at that time; what the state becomes.\<close>

abbreviation now_of :: "world \<Rightarrow> int" where "now_of w \<equiv> w_clock w 0"
abbreviation later :: "world \<Rightarrow> nat \<Rightarrow> int" where "later w n \<equiv> w_clock w n"

definition becomes :: "int \<Rightarrow> ddb \<Rightarrow> world \<Rightarrow> bool" where
  "becomes t d w \<longleftrightarrow> (\<forall>u\<ge>t. db u (w_store w) = alive u d)"

definition logs :: "string list list \<Rightarrow> world \<Rightarrow> world \<Rightarrow> bool" where
  "logs cs w w' \<longleftrightarrow> (w_aof w', w_disk w') = aof_run (map EvAppend cs) (w_aof w, w_disk w)"

subsection \<open>Laws of the abstraction\<close>

lemma alive_alive [simp]: "t \<le> u \<Longrightarrow> alive u (alive t d) = alive u d"
  by (auto simp: alive_def fun_eq_iff split: option.splits)

lemma absm_vis: "absm h (vis t m) = alive t (absm h m)"
  by (auto simp: absm_def vis_def alive_def IsExpired_def fun_eq_iff split: option.splits)

lemma db_later: "t \<le> u \<Longrightarrow> db u st = alive u (db t st)"
  by (simp add: db_def absm_vis)

lemma alive_db [simp]: "t \<le> u \<Longrightarrow> alive u (db t st) = db u st"
  by (simp add: db_later)

lemma alive_upd: "alive t (d(k \<mapsto> (v, x))) = (alive t d)(k := if x \<noteq> 0 \<and> x \<le> t then None else Some (v, x))"
  by (auto simp: alive_def fun_eq_iff)

lemma alive_del [simp]: "alive t (d(k := None)) = (alive t d)(k := None)"
  by (auto simp: alive_def fun_eq_iff)

lemma alive_empty [simp]: "alive t Map.empty = Map.empty"
  by (simp add: alive_def)

lemma alive_Some: "alive t d k = Some (v, x) \<longleftrightarrow> d k = Some (v, x) \<and> (x = 0 \<or> t < x)"
  by (auto simp: alive_def split: option.splits)

lemma becomesD: "becomes t d w \<Longrightarrow> t \<le> u \<Longrightarrow> db u (w_store w) = alive u d"
  by (simp add: becomes_def)

lemma becomes_refl [simp]: "becomes t (db t (w_store w)) w"
  by (simp add: becomes_def)

lemma becomes_cong [simp]:
  "becomes t d (w\<lparr>w_stats := s\<rparr>) = becomes t d w" "becomes t d (w\<lparr>w_rng := g\<rparr>) = becomes t d w"
  "becomes t d (w\<lparr>w_clock := c\<rparr>) = becomes t d w" "becomes t d (w\<lparr>w_aof := a, w_disk := dk\<rparr>) = becomes t d w"
  by (simp_all add: becomes_def)

lemma becomes_Persist [simp]: "becomes t d (Persist args w) = becomes t d w"
  by (simp add: becomes_def)

lemma logs_refl [simp]: "logs [] w w"
  by (simp add: logs_def)

lemma logs_Nil: "w_aof w' = w_aof w \<Longrightarrow> w_disk w' = w_disk w \<Longrightarrow> logs [] w w'"
  by (simp add: logs_def)

lemma logs_trans: "logs cs w w' \<Longrightarrow> logs cs' w' w'' \<Longrightarrow> logs (cs @ cs') w w''"
  by (simp add: logs_def aof_run_append)

lemma Persist_run: "(w_aof (Persist args w), w_disk (Persist args w)) = Aof_Append args (w_aof w, w_disk w)"
proof -
  obtain a d where "Aof_Append args (w_aof w, w_disk w) = (a, d)" by (cases "Aof_Append args (w_aof w, w_disk w)") auto
  then show ?thesis by (auto simp: Persist_def Aof_Append_def split: if_splits)
qed

lemma Persist_logs: "logs [] w w1 \<Longrightarrow> logs [args] w (Persist args w1)"
  unfolding logs_def Persist_run by simp

lemma Persist_fields [simp]:
  "w_stats (Persist args w) = w_stats w" "w_rng (Persist args w) = w_rng w" "w_info (Persist args w) = w_info w"
  by (simp_all add: Persist_def split: prod.splits)

text \<open>A timed operation.\<close>

lemma timed_eq:
  "timed f w = (fst (f (now_of w) (w_store w)),
     w\<lparr>w_clock := (\<lambda>i. w_clock w (Suc i)), w_store := snd (f (now_of w) (w_store w))\<rparr>)"
  by (simp add: timed_def NowMs_def case_prod_beta Let_def)

lemma timed_fields:
  assumes "timed f w = (r, w')"
  shows "f (now_of w) (w_store w) = (r, w_store w')" "w_clock w' = (\<lambda>i. w_clock w (Suc i))"
    "w_aof w' = w_aof w" "w_disk w' = w_disk w" "w_stats w' = w_stats w" "w_rng w' = w_rng w" "w_info w' = w_info w"
    "logs [] w w'"
  using assms by (auto simp: timed_eq intro: logs_Nil)

subsection \<open>The operations of the store on the database\<close>

text \<open>No string operation touches the ordered sets.\<close>

lemma find_live_heap [simp]: "zheap (snd (find_live now k st)) = zheap st"
  by (simp add: find_live_def split: option.splits)

lemma store_heap [simp]:
  "zheap (snd (Store_Get now k st)) = zheap st" "zheap (snd (Store_Exists now k st)) = zheap st"
  "zheap (snd (Store_TypeOf now k st)) = zheap st" "zheap (snd (Store_TtlMs now k st)) = zheap st"
  "zheap (snd (Store_GetZSet now k st)) = zheap st"
  "zheap (snd (Store_Set now k v opts st)) = zheap st"
  "zheap (snd (Store_ExpireAt now k t st)) = zheap st" "zheap (snd (Store_IncrBy now k n st)) = zheap st"
  "zheap (snd (Store_Del k st)) = zheap st"
  using find_live_heap [of now k st]
  by (auto simp: Store_Get_def Store_Exists_def Store_TypeOf_def Store_TtlMs_def Store_GetZSet_def Store_Set_def
      Store_ExpireAt_def Store_IncrBy_def Store_Del_def Let_def simp del: find_live_heap
      split: prod.splits option.splits rvalue.splits)

lemma DelMulti_heap [simp]: "zheap (snd (Store_DelMulti ks st)) = zheap st"
proof (induction ks arbitrary: st)
  case (Cons k ks)
  then show ?case using store_heap(9) [of k st] by (simp add: case_prod_beta Let_def)
qed simp

lemma db_eqI: "zheap st' = zheap st \<Longrightarrow> vis t (lookup st') = vis t m \<Longrightarrow> db t st' = absm (zheap st) (vis t m)"
  by (simp add: db_def)

lemma db_Some: "db t st k = Some (v, x) \<longleftrightarrow>
    (\<exists>e. vis t (lookup st) k = Some e \<and> v = dval_of (zheap st) (en_value e) \<and> x = expire_at_ms e)"
  by (auto simp: db_def absm_def)

lemma db_None: "db t st k = None \<longleftrightarrow> vis t (lookup st) k = None"
  by (simp add: db_def absm_def)

text \<open>Storing a string.\<close>

definition db_set :: "string \<Rightarrow> dval \<Rightarrow> SetOptions \<Rightarrow> ddb \<Rightarrow> SetResult \<times> ddb" where
  "db_set k v opts d =
     (if so_nx opts \<and> d k \<noteq> None then (kNotSetNx, d)
      else if so_xx opts \<and> d k = None then (kNotSetXx, d)
      else (kOk, d(k \<mapsto> (v, if so_has_expire opts then so_expire_at_ms opts
              else case d k of Some (_, x) \<Rightarrow> if so_keep_ttl opts then x else 0 | None \<Rightarrow> 0))))"

definition dint :: "dval \<Rightarrow> int option" where
  "dint v = (case v of DInt n \<Rightarrow> Some n | v \<Rightarrow> ParseInt64 (dtext v))"

definition db_incr :: "string \<Rightarrow> int \<Rightarrow> ddb \<Rightarrow> int option \<times> ddb" where
  "db_incr k delta d =
     (case d k of
        None \<Rightarrow> (Some delta, d(k \<mapsto> (DInt delta, 0)))
      | Some (v, x) \<Rightarrow>
          (case dint v of
             None \<Rightarrow> (None, d)
           | Some n \<Rightarrow> if int64_range (n + delta) then (Some (n + delta), d(k \<mapsto> (DInt (n + delta), x)))
                       else (None, d)))"

definition db_expire :: "int \<Rightarrow> string \<Rightarrow> int \<Rightarrow> ddb \<Rightarrow> (bool \<times> bool) \<times> ddb" where
  "db_expire now k t d =
     (case d k of
        None \<Rightarrow> ((False, True), d)
      | Some (v, _) \<Rightarrow> if t \<noteq> 0 \<and> t \<le> now then ((True, True), d(k := None))
                        else ((True, False), d(k \<mapsto> (v, t))))"

definition db_ttl :: "int \<Rightarrow> string \<Rightarrow> ddb \<Rightarrow> int" where
  "db_ttl now k d = (case d k of None \<Rightarrow> -2 | Some (_, x) \<Rightarrow> if x = 0 then -1 else x - now)"

lemma absm_upd: "absm h (m(k \<mapsto> e)) = (absm h m)(k \<mapsto> (dval_of h (en_value e), expire_at_ms e))"
  by (auto simp: absm_def fun_eq_iff)

lemma absm_del: "absm h (m(k := None)) = (absm h m)(k := None)"
  by (auto simp: absm_def fun_eq_iff)

lemma AsString_dtext: "AsString v = dtext (dval_of h v)"
  by (cases v) auto

lemma absm_Set: "fst (spec_Set k v opts m) = fst (db_set k (dval_of h v) opts (absm h m))
    \<and> absm h (snd (spec_Set k v opts m)) = snd (db_set k (dval_of h v) opts (absm h m))"
  by (auto simp: spec_Set_def db_set_def absm_upd absm_def split: option.splits)

lemma absm_IncrBy: "fst (spec_IncrBy k n m) = fst (db_incr k n (absm h m))
    \<and> absm h (snd (spec_IncrBy k n m)) = snd (db_incr k n (absm h m))"
  by (auto simp: spec_IncrBy_def db_incr_def absm_upd absm_def AsString_dtext [of _ h] dint_def
      split: option.splits rvalue.splits)

lemma absm_ExpireAt: "fst (spec_ExpireAt now k t m) = fst (db_expire now k t (absm h m))
    \<and> absm h (snd (spec_ExpireAt now k t m)) = snd (db_expire now k t (absm h m))"
  by (auto simp: spec_ExpireAt_def db_expire_def absm_upd absm_del absm_def split: option.splits)

lemma absm_Ttl: "spec_TtlMs now k m = db_ttl now k (absm h m)"
  by (auto simp: spec_TtlMs_def db_ttl_def absm_def HasExpire_def split: option.splits)

lemma becomesI:
  assumes "zheap (w_store w') = h" "\<And>t. t0 \<le> t \<Longrightarrow> vis t (lookup (w_store w')) = vis t m" "absm h m = d"
  shows "becomes t0 d w'"
  using assms by (simp add: becomes_def db_def absm_vis)

lemma w_goodD: "w_good n w \<Longrightarrow> good n (w_store w)" "w_good n w \<Longrightarrow> store_ok (w_store w)"
  "w_good n w \<Longrightarrow> zrefs_ok (w_store w)" "w_good n w \<Longrightarrow> 0 \<le> now_of w"
  "w_good n w \<Longrightarrow> lookup (w_store w) k = Some e \<Longrightarrow> entry_ok e"
  by (auto simp: w_good_def clock_ok_def dest: goodD)

lemma later_mono: "w_good n w \<Longrightarrow> i \<le> j \<Longrightarrow> later w i \<le> later w j"
  by (rule lift_Suc_mono_le [of "w_clock w"]) (simp_all add: w_good_def clock_ok_def)

lemma timed_past: "w_good n w \<Longrightarrow> timed f w = (r, w') \<Longrightarrow> now_of w \<le> now_of w'"
  using later_mono [of n w 0 1] timed_fields(2) [of f w r w'] by simp

abbreviation dnow :: "world \<Rightarrow> ddb" where "dnow w \<equiv> db (now_of w) (w_store w)"

lemma timed_Get:
  assumes "w_good n w" "timed (\<lambda>now. Store_Get now k) w = (r, w')"
  shows "map_option (dval_of (zheap (w_store w))) r = map_option fst (dnow w k)" "becomes (now_of w) (dnow w) w'"
    "w_good n w'" "logs [] w w'"
proof -
  note t = timed_fields [OF assms(2)] and g = Store_Get_ok [OF w_goodD(2) [OF assms(1)]]
  show "map_option (dval_of (zheap (w_store w))) r = map_option fst (dnow w k)"
    using g [OF t(1)] by (simp add: db_def absm_def option.map_comp comp_def)
  have "zheap (w_store w') = zheap (w_store w)" using store_heap(1) [of "now_of w" k "w_store w"] t(1) by simp
  with g [OF t(1)] show "becomes (now_of w) (dnow w) w'"
    by (intro becomesI) (auto simp: db_def)
qed (use timed_ok [OF keeps_reads(1) assms] timed_fields(8) [OF assms(2)] in auto)

lemma timed_Ttl:
  assumes "w_good n w" "timed (\<lambda>now. Store_TtlMs now k) w = (r, w')"
  shows "r = db_ttl (now_of w) k (dnow w)" "becomes (now_of w) (dnow w) w'" "w_good n w'" "logs [] w w'"
proof -
  note t = timed_fields [OF assms(2)]
  note g = Store_TtlMs_ok [OF w_goodD(2) [OF assms(1)] t(1) w_goodD(4) [OF assms(1)]]
  have e: "int64_range (expire_at_ms e)" if "lookup (w_store w) k = Some e" for e
    using w_goodD(5) [OF assms(1) that] by (simp add: entry_ok_def)
  show "r = db_ttl (now_of w) k (dnow w)" using g [OF e] by (simp add: absm_Ttl db_def)
  have "zheap (w_store w') = zheap (w_store w)" using store_heap(4) [of "now_of w" k "w_store w"] t(1) by simp
  with g [OF e] show "becomes (now_of w) (dnow w) w'"
    by (intro becomesI) (auto simp: db_def)
qed (use timed_ok [OF keeps_reads(4) assms] timed_fields(8) [OF assms(2)] in auto)

lemma timed_Set:
  assumes "w_good n w" "timed (\<lambda>now. Store_Set now k (VString v) opts) w = (r, w')"
  shows "r = fst (db_set k (DStr v) opts (dnow w))" "becomes (now_of w) (snd (db_set k (DStr v) opts (dnow w))) w'"
    "logs [] w w'"
proof -
  note t = timed_fields [OF assms(2)]
  note g = Store_Set_ok [OF w_goodD(2) [OF assms(1)] t(1)]
  let ?m = "vis (now_of w) (lookup (w_store w))"
  note a = absm_Set [of k "VString v" opts ?m "zheap (w_store w)"]
  show "r = fst (db_set k (DStr v) opts (dnow w))" using g a by (simp add: db_def)
  have "zheap (w_store w') = zheap (w_store w)" using store_heap(6) [of "now_of w" k "VString v" opts "w_store w"] t(1) by simp
  with g a show "becomes (now_of w) (snd (db_set k (DStr v) opts (dnow w))) w'"
    by (intro becomesI) (auto simp: db_def)
qed (rule timed_fields(8) [OF assms(2)])

lemma timed_IncrBy:
  assumes "w_good n w" "int64_range delta" "timed (\<lambda>now. Store_IncrBy now k delta) w = (r, w')"
  shows "r = fst (db_incr k delta (dnow w))" "becomes (now_of w) (snd (db_incr k delta (dnow w))) w'" "logs [] w w'"
proof -
  note t = timed_fields [OF assms(3)]
  have "value_ok (en_value e)" if "lookup (w_store w) k = Some e" for e
    using w_goodD(5) [OF assms(1) that] by (simp add: entry_ok_def)
  note g = Store_IncrBy_ok [OF w_goodD(2) [OF assms(1)] t(1) assms(2) this]
  note a = absm_IncrBy [of k delta "vis (now_of w) (lookup (w_store w))" "zheap (w_store w)"]
  show "r = fst (db_incr k delta (dnow w))" using g a by (simp add: db_def)
  have "zheap (w_store w') = zheap (w_store w)" using store_heap(8) [of "now_of w" k delta "w_store w"] t(1) by simp
  with g a show "becomes (now_of w) (snd (db_incr k delta (dnow w))) w'"
    by (intro becomesI) (auto simp: db_def)
qed (rule timed_fields(8) [OF assms(3)])

lemma timed_ExpireAt:
  assumes "w_good n w" "timed (\<lambda>now. Store_ExpireAt now k x) w = (r, w')"
  shows "r = fst (db_expire (now_of w) k x (dnow w))" "becomes (now_of w) (snd (db_expire (now_of w) k x (dnow w))) w'"
    "logs [] w w'"
proof -
  note t = timed_fields [OF assms(2)]
  note g = Store_ExpireAt_ok [OF w_goodD(2) [OF assms(1)] t(1)]
  note a = absm_ExpireAt [of "now_of w" k x "vis (now_of w) (lookup (w_store w))" "zheap (w_store w)"]
  show "r = fst (db_expire (now_of w) k x (dnow w))" using g a by (simp add: db_def)
  have "zheap (w_store w') = zheap (w_store w)" using store_heap(7) [of "now_of w" k x "w_store w"] t(1) by simp
  with g a show "becomes (now_of w) (snd (db_expire (now_of w) k x (dnow w))) w'"
    by (intro becomesI) (auto simp: db_def)
qed (rule timed_fields(8) [OF assms(2)])

subsection \<open>Ordered sets in the database\<close>

text \<open>A handler holds the set of \<open>key\<close>: the database \<open>d\<close> maps the key to the members \<open>f\<close> and the
  deadline \<open>x\<close>, and \<open>r\<close>, \<open>z\<close> are the reference and the structure behind it.\<close>

definition acquired ::
    "nat \<Rightarrow> int \<Rightarrow> string \<Rightarrow> nat \<Rightarrow> zset \<Rightarrow> (string \<rightharpoonup> score) \<Rightarrow> int \<Rightarrow> ddb \<Rightarrow> world \<Rightarrow> bool" where
  "acquired n t key r z f x d w \<longleftrightarrow>
     w_good n w \<and> becomes t d w \<and> d key = Some (DSet f, x) \<and> zset_rep z f \<and> zset_at n key r z w
     \<and> lookup (w_store w) key = Some \<lparr>en_value = VZSet r, expire_at_ms = x\<rparr>"

lemma absm_set_zset:
  assumes "m key = Some e" "en_value e = VZSet r" "\<And>k e'. m k = Some e' \<Longrightarrow> en_value e' = VZSet r \<Longrightarrow> k = key"
  shows "absm (h(r \<mapsto> z)) m = (absm h m)(key \<mapsto> (DSet (map_of (zs_index z)), expire_at_ms e))"
proof
  fix k
  have "dval_of (h(r \<mapsto> z)) (en_value e') = dval_of h (en_value e')" if "m k = Some e'" "k \<noteq> key" for e'
    using assms(3) [OF that(1)] that(2) by (cases "en_value e'") auto
  then show "absm (h(r \<mapsto> z)) m k = ((absm h m)(key \<mapsto> (DSet (map_of (zs_index z)), expire_at_ms e))) k"
    using assms(1,2) by (cases "m k") (auto simp: absm_def)
qed

lemma set_zset_becomes:
  assumes a: "acquired n t key r z f x d w" and z: "zset_rep z' f'"
  shows "becomes t (d(key \<mapsto> (DSet f', x))) (set_zset r z' w)"
  unfolding becomes_def
proof (intro allI impI)
  fix u assume u: "t \<le> u"
  let ?st = "w_store w" and ?e = "\<lparr>en_value = VZSet r, expire_at_ms = x\<rparr>"
  have g: "w_good n w" and b: "becomes t d w" and l: "lookup ?st key = Some ?e" using a by (simp_all add: acquired_def)
  have lk: "lookup (w_store (set_zset r z' w)) = lookup ?st" "zheap (w_store (set_zset r z' w)) = (zheap ?st)(r \<mapsto> z')"
    by (simp_all add: set_zset_def lookup_def GetShard_def fun_eq_iff)
  have uniq: "k = key" if "lookup ?st k = Some e'" "en_value e' = VZSet r" for k e'
    using zrefs_okD(2) [OF w_goodD(3) [OF g] that(1,2) l] by simp
  have "absm ((zheap ?st)(r \<mapsto> z')) (lookup ?st) = (absm (zheap ?st) (lookup ?st))(key \<mapsto> (DSet f', x))"
    using absm_set_zset [where m = "lookup ?st" and key = key and r = r and h = "zheap ?st" and z = z', OF l _ uniq] z
    by (simp add: zset_rep_def)
  then have "db u (w_store (set_zset r z' w)) = alive u ((absm (zheap ?st) (lookup ?st))(key \<mapsto> (DSet f', x)))"
    by (simp add: db_def lk absm_vis)
  also have "\<dots> = (db u ?st)(key := if x \<noteq> 0 \<and> x \<le> u then None else Some (DSet f', x))"
    by (simp add: alive_upd db_def absm_vis)
  finally show "db u (w_store (set_zset r z' w)) = alive u (d(key \<mapsto> (DSet f', x)))"
    using becomesD [OF b u] by (simp add: alive_upd)
qed

text \<open>What \<open>AcquireZSet\<close> finds.\<close>

lemma entry_eq: "en_value e = v \<Longrightarrow> expire_at_ms e = x \<Longrightarrow> (e :: entry) = \<lparr>en_value = v, expire_at_ms = x\<rparr>"
  by simp

lemma timed_GetZSet:
  assumes g: "w_good n w" and t: "timed (\<lambda>now. Store_GetZSet now key) w = (x, w1)"
  shows "w_good n w1" "becomes (now_of w) (dnow w) w1" "logs [] w w1" "w_rng w1 = w_rng w"
    "w_clock w1 = (\<lambda>i. w_clock w (Suc i))"
    "case dnow w key of
       None \<Rightarrow> x = ZMissing
     | Some (DSet f, dl) \<Rightarrow> (\<exists>r z. x = ZRef r \<and> zheap (w_store w1) r = Some z \<and> acquired n (now_of w) key r z f dl (dnow w) w1)
     | Some _ \<Rightarrow> x = ZWrongType"
proof -
  note tf = timed_fields [OF t]
  show g1: "w_good n w1" by (rule timed_ok [OF keeps_reads(5) g t])
  show "logs [] w w1" "w_rng w1 = w_rng w" "w_clock w1 = (\<lambda>i. w_clock w (Suc i))" using tf by blast+
  obtain fl st1 where f: "find_live (now_of w) key (w_store w) = (fl, st1)" by (cases "find_live (now_of w) key (w_store w)") auto
  note fo = find_live_ok [OF w_goodD(2) [OF g] f]
  have st1: "w_store w1 = st1" using tf(1) f by (auto simp: Store_GetZSet_def split: option.splits rvalue.splits)
  show b: "becomes (now_of w) (dnow w) w1" by (rule becomesI [of _ "zheap (w_store w)" _ "vis (now_of w) (lookup (w_store w))"])
      (use fo st1 in \<open>auto simp: db_def\<close>)
  show "case dnow w key of
       None \<Rightarrow> x = ZMissing
     | Some (DSet f, dl) \<Rightarrow> (\<exists>r z. x = ZRef r \<and> zheap (w_store w1) r = Some z \<and> acquired n (now_of w) key r z f dl (dnow w) w1)
     | Some _ \<Rightarrow> x = ZWrongType"
  proof (cases fl)
    case None
    then show ?thesis using tf(1) f fo(1) by (simp add: Store_GetZSet_def db_def absm_def)
  next
    case (Some e)
    then have d: "dnow w key = Some (dval_of (zheap (w_store w)) (en_value e), expire_at_ms e)"
      using fo(1) by (simp add: db_def absm_def)
    show ?thesis
    proof (cases "en_value e")
      case (VZSet r)
      have l: "lookup (w_store w1) key = Some e" using fo(3) Some st1 by simp
      from zset_atI [OF g1 l VZSet] obtain z where z: "zset_at n key r z w1" by blast
      then obtain fm where fm: "zheap (w_store w1) r = Some z" "zset_rep z fm" by (auto simp: zset_at_def)
      then have "dnow w key = Some (DSet fm, expire_at_ms e)"
        using d VZSet fo(5) st1 by (simp add: zset_rep_def)
      then show ?thesis using tf(1) f Some VZSet g1 b z fm l entry_eq [OF VZSet]
        by (auto simp: acquired_def Store_GetZSet_def)
    qed (use d tf(1) f Some in \<open>auto simp: Store_GetZSet_def\<close>)
  qed
qed

lemma timed_GetOrCreate:
  assumes g: "w_good n w" and t: "timed (\<lambda>now. Store_GetOrCreateZSet now key) w = (x, w1)"
  shows "w_good n w1" "logs [] w w1" "w_rng w1 = w_rng w" "w_clock w1 = (\<lambda>i. w_clock w (Suc i))"
    "case dnow w key of
       None \<Rightarrow> (\<exists>r z. x = ZRef r \<and> zheap (w_store w1) r = Some z
                 \<and> acquired n (now_of w) key r z Map.empty 0 ((dnow w)(key \<mapsto> (DSet Map.empty, 0))) w1)
     | Some (DSet f, dl) \<Rightarrow> (\<exists>r z. x = ZRef r \<and> zheap (w_store w1) r = Some z \<and> acquired n (now_of w) key r z f dl (dnow w) w1)
     | Some _ \<Rightarrow> x = ZWrongType \<and> becomes (now_of w) (dnow w) w1"
proof -
  note tf = timed_fields [OF t]
  show g1: "w_good n w1" by (rule timed_ok [OF keeps_GetOrCreate g t])
  show "logs [] w w1" "w_rng w1 = w_rng w" "w_clock w1 = (\<lambda>i. w_clock w (Suc i))" using tf by blast+
  let ?st = "w_store w" and ?st' = "w_store w1" and ?now = "now_of w"
  note ok = Store_GetOrCreateZSet_ok [OF w_goodD(2,3) [OF g] tf(1)]
  show "case dnow w key of
       None \<Rightarrow> (\<exists>r z. x = ZRef r \<and> zheap (w_store w1) r = Some z
                 \<and> acquired n (now_of w) key r z Map.empty 0 ((dnow w)(key \<mapsto> (DSet Map.empty, 0))) w1)
     | Some (DSet f, dl) \<Rightarrow> (\<exists>r z. x = ZRef r \<and> zheap (w_store w1) r = Some z \<and> acquired n (now_of w) key r z f dl (dnow w) w1)
     | Some _ \<Rightarrow> x = ZWrongType \<and> becomes (now_of w) (dnow w) w1"
  proof (cases "vis ?now (lookup ?st) key")
    case None
    then have d: "dnow w key = None" by (simp add: db_None)
    from ok None obtain r where r: "x = ZRef r" "zheap ?st' = (zheap ?st)(r \<mapsto> ZSet_new)"
      "\<And>u. ?now \<le> u \<Longrightarrow> vis u (lookup ?st') = vis u ((lookup ?st)(key \<mapsto> \<lparr>en_value = VZSet r, expire_at_ms = 0\<rparr>))"
      by (cases x) auto
    let ?e = "\<lparr>en_value = VZSet r, expire_at_ms = 0\<rparr>"
    have k: "vis u (lookup ?st') key = Some ?e" if "?now \<le> u" for u
      using r(3) [OF that] by (simp add: vis_def IsExpired_def)
    have l: "lookup ?st' key = Some ?e" using k [of ?now] by (simp add: vis_Some)
    have b: "becomes ?now ((dnow w)(key \<mapsto> (DSet Map.empty, 0))) w1"
      unfolding becomes_def
    proof (intro allI impI)
      fix u assume u: "?now \<le> u"
      have uniq: "k = key" if "vis u (lookup ?st') k = Some e'" "en_value e' = VZSet r" for k e'
        using zrefs_okD(2) [OF w_goodD(3) [OF g1] _ that(2) l] that(1) by (simp add: vis_Some)
      have "db u ?st' = absm ((zheap ?st)(r \<mapsto> ZSet_new)) (vis u (lookup ?st'))" by (simp add: db_def r(2))
      also have "\<dots> = (absm (zheap ?st) (vis u (lookup ?st')))(key \<mapsto> (DSet Map.empty, 0))"
        using absm_set_zset [where m = "vis u (lookup ?st')" and key = key and r = r and h = "zheap ?st" and z = ZSet_new,
            OF k [OF u] _ uniq] by (simp add: ZSet_new_def)
      also have "absm (zheap ?st) (vis u (lookup ?st')) = (absm (zheap ?st) (vis u (lookup ?st)))
          (key := absm (zheap ?st) (vis u (lookup ?st')) key)"
        unfolding r(3) [OF u] by (simp add: vis_upd IsExpired_def absm_upd)
      finally have "db u ?st' = (db u ?st)(key \<mapsto> (DSet Map.empty, 0))"
        unfolding db_def [of u ?st] by (simp only: fun_upd_upd)
      then show "db u ?st' = alive u ((dnow w)(key \<mapsto> (DSet Map.empty, 0)))"
        using u by (simp add: alive_upd)
    qed
    from zset_atI [OF g1 l] obtain z where z: "zset_at n key r z w1" by auto
    then have zn: "zheap ?st' r = Some z" by (simp add: zset_at_def)
    with r(2) have "z = ZSet_new" by simp
    with z b l g1 r(1) zn zset_rep_new d show ?thesis by (auto simp: acquired_def)
  next
    case (Some e)
    then have d: "dnow w key = Some (dval_of (zheap ?st) (en_value e), expire_at_ms e)"
      by (simp add: db_def absm_def)
    show ?thesis
    proof (cases "\<exists>r. en_value e = VZSet r")
      case True
      then obtain r where VZSet: "en_value e = VZSet r" by blast
      with True ok Some have r: "x = ZRef r" "zheap ?st' = zheap ?st" "\<And>u. ?now \<le> u \<Longrightarrow> vis u (lookup ?st') = vis u (lookup ?st)"
        by (cases x; auto)+
      have l: "lookup ?st' key = Some e" using r(3) [of ?now] Some vis_Some [of ?now "lookup ?st'" key e] by simp
      have b: "becomes ?now (dnow w) w1"
        by (rule becomesI [OF r(2), of _ "vis ?now (lookup ?st)"]) (simp_all add: r(3) db_def)
      from zset_atI [OF g1 l VZSet] obtain z where z: "zset_at n key r z w1" by blast
      then obtain fm where fm: "zheap (w_store w1) r = Some z" "zset_rep z fm" by (auto simp: zset_at_def)
      then have "dnow w key = Some (DSet fm, expire_at_ms e)" using d VZSet r(2) by (simp add: zset_rep_def)
      then show ?thesis using r(1) g1 b z fm l entry_eq [OF VZSet] by (auto simp: acquired_def)
    next
      case False
      with ok Some have x: "x = ZWrongType" "\<And>u. ?now \<le> u \<Longrightarrow> vis u (lookup ?st') = vis u (lookup ?st)"
        by (cases x; fastforce)+
      have "find_live ?now key ?st = (Some e, snd (find_live ?now key ?st))"
        using find_live_ok(1) [OF w_goodD(2) [OF g], of ?now key] Some by (metis prod.collapse)
      with tf(1) x(1) have "zheap ?st' = zheap ?st"
        by (auto simp: Store_GetOrCreateZSet_def split: prod.splits option.splits rvalue.splits)
          (metis find_live_heap snd_conv)+
      then have "becomes ?now (dnow w) w1"
        by (intro becomesI [of _ "zheap ?st" _ "vis ?now (lookup ?st)"]) (simp_all add: x(2) db_def)
      with d x(1) False show ?thesis by (cases "en_value e") auto
    qed
  qed
qed

end
