(* ===== verification/Command_Meaning.thy ===== *)
theory Command_Meaning
  imports Database
begin

section \<open>What every command does to the database\<close>

text \<open>
  \<open>outcome r w reply t d cs\<close>: the run \<open>r\<close> of a command from \<open>w\<close> ends, writes \<open>reply\<close>, leaves the
  database that is \<open>d\<close> from time \<open>t\<close> on (and \<open>t\<close> is past), and appends exactly the commands \<open>cs\<close> to the file.
\<close>

definition outcome ::
    "(string \<times> world) option \<Rightarrow> world \<Rightarrow> string \<Rightarrow> int \<Rightarrow> ddb \<Rightarrow> string list list \<Rightarrow> bool" where
  "outcome r w reply t d cs \<longleftrightarrow>
     (\<exists>w'. r = Some (reply, w') \<and> t \<le> now_of w' \<and> becomes t d w' \<and> logs cs w w')"

lemma outcome_same: "r = Some (reply, w) \<Longrightarrow> outcome r w reply (now_of w) (dnow w) []"
  by (auto simp: outcome_def)

definition bump :: "world \<Rightarrow> world" where
  "bump w = w\<lparr>w_stats := (w_stats w)\<lparr>st_commands := st_commands (w_stats w) + 1\<rparr>\<rparr>"

lemma bump_fields [simp]:
  "w_store (bump w) = w_store w" "w_clock (bump w) = w_clock w" "w_aof (bump w) = w_aof w" "w_disk (bump w) = w_disk w"
  "w_rng (bump w) = w_rng w" "w_info (bump w) = w_info w" "w_good n (bump w) = w_good n w"
  by (simp_all add: bump_def)

lemma Execute_row:
  assumes "ToLowerAscii c = name" "map_of kCommandTable name = Some (h, b)"
  shows "Execute (c # args) w = h (name # args) (bump w)"
  using assms by (simp add: Execute_def bump_def Let_def)

lemma outcome_row:
  assumes "ToLowerAscii c = name" "map_of kCommandTable name = Some (h, b)"
    "outcome (h (name # args) (bump w)) (bump w) reply t d cs"
  shows "outcome (Execute (c # args) w) w reply t d cs"
  using assms(3) unfolding Execute_row [OF assms(1,2)] by (simp add: outcome_def logs_def)

text \<open>The rows of the table.\<close>

lemma row:
  "map_of kCommandTable ''ping'' = Some (CmdPing, False)"
  "map_of kCommandTable ''echo'' = Some (CmdEcho, False)"
  "map_of kCommandTable ''set'' = Some (CmdSet, True)"
  "map_of kCommandTable ''get'' = Some (CmdGet, False)"
  "map_of kCommandTable ''del'' = Some (CmdDel, True)"
  "map_of kCommandTable ''exists'' = Some (CmdExists, False)"
  "map_of kCommandTable ''incr'' = Some (CmdIncr, True)"
  "map_of kCommandTable ''decr'' = Some (CmdDecr, True)"
  "map_of kCommandTable ''incrby'' = Some (CmdIncrBy False, True)"
  "map_of kCommandTable ''decrby'' = Some (CmdDecrBy, True)"
  "map_of kCommandTable ''expire'' = Some (CmdExpire, True)"
  "map_of kCommandTable ''pexpire'' = Some (CmdPExpire, True)"
  "map_of kCommandTable ''pexpireat'' = Some (CmdPExpireAt, True)"
  "map_of kCommandTable ''ttl'' = Some (CmdTtl, False)"
  "map_of kCommandTable ''pttl'' = Some (CmdPTtl, False)"
  "map_of kCommandTable ''type'' = Some (CmdType, False)"
  "map_of kCommandTable ''keys'' = Some (CmdKeys, False)"
  "map_of kCommandTable ''dbsize'' = Some (CmdDbSize, False)"
  "map_of kCommandTable ''flushall'' = Some (CmdFlushAll, True)"
  "map_of kCommandTable ''info'' = Some (CmdInfo, False)"
  "map_of kCommandTable ''zadd'' = Some (CmdZAdd, True)"
  "map_of kCommandTable ''zscore'' = Some (CmdZScore, False)"
  "map_of kCommandTable ''zcard'' = Some (CmdZCard, False)"
  "map_of kCommandTable ''zincrby'' = Some (CmdZIncrBy, True)"
  "map_of kCommandTable ''zrank'' = Some (CmdZRank, False)"
  "map_of kCommandTable ''zrevrank'' = Some (CmdZRevRank, False)"
  "map_of kCommandTable ''zrange'' = Some (CmdZRange, False)"
  "map_of kCommandTable ''zrevrange'' = Some (CmdZRevRange, False)"
  "map_of kCommandTable ''zrangebyscore'' = Some (CmdZRangeByScore, False)"
  "map_of kCommandTable ''zcount'' = Some (CmdZCount, False)"
  "map_of kCommandTable ''zrem'' = Some (CmdZRem, True)"
  by (simp_all add: kCommandTable_def)

subsection \<open>Strings\<close>

lemma Get_meaning:
  assumes "ToLowerAscii c = ''get''" "w_good n w"
  shows "outcome (Execute [c, k] w) w
     (case dnow w k of None \<Rightarrow> EncodeNullBulk [] | Some (v, _) \<Rightarrow> EncodeBulkString (dtext v) [])
     (now_of w) (dnow w) []"
proof (rule outcome_row [OF assms(1) row(4)])
  have g: "w_good n (bump w)" using assms(2) by simp
  obtain r w1 where t: "timed (\<lambda>now. Store_Get now k) (bump w) = (r, w1)"
    by (cases "timed (\<lambda>now. Store_Get now k) (bump w)") auto
  note f = timed_Get [OF g t]
  note past = timed_past [OF g t, simplified]
  have l: "logs [] (bump w) (w1\<lparr>w_stats := s\<rparr>)" for s using f(4) by (simp add: logs_def)
  have b: "becomes (now_of w) (dnow w) (w1\<lparr>w_stats := s\<rparr>)" for s using f(2) by simp
  show "outcome (CmdGet [''get'', k] (bump w)) (bump w)
     (case dnow w k of None \<Rightarrow> EncodeNullBulk [] | Some (v, _) \<Rightarrow> EncodeBulkString (dtext v) []) (now_of w) (dnow w) []"
    unfolding outcome_def using past t f(1) b l
    by (cases r; cases "dnow w k") (auto simp: CmdGet_def AsString_dtext [of _ "zheap (w_store w)"])
qed

lemma Set_meaning:
  assumes "ToLowerAscii c = ''set''" "w_good n w" "set_options options set_parse0 = Inr p"
    "set_deadline p (bump w) = (opts, w1)"
  shows "outcome (Execute (c # k # v # options) w) w
     (if fst (db_set k (DStr v) opts (dnow w1)) = kOk then EncodeSimpleString ''OK'' [] else EncodeNullBulk [])
     (now_of w1) (snd (db_set k (DStr v) opts (dnow w1)))
     (if fst (db_set k (DStr v) opts (dnow w1)) = kOk then [set_aof_args k v opts] else [])"
proof (rule outcome_row [OF assms(1) row(3)])
  have parse: "parse_ok p"
    using set_options_ok [of set_parse0 options] assms(3)
    by (simp add: parse_ok_def set_parse0_def default_opts_def int64_range_def)
  have "w_good n (bump w)" using assms(2) by simp
  note g1 = set_deadline_ok [OF this parse assms(4)]
  have l0: "logs [] (bump w) w1" using assms(4)
    by (auto simp: set_deadline_def Let_def NowMs_def logs_def split: if_splits)
  obtain r w2 where t: "timed (\<lambda>now. Store_Set now k (VString v) opts) w1 = (r, w2)"
    by (cases "timed (\<lambda>now. Store_Set now k (VString v) opts) w1") auto
  note f = timed_Set [OF g1 [THEN conjunct1] t]
  note past = timed_past [OF g1 [THEN conjunct1] t]
  have l: "logs [] (bump w) w2" using logs_trans [OF l0 f(3)] by simp
  have r: "r = kOk \<or> r = kNotSetNx \<or> r = kNotSetXx" by (cases r) auto
  show "outcome (CmdSet (''set'' # k # v # options) (bump w)) (bump w)
     (if fst (db_set k (DStr v) opts (dnow w1)) = kOk then EncodeSimpleString ''OK'' [] else EncodeNullBulk [])
     (now_of w1) (snd (db_set k (DStr v) opts (dnow w1)))
     (if fst (db_set k (DStr v) opts (dnow w1)) = kOk then [set_aof_args k v opts] else [])"
    unfolding outcome_def using past assms(3,4) t f l r Persist_logs [OF l, of "set_aof_args k v opts"]
    by (auto simp: CmdSet_def Let_def)
qed

lemma IncrBy_meaning:
  assumes "ToLowerAscii c = name" "map_of kCommandTable name = Some (CmdIncrBy is_decr, b)" "w_good n w"
    "args = [k] \<and> delta = 1 \<or> args = [k, s] \<and> ParseInt64 s = Some delta" "\<not> (is_decr \<and> delta = INT64_MIN)"
    "d = (if is_decr then - delta else delta)"
  shows "outcome (Execute (c # args) w) w
     (case fst (db_incr k d (dnow w)) of None \<Rightarrow> ReplyNotInt | Some m \<Rightarrow> EncodeInteger m [])
     (now_of w) (snd (db_incr k d (dnow w)))
     (if fst (db_incr k d (dnow w)) = None then [] else [[''INCRBY'', k, dec_of_int d]])"
proof (rule outcome_row [OF assms(1,2)])
  have g: "w_good n (bump w)" using assms(3) by simp
  have "int64_range delta" using assms(4) by (auto simp: int64_range_def dest: ParseInt64_range)
  then have d: "int64_range d" using assms(5,6) by (auto intro: int64_range_neg)
  obtain r w1 where t: "timed (\<lambda>now. Store_IncrBy now k d) (bump w) = (r, w1)"
    by (cases "timed (\<lambda>now. Store_IncrBy now k d) (bump w)") auto
  note f = timed_IncrBy [OF g d t]
  note past = timed_past [OF g t, simplified]
  note l = Persist_logs [OF f(3), of "[''INCRBY'', k, dec_of_int d]"]
  have "CmdIncrBy is_decr (name # args) (bump w) = Some (case r of None \<Rightarrow> (ReplyNotInt, w1)
      | Some m \<Rightarrow> (EncodeInteger m [], Persist [''INCRBY'', k, dec_of_int d] w1))"
    using assms(4-6) t by (auto simp: CmdIncrBy_def Let_def ReplyNotInt_def split: option.splits)
  then show "outcome (CmdIncrBy is_decr (name # args) (bump w)) (bump w)
     (case fst (db_incr k d (dnow w)) of None \<Rightarrow> ReplyNotInt | Some m \<Rightarrow> EncodeInteger m [])
     (now_of w) (snd (db_incr k d (dnow w)))
     (if fst (db_incr k d (dnow w)) = None then [] else [[''INCRBY'', k, dec_of_int d]])"
    unfolding outcome_def using past f l by (cases r) auto
qed

text \<open>\<open>DEL\<close> never reads the clock: it also counts a key that has expired and was not purged.\<close>

lemma DelMulti_ok:
  "store_ok st \<Longrightarrow> Store_DelMulti ks st = (n, st') \<Longrightarrow>
     store_ok st' \<and> lookup st' = (\<lambda>k. if k \<in> set ks then None else lookup st k)
     \<and> n = int (card {k \<in> set ks. lookup st k \<noteq> None})"
proof (induction ks arbitrary: st n st')
  case Nil
  then show ?case by simp
next
  case (Cons k ks)
  obtain b st1 where a: "Store_Del k st = (b, st1)" by (cases "Store_Del k st") auto
  obtain m st2 where c: "Store_DelMulti ks st1 = (m, st2)" by (cases "Store_DelMulti ks st1") auto
  note d = Store_Del_ok [OF Cons.prems(1) a]
  from Cons.IH [OF _ c] d have ih: "store_ok st2" "lookup st2 = (\<lambda>j. if j \<in> set ks then None else lookup st1 j)"
    "m = int (card {j \<in> set ks. lookup st1 j \<noteq> None})" by auto
  have eq: "n = (if b then m + 1 else m)" "st' = st2" using Cons.prems(2) a c by (auto simp: Let_def)
  have "{j \<in> set (k # ks). lookup st j \<noteq> None} =
      (if b then insert k {j \<in> set ks. lookup st1 j \<noteq> None} else {j \<in> set ks. lookup st1 j \<noteq> None})"
    using d by auto
  moreover have "k \<notin> {j \<in> set ks. lookup st1 j \<noteq> None}" using d by simp
  ultimately have "int (card {j \<in> set (k # ks). lookup st j \<noteq> None}) = n" using ih(3) eq(1) by simp
  then show ?case using ih d eq(2) by auto
qed

lemma Del_meaning:
  assumes "ToLowerAscii c = ''del''" "w_good n w" "ks \<noteq> []"
  shows "\<exists>m. card {k \<in> set ks. dnow w k \<noteq> None} \<le> m \<and> m \<le> card (set ks)
    \<and> outcome (Execute (c # ks) w) w (EncodeInteger (int m) [])
        (now_of w) (\<lambda>k. if k \<in> set ks then None else dnow w k) (if m > 0 then [''del'' # ks] else [])"
proof -
  let ?d = "\<lambda>k. if k \<in> set ks then None else dnow w k"
  obtain x st' where x: "Store_DelMulti ks (w_store w) = (x, st')" by (cases "Store_DelMulti ks (w_store w)") auto
  let ?w = "(bump w)\<lparr>w_store := st'\<rparr>"
  define m where "m = card {k \<in> set ks. lookup (w_store w) k \<noteq> None}"
  from DelMulti_ok [OF w_goodD(2) [OF assms(2)] x]
  have l: "lookup st' = (\<lambda>k. if k \<in> set ks then None else lookup (w_store w) k)" "x = int m" by (auto simp: m_def)
  have h: "zheap st' = zheap (w_store w)" using DelMulti_heap [of ks "w_store w"] x by simp
  have "becomes (now_of w) ?d ?w"
    by (rule becomesI [of _ "zheap (w_store w)" _ "\<lambda>k. if k \<in> set ks then None else vis (now_of w) (lookup (w_store w)) k"])
      (auto simp: h l(1) db_def absm_def vis_def fun_eq_iff IsExpired_def split: option.splits)
  moreover have "logs [] (bump w) ?w" by (simp add: logs_def)
  moreover have "CmdDel (''del'' # ks) (bump w) = Some (EncodeInteger x [], if x > 0 then Persist (''del'' # ks) ?w else ?w)"
    using x assms(3) by (cases ks) (simp_all add: CmdDel_def)
  moreover have "card {k \<in> set ks. dnow w k \<noteq> None} \<le> m"
    unfolding m_def by (rule card_mono) (auto simp: db_None vis_def split: option.splits)
  moreover have "m \<le> card (set ks)" unfolding m_def by (rule card_mono) auto
  ultimately show ?thesis
    using l(2) Persist_logs [of "bump w" ?w "''del'' # ks"]
    by (intro exI [of _ m] conjI outcome_row [OF assms(1) row(5)]) (auto simp: outcome_def)
qed

subsection \<open>EXISTS, EXPIRE, TTL\<close>

lemma timed_Exists:
  assumes "w_good n w" "timed (\<lambda>now. Store_Exists now k) w = (b, w1)"
  shows "b \<longleftrightarrow> dnow w k \<noteq> None" "becomes (now_of w) (dnow w) w1" "w_good n w1" "logs [] w w1"
    "w_clock w1 = (\<lambda>i. w_clock w (Suc i))"
proof -
  obtain r w2 where t: "timed (\<lambda>now. Store_Get now k) w = (r, w2)" by (cases "timed (\<lambda>now. Store_Get now k) w") auto
  then have e: "w1 = w2" "b = (r \<noteq> None)"
    using assms(2) by (auto simp: timed_eq Store_Exists_def case_prod_beta)
  note g = timed_Get [OF assms(1) t] and tf = timed_fields [OF t]
  show "b \<longleftrightarrow> dnow w k \<noteq> None" using g(1) e(2) by (cases r; cases "dnow w k") auto
  show "becomes (now_of w) (dnow w) w1" "w_good n w1" "logs [] w w1" "w_clock w1 = (\<lambda>i. w_clock w (Suc i))"
    unfolding e(1) by (rule g(2) g(3) g(4) tf(2))+
qed

text \<open>\<open>EXISTS\<close> looks at each key at its own reading of the clock.\<close>

lemma count_exists_db:
  "w_good n w \<Longrightarrow> \<exists>w'. count_exists ks w =
     (int (length (filter (\<lambda>i. db (later w i) (w_store w) (ks ! i) \<noteq> None) [0..<length ks])), w')
     \<and> becomes (later w (length ks)) (db (later w (length ks)) (w_store w)) w' \<and> logs [] w w'
     \<and> w_clock w' = (\<lambda>i. w_clock w (length ks + i))"
proof (induction ks arbitrary: w)
  case (Cons k ks)
  obtain b w1 where t: "timed (\<lambda>now. Store_Exists now k) w = (b, w1)"
    by (cases "timed (\<lambda>now. Store_Exists now k) w") auto
  note e = timed_Exists [OF Cons.prems(1) t]
  have d: "db (later w1 i) (w_store w1) = db (later w (Suc i)) (w_store w)" for i
    using becomesD [OF e(2) later_mono [OF Cons.prems(1)], of "Suc i"] later_mono [OF Cons.prems(1), of 0 "Suc i"]
    by (simp add: e(5))
  from Cons.IH [OF e(3)] obtain w' where w': "count_exists ks w1 =
     (int (length (filter (\<lambda>i. db (later w (Suc i)) (w_store w) (ks ! i) \<noteq> None) [0..<length ks])), w')"
     "becomes (later w (Suc (length ks))) (db (later w (Suc (length ks))) (w_store w)) w'" "logs [] w1 w'"
     "w_clock w' = (\<lambda>i. w_clock w (Suc (length ks + i)))"
    unfolding d by (auto simp: e(5))
  have f: "filter (\<lambda>i. db (later w i) (w_store w) ((k # ks) ! i) \<noteq> None) [0..<length (k # ks)] =
      (if b then [0] else []) @ map Suc (filter (\<lambda>i. db (later w (Suc i)) (w_store w) (ks ! i) \<noteq> None) [0..<length ks])"
    using e(1) by (simp add: upt_conv_Cons map_Suc_upt [symmetric] filter_map comp_def del: upt_Suc)
  have "logs [] w w'" using logs_trans [OF e(4) w'(3)] by simp
  moreover have "w_clock w' = (\<lambda>i. w_clock w (length (k # ks) + i))" unfolding w'(4) by simp
  ultimately show ?case using w'(1,2) t unfolding f by (simp add: Let_def)
qed simp

lemma Exists_meaning:
  assumes "ToLowerAscii c = ''exists''" "w_good n w" "ks \<noteq> []"
  shows "outcome (Execute (c # ks) w) w
     (EncodeInteger (int (length (filter (\<lambda>i. db (later w i) (w_store w) (ks ! i) \<noteq> None) [0..<length ks]))) [])
     (later w (length ks)) (db (later w (length ks)) (w_store w)) []"
proof (rule outcome_row [OF assms(1) row(6)])
  from count_exists_db [of n "bump w" ks] assms(2) obtain w' where "count_exists ks (bump w) =
     (int (length (filter (\<lambda>i. db (later w i) (w_store w) (ks ! i) \<noteq> None) [0..<length ks])), w')"
     "becomes (later w (length ks)) (db (later w (length ks)) (w_store w)) w'" "logs [] (bump w) w'"
     "now_of w' = later w (length ks)" by auto
  with assms(3) show "outcome (CmdExists (''exists'' # ks) (bump w)) (bump w)
     (EncodeInteger (int (length (filter (\<lambda>i. db (later w i) (w_store w) (ks ! i) \<noteq> None) [0..<length ks]))) [])
     (later w (length ks)) (db (later w (length ks)) (w_store w)) []"
    by (cases ks) (auto simp: outcome_def CmdExists_def)
qed

text \<open>\<open>EXPIRE\<close> reads the clock for the deadline and again in the store; a deadline that is already
  past deletes the key, and is logged as \<open>DEL\<close>.\<close>

lemma Expire_meaning:
  assumes "ToLowerAscii c = name" "map_of kCommandTable name = Some (CmdExpireGeneric m name, b)" "w_good n w"
    "ParseExpireArg s m = Some v"
    "db_expire (later w 1) k (i64 (now_of w + v)) (db (later w 1) (w_store w)) = ((changed, removed), d)"
  shows "outcome (Execute [c, k, s] w) w (EncodeInteger (if removed \<and> \<not> changed then 0 else 1) []) (later w 1) d
     (if removed \<and> \<not> changed then [] else if removed then [[''DEL'', k]]
      else [[''PEXPIREAT'', k, dec_of_int (i64 (now_of w + v))]])"
proof (rule outcome_row [OF assms(1,2)])
  have g: "w_good n (bump w)" using assms(3) by simp
  obtain w1 where t1: "NowMs (bump w) = (now_of w, w1)" by (simp add: NowMs_def)
  note g1 = NowMs_ok [OF g t1, THEN conjunct1]
  have w1: "w_store w1 = w_store w" "now_of w1 = later w 1" "logs [] (bump w) w1"
    using t1 by (auto simp: NowMs_def logs_def)
  obtain r w2 where t: "timed (\<lambda>t. Store_ExpireAt t k (i64 (now_of w + v))) w1 = (r, w2)"
    by (cases "timed (\<lambda>t. Store_ExpireAt t k (i64 (now_of w + v))) w1") auto
  note f = timed_ExpireAt [OF g1 t]
  note past = timed_past [OF g1 t, unfolded w1(2)]
  have r: "r = (changed, removed)" "becomes (later w 1) d w2" using f(1,2) assms(5) w1 by auto
  have l: "logs [] (bump w) w2" using logs_trans [OF w1(3) f(3)] by simp
  note p = Persist_logs [OF l, of "[''DEL'', k]"]
    Persist_logs [OF l, of "[''PEXPIREAT'', k, dec_of_int (i64 (now_of w + v))]"]
  show "outcome (CmdExpireGeneric m name [name, k, s] (bump w)) (bump w)
     (EncodeInteger (if removed \<and> \<not> changed then 0 else 1) []) (later w 1) d
     (if removed \<and> \<not> changed then [] else if removed then [[''DEL'', k]]
      else [[''PEXPIREAT'', k, dec_of_int (i64 (now_of w + v))]])"
    unfolding outcome_def using past assms(4) t1 t r l p
    by (cases "removed \<and> \<not> changed"; cases removed) (auto simp: CmdExpireGeneric_def Let_def)
qed

lemma PExpireAt_meaning:
  assumes "ToLowerAscii c = ''pexpireat''" "w_good n w" "ParseInt64 s = Some x"
    "db_expire (now_of w) k x (dnow w) = ((changed, removed), d)"
  shows "outcome (Execute [c, k, s] w) w (EncodeInteger (if removed \<and> \<not> changed then 0 else 1) []) (now_of w) d
     (if removed \<and> \<not> changed then [] else [[''pexpireat'', k, s]])"
proof (rule outcome_row [OF assms(1) row(13)])
  have g: "w_good n (bump w)" using assms(2) by simp
  obtain r w2 where t: "timed (\<lambda>t. Store_ExpireAt t k x) (bump w) = (r, w2)"
    by (cases "timed (\<lambda>t. Store_ExpireAt t k x) (bump w)") auto
  note f = timed_ExpireAt [OF g t]
  note past = timed_past [OF g t, simplified]
  have r: "r = (changed, removed)" "becomes (now_of w) d w2" using f(1,2) assms(4) by auto
  show "outcome (CmdPExpireAt [''pexpireat'', k, s] (bump w)) (bump w)
     (EncodeInteger (if removed \<and> \<not> changed then 0 else 1) []) (now_of w) d
     (if removed \<and> \<not> changed then [] else [[''pexpireat'', k, s]])"
    unfolding outcome_def using past assms(3) t r f(3) Persist_logs [OF f(3), of "[''pexpireat'', k, s]"]
    by (cases "removed \<and> \<not> changed") (auto simp: CmdPExpireAt_def Let_def)
qed

lemma Ttl_meaning:
  assumes "ToLowerAscii c = name" "map_of kCommandTable name = Some (CmdTtlGeneric q, b)" "w_good n w"
    "ms = db_ttl (now_of w) k (dnow w)"
  shows "outcome (Execute [c, k] w) w
     (EncodeInteger (if ms = -2 \<or> ms = -1 then ms else i64 (ms + q - 1) sdiv q) []) (now_of w) (dnow w) []"
proof (rule outcome_row [OF assms(1,2)])
  have g: "w_good n (bump w)" using assms(3) by simp
  obtain r w2 where t: "timed (\<lambda>t. Store_TtlMs t k) (bump w) = (r, w2)"
    by (cases "timed (\<lambda>t. Store_TtlMs t k) (bump w)") auto
  note f = timed_Ttl [OF g t]
  note past = timed_past [OF g t, simplified]
  show "outcome (CmdTtlGeneric q [name, k] (bump w)) (bump w)
     (EncodeInteger (if ms = -2 \<or> ms = -1 then ms else i64 (ms + q - 1) sdiv q) []) (now_of w) (dnow w) []"
    unfolding outcome_def using past assms(4) t f by (auto simp: CmdTtlGeneric_def Let_def)
qed

fun type_name :: "(dval \<times> int) option \<Rightarrow> string" where
  "type_name None = ''none''"
| "type_name (Some (DNone, _)) = ''none''"
| "type_name (Some (DSet f, _)) = ''zset''"
| "type_name (Some (_, _)) = ''string''"

lemma Type_meaning:
  assumes "ToLowerAscii c = ''type''" "w_good n w"
  shows "outcome (Execute [c, k] w) w (EncodeSimpleString (type_name (dnow w k)) []) (now_of w) (dnow w) []"
proof (rule outcome_row [OF assms(1) row(16)])
  have g: "w_good n (bump w)" using assms(2) by simp
  obtain r w2 where t: "timed (\<lambda>t. Store_Get t k) (bump w) = (r, w2)"
    by (cases "timed (\<lambda>t. Store_Get t k) (bump w)") auto
  note f = timed_Get [OF g t]
  note past = timed_past [OF g t, simplified]
  have ty: "timed (\<lambda>t. Store_TypeOf t k) (bump w) = (case r of None \<Rightarrow> kNone | Some v \<Rightarrow> value_type v, w2)"
    using t by (auto simp: timed_eq Store_TypeOf_def case_prod_beta split: option.splits)
  have n: "type_name (dnow w k) = ValueTypeName (case r of None \<Rightarrow> kNone | Some v \<Rightarrow> value_type v)"
  proof (cases r)
    case None
    then show ?thesis using f(1) by (cases "dnow w k") auto
  next
    case (Some v)
    then show ?thesis using f(1) by (cases v; cases "dnow w k") auto
  qed
  show "outcome (CmdType [''type'', k] (bump w)) (bump w)
     (EncodeSimpleString (type_name (dnow w k)) []) (now_of w) (dnow w) []"
    unfolding outcome_def n using past ty f(2,4) by (auto simp: CmdType_def)
qed

subsection \<open>KEYS, DBSIZE, FLUSHALL\<close>

lemma distinct_concat_index:
  "(\<And>i. i < length xss \<Longrightarrow> distinct (xss ! i) \<and> (\<forall>x\<in>set (xss ! i). g x = i)) \<Longrightarrow> distinct (concat xss)"
proof (induction xss rule: rev_induct)
  case (snoc xs xss)
  have i: "distinct (xss ! i) \<and> (\<forall>x\<in>set (xss ! i). g x = i)" if "i < length xss" for i
    using snoc.prems [of i] that by (simp add: nth_append)
  have "g x < length xss" if "x \<in> set (concat xss)" for x
  proof -
    from that obtain ys where "ys \<in> set xss" "x \<in> set ys" by auto
    then obtain j where "j < length xss" "x \<in> set (xss ! j)" by (metis in_set_conv_nth)
    with i show ?thesis by simp
  qed
  moreover have "distinct xs \<and> (\<forall>x\<in>set xs. g x = length xss)" using snoc.prems [of "length xss"] by simp
  ultimately show ?case using snoc.IH [OF i] by fastforce
qed simp

lemma keys_distinct:
  assumes "store_ok st"
  shows "distinct (concat (map (\<lambda>sh. map fst (filter P (sh_map sh))) (shards st)))"
proof (rule distinct_concat_index [where g = "GetShard st"])
  fix i assume "i < length (map (\<lambda>sh. map fst (filter P (sh_map sh))) (shards st))"
  then have "shard_ok st i (shards st ! i)" "i < length (shards st)" using assms by (simp_all add: store_ok_def)
  then show "distinct (map (\<lambda>sh. map fst (filter P (sh_map sh))) (shards st) ! i) \<and>
      (\<forall>x\<in>set (map (\<lambda>sh. map fst (filter P (sh_map sh))) (shards st) ! i). GetShard st x = i)"
    by (auto simp: shard_ok_def distinct_map_filter)
qed

lemma ForEach_keys: "map fst (Store_ForEach now st) =
    concat (map (\<lambda>sh. map fst (filter (\<lambda>(k, e). \<not> IsExpired now e) (sh_map sh))) (shards st))"
  by (simp add: Store_ForEach_def map_concat comp_def case_prod_beta')

lemma ForEach_key: "store_ok st \<Longrightarrow> k \<in> set (map fst (Store_ForEach now st)) \<longleftrightarrow> db now st k \<noteq> None"
proof -
  assume ok: "store_ok st"
  have "k \<in> set (map fst (Store_ForEach now st)) \<longleftrightarrow> (\<exists>v x. (k, v, x) \<in> set (Store_ForEach now st))" by force
  also have "\<dots> \<longleftrightarrow> (\<exists>e. vis now (lookup st) k = Some e)"
    unfolding Store_ForEach_ok [OF ok] by (metis entry.cases)
  finally show ?thesis using db_None [of now st k] by auto
qed

lemma glob_filter_keys:
  "glob_filter pat rows = Some (filter (\<lambda>k. glob_matches (glob_toks pat 0) k) (map fst rows))"
  by (induction pat rows rule: glob_filter.induct) (auto simp: GlobMatch_tokens)

lemma Keys_meaning:
  assumes "ToLowerAscii c = ''keys''" "w_good n w"
  shows "\<exists>ks. distinct ks \<and> set ks = {k. dnow w k \<noteq> None \<and> glob_matches (glob_toks pat 0) k}
    \<and> outcome (Execute [c, pat] w) w (EncodeBulks ks (EncodeArrayHeader (length ks) [])) (now_of w) (dnow w) []"
proof -
  note ok = w_goodD(2) [OF assms(2)]
  let ?rows = "Store_ForEach (now_of w) (w_store w)"
  let ?ks = "filter (\<lambda>k. glob_matches (glob_toks pat 0) k) (map fst ?rows)"
  have "distinct ?ks" unfolding ForEach_keys by (intro distinct_filter keys_distinct ok)
  moreover have "set ?ks = {k. dnow w k \<noteq> None \<and> glob_matches (glob_toks pat 0) k}"
    using ForEach_key [OF ok] by auto
  moreover have "outcome (Execute [c, pat] w) w (EncodeBulks ?ks (EncodeArrayHeader (length ?ks) [])) (now_of w) (dnow w) []"
    by (rule outcome_row [OF assms(1) row(17)])
      (use later_mono [OF assms(2), of 0 1] in \<open>auto simp: outcome_def CmdKeys_def timed_eq glob_filter_keys logs_def becomes_def\<close>)
  ultimately show ?thesis by blast
qed

lemma Size_card: "store_ok st \<Longrightarrow> Store_Size st = card (dom (lookup st))"
proof -
  assume ok: "store_ok st"
  let ?ks = "concat (map (\<lambda>sh. map fst (filter (\<lambda>_. True) (sh_map sh))) (shards st))"
  have "set ?ks = (\<Union>sh\<in>set (shards st). fst ` set (sh_map sh))" by simp
  also have "\<dots> = dom (lookup st)"
  proof (intro equalityI subsetI)
    fix k assume "k \<in> (\<Union>sh\<in>set (shards st). fst ` set (sh_map sh))"
    then obtain i where i: "i < length (shards st)" "k \<in> fst ` set (sh_map (shards st ! i))"
      by (metis UN_E in_set_conv_nth)
    with ok have "GetShard st k = i" unfolding store_ok_def shard_ok_def by blast
    with i(2) show "k \<in> dom (lookup st)" by (auto simp: lookup_def domIff map_of_eq_None_iff)
  next
    fix k assume "k \<in> dom (lookup st)"
    then obtain e where "map_of (sh_map (the_shard st k)) k = Some e" by (auto simp: lookup_def)
    then have "k \<in> fst ` set (sh_map (the_shard st k))" by (force dest!: map_of_SomeD)
    with GetShard_less [OF ok, of k] show "k \<in> (\<Union>sh\<in>set (shards st). fst ` set (sh_map sh))" by force
  qed
  finally have "set ?ks = dom (lookup st)" .
  then have "card (dom (lookup st)) = length ?ks" using distinct_card [OF keys_distinct [OF ok]] by metis
  also have "\<dots> = Store_Size st" by (simp add: Store_Size_def length_concat comp_def)
  finally show ?thesis by simp
qed

text \<open>\<open>DBSIZE\<close> counts the keys that were not purged, expired or not.\<close>

lemma DbSize_meaning:
  assumes "ToLowerAscii c = ''dbsize''" "w_good n w"
  shows "\<exists>m. card (dom (dnow w)) \<le> m \<and> ((\<forall>k e. lookup (w_store w) k = Some e \<longrightarrow> \<not> IsExpired (now_of w) e) \<longrightarrow> m = card (dom (dnow w)))
    \<and> outcome (Execute [c] w) w (EncodeInteger (int m) []) (now_of w) (dnow w) []"
proof -
  note ok = w_goodD(2) [OF assms(2)]
  let ?L = "lookup (w_store w)"
  have d: "dom (dnow w) = {k. \<exists>e. ?L k = Some e \<and> \<not> IsExpired (now_of w) e}"
    using db_None [of "now_of w" "w_store w"] by (auto simp: dom_def vis_def split: option.splits if_splits)
  have "finite (dom ?L)" unfolding lookup_def
    by (rule finite_subset [of _ "\<Union>sh\<in>set (shards (w_store w)). fst ` set (sh_map sh)"])
      (use GetShard_less [OF ok] in \<open>force simp: dom_map_of_conv_image_fst dest: map_of_SomeD\<close>, simp)
  then have "card (dom (dnow w)) \<le> Store_Size (w_store w)"
    unfolding Size_card [OF ok] d by (rule card_mono) auto
  moreover have "(\<forall>k e. ?L k = Some e \<longrightarrow> \<not> IsExpired (now_of w) e) \<Longrightarrow> Store_Size (w_store w) = card (dom (dnow w))"
    unfolding Size_card [OF ok] d by (rule arg_cong [of _ _ card]) auto
  moreover have "outcome (Execute [c] w) w (EncodeInteger (int (Store_Size (w_store w))) []) (now_of w) (dnow w) []"
    by (rule outcome_row [OF assms(1) row(18)]) (simp add: outcome_def CmdDbSize_def becomes_def)
  ultimately show ?thesis by blast
qed

text \<open>\<open>FLUSHALL\<close> empties the database and rewrites the file as the one command, under the same path
  and policy; the durable bytes stay those of the close before it.\<close>

lemma truncate_durable [simp]: "durable (truncate_rewrite p data d) = durable d"
  by (simp add: truncate_rewrite_def)

lemma Aof_Open_durable [simp]: "durable (snd (snd (Aof_Open p pol (a, d)))) = durable d" if "\<not> af_open a"
  using that by (simp add: Aof_Open_def Let_def)

lemma Aof_Close_disk:
  "can_open (snd (Aof_Close ad)) = can_open (snd ad)" "(\<forall>i. n \<le> fwrites (snd ad) i) \<Longrightarrow> n \<le> fwrites (snd (Aof_Close ad)) i"
  by (cases ad; auto simp: Aof_Close_def fclose_def fflush_def FsyncFile_def fwrite_once_def Let_def)+

lemma FlushAll_meaning:
  assumes "ToLowerAscii c = ''flushall''" "w_good n w"
  shows "\<exists>w'. Execute [c] w = Some (EncodeSimpleString ''OK'' [], w') \<and> becomes (now_of w) Map.empty w'
    \<and> (\<not> af_open (w_aof w) \<longrightarrow> w_aof w' = w_aof w \<and> w_disk w' = w_disk w)
    \<and> (af_open (w_aof w) \<longrightarrow> durable (w_disk w') = durable (snd (Aof_Close (w_aof w, w_disk w))))
    \<and> (af_open (w_aof w) \<and> can_open (w_disk w) (af_path (w_aof w))
         \<and> (\<forall>i. length (enc [''FLUSHALL'']) \<le> fwrites (w_disk w) i) \<longrightarrow>
         af_open (w_aof w') \<and> af_path (w_aof w') = af_path (w_aof w) \<and> af_policy (w_aof w') = af_policy (w_aof w)
         \<and> aof_log (w_aof w', w_disk w') = enc [''FLUSHALL''])"
proof -
  let ?w = "(bump w)\<lparr>w_store := Store_FlushAll (w_store w)\<rparr>"
  obtain a d where cl: "Aof_Close (w_aof w, w_disk w) = (a, d)" by (cases "Aof_Close (w_aof w, w_disk w)") auto
  note fl = Store_FlushAll_ok [OF w_goodD(2) [OF assms(2)]]
  have b: "becomes (now_of w) Map.empty (x\<lparr>w_store := Store_FlushAll (w_store w)\<rparr>)" for x
    using fl by (simp add: becomes_def db_def absm_def vis_def fun_eq_iff)
  have ex: "Execute [c] w = Some (EncodeSimpleString ''OK'' [],
      if af_open (w_aof w)
      then let d' = truncate_rewrite (af_path (w_aof w)) (enc [''FLUSHALL'']) d;
               r = Aof_Open (af_path (w_aof w)) (af_policy (w_aof w)) (a, d')
           in ?w\<lparr>w_aof := fst (snd r), w_disk := snd (snd r)\<rparr>
      else ?w)"
    unfolding Execute_row [OF assms(1) row(19)]
    using cl by (simp add: CmdFlushAll_def EncodeCommand_enc Let_def case_prod_beta)
  show ?thesis
  proof (cases "af_open (w_aof w)")
    case False
    with ex b [of "bump w"] show ?thesis by simp
  next
    case True
    have na: "\<not> af_open a" "af_buffer a = []" using Aof_Close_ok [where ad = "(w_aof w, w_disk w)", OF _ refl] True cl by simp_all
    let ?p = "af_path (w_aof w)" and ?e = "enc [''FLUSHALL'']"
    let ?d = "truncate_rewrite ?p ?e d"
    let ?r = "Aof_Open ?p (af_policy (w_aof w)) (a, ?d)"
    have "durable (snd (snd ?r)) = durable d" using Aof_Open_durable [OF na(1)] by simp
    moreover have "af_open (fst (snd ?r)) \<and> af_path (fst (snd ?r)) = ?p \<and> af_policy (fst (snd ?r)) = af_policy (w_aof w)
         \<and> aof_log (snd ?r) = ?e"
      if "can_open (w_disk w) ?p" "\<forall>i. length ?e \<le> fwrites (w_disk w) i"
    proof -
      have "can_open d ?p" "length ?e \<le> fwrites d 0"
        using Aof_Close_disk [where ad = "(w_aof w, w_disk w)"] cl that by simp_all
      then show ?thesis using na
        by (simp add: Aof_Open_def truncate_rewrite_def aof_log_def content_def Let_def)
    qed
    ultimately show ?thesis using ex True cl b [of "bump w"]
      by (simp add: Let_def becomes_def)
  qed
qed

end
