(* ===== verification/ZSet_Meaning.thy ===== *)
theory ZSet_Meaning
  imports Command_Meaning
begin

section \<open>What the commands on ordered sets do to the database\<close>

text \<open>
  A value of the database that is an ordered set is a finite map from members to scores; \<open>zkeys\<close>
  lists its pairs in the order of score, then member.  Replies are functions of that map; dictionary,
  skip list and references are gone.
\<close>

definition zread :: "string \<Rightarrow> (dval \<times> int) option \<Rightarrow> ((string \<rightharpoonup> score) \<Rightarrow> string) \<Rightarrow> string" where
  "zread missing v g = (case v of None \<Rightarrow> missing | Some (DSet f, _) \<Rightarrow> g f | Some _ \<Rightarrow> ReplyWrongType)"

definition encode_keys :: "bool \<Rightarrow> (score \<times> string) list \<Rightarrow> string" where
  "encode_keys ws ks =
     EncodeBulks (concat (map (\<lambda>(s, m). m # (if ws then [ZScoreToString s] else [])) ks))
       (EncodeArrayHeader (if ws then length ks * 2 else length ks) [])"

lemma encode_nodes_keys: "encode_nodes ws nds = encode_keys ws (map nkey nds)"
  by (simp add: encode_nodes_def encode_keys_def comp_def)

text \<open>The contract of \<open>with_zset\<close> and \<open>read_zset\<close>, for a handler body \<open>b\<close>.\<close>

lemma with_zset_read:
  assumes g: "w_good n w"
  shows "\<exists>w1 r z. w_good n w1 \<and> becomes (now_of w) (dnow w) w1 \<and> logs [] w w1 \<and> now_of w \<le> now_of w1 \<and>
     (\<forall>b. with_zset key False b w = (case dnow w key of
        None \<Rightarrow> Some (EncodeNullBulk [], w1) | Some (DSet f, dl) \<Rightarrow> b r z w1 | Some _ \<Rightarrow> Some (ReplyWrongType, w1))) \<and>
     (\<forall>b. read_zset key b w = (case dnow w key of
        None \<Rightarrow> Some (EncodeInteger 0 [], w1) | Some (DSet f, dl) \<Rightarrow> map_option (\<lambda>out. (out, w1)) (b z)
      | Some _ \<Rightarrow> Some (ReplyWrongType, w1))) \<and>
     (\<forall>f dl. dnow w key = Some (DSet f, dl) \<longrightarrow> acquired n (now_of w) key r z f dl (dnow w) w1)"
proof -
  obtain x w1 where t: "timed (\<lambda>now. Store_GetZSet now key) w = (x, w1)"
    by (cases "timed (\<lambda>now. Store_GetZSet now key) w") auto
  note z = timed_GetZSet [OF g t] and past = timed_past [OF g t]
  show ?thesis
  proof (cases "\<exists>f dl. dnow w key = Some (DSet f, dl)")
    case True
    then obtain f dl where d: "dnow w key = Some (DSet f, dl)" by blast
    with z(6) obtain r zz where "x = ZRef r" "zheap (w_store w1) r = Some zz" "acquired n (now_of w) key r zz f dl (dnow w) w1"
      by auto
    with z past d t show ?thesis
      by (intro exI [of _ w1] exI [of _ r] exI [of _ zz]) (auto simp: with_zset_def AcquireZSet_def read_zset_def map_option_case split: bind_split option.splits)
  next
    case False
    then have "x = ZMissing \<and> dnow w key = None \<or> x = ZWrongType \<and> (\<exists>v dl. dnow w key = Some (v, dl) \<and> (\<forall>f. v \<noteq> DSet f))"
      using z(6) by (cases "dnow w key"; auto split: dval.splits) (metis dval.exhaust)
    with z past False t show ?thesis
      by (intro exI [of _ w1]) (auto simp: with_zset_def AcquireZSet_def read_zset_def split: dval.splits)
  qed
qed

lemma with_zset_create:
  assumes g: "w_good n w"
  shows "\<exists>w1 r z. w_good n w1 \<and> logs [] w w1 \<and> now_of w \<le> now_of w1 \<and>
     (\<forall>b. with_zset key True b w = (case dnow w key of
        None \<Rightarrow> b r z w1 | Some (DSet f, dl) \<Rightarrow> b r z w1 | Some _ \<Rightarrow> Some (ReplyWrongType, w1))) \<and>
     (case dnow w key of
        None \<Rightarrow> acquired n (now_of w) key r z Map.empty 0 ((dnow w)(key \<mapsto> (DSet Map.empty, 0))) w1
      | Some (DSet f, dl) \<Rightarrow> acquired n (now_of w) key r z f dl (dnow w) w1
      | Some _ \<Rightarrow> becomes (now_of w) (dnow w) w1)"
proof -
  obtain x w1 where t: "timed (\<lambda>now. Store_GetOrCreateZSet now key) w = (x, w1)"
    by (cases "timed (\<lambda>now. Store_GetOrCreateZSet now key) w") auto
  note z = timed_GetOrCreate [OF g t] and past = timed_past [OF g t]
  show ?thesis
  proof (cases "\<exists>r zz. x = ZRef r \<and> zheap (w_store w1) r = Some zz")
    case True
    then obtain r zz where r: "x = ZRef r" "zheap (w_store w1) r = Some zz" by blast
    with z past t show ?thesis
      by (intro exI [of _ w1] exI [of _ r] exI [of _ zz])
        (auto simp: with_zset_def AcquireZSet_def split: option.splits dval.splits)
  next
    case False
    with z(5) have "x = ZWrongType \<and> becomes (now_of w) (dnow w) w1 \<and> (\<exists>v dl. dnow w key = Some (v, dl) \<and> (\<forall>f. v \<noteq> DSet f))"
      by (cases "dnow w key"; auto split: dval.splits) (metis dval.exhaust)+
    with z past t show ?thesis
      by (intro exI [of _ w1]) (auto simp: with_zset_def AcquireZSet_def split: dval.splits)
  qed
qed

text \<open>A handler that only reads the set.\<close>

lemma read_meaning:
  assumes g: "w_good n w" and b: "\<And>r z f w1. zset_rep z f \<Longrightarrow> b r z w1 = Some (out f, w1)"
  shows "outcome (with_zset key False b w) w (zread (EncodeNullBulk []) (dnow w key) out) (now_of w) (dnow w) []"
proof -
  from with_zset_read [OF g, of key] obtain w1 r z where
    w1: "becomes (now_of w) (dnow w) w1" "logs [] w w1" "now_of w \<le> now_of w1"
    "with_zset key False b w = (case dnow w key of
        None \<Rightarrow> Some (EncodeNullBulk [], w1) | Some (DSet f, dl) \<Rightarrow> b r z w1 | Some _ \<Rightarrow> Some (ReplyWrongType, w1))"
    "\<And>f dl. dnow w key = Some (DSet f, dl) \<Longrightarrow> acquired n (now_of w) key r z f dl (dnow w) w1" by blast
  have "with_zset key False b w = Some (zread (EncodeNullBulk []) (dnow w key) out, w1)"
    using w1(4,5) b [of z] by (auto simp: zread_def acquired_def split: option.splits dval.splits)
  with w1(1-3) show ?thesis by (auto simp: outcome_def)
qed

lemma read_zset_meaning:
  assumes g: "w_good n w" and b: "\<And>z f. zset_rep z f \<Longrightarrow> b z = Some (out f)"
  shows "outcome (read_zset key b w) w (zread (EncodeInteger 0 []) (dnow w key) out) (now_of w) (dnow w) []"
proof -
  from with_zset_read [OF g, of key] obtain w1 r z where
    w1: "becomes (now_of w) (dnow w) w1" "logs [] w w1" "now_of w \<le> now_of w1"
    "read_zset key b w = (case dnow w key of
        None \<Rightarrow> Some (EncodeInteger 0 [], w1) | Some (DSet f, dl) \<Rightarrow> map_option (\<lambda>out. (out, w1)) (b z)
      | Some _ \<Rightarrow> Some (ReplyWrongType, w1))"
    "\<And>f dl. dnow w key = Some (DSet f, dl) \<Longrightarrow> acquired n (now_of w) key r z f dl (dnow w) w1" by blast
  have "read_zset key b w = Some (zread (EncodeInteger 0 []) (dnow w key) out, w1)"
    using w1(4,5) b [of z] by (auto simp: zread_def acquired_def split: option.splits dval.splits)
  with w1(1-3) show ?thesis by (auto simp: outcome_def)
qed

subsection \<open>Reads\<close>

lemma ZScore_meaning:
  assumes "ToLowerAscii c = ''zscore''" "w_good n w"
  shows "outcome (Execute [c, k, m] w) w
     (zread (EncodeNullBulk []) (dnow w k)
        (\<lambda>f. case f m of None \<Rightarrow> EncodeNullBulk [] | Some s \<Rightarrow> EncodeBulkString (ZScoreToString s) [])) (now_of w) (dnow w) []"
proof (rule outcome_row [OF assms(1) row(22)])
  have g: "w_good n (bump w)" using assms(2) by simp
  show "outcome (CmdZScore [''zscore'', k, m] (bump w)) (bump w)
     (zread (EncodeNullBulk []) (dnow w k)
        (\<lambda>f. case f m of None \<Rightarrow> EncodeNullBulk [] | Some s \<Rightarrow> EncodeBulkString (ZScoreToString s) [])) (now_of w) (dnow w) []"
    using read_meaning [OF g, where key = k and out = "\<lambda>f. case f m of None \<Rightarrow> EncodeNullBulk [] | Some s \<Rightarrow> EncodeBulkString (ZScoreToString s) []"
        and b = "\<lambda>r z w. Some (case ZSet_GetScore m z of None \<Rightarrow> (EncodeNullBulk [], w) | Some s \<Rightarrow> (EncodeBulkString (ZScoreToString s) [], w))"]
    by (simp add: CmdZScore_def ZSet_GetScore_rep split: option.split)
qed

lemma ZCard_meaning:
  assumes "ToLowerAscii c = ''zcard''" "w_good n w"
  shows "outcome (Execute [c, k] w) w
     (zread (EncodeInteger 0 []) (dnow w k) (\<lambda>f. EncodeInteger (int (card (dom f))) [])) (now_of w) (dnow w) []"
proof (rule outcome_row [OF assms(1) row(23)])
  have g: "w_good n (bump w)" using assms(2) by simp
  show "outcome (CmdZCard [''zcard'', k] (bump w)) (bump w)
     (zread (EncodeInteger 0 []) (dnow w k) (\<lambda>f. EncodeInteger (int (card (dom f))) [])) (now_of w) (dnow w) []"
    using read_zset_meaning [OF g, where key = k and out = "\<lambda>f. EncodeInteger (int (card (dom f))) []"
        and b = "\<lambda>z. Some (EncodeInteger (int (ZSet_Size z)) [])"]
    by (simp add: CmdZCard_def zset_rep_size)
qed

lemma zrank_less: "zset_rep z f \<Longrightarrow> zrank f m = Some k \<Longrightarrow> k < card (dom f)"
proof -
  assume r: "zset_rep z f" and k: "zrank f m = Some k"
  then obtain s where s: "f m = Some s" "k = card {x \<in> zkey_set f. x < (s, m)}" by (auto simp: zrank_def)
  have fin: "finite (zkey_set f)" by (rule finite_zkey_set [OF zset_rep_finite [OF r]])
  have "(s, m) \<in> zkey_set f" using s(1) by (simp add: zkey_set_def)
  then have "{x \<in> zkey_set f. x < (s, m)} \<subset> zkey_set f" by blast
  from psubset_card_mono [OF fin this] s(2) show ?thesis by (simp add: card_zkey_set)
qed

lemma sint_of_nat_u64: "n \<le> sl_max \<Longrightarrow> sint (of_nat n :: u64) = int n"
  by (simp add: sint_small_u64 word_le_nat_alt unat_of_nat)

text \<open>The rank counts the pairs before the member; \<open>ZREVRANK\<close> counts those after it.\<close>

lemma ZRank_meaning:
  assumes "ToLowerAscii c = name" "map_of kCommandTable name = Some (CmdZRankGeneric rv, x)" "w_good n w"
  shows "outcome (Execute [c, k, m] w) w
     (zread (EncodeNullBulk []) (dnow w k)
        (\<lambda>f. case zrank f m of None \<Rightarrow> EncodeNullBulk []
           | Some i \<Rightarrow> EncodeInteger (if rv then int (card (dom f)) - 1 - int i else int i) [])) (now_of w) (dnow w) []"
proof (rule outcome_row [OF assms(1,2)])
  have g: "w_good n (bump w)" using assms(3) by simp
  let ?out = "\<lambda>f. case zrank f m of None \<Rightarrow> EncodeNullBulk []
           | Some i \<Rightarrow> EncodeInteger (if rv then int (card (dom f)) - 1 - int i else int i) []"
  let ?b = "\<lambda>r z w. do { rank \<leftarrow> ZSet_Rank m z;
             Some (case rank of
                None \<Rightarrow> (EncodeNullBulk [], w)
              | Some k \<Rightarrow> (EncodeInteger (if rv then sint (of_nat (ZSet_Size z) - 1 - k) else sint k) [], w)) }"
  have "?b r z w1 = Some (?out f, w1)" if z: "zset_rep z f" for r :: nat and z f and w1 :: world
  proof (cases "zrank f m")
    case None
    then show ?thesis using ZSet_Rank_rep [OF z, of m] by simp
  next
    case (Some i)
    note less = zrank_less [OF z Some] and cap = zset_rep_cap [OF z]
    have eq: "of_nat (card (dom f)) - 1 - (of_nat i :: u64) = of_nat (card (dom f) - 1 - i)" using less by (simp add: of_nat_diff)
    have "card (dom f) - 1 - i \<le> sl_max" "i \<le> sl_max" using less cap by linarith+
    then have "sint (of_nat (ZSet_Size z) - 1 - (of_nat i :: u64)) = int (card (dom f)) - 1 - int i"
      "sint (of_nat i :: u64) = int i"
      unfolding zset_rep_size [OF z] eq using less by (simp_all only: sint_of_nat_u64)
    then show ?thesis using Some ZSet_Rank_rep [OF z, of m] by simp
  qed
  from read_meaning [OF g, where key = k and out = ?out and b = ?b, OF this]
  show "outcome (CmdZRankGeneric rv [name, k, m] (bump w)) (bump w) (zread (EncodeNullBulk []) (dnow w k) ?out) (now_of w) (dnow w) []"
    by (simp add: CmdZRankGeneric_def)
qed

text \<open>The slice of \<open>ZRANGE\<close>: negative indices count from the end, both ends are clipped.\<close>

definition zslice :: "int \<Rightarrow> int \<Rightarrow> 'a list \<Rightarrow> 'a list" where
  "zslice start stop ks =
     (let n = length ks; a = norm_start start n; b = norm_stop stop n in
      if a \<le> b then take (nat b - nat a + 1) (drop (nat a) ks) else [])"

definition scores_option :: "string list \<Rightarrow> bool \<Rightarrow> bool" where
  "scores_option opt ws \<longleftrightarrow> opt = [] \<and> \<not> ws \<or> (\<exists>x. opt = [x] \<and> ToLowerAscii x = ''withscores'' \<and> ws)"

lemma with_scores_argI: "scores_option opt ws \<Longrightarrow> with_scores_arg (name # k # a # b # opt) = Some ws
    \<and> (length (name # k # a # b # opt) = 4 \<or> length (name # k # a # b # opt) = 5)"
  by (auto simp: scores_option_def with_scores_arg_def numeral_eq_Suc)

lemma encode_keys_Nil: "encode_keys ws [] = EncodeArrayHeader 0 []"
  by (simp add: encode_keys_def EncodeBulks_def)

text \<open>\<open>ZREVRANGE\<close> takes the slice from the ascending order and reverses it.\<close>

lemma ZRange_meaning:
  assumes "ToLowerAscii c = name" "map_of kCommandTable name = Some (CmdZRangeGeneric rv, x)" "w_good n w"
    "ParseInt64 a = Some start" "ParseInt64 b = Some stop" "scores_option opt ws"
  shows "outcome (Execute (c # k # a # b # opt) w) w
     (zread (EncodeNullBulk []) (dnow w k)
        (\<lambda>f. encode_keys ws ((if rv then rev else id) (zslice start stop (zkeys f))))) (now_of w) (dnow w) []"
proof (rule outcome_row [OF assms(1,2)])
  have g: "w_good n (bump w)" using assms(3) by simp
  let ?out = "\<lambda>f. encode_keys ws ((if rv then rev else id) (zslice start stop (zkeys f)))"
  let ?b = "\<lambda>r z w. case NormalizeRange start stop (ZSet_Size z) of
                    None \<Rightarrow> Some (EncodeArrayHeader 0 [], w)
                  | Some (lo, hi) \<Rightarrow>
                      do { nds \<leftarrow> ZSet_RangeByRank lo hi z;
                           Some (encode_nodes ws (if rv then rev nds else nds), w) }"
  have "?b r z w1 = Some (?out f, w1)" if z: "zset_rep z f" for r :: nat and z f and w1 :: world
  proof (cases "NormalizeRange start stop (ZSet_Size z)")
    case None
    then have "\<not> norm_start start (card (dom f)) \<le> norm_stop stop (card (dom f))"
      unfolding NormalizeRange_norm zset_rep_size [OF z] by (simp split: if_splits)
    then have "zslice start stop (zkeys f) = []" by (simp add: zslice_def zkeys_length)
    with None show ?thesis by (simp add: encode_keys_Nil)
  next
    case (Some q)
    obtain lo hi where q: "q = (lo, hi)" by (cases q) auto
    have cap: "ZSet_Size z \<le> sl_max" using zset_rep_cap [OF z] zset_rep_size [OF z] by simp
    from NormalizeRange_bounds [OF Some [unfolded q] cap]
    have b: "unat lo = nat (norm_start start (card (dom f)))" "unat hi = nat (norm_stop stop (card (dom f)))"
      "unat lo \<le> unat hi" "unat hi < ZSet_Size z" unfolding zset_rep_size [OF z] by blast+
    have le: "norm_start start (card (dom f)) \<le> norm_stop stop (card (dom f))"
      using Some unfolding NormalizeRange_norm zset_rep_size [OF z] by (simp split: if_splits)
    have "unat hi < 18446744073709551615" using b(4) cap by linarith
    with ZSet_RangeByRank_rep [OF z, of hi lo] b(3) obtain nds where nds: "ZSet_RangeByRank lo hi z = Some nds"
      "map nkey nds = take (unat hi - unat lo + 1) (drop (unat lo) (zkeys f))" by (auto simp: word_le_nat_alt)
    then have "map nkey nds = zslice start stop (zkeys f)"
      using le by (simp add: zslice_def b(1,2) zkeys_length Let_def)
    then show ?thesis using Some q nds(1) by (simp add: encode_nodes_keys rev_map [symmetric])
  qed
  from read_meaning [OF g, where key = k and out = ?out and b = ?b, OF this] with_scores_argI [OF assms(6), of name k a b]
  show "outcome (CmdZRangeGeneric rv (name # k # a # b # opt) (bump w)) (bump w)
      (zread (EncodeNullBulk []) (dnow w k) ?out) (now_of w) (dnow w) []"
    using assms(4,5) by (auto simp: CmdZRangeGeneric_def)
qed

lemma ZRangeByScore_meaning:
  assumes "ToLowerAscii c = ''zrangebyscore''" "w_good n w"
    "ParseScoreBound a = Some (mn, minx)" "ParseScoreBound b = Some (mx, maxx)" "scores_option opt ws"
  shows "outcome (Execute (c # k # a # b # opt) w) w
     (zread (EncodeNullBulk []) (dnow w k) (\<lambda>f. encode_keys ws (filter (in_score_range mn mx minx maxx) (zkeys f))))
     (now_of w) (dnow w) []"
proof (rule outcome_row [OF assms(1) row(29)])
  have g: "w_good n (bump w)" using assms(2) by simp
  let ?out = "\<lambda>f. encode_keys ws (filter (in_score_range mn mx minx maxx) (zkeys f))"
  let ?b = "\<lambda>r z w. do { nds \<leftarrow> ZSet_RangeByScore mn mx minx maxx z; Some (encode_nodes ws nds, w) }"
  have "?b r z w1 = Some (?out f, w1)" if z: "zset_rep z f" for r :: nat and z f and w1 :: world
    using ZSet_RangeByScore_rep [OF z, of mn mx minx maxx] by (auto simp: encode_nodes_keys)
  from read_meaning [OF g, where key = k and out = ?out and b = ?b, OF this] with_scores_argI [OF assms(5), of "''zrangebyscore''" k a b]
  show "outcome (CmdZRangeByScore (''zrangebyscore'' # k # a # b # opt) (bump w)) (bump w)
      (zread (EncodeNullBulk []) (dnow w k) ?out) (now_of w) (dnow w) []"
    using assms(3,4) by (auto simp: CmdZRangeByScore_def)
qed

lemma ZCount_meaning:
  assumes "ToLowerAscii c = ''zcount''" "w_good n w"
    "ParseScoreBound a = Some (mn, minx)" "ParseScoreBound b = Some (mx, maxx)"
  shows "outcome (Execute [c, k, a, b] w) w
     (zread (EncodeInteger 0 []) (dnow w k)
        (\<lambda>f. EncodeInteger (int (length (filter (in_score_range mn mx minx maxx) (zkeys f)))) [])) (now_of w) (dnow w) []"
proof (rule outcome_row [OF assms(1) row(30)])
  have g: "w_good n (bump w)" using assms(2) by simp
  let ?out = "\<lambda>f. EncodeInteger (int (length (filter (in_score_range mn mx minx maxx) (zkeys f)))) []"
  let ?b = "\<lambda>z. do { nds \<leftarrow> ZSet_RangeByScore mn mx minx maxx z; Some (EncodeInteger (int (length nds)) []) }"
  have "?b z = Some (?out f)" if z: "zset_rep z f" for z f
    using ZSet_RangeByScore_rep [OF z, of mn mx minx maxx] by (metis bind.bind_lunit length_map)
  from read_zset_meaning [OF g, where key = k and out = ?out and b = ?b, OF this]
  show "outcome (CmdZCount [''zcount'', k, a, b] (bump w)) (bump w) (zread (EncodeInteger 0 []) (dnow w k) ?out) (now_of w) (dnow w) []"
    using assms(3,4) by (auto simp: CmdZCount_def)
qed

subsection \<open>Writes\<close>

text \<open>The set a writing command works on: the one there is, or an empty one.\<close>

definition zbase :: "(dval \<times> int) option \<Rightarrow> ((string \<rightharpoonup> score) \<times> int) option" where
  "zbase v = (case v of None \<Rightarrow> Some (Map.empty, 0) | Some (DSet f, dl) \<Rightarrow> Some (f, dl) | Some _ \<Rightarrow> None)"

lemma create_meaning:
  assumes g: "w_good n w"
  shows "\<exists>w1 r z. w_good n w1 \<and> logs [] w w1 \<and> now_of w \<le> now_of w1 \<and>
     (\<forall>b. with_zset key True b w = (if zbase (dnow w key) = None then Some (ReplyWrongType, w1) else b r z w1)) \<and>
     (zbase (dnow w key) = None \<longrightarrow> becomes (now_of w) (dnow w) w1) \<and>
     (\<forall>f dl. zbase (dnow w key) = Some (f, dl) \<longrightarrow>
        acquired n (now_of w) key r z f dl ((dnow w)(key \<mapsto> (DSet f, dl))) w1)"
proof -
  from with_zset_create [OF g, of key] obtain w1 r z where w1: "w_good n w1" "logs [] w w1" "now_of w \<le> now_of w1"
    "\<forall>b. with_zset key True b w = (case dnow w key of
        None \<Rightarrow> b r z w1 | Some (DSet f, dl) \<Rightarrow> b r z w1 | Some _ \<Rightarrow> Some (ReplyWrongType, w1))"
    "case dnow w key of
        None \<Rightarrow> acquired n (now_of w) key r z Map.empty 0 ((dnow w)(key \<mapsto> (DSet Map.empty, 0))) w1
      | Some (DSet f, dl) \<Rightarrow> acquired n (now_of w) key r z f dl (dnow w) w1
      | Some _ \<Rightarrow> becomes (now_of w) (dnow w) w1" by blast
  show ?thesis
  proof (cases "dnow w key")
    case None
    with w1 show ?thesis by (intro exI [of _ w1] exI [of _ r] exI [of _ z]) (auto simp: zbase_def)
  next
    case (Some v)
    obtain a dl where v: "v = (a, dl)" by (cases v) auto
    have u: "dnow w key = Some (DSet f, dl) \<Longrightarrow> (dnow w)(key \<mapsto> (DSet f, dl)) = dnow w" for f by (rule fun_upd_idem)
    show ?thesis
      by (intro exI [of _ w1] exI [of _ r] exI [of _ z]) (use w1 Some v u in \<open>cases a; auto simp: zbase_def\<close>)
  qed
qed

definition zadd_all :: "(score \<times> string) list \<Rightarrow> (string \<rightharpoonup> score) \<Rightarrow> (string \<rightharpoonup> score)" where
  "zadd_all ps f = foldl (\<lambda>f (s, m). f(m \<mapsto> s)) f ps"

lemma add_pairs_meaning:
  "zset_rep z f \<Longrightarrow> ZSet_Size z + length ps \<le> sl_max \<Longrightarrow>
     \<exists>z' g'. add_pairs ps z g = Some (int (card (snd ` set ps - dom f)), z', g') \<and> zset_rep z' (zadd_all ps f)
       \<and> ZSet_Size z' \<le> ZSet_Size z + length ps"
proof (induction ps arbitrary: z f g)
  case Nil
  then show ?case by (simp add: zadd_all_def)
next
  case (Cons p ps)
  obtain s m where p: "p = (s, m)" by (cases p) auto
  note fin = zset_rep_finite [OF Cons.prems(1)] and sz = zset_rep_size [OF Cons.prems(1)]
  have "card (dom f) < sl_max" using Cons.prems(2) sz by simp
  with ZSet_Add_rep [OF Cons.prems(1), of m s g] obtain z1 g1 where
    a: "ZSet_Add m s z g = Some (f m = None, z1, g1)" "zset_rep z1 (f(m \<mapsto> s))" by auto
  have "card (dom (f(m \<mapsto> s))) \<le> Suc (card (dom f))" using fin by (simp add: card_insert_if)
  then have le: "ZSet_Size z1 \<le> Suc (ZSet_Size z)" using zset_rep_size [OF a(2)] sz by simp
  with Cons.IH [OF a(2), of g1] Cons.prems(2) obtain z2 g2 where
    b: "add_pairs ps z1 g1 = Some (int (card (snd ` set ps - dom (f(m \<mapsto> s)))), z2, g2)"
      "zset_rep z2 (zadd_all ps (f(m \<mapsto> s)))" "ZSet_Size z2 \<le> ZSet_Size z1 + length ps" by fastforce
  let ?A = "snd ` set ps"
  have "card (snd ` set (p # ps) - dom f) = (if f m = None then Suc (card (?A - insert m (dom f))) else card (?A - insert m (dom f)))"
  proof (cases "f m = None")
    case True
    then have "snd ` set (p # ps) - dom f = insert m (?A - insert m (dom f))" using p by auto
    then show ?thesis using True by simp
  next
    case False
    then have "snd ` set (p # ps) - dom f = ?A - insert m (dom f)" using p by auto
    then show ?thesis using False by simp
  qed
  with a b le p show ?case by (cases "f m = None") (simp_all add: zadd_all_def)
qed

lemma foldl_Persist_logs:
  "logs cs w w1 \<Longrightarrow> logs (cs @ map (\<lambda>(s, m). h s m) ps) w (foldl (\<lambda>w (s, m). Persist (h s m) w) w1 ps)"
proof (induction ps arbitrary: w1 cs)
  case (Cons p ps)
  obtain s m where p: "p = (s, m)" by (cases p) auto
  have "logs (cs @ [h s m]) w (Persist (h s m) w1)"
    by (rule logs_trans [OF Cons.prems Persist_logs [OF logs_refl]])
  from Cons.IH [OF this] p show ?case by simp
qed simp

lemma foldl_Persist_becomes [simp]:
  "becomes t d (foldl (\<lambda>w (s, m). Persist (h s m) w) w1 ps) = becomes t d w1"
proof (induction ps arbitrary: w1)
  case (Cons p ps)
  then show ?case by (cases p) simp
qed simp

lemma foldl_Persist_clock [simp]: "w_clock (foldl (\<lambda>w (s, m). Persist (h s m) w) w1 ps) = w_clock w1"
proof (induction ps arbitrary: w1)
  case (Cons p ps)
  then show ?case by (cases p) simp
qed simp

lemma set_zset_clock [simp]: "w_clock (set_zset r z w) = w_clock w"
  by (simp add: set_zset_def)

lemma set_zset_logs [simp]: "logs cs w (set_zset r z w1) = logs cs w w1"
  by (simp add: logs_def set_zset_def)

lemma logs_rng [simp]: "logs cs w (w1\<lparr>w_rng := g\<rparr>) = logs cs w w1"
  by (simp add: logs_def)

lemma acquired_size: "acquired n t key r z f x d w \<Longrightarrow> zset_rep z f \<and> ZSet_Size z + n \<le> sl_max \<and> card (dom f) + n \<le> sl_max"
  using zset_rep_size [of z f] by (auto simp: acquired_def zset_at_def)

lemma even_args: "args \<noteq> [] \<Longrightarrow> even (length args) \<Longrightarrow> 4 \<le> length (name # k # args)"
  by (cases args; cases "tl args") auto

text \<open>\<open>ZADD\<close>: the pairs are stored in order, the reply counts the members that are new, and every
  pair is logged as a command of its own.  A score that is not a number is an error, found after the
  key was created.\<close>

lemma ZAdd_meaning:
  assumes "ToLowerAscii c = ''zadd''" "w_good n w" "length args \<le> n" "args \<noteq> []" "even (length args)"
    "parse_pairs args = Some ps" "zbase (dnow w k) = Some (f, dl)"
  shows "outcome (Execute (c # k # args) w) w (EncodeInteger (int (card (snd ` set ps - dom f))) [])
     (now_of w) ((dnow w)(k \<mapsto> (DSet (zadd_all ps f), dl))) (map (\<lambda>(s, m). [''ZADD'', k, ZScoreToString s, m]) ps)"
proof (rule outcome_row [OF assms(1) row(21)])
  have g: "w_good n (bump w)" using assms(2) by simp
  from create_meaning [OF g, of k] obtain w1 r z where w1: "logs [] (bump w) w1" "now_of w \<le> now_of w1"
     "\<And>b. with_zset k True b (bump w) = (if zbase (dnow w k) = None then Some (ReplyWrongType, w1) else b r z w1)"
     "\<And>f dl. zbase (dnow w k) = Some (f, dl) \<Longrightarrow> acquired n (now_of w) k r z f dl ((dnow w)(k \<mapsto> (DSet f, dl))) w1"
    by auto
  note aq = w1(4) [OF assms(7)]
  have len: "length ps \<le> n" using parse_pairs_length [OF assms(6)] assms(3) by simp
  from add_pairs_meaning [of z f ps "w_rng w1"] acquired_size [OF aq] len obtain z' g' where
    a: "add_pairs ps z (w_rng w1) = Some (int (card (snd ` set ps - dom f)), z', g')" "zset_rep z' (zadd_all ps f)"
    by fastforce
  have "becomes (now_of w) ((dnow w)(k \<mapsto> (DSet (zadd_all ps f), dl))) (set_zset r z' w1)"
    using set_zset_becomes [OF aq a(2)] by simp
  moreover have "logs (map (\<lambda>(s, m). [''ZADD'', k, ZScoreToString s, m]) ps) (bump w)
      (foldl (\<lambda>w (s, m). Persist [''ZADD'', k, ZScoreToString s, m] w) ((set_zset r z' w1)\<lparr>w_rng := g'\<rparr>) ps)"
    using foldl_Persist_logs [of "[]" "bump w" "(set_zset r z' w1)\<lparr>w_rng := g'\<rparr>"] w1(1) by simp
  moreover have "4 \<le> length (''zadd'' # k # args)" by (rule even_args [OF assms(4,5)])
  ultimately show "outcome (CmdZAdd (''zadd'' # k # args) (bump w)) (bump w) (EncodeInteger (int (card (snd ` set ps - dom f))) [])
     (now_of w) ((dnow w)(k \<mapsto> (DSet (zadd_all ps f), dl))) (map (\<lambda>(s, m). [''ZADD'', k, ZScoreToString s, m]) ps)"
    using a(1) w1(2) assms(5,6,7) by (auto simp: outcome_def CmdZAdd_def w1(3) Let_def)
qed

lemma ZAdd_bad_score:
  assumes "ToLowerAscii c = ''zadd''" "w_good n w" "args \<noteq> []" "even (length args)"
    "parse_pairs args = None" "zbase (dnow w k) = Some (f, dl)"
  shows "outcome (Execute (c # k # args) w) w (ReplyError ''ERR value is not a valid float'')
     (now_of w) ((dnow w)(k \<mapsto> (DSet f, dl))) []"
proof (rule outcome_row [OF assms(1) row(21)])
  have g: "w_good n (bump w)" using assms(2) by simp
  from create_meaning [OF g, of k] obtain w1 r z where w1: "logs [] (bump w) w1" "now_of w \<le> now_of w1"
     "\<And>b. with_zset k True b (bump w) = (if zbase (dnow w k) = None then Some (ReplyWrongType, w1) else b r z w1)"
     "\<And>f dl. zbase (dnow w k) = Some (f, dl) \<Longrightarrow> acquired n (now_of w) k r z f dl ((dnow w)(k \<mapsto> (DSet f, dl))) w1"
    by auto
  have "4 \<le> length (''zadd'' # k # args)" by (rule even_args [OF assms(3,4)])
  then show "outcome (CmdZAdd (''zadd'' # k # args) (bump w)) (bump w) (ReplyError ''ERR value is not a valid float'')
     (now_of w) ((dnow w)(k \<mapsto> (DSet f, dl))) []"
    using w1(1,2,4) assms(4,5,6) by (auto simp: outcome_def CmdZAdd_def w1(3) acquired_def)
qed

lemma ZIncrBy_meaning:
  assumes "ToLowerAscii c = ''zincrby''" "w_good n w" "0 < n" "ParseZScore s = Some delta" "zbase (dnow w k) = Some (f, dl)"
  shows "outcome (Execute [c, k, s, m] w) w (EncodeBulkString (ZScoreToString (incr_score f m delta)) [])
     (now_of w) ((dnow w)(k \<mapsto> (DSet (f(m \<mapsto> incr_score f m delta)), dl))) [[''zincrby'', k, s, m]]"
proof (rule outcome_row [OF assms(1) row(24)])
  have g: "w_good n (bump w)" using assms(2) by simp
  from create_meaning [OF g, of k] obtain w1 r z where w1: "logs [] (bump w) w1" "now_of w \<le> now_of w1"
     "\<And>b. with_zset k True b (bump w) = (if zbase (dnow w k) = None then Some (ReplyWrongType, w1) else b r z w1)"
     "\<And>f dl. zbase (dnow w k) = Some (f, dl) \<Longrightarrow> acquired n (now_of w) k r z f dl ((dnow w)(k \<mapsto> (DSet f, dl))) w1"
    by auto
  note aq = w1(4) [OF assms(5)]
  have "card (dom f) < sl_max" using acquired_size [OF aq] assms(3) by simp
  with ZSet_IncrBy_rep [of z f m delta "w_rng w1"] acquired_size [OF aq] obtain z' g' where
    a: "ZSet_IncrBy m delta z (w_rng w1) = Some (incr_score f m delta, f m \<noteq> None, z', g')"
      "zset_rep z' (f(m \<mapsto> incr_score f m delta))" by auto
  have b: "becomes (now_of w) ((dnow w)(k \<mapsto> (DSet (f(m \<mapsto> incr_score f m delta)), dl))) (set_zset r z' w1)"
    using set_zset_becomes [OF aq a(2)] by simp
  have l: "logs [[''zincrby'', k, s, m]] (bump w) (Persist [''zincrby'', k, s, m] ((set_zset r z' w1)\<lparr>w_rng := g'\<rparr>))"
    by (rule Persist_logs) (simp add: w1(1))
  show "outcome (CmdZIncrBy [''zincrby'', k, s, m] (bump w)) (bump w) (EncodeBulkString (ZScoreToString (incr_score f m delta)) [])
     (now_of w) ((dnow w)(k \<mapsto> (DSet (f(m \<mapsto> incr_score f m delta)), dl))) [[''zincrby'', k, s, m]]"
    using a(1) b l w1(2) assms(4,5) by (auto simp: outcome_def CmdZIncrBy_def w1(3) Let_def numeral_eq_Suc)
qed

lemma write_wrong_type:
  assumes "w_good n w" "zbase (dnow w k) = None"
  shows "ToLowerAscii c = ''zadd'' \<Longrightarrow> args \<noteq> [] \<Longrightarrow> even (length args) \<Longrightarrow>
      outcome (Execute (c # k # args) w) w ReplyWrongType (now_of w) (dnow w) []"
    and "ToLowerAscii c = ''zincrby'' \<Longrightarrow> ParseZScore s = Some delta \<Longrightarrow>
      outcome (Execute [c, k, s, m] w) w ReplyWrongType (now_of w) (dnow w) []"
proof -
  have g: "w_good n (bump w)" using assms(1) by simp
  from create_meaning [OF g, of k] obtain w1 r z where w1: "logs [] (bump w) w1" "now_of w \<le> now_of w1" "becomes (now_of w) (dnow w) w1"
     "\<And>b. with_zset k True b (bump w) = Some (ReplyWrongType, w1)" using assms(2) by auto
  { assume "ToLowerAscii c = ''zadd''" "args \<noteq> []" "even (length args)"
    moreover from this have "4 \<le> length (''zadd'' # k # args)" by (intro even_args)
    ultimately show "outcome (Execute (c # k # args) w) w ReplyWrongType (now_of w) (dnow w) []"
      using w1(1-3) by (intro outcome_row [OF _ row(21)]) (auto simp: outcome_def CmdZAdd_def w1(4)) }
  { assume "ToLowerAscii c = ''zincrby''" "ParseZScore s = Some delta"
    then show "outcome (Execute [c, k, s, m] w) w ReplyWrongType (now_of w) (dnow w) []"
      using w1(1-3) by (intro outcome_row [OF _ row(24)]) (auto simp: outcome_def CmdZIncrBy_def w1(4) numeral_eq_Suc) }
qed

text \<open>\<open>ZREM\<close>: the members leave the set; a set that is empty afterwards leaves the database.\<close>

definition zdrop :: "string list \<Rightarrow> (string \<rightharpoonup> score) \<Rightarrow> (string \<rightharpoonup> score)" where
  "zdrop ms f = (\<lambda>m. if m \<in> set ms then None else f m)"

lemma remove_members_meaning:
  "zset_rep z f \<Longrightarrow> \<exists>z'. remove_members ms z = Some (int (card (set ms \<inter> dom f)), z') \<and> zset_rep z' (zdrop ms f)
     \<and> ZSet_Size z' \<le> ZSet_Size z"
proof (induction ms arbitrary: z f)
  case Nil
  then show ?case by (simp add: zdrop_def)
next
  case (Cons m ms)
  from ZSet_Remove_rep [OF Cons.prems, of m] obtain z1 where
    r: "ZSet_Remove m z = Some (f m \<noteq> None, z1)" "zset_rep z1 (f(m := None))" by blast
  from Cons.IH [OF r(2)] obtain z2 where
    b: "remove_members ms z1 = Some (int (card (set ms \<inter> dom (f(m := None)))), z2)" "zset_rep z2 (zdrop ms (f(m := None)))"
      "ZSet_Size z2 \<le> ZSet_Size z1" by blast
  have "card (dom (f(m := None))) \<le> card (dom f)"
    using zset_rep_finite [OF Cons.prems] by (intro card_mono) auto
  then have le: "ZSet_Size z1 \<le> ZSet_Size z" using zset_rep_size [OF Cons.prems] zset_rep_size [OF r(2)] by simp
  have f: "zdrop ms (f(m := None)) = zdrop (m # ms) f" by (auto simp: zdrop_def)
  have "set (m # ms) \<inter> dom f = (if f m = None then id else insert m) (set ms \<inter> dom (f(m := None)))"
    by auto
  then have "card (set (m # ms) \<inter> dom f) = card (set ms \<inter> dom (f(m := None))) + (if f m = None then 0 else 1)" by auto
  with r b le f show ?case by (cases "f m = None") auto
qed

lemma RemoveIfEmpty_becomes:
  assumes g: "w_good n w" and b: "becomes t d w" and d: "d k = Some (DSet f, x)" and rep: "zset_rep z f"
    and l: "lookup (w_store w) k = Some e" "en_value e = VZSet r" "zheap (w_store w) r = Some z"
  shows "becomes t (if f = Map.empty then d(k := None) else d) (w\<lparr>w_store := RemoveIfEmptyZSet k (w_store w)\<rparr>)"
proof -
  note rm = RemoveIfEmptyZSet_ok [OF w_goodD(2,3) [OF g], of k]
  have "ZSet_Size z = 0 \<longleftrightarrow> f = Map.empty" using zset_rep_size [OF rep] zset_rep_finite [OF rep] by simp
  then have lk: "lookup (RemoveIfEmptyZSet k (w_store w)) = (if f = Map.empty then (lookup (w_store w))(k := None) else lookup (w_store w))"
    "zheap (RemoveIfEmptyZSet k (w_store w)) = zheap (w_store w)" using rm l by auto
  show ?thesis
    unfolding becomes_def
  proof (intro allI impI)
    fix u assume "t \<le> u"
    with b have "db u (w_store w) = alive u d" by (rule becomesD)
    then show "db u (w_store (w\<lparr>w_store := RemoveIfEmptyZSet k (w_store w)\<rparr>)) = alive u (if f = Map.empty then d(k := None) else d)"
      using lk by (simp add: db_def absm_del)
  qed
qed

lemma set_zset_lookup [simp]: "lookup (w_store (set_zset r z w)) = lookup (w_store w)"
  "zheap (w_store (set_zset r z w)) = (zheap (w_store w))(r \<mapsto> z)"
  by (simp_all add: set_zset_def lookup_def GetShard_def fun_eq_iff)

lemma ZRem_meaning:
  assumes "ToLowerAscii c = ''zrem''" "w_good n w" "ms \<noteq> []" "dnow w k = Some (DSet f, dl)"
    "removed = card (set ms \<inter> dom f)" "f' = zdrop ms f"
  shows "outcome (Execute (c # k # ms) w) w (EncodeInteger (int removed) [])
     (now_of w) (if f' = Map.empty then (dnow w)(k := None) else (dnow w)(k \<mapsto> (DSet f', dl)))
     (if removed > 0 then [''zrem'' # k # ms] else [])"
proof (rule outcome_row [OF assms(1) row(31)])
  have g: "w_good n (bump w)" using assms(2) by simp
  from with_zset_read [OF g, of k] assms(4) obtain w1 r z where w1: "logs [] (bump w) w1" "w_good n w1" "now_of w \<le> now_of w1"
     "\<And>b. with_zset k False b (bump w) = b r z w1" "acquired n (now_of w) k r z f dl (dnow w) w1" by auto
  note aq = w1(5)
  have za: "zset_at n k r z w1" "zset_rep z f" "lookup (w_store w1) k = Some \<lparr>en_value = VZSet r, expire_at_ms = dl\<rparr>"
    using aq by (simp_all add: acquired_def)
  from remove_members_meaning [OF za(2), of ms] obtain z' where
    a: "remove_members ms z = Some (int removed, z')" "zset_rep z' f'" "ZSet_Size z' \<le> ZSet_Size z" using assms(5,6) by blast
  let ?w2 = "set_zset r z' w1"
  have g2: "w_good n ?w2" by (rule w_good_set_zset [OF w1(2) za(1) a(2)]) (use za(1) a(3) in \<open>simp add: zset_at_def\<close>)
  have b2: "becomes (now_of w) ((dnow w)(k \<mapsto> (DSet f', dl))) ?w2" by (rule set_zset_becomes [OF aq a(2)])
  let ?w3 = "?w2\<lparr>w_store := RemoveIfEmptyZSet k (w_store ?w2)\<rparr>"
  have b3: "becomes (now_of w) (if f' = Map.empty then (dnow w)(k := None) else (dnow w)(k \<mapsto> (DSet f', dl))) ?w3"
    using RemoveIfEmpty_becomes [OF g2 b2 _ a(2), of k dl "\<lparr>en_value = VZSet r, expire_at_ms = dl\<rparr>" r] za(3)
    unfolding fun_upd_upd by simp
  have len: "\<not> length (''zrem'' # k # ms) < 3" using assms(3) by (cases ms) auto
  have l3: "logs [] (bump w) ?w3" using w1(1) by (simp add: logs_def set_zset_def)
  show "outcome (CmdZRem (''zrem'' # k # ms) (bump w)) (bump w) (EncodeInteger (int removed) [])
     (now_of w) (if f' = Map.empty then (dnow w)(k := None) else (dnow w)(k \<mapsto> (DSet f', dl)))
     (if removed > 0 then [''zrem'' # k # ms] else [])"
    using a(1) b3 l3 w1(3) Persist_logs [OF l3, of "''zrem'' # k # ms"] len
    by (auto simp: outcome_def CmdZRem_def w1(4) Let_def)
qed

lemma ZRem_missing:
  assumes "ToLowerAscii c = ''zrem''" "w_good n w" "ms \<noteq> []" "\<And>f dl. dnow w k \<noteq> Some (DSet f, dl)"
  shows "outcome (Execute (c # k # ms) w) w (if dnow w k = None then EncodeNullBulk [] else ReplyWrongType) (now_of w) (dnow w) []"
proof (rule outcome_row [OF assms(1) row(31)])
  have g: "w_good n (bump w)" using assms(2) by simp
  from with_zset_read [OF g, of k] obtain w1 r z where w1: "logs [] (bump w) w1" "now_of w \<le> now_of w1" "becomes (now_of w) (dnow w) w1"
     "\<And>b. with_zset k False b (bump w) = (case dnow w k of
        None \<Rightarrow> Some (EncodeNullBulk [], w1) | Some (DSet f, dl) \<Rightarrow> b r z w1 | Some _ \<Rightarrow> Some (ReplyWrongType, w1))" by auto
  have "with_zset k False b (bump w) = Some (if dnow w k = None then EncodeNullBulk [] else ReplyWrongType, w1)" for b
    using assms(4) w1(4) [of b] by (auto split: option.splits dval.splits)
  with w1(1-3) assms(3) show "outcome (CmdZRem (''zrem'' # k # ms) (bump w)) (bump w)
      (if dnow w k = None then EncodeNullBulk [] else ReplyWrongType) (now_of w) (dnow w) []"
    by (cases ms) (auto simp: outcome_def CmdZRem_def)
qed

end
