(* ===== verification/Command_Reads.thy ===== *)
theory Command_Reads
  imports ZSet_Meaning
begin

section \<open>Commands that only read\<close>

text \<open>
  The eighteen rows of the table whose \<open>is_write\<close> is false, with any arguments: whatever branch
  they take, they answer, leave the database as it was and append nothing to the file.
\<close>

definition answers :: "world \<Rightarrow> (string \<times> world) option \<Rightarrow> bool" where
  "answers w r \<longleftrightarrow> (\<exists>out t. outcome r w out t (db t (w_store w)) [] \<and> now_of w \<le> t)"

lemma answersI: "outcome r w out (now_of w) (dnow w) [] \<Longrightarrow> answers w r"
  by (auto simp: answers_def)

lemma answers_same [simp]: "answers w (Some (out, w))"
  by (rule answersI [OF outcome_same]) simp

lemma with_zset_answers:
  assumes g: "w_good n w" and b: "\<And>r z f w1. zset_rep z f \<Longrightarrow> \<exists>out. b r z w1 = Some (out, w1)"
  shows "answers w (with_zset key False b w)"
proof -
  from with_zset_read [OF g, of key] obtain w1 r z where
    w1: "becomes (now_of w) (dnow w) w1" "logs [] w w1" "now_of w \<le> now_of w1"
    "with_zset key False b w = (case dnow w key of
        None \<Rightarrow> Some (EncodeNullBulk [], w1) | Some (DSet f, dl) \<Rightarrow> b r z w1 | Some _ \<Rightarrow> Some (ReplyWrongType, w1))"
    "\<And>f dl. dnow w key = Some (DSet f, dl) \<Longrightarrow> acquired n (now_of w) key r z f dl (dnow w) w1" by blast
  have "\<exists>out. with_zset key False b w = Some (out, w1)"
    using w1(4,5) b [of z] by (auto simp: acquired_def split: option.splits dval.splits)
  with w1(1-3) show ?thesis using answersI unfolding outcome_def by blast
qed

lemma read_zset_answers:
  assumes g: "w_good n w" and b: "\<And>z f. zset_rep z f \<Longrightarrow> \<exists>out. b z = Some out"
  shows "answers w (read_zset key b w)"
proof -
  from with_zset_read [OF g, of key] obtain w1 r z where
    w1: "becomes (now_of w) (dnow w) w1" "logs [] w w1" "now_of w \<le> now_of w1"
    "read_zset key b w = (case dnow w key of
        None \<Rightarrow> Some (EncodeInteger 0 [], w1) | Some (DSet f, dl) \<Rightarrow> map_option (\<lambda>out. (out, w1)) (b z)
      | Some _ \<Rightarrow> Some (ReplyWrongType, w1))"
    "\<And>f dl. dnow w key = Some (DSet f, dl) \<Longrightarrow> acquired n (now_of w) key r z f dl (dnow w) w1" by blast
  have "\<exists>out. read_zset key b w = Some (out, w1)"
    using w1(4,5) b [of z] by (auto simp: acquired_def split: option.splits dval.splits)
  with w1(1-3) show ?thesis using answersI unfolding outcome_def by blast
qed

lemma timed_answers:
  assumes g: "w_good n w" and t: "timed f w = (x, w1)" and b: "becomes (now_of w) (dnow w) w1"
  shows "answers w (Some (out, w1))" "answers w (Some (out, w1\<lparr>w_stats := s\<rparr>))"
  using timed_past [OF g t] timed_fields(8) [OF t] b
  by (auto intro!: answersI simp: outcome_def logs_def)

subsection \<open>Strings and keys\<close>

lemma Get_answers: "w_good n w \<Longrightarrow> answers w (CmdGet args w)"
proof (cases "length args = 2")
  case True
  assume g: "w_good n w"
  obtain r w1 where t: "timed (\<lambda>now. Store_Get now (args ! 1)) w = (r, w1)"
    by (cases "timed (\<lambda>now. Store_Get now (args ! 1)) w") auto
  note f = timed_Get [OF g t]
  have "answers w (Some (out, w1\<lparr>w_stats := s\<rparr>))" for out s by (rule timed_answers [OF g t f(2)])
  with t True show ?thesis by (cases r) (auto simp: CmdGet_def)
qed (simp add: CmdGet_def)

lemma Ttl_answers: "w_good n w \<Longrightarrow> answers w (CmdTtlGeneric q args w)"
proof (cases "length args = 2")
  case True
  assume g: "w_good n w"
  obtain r w1 where t: "timed (\<lambda>now. Store_TtlMs now (args ! 1)) w = (r, w1)"
    by (cases "timed (\<lambda>now. Store_TtlMs now (args ! 1)) w") auto
  note f = timed_Ttl [OF g t]
  have "answers w (Some (out, w1))" for out by (rule timed_answers [OF g t f(2)])
  with t True show ?thesis by (auto simp: CmdTtlGeneric_def Let_def)
qed (simp add: CmdTtlGeneric_def)

lemma Type_answers: "w_good n w \<Longrightarrow> answers w (CmdType args w)"
proof (cases "length args = 2")
  case True
  assume g: "w_good n w"
  obtain r w1 where t: "timed (\<lambda>now. Store_Get now (args ! 1)) w = (r, w1)"
    by (cases "timed (\<lambda>now. Store_Get now (args ! 1)) w") auto
  note f = timed_Get [OF g t]
  have ty: "timed (\<lambda>t. Store_TypeOf t (args ! 1)) w = (case r of None \<Rightarrow> kNone | Some v \<Rightarrow> value_type v, w1)"
    using t by (auto simp: timed_eq Store_TypeOf_def case_prod_beta split: option.splits)
  have "answers w (Some (out, w1))" for out by (rule timed_answers [OF g t f(2)])
  with ty True show ?thesis by (auto simp: CmdType_def)
qed (simp add: CmdType_def)

lemma Exists_answers: "w_good n w \<Longrightarrow> answers w (CmdExists args w)"
proof (cases "length args < 2")
  case False
  assume g: "w_good n w"
  from count_exists_db [OF g, of "tl args"] obtain m w' where
    c: "count_exists (tl args) w = (m, w')"
      "becomes (later w (length (tl args))) (db (later w (length (tl args))) (w_store w)) w'" "logs [] w w'"
      "now_of w' = later w (length (tl args))" by auto
  have "outcome (Some (EncodeInteger m [], w')) w (EncodeInteger m []) (later w (length (tl args)))
      (db (later w (length (tl args))) (w_store w)) []"
    using c by (simp add: outcome_def)
  moreover have "now_of w \<le> later w (length (tl args))" by (rule later_mono [OF g]) simp
  ultimately show ?thesis using c(1) False by (auto simp: answers_def CmdExists_def drop_Suc)
qed (simp add: CmdExists_def)

lemma Keys_answers: "w_good n w \<Longrightarrow> answers w (CmdKeys args w)"
proof (cases "length args = 2")
  case True
  assume g: "w_good n w"
  have t: "timed (\<lambda>now st. (Store_ForEach now st, st)) w = (Store_ForEach (now_of w) (w_store w), w\<lparr>w_clock := \<lambda>i. w_clock w (Suc i)\<rparr>)"
    by (simp add: timed_eq)
  have "answers w (Some (out, w\<lparr>w_clock := \<lambda>i. w_clock w (Suc i)\<rparr>))" for out
    by (rule timed_answers(1) [OF g t]) simp
  with True t show ?thesis by (simp add: CmdKeys_def glob_filter_keys)
qed (simp add: CmdKeys_def)

lemma Info_answers: "w_good n w \<Longrightarrow> answers w (CmdInfo args w)"
proof -
  assume g: "w_good n w"
  show ?thesis
  proof (cases "st_start_ms (w_stats w) = 0")
    case True
    then show ?thesis by (auto simp: CmdInfo_def uptime_seconds_def outcome_def logs_def intro!: answersI)
  next
    case False
    then show ?thesis using later_mono [OF g, of 0 1]
      by (auto simp: CmdInfo_def uptime_seconds_def NowMs_def Let_def outcome_def logs_def intro!: answersI)
  qed
qed

subsection \<open>Ordered sets\<close>

lemma ZScore_answers: "w_good n w \<Longrightarrow> answers w (CmdZScore args w)"
  by (auto simp: CmdZScore_def intro!: with_zset_answers split: option.split)

lemma ZCard_answers: "w_good n w \<Longrightarrow> answers w (CmdZCard args w)"
  by (auto simp: CmdZCard_def intro!: read_zset_answers)

lemma ZRank_answers: "w_good n w \<Longrightarrow> answers w (CmdZRankGeneric rv args w)"
proof -
  assume g: "w_good n w"
  have "\<exists>out. (do { rank \<leftarrow> ZSet_Rank m z;
             Some (case rank of
                None \<Rightarrow> (EncodeNullBulk [], w1)
              | Some k \<Rightarrow> (EncodeInteger (if rv then sint (of_nat (ZSet_Size z) - 1 - k) else sint k) [], w1)) }) = Some (out, w1)"
    if "zset_rep z f" for z f m and w1 :: world
    using ZSet_Rank_rep [OF that, of m] by (cases "zrank f m") auto
  then show ?thesis unfolding CmdZRankGeneric_def by (auto intro!: with_zset_answers [OF g])
qed

lemma ZRange_answers: "w_good n w \<Longrightarrow> answers w (CmdZRangeGeneric rv args w)"
proof -
  assume g: "w_good n w"
  have "\<exists>out. (case NormalizeRange start stop (ZSet_Size z) of
                    None \<Rightarrow> Some (EncodeArrayHeader 0 [], w1)
                  | Some (lo, hi) \<Rightarrow>
                      do { nds \<leftarrow> ZSet_RangeByRank lo hi z;
                           Some (encode_nodes ws (if rv then rev nds else nds), w1) }) = Some (out, w1)"
    if z: "zset_rep z f" for z f start stop ws and w1 :: world
  proof (cases "NormalizeRange start stop (ZSet_Size z)")
    case (Some q)
    obtain lo hi where q: "q = (lo, hi)" by (cases q) auto
    have cap: "ZSet_Size z \<le> sl_max" using zset_rep_cap [OF z] zset_rep_size [OF z] by simp
    from NormalizeRange_bounds [OF Some [unfolded q] cap] cap have "unat hi < 18446744073709551615" by linarith
    with ZSet_RangeByRank_rep [OF z, of hi lo] show ?thesis using Some q by auto
  qed simp
  then show ?thesis unfolding CmdZRangeGeneric_def
    by (auto intro!: with_zset_answers [OF g] split: option.split)
qed

lemma ZRangeByScore_answers: "w_good n w \<Longrightarrow> answers w (CmdZRangeByScore args w)"
proof -
  assume g: "w_good n w"
  have "\<exists>out. (do { nds \<leftarrow> ZSet_RangeByScore mn mx e1 e2 z; Some (encode_nodes ws nds, w1) }) = Some (out, w1)"
    if "zset_rep z f" for z f mn mx e1 e2 ws and w1 :: world
    using ZSet_RangeByScore_rep [OF that, of mn mx e1 e2] by auto
  then show ?thesis unfolding CmdZRangeByScore_def
    by (auto intro!: with_zset_answers [OF g] split: option.split)
qed

lemma ZCount_answers: "w_good n w \<Longrightarrow> answers w (CmdZCount args w)"
proof -
  assume g: "w_good n w"
  have "\<exists>out. (do { nds \<leftarrow> ZSet_RangeByScore mn mx e1 e2 z; Some (EncodeInteger (int (length nds)) []) }) = Some out"
    if "zset_rep z f" for z f mn mx e1 e2
    using ZSet_RangeByScore_rep [OF that, of mn mx e1 e2] by auto
  then show ?thesis unfolding CmdZCount_def
    by (auto intro!: read_zset_answers [OF g] split: option.split)
qed

subsection \<open>The table\<close>

lemma read_rows:
  assumes "map_of kCommandTable name = Some (h, False)"
  shows "h \<in> {CmdPing, CmdEcho, CmdGet, CmdExists, CmdTtl, CmdPTtl, CmdType, CmdKeys, CmdDbSize, CmdInfo, CmdZScore, CmdZCard,
    CmdZRank, CmdZRevRank, CmdZRange, CmdZRevRange, CmdZRangeByScore, CmdZCount}"
  using map_of_SomeD [OF assms] by (auto simp: kCommandTable_def)

lemma reads_answer:
  assumes "map_of kCommandTable name = Some (h, False)" "w_good n w"
  shows "answers w (h args w)"
proof -
  have "answers w (CmdPing args w)" "answers w (CmdEcho args w)" "answers w (CmdDbSize args w)"
    by (simp_all add: CmdPing_def CmdEcho_def CmdDbSize_def)
  moreover note Get_answers [OF assms(2)] Exists_answers [OF assms(2)] Ttl_answers [OF assms(2)] Type_answers [OF assms(2)]
    Keys_answers [OF assms(2)] Info_answers [OF assms(2)] ZScore_answers [OF assms(2)] ZCard_answers [OF assms(2)]
    ZRank_answers [OF assms(2)] ZRange_answers [OF assms(2)] ZRangeByScore_answers [OF assms(2)] ZCount_answers [OF assms(2)]
  ultimately show ?thesis using read_rows [OF assms(1)]
    unfolding CmdTtl_def CmdPTtl_def CmdZRank_def CmdZRevRank_def CmdZRange_def CmdZRevRange_def by blast
qed

end
