(* ===== verification/Score_Facts.thy ===== *)
theory Score_Facts
  imports Score
begin

section \<open>Rounding and the text of scores\<close>

text \<open>
  A binary64 value printed by \<open>%.17g\<close> and read back by \<open>strtod\<close> is the same value: 17 decimal
  digits determine a double.  First the rounding (any rational nearer to a double than half the gap
  to its neighbours rounds to it), then the text.
\<close>

subsection \<open>Exponents\<close>

lemma ilog_bounds:
  assumes "0 < r" "1 < b"
  shows "of_nat b powi ilog b r \<le> r" "r < of_nat b powi (ilog b r + 1)"
proof -
  obtain n d where q: "quotient_of r = (n, d)" by (cases "quotient_of r") auto
  have d: "0 < d" using quotient_of_denom_pos [OF q] .
  have r: "r = of_int n / of_int d" using quotient_of_div [OF q] .
  have n: "0 < n" using assms(1) d unfolding r by (simp add: zero_less_divide_iff)
  let ?N = "nat n" and ?D = "nat d" and ?b = "of_nat b :: rat"
  have rN: "r = of_nat ?N / of_nat ?D" using r n d by simp
  have N: "b ^ (floorlog b ?N - 1) \<le> ?N" "?N < b ^ floorlog b ?N"
    using floorlog_bounds [of ?N b] n assms(2) by auto
  have D: "b ^ (floorlog b ?D - 1) \<le> ?D" "?D < b ^ floorlog b ?D"
    using floorlog_bounds [of ?D b] d assms(2) by auto
  have pos: "0 < floorlog b ?N" "0 < floorlog b ?D" using n d assms(2) by (simp_all add: floorlog_def)
  define x where "x = int (floorlog b ?N)"
  define y where "y = int (floorlog b ?D)"
  have b1: "1 < ?b" using assms(2) by simp
  have pw: "?b powi int k = of_nat (b ^ k)" for k by simp
  have Nb: "?b powi (x - 1) \<le> of_nat ?N" "of_nat ?N < ?b powi x"
    using N pos(1) pw [of "floorlog b ?N - 1"] pw [of "floorlog b ?N"]
    by (simp_all add: x_def of_nat_diff del: of_nat_power)
  have Db: "?b powi (y - 1) \<le> of_nat ?D" "of_nat ?D < ?b powi y"
    using D pos(2) pw [of "floorlog b ?D - 1"] pw [of "floorlog b ?D"]
    by (simp_all add: y_def of_nat_diff del: of_nat_power)
  have Dp: "0 < (of_nat ?D :: rat)" using d by simp
  have up: "r < ?b powi (x - y + 1)"
  proof -
    have "?b powi (x - y + 1) * of_nat ?D \<ge> ?b powi (x - y + 1) * ?b powi (y - 1)"
      using Db(1) b1 by (intro mult_left_mono) auto
    also have "?b powi (x - y + 1) * ?b powi (y - 1) = ?b powi x" using b1 by (simp add: power_int_add [symmetric])
    finally have "of_nat ?N < ?b powi (x - y + 1) * of_nat ?D" using Nb(2) by linarith
    then show ?thesis unfolding rN using Dp by (simp add: divide_less_eq)
  qed
  have lo: "?b powi (x - y - 1) \<le> r"
  proof -
    have "?b powi (x - y - 1) * of_nat ?D \<le> ?b powi (x - y - 1) * ?b powi y"
      using Db(2) b1 by (intro mult_left_mono) auto
    also have "?b powi (x - y - 1) * ?b powi y = ?b powi (x - 1)" using b1 by (simp add: power_int_add [symmetric])
    finally have "?b powi (x - y - 1) * of_nat ?D \<le> of_nat ?N" using Nb(1) by linarith
    then show ?thesis unfolding rN using Dp by (simp add: le_divide_eq)
  qed
  have il: "ilog b r = (if ?b powi (x - y) \<le> r then x - y else x - y - 1)"
    by (simp add: ilog_def q x_def y_def Let_def)
  show "?b powi ilog b r \<le> r" using il lo by (simp split: if_splits)
  show "r < ?b powi (ilog b r + 1)" using il up by (auto split: if_splits)
qed

lemma ilog_unique:
  assumes "1 < b" "of_nat b powi e \<le> r" "r < of_nat b powi (e + 1)"
  shows "ilog b r = e"
proof -
  have b1: "1 < (of_nat b :: rat)" using assms(1) by simp
  then have pos: "0 < r" using assms(2) by (meson less_le_trans zero_less_power_int order.strict_trans zero_less_one)
  note il = ilog_bounds [OF pos assms(1)]
  have "of_nat b powi e < (of_nat b :: rat) powi (ilog b r + 1)" "(of_nat b :: rat) powi ilog b r < of_nat b powi (e + 1)"
    using assms(2,3) il by linarith+
  then have "e < ilog b r + 1" "ilog b r < e + 1"
    using b1 power_int_increasing [of "ilog b r + 1" e "of_nat b :: rat"] power_int_increasing [of "e + 1" "ilog b r" "of_nat b :: rat"]
    by linarith+
  then show ?thesis by simp
qed

lemma round_even_near: "\<bar>x - of_int k\<bar> < 1 / 2 \<Longrightarrow> round_even x = k"
proof -
  assume a: "\<bar>x - of_int k\<bar> < 1 / 2"
  show "round_even x = k"
  proof (cases "of_int k \<le> x")
    case True
    then have "\<lfloor>x\<rfloor> = k" using a by (intro floor_unique) auto
    then show ?thesis using a True by (simp add: round_even_def Let_def)
  next
    case False
    then have "\<lfloor>x\<rfloor> = k - 1" using a by (intro floor_unique) auto
    then show ?thesis using a False by (simp add: round_even_def Let_def)
  qed
qed

lemma round_even_int [simp]: "round_even (of_int k) = k"
  by (rule round_even_near) simp

lemma round_even_error: "\<bar>of_int (round_even x) - x\<bar> \<le> 1 / 2"
  by (auto simp: round_even_def Let_def abs_if) linarith+

subsection \<open>Doubles\<close>

text \<open>The positive doubles: a significand and an exponent.\<close>

definition dbl :: "int \<Rightarrow> int \<Rightarrow> rat" where
  "dbl k g = of_int k * 2 powi g"

definition significand :: "int \<Rightarrow> int \<Rightarrow> bool" where
  "significand k g \<longleftrightarrow> -1074 \<le> g \<and> 0 < k \<and> k < 2 ^ 53 \<and> (g = -1074 \<or> 2 ^ 52 \<le> k)"

lemma two_powi [simp]: "0 < (2 :: rat) powi g"
  by simp

lemma two_powi_split: "(2 :: rat) powi (g + int n) = 2 powi g * 2 ^ n"
  by (simp add: power_int_add)

lemma scale_bounds:
  assumes "of_int (2 ^ 52) * 2 powi g \<le> (q :: rat)" "q < of_int (2 ^ 53) * 2 powi g"
  shows "ilog 2 q = g + 52"
proof (rule ilog_unique)
  show "of_nat 2 powi (g + 52) \<le> q" using assms(1) two_powi_split [of g 52] by (simp add: mult.commute)
  have "g + 52 + 1 = g + 53" by simp
  then show "q < of_nat 2 powi (g + 52 + 1)" using assms(2) two_powi_split [of g 53] by (simp only:) (simp add: mult.commute)
qed simp

lemma ilog_low:
  assumes "0 < (q :: rat)" "q < of_int (2 ^ 53) * 2 powi g"
  shows "ilog 2 q \<le> g + 52"
proof (rule ccontr)
  assume "\<not> ilog 2 q \<le> g + 52"
  then have "(2 :: rat) powi (g + 53) \<le> 2 powi ilog 2 q" by (intro power_int_increasing) auto
  also have "\<dots> \<le> q" using ilog_bounds(1) [OF assms(1), of 2] by simp
  finally show False using assms(2) two_powi_split [of g 53] by (simp add: mult.commute)
qed

lemma round_at:
  assumes "0 < q" "max (ilog 2 q - 52) (-1074) = h" "\<bar>q - dbl j h\<bar> < 2 powi h / 2" "dbl j h < 2 ^ 1024" "0 \<le> dbl j h"
  shows "round_double q = Fin (dbl j h)"
proof -
  have "q / 2 powi h - of_int j = (q - dbl j h) / 2 powi h" by (simp add: dbl_def diff_divide_distrib)
  then have "\<bar>q / 2 powi h - of_int j\<bar> < 1 / 2"
    using assms(3) by (simp add: abs_divide divide_less_eq)
  from round_even_near [OF this] show ?thesis
    using assms(1,2,4,5) by (simp add: round_double_def Let_def dbl_def)
qed

text \<open>A rational nearer to a double than $2^{-54}$ of it rounds to it.\<close>

lemma round_near:
  assumes s: "significand k g" and big: "dbl k g < 2 ^ 1024" and near: "\<bar>q - dbl k g\<bar> < dbl k g / 2 ^ 54"
  shows "round_double q = Fin (dbl k g)"
proof -
  let ?a = "dbl k g" and ?u = "(2 :: rat) powi g"
  have k: "0 < k" "k < 2 ^ 53" "g = -1074 \<or> 2 ^ 52 \<le> k" "-1074 \<le> g" using s by (auto simp: significand_def)
  have u: "0 < ?u" by simp
  have a0: "0 < ?a" using k(1) by (simp add: dbl_def)
  have q0: "0 < q"
  proof -
    have "?a / 2 ^ 54 < ?a" using a0 by (simp add: divide_less_eq)
    moreover have "?a - q \<le> \<bar>q - ?a\<bar>" by simp
    ultimately show ?thesis using near by linarith
  qed
  have k53: "of_int k + 1 \<le> (2 ^ 53 :: rat)" using k(2) of_int_le_iff [of "k + 1" "2 ^ 53", where 'a = rat] by simp
  have gap: "?a / 2 ^ 54 < ?u / 2"
  proof -
    have "of_int k < (2 ^ 53 :: rat)" using k53 by linarith
    then have "of_int k * ?u < 2 ^ 53 * ?u" using u by (intro mult_strict_right_mono)
    then show ?thesis by (simp add: dbl_def)
  qed
  have close: "\<bar>q - ?a\<bar> < ?u / 2" using near gap by linarith
  then have close': "q < ?a + ?u / 2" "?a - ?u / 2 < q" by (simp_all only: abs_less_iff) linarith+
  have top: "q < of_int (2 ^ 53) * ?u"
  proof -
    have "q < ?a + ?u / 2" by (rule close')
    also have "\<dots> \<le> (of_int k + 1) * ?u" using u by (simp add: dbl_def distrib_right)
    also have "\<dots> \<le> 2 ^ 53 * ?u" using k53 u by (intro mult_right_mono) auto
    finally show ?thesis by simp
  qed
  show ?thesis
  proof (cases "g \<noteq> -1074 \<and> k = 2 ^ 52 \<and> q < ?a")
    case False
    have h: "max (ilog 2 q - 52) (-1074) = g"
    proof (cases "g = -1074")
      case True
      then show ?thesis using ilog_low [OF q0 top] by simp
    next
      case g: False
      have "of_int (2 ^ 52) * ?u \<le> q"
      proof (cases "k = 2 ^ 52")
        case True
        then show ?thesis using False g by (simp add: dbl_def)
      next
        case ne: False
        then have "2 ^ 52 + 1 \<le> k" using g k(3) by simp
        then have "of_int (2 ^ 52 + 1) \<le> (of_int k :: rat)" by (simp only: of_int_le_iff)
        then have "(2 ^ 52 + 1) * ?u \<le> ?a" unfolding dbl_def using u by (intro mult_right_mono) auto
        moreover have "(2 ^ 52 + 1) * ?u = 2 ^ 52 * ?u + ?u" by (simp add: distrib_right)
        moreover have "?a - ?u / 2 < q" by (rule close')
        ultimately have "2 ^ 52 * ?u \<le> q" using u by linarith
        then show ?thesis by simp
      qed
      from scale_bounds [OF this top] k(4) show ?thesis by simp
    qed
    show ?thesis
      by (rule round_at [OF q0 h close big]) (use a0 in simp)
  next
    case True
    let ?h = "g - 1"
    have uh: "?u = 2 * 2 powi ?h" by (simp add: power_int_diff)
    have a: "?a = dbl (2 ^ 53) ?h" using True by (simp add: dbl_def uh)
    have n: "\<bar>q - ?a\<bar> < 2 powi ?h / 2" using near True by (simp add: dbl_def uh)
    have "?a - q < 2 powi ?h / 2" using n by (simp only: abs_less_iff) linarith
    moreover have a9: "?a = 9007199254740992 * 2 powi ?h" unfolding a by (simp add: dbl_def)
    ultimately have "4503599627370496 * 2 powi ?h \<le> q" using two_powi [of ?h] by linarith
    then have "of_int (2 ^ 52) * 2 powi ?h \<le> q" by simp
    moreover have "q < ?a" using True by blast
    then have "q < of_int (2 ^ 53) * 2 powi ?h" unfolding a9 by simp
    ultimately have "max (ilog 2 q - 52) (-1074) = ?h" using scale_bounds [of ?h q] True k(4) by simp
    from round_at [OF q0 this, of "2 ^ 53"] n a big a0 show ?thesis by simp
  qed
qed

lemma double_form:
  assumes "0 < a" "is_double a"
  shows "\<exists>k g. significand k g \<and> a = dbl k g \<and> a < 2 ^ 1024"
proof -
  define q where "q = max (ilog 2 a - 52) (-1074)"
  define k where "k = round_even (a / 2 powi q)"
  have r: "round_double a = (if of_int k * (2 :: rat) powi q \<ge> 2 ^ 1024 then PInf else Fin (of_int k * 2 powi q))"
    using assms(1) by (simp add: round_double_def Let_def k_def q_def)
  with assms(2) have a: "a = dbl k q" "a < 2 ^ 1024" by (auto simp: is_double_def dbl_def split: if_splits)
  note il = ilog_bounds [OF assms(1), of 2]
  have "0 < of_int k * (2 :: rat) powi q" using assms(1) unfolding a(1) dbl_def .
  then have "0 < (of_int k :: rat)" using zero_less_mult_pos2 two_powi by blast
  then have "0 < k" by simp
  moreover have "k < 2 ^ 53"
  proof -
    have "a < 2 powi (ilog 2 a + 1)" using il(2) by simp
    also have "\<dots> \<le> 2 powi (q + int 53)" by (intro power_int_increasing) (auto simp: q_def)
    finally have "of_int k * (2 :: rat) powi q < 2 ^ 53 * 2 powi q" unfolding a(1) dbl_def two_powi_split by (simp only: mult.commute)
    then have "(of_int k :: rat) < 2 ^ 53" by (simp only: mult_less_cancel_right_pos two_powi)
    then have "(of_int k :: rat) < of_int (2 ^ 53)" by simp
    then show ?thesis by (simp only: of_int_less_iff)
  qed
  moreover have "q = -1074 \<or> 2 ^ 52 \<le> k"
  proof (cases "q = -1074")
    case False
    then have "ilog 2 a = q + int 52" by (auto simp: q_def max_def split: if_splits)
    then have "2 ^ 52 * 2 powi q \<le> a" using il(1) two_powi_split [of q 52] by (simp add: mult.commute)
    then have "2 ^ 52 * 2 powi q \<le> of_int k * (2 :: rat) powi q" by (simp only: a(1) dbl_def)
    then have "(2 ^ 52 :: rat) \<le> of_int k" by (simp only: mult_le_cancel_right_pos two_powi)
    then have "(of_int (2 ^ 52) :: rat) \<le> of_int k" by simp
    then have "2 ^ 52 \<le> k" by (simp only: of_int_le_iff)
    then show ?thesis by simp
  qed simp
  moreover have "-1074 \<le> q" by (simp add: q_def)
  ultimately show ?thesis using a by (auto simp: significand_def)
qed

lemma round_near_double:
  "0 < a \<Longrightarrow> is_double a \<Longrightarrow> \<bar>q - a\<bar> < a / 2 ^ 54 \<Longrightarrow> round_double q = Fin a"
  using double_form [of a] round_near by metis

lemma round_double_neg: "0 < q \<Longrightarrow> round_double q = Fin a \<Longrightarrow> round_double (- q) = Fin (- a)"
  by (auto simp: round_double_def Let_def split: if_splits)

lemma is_double_neg: "is_double a \<Longrightarrow> a < 0 \<Longrightarrow> is_double (- a)"
  unfolding is_double_def round_double_def Let_def by (auto split: if_splits)

lemma ten_powi [simp]: "0 < (10 :: rat) powi g"
  by simp

lemma digits17_spec:
  assumes "0 < a" "digits17 a = (x, m)"
  shows "10 ^ 16 \<le> m" "m < 10 ^ 17" "\<bar>of_nat m * 10 powi (x - 16) - a\<bar> < a / 2 ^ 54"
    "x = ilog 10 a \<or> x = ilog 10 a + 1"
proof -
  define y where "y = ilog 10 a"
  define s where "s = a / 10 powi (y - 16)"
  define M where "M = round_even s"
  let ?t = "(10 :: rat) powi (y - 16)"
  note il = ilog_bounds [OF assms(1), of 10]
  have t: "(10 :: rat) powi y = 10 ^ 16 * ?t" "(10 :: rat) powi (y + 1) = 10 ^ 17 * ?t"
    using power_int_add [of "10 :: rat" "y - 16" 16] power_int_add [of "10 :: rat" "y - 16" 17] by (simp_all add: add.commute [of y 1])
  have lo: "10 ^ 16 * ?t \<le> a" using il(1) by (simp only: y_def [symmetric] t(1) [symmetric]) simp
  have hi: "a < 10 ^ 17 * ?t" using il(2) by (simp only: y_def [symmetric] t(2) [symmetric]) simp
  have s: "10 ^ 16 \<le> s" "s < 10 ^ 17" using lo hi by (simp_all only: s_def pos_le_divide_eq pos_divide_less_eq ten_powi)
  have err: "\<bar>of_int M - s\<bar> \<le> 1 / 2" unfolding M_def by (rule round_even_error)
  then have e2: "of_int M - s \<le> 1 / 2" "s - of_int M \<le> 1 / 2" by (simp_all only: abs_le_iff) linarith+
  have "(of_int (10 ^ 16 - 1) :: rat) < of_int M" using e2 s by simp
  then have M1: "10 ^ 16 \<le> M" by (simp only: of_int_less_iff)
  have "(of_int M :: rat) < of_int (10 ^ 17 + 1)" using e2 s by simp
  then have M2: "M \<le> 10 ^ 17" by (simp only: of_int_less_iff)
  have near: "\<bar>of_int M * ?t - a\<bar> < a / 2 ^ 54"
  proof -
    have "of_int M * ?t - a = (of_int M - s) * ?t" by (simp add: s_def left_diff_distrib)
    then have "\<bar>of_int M * ?t - a\<bar> = \<bar>of_int M - s\<bar> * ?t" by (simp add: abs_mult)
    also have "\<dots> \<le> 1 / 2 * ?t" using err by (intro mult_right_mono) auto
    finally have b: "\<bar>of_int M * ?t - a\<bar> \<le> ?t / 2" by simp
    have "18014398509481984 * ?t < 20000000000000000 * ?t" by simp
    moreover have "10000000000000000 * ?t \<le> a" using lo by simp
    ultimately have "?t / 2 * 18014398509481984 < a" by linarith
    then have "?t / 2 < a / 2 ^ 54" by simp
    with b show ?thesis by linarith
  qed
  have dg: "(x, m) = (if nat M = 10 ^ 17 then (y + 1, 10 ^ 16) else (y, nat M))"
    using assms(2) unfolding digits17_def Let_def y_def [symmetric] s_def [symmetric] M_def [symmetric] by simp
  show "x = ilog 10 a \<or> x = ilog 10 a + 1" using dg by (auto simp: y_def split: if_splits)
  show "10 ^ 16 \<le> m" "m < 10 ^ 17" using dg M1 M2 by (auto split: if_splits)
  show "\<bar>of_nat m * 10 powi (x - 16) - a\<bar> < a / 2 ^ 54"
  proof (cases "nat M = 10 ^ 17")
    case True
    then have "M = 10 ^ 17" using M1 by simp
    moreover have "(10 :: rat) powi (y + 1 - 16) = 10 * ?t" using power_int_add [of "10 :: rat" 1 "y - 16"] by (simp add: algebra_simps)
    ultimately show ?thesis using dg True near by simp
  next
    case False
    then have "x = y" "(of_nat m :: rat) = of_int M" using dg M1 by auto
    then show ?thesis using near by simp
  qed
qed

subsection \<open>Numerals\<close>

lemma dval_append: "dval (xs @ ys) = dval xs * 10 ^ length ys + dval ys"
  using foldl_dval [of "dval xs" ys] by (simp add: dval_def)

lemma dval_zeros [simp]: "dval (replicate n (CHR ''0'')) = 0"
  by (induction n) (simp_all add: dval_Cons)

lemma strip_zeros_split: "\<exists>z. s = strip_zeros s @ replicate z (CHR ''0'')"
proof -
  have "rev s = takeWhile (\<lambda>c. c = CHR ''0'') (rev s) @ dropWhile (\<lambda>c. c = CHR ''0'') (rev s)" by simp
  moreover have "takeWhile (\<lambda>c. c = CHR ''0'') (rev s) = replicate (length (takeWhile (\<lambda>c. c = CHR ''0'') (rev s))) (CHR ''0'')"
    by (rule replicate_eqI) (auto dest: set_takeWhileD)
  ultimately obtain z where "rev s = replicate z (CHR ''0'') @ dropWhile (\<lambda>c. c = CHR ''0'') (rev s)" by metis
  then have "rev (rev s) = rev (replicate z (CHR ''0'') @ dropWhile (\<lambda>c. c = CHR ''0'') (rev s))" by (rule arg_cong)
  then show ?thesis by (auto simp: strip_zeros_def)
qed

definition num_char :: "char \<Rightarrow> bool" where
  "num_char c \<longleftrightarrow> is_digit c \<or> c = CHR ''.'' \<or> c = CHR ''e'' \<or> c = CHR ''+'' \<or> c = CHR ''-''"

text \<open>A numeral: digits, an optional fraction, an optional exponent.\<close>

definition exp_text :: "string \<Rightarrow> int \<Rightarrow> bool" where
  "exp_text ex e \<longleftrightarrow> ex = [] \<and> e = 0 \<or>
     (\<exists>es. es \<noteq> [] \<and> list_all is_digit es \<and> (ex = ''e+'' @ es \<and> e = int (dval es) \<or> ex = ''e-'' @ es \<and> e = - int (dval es)))"

lemma takeWhile_digits: "list_all is_digit ds \<Longrightarrow> rest = [] \<or> \<not> is_digit (hd rest) \<Longrightarrow>
    takeWhile is_digit (ds @ rest) = ds \<and> dropWhile is_digit (ds @ rest) = rest"
  by (induction ds) (cases rest; auto)+

lemma not_digit_letters [simp]: "\<not> is_digit (CHR ''e'')" "\<not> is_digit (CHR ''x'')" "\<not> is_digit (CHR ''X'')"
  by (simp_all add: is_digit_def)

lemma read_exp_text:
  assumes "exp_text ex e"
  shows "read_exponent (CHR ''e'') (CHR ''E'') ex = (e, [])"
proof -
  consider "ex = []" "e = 0" | es where "es \<noteq> []" "list_all is_digit es" "ex = ''e+'' @ es" "e = int (dval es)"
    | es where "es \<noteq> []" "list_all is_digit es" "ex = ''e-'' @ es" "e = - int (dval es)"
    using assms by (auto simp: exp_text_def)
  then show ?thesis
  proof cases
    case 1
    then show ?thesis by (simp add: read_exponent_def)
  next
    case (2 es)
    then have tw: "takeWhile is_digit es = es" "dropWhile is_digit es = []" by (auto simp: list_all_iff)
    show ?thesis using 2(1,3,4) by (simp add: read_exponent_def Let_def tw)
  next
    case (3 es)
    then have tw: "takeWhile is_digit es = es" "dropWhile is_digit es = []" by (auto simp: list_all_iff)
    show ?thesis using 3(1,3,4) by (simp add: read_exponent_def Let_def tw)
  qed
qed

lemma exp_text_hd: "exp_text ex e \<Longrightarrow> ex \<noteq> [] \<Longrightarrow> hd ex = CHR ''e''"
  by (auto simp: exp_text_def)

lemma read_text:
  assumes "list_all is_digit ip" "ip \<noteq> []" "list_all is_digit fp" "exp_text ex e"
  shows "read_numeral is_digit dval 10 10 (CHR ''e'') (CHR ''E'') (with_fraction ip fp @ ex) =
     Some (of_nat (dval (ip @ fp)) / 10 ^ length fp * 10 powi e, [])"
proof (cases "fp = []")
  case True
  have "ex = [] \<or> \<not> is_digit (hd ex)" using exp_text_hd [OF assms(4)] by (cases "ex = []") auto
  note t = takeWhile_digits [OF assms(1) this]
  have "ex = [] \<or> hd ex \<noteq> CHR ''.''" using exp_text_hd [OF assms(4)] by (cases "ex = []") auto
  then show ?thesis using True t assms(2) read_exp_text [OF assms(4)]
    by (auto simp: read_numeral_def with_fraction_def Let_def)
next
  case False
  note t = takeWhile_digits [OF assms(1), of "CHR ''.'' # fp @ ex"]
  have "ex = [] \<or> \<not> is_digit (hd ex)" using exp_text_hd [OF assms(4)] by (cases "ex = []") auto
  note u = takeWhile_digits [OF assms(3) this]
  from t u False assms(2) read_exp_text [OF assms(4)] show ?thesis
    by (simp add: read_numeral_def with_fraction_def Let_def)
qed

lemma num_char_text:
  assumes "list_all is_digit ip" "list_all is_digit fp" "exp_text ex e"
  shows "list_all num_char (with_fraction ip fp @ ex)"
  using assms by (auto simp: with_fraction_def exp_text_def list_all_iff num_char_def)

lemma num_char_facts:
  assumes "num_char c"
  shows "\<not> is_space c" "c \<noteq> CHR 0x00" "c \<noteq> CHR ''x''" "c \<noteq> CHR ''X''" "score_lower c = c" "c \<noteq> CHR ''i''" "c \<noteq> CHR ''n''"
  using assms by (auto simp: num_char_def is_space_def is_digit_def score_lower_def)

lemma strstr_hd: "p \<notin> set s \<Longrightarrow> \<not> strstr s (p # pat)"
  by (induction s "p # pat" rule: strstr.induct) auto

text \<open>What both score parsers do on a text of such characters.\<close>

lemma Parse_num_text:
  assumes n: "list_all num_char t" "t \<noteq> []" "length t < 64" and r: "strtod t = Some (Fin r, [])"
  shows "ParseZScore t = Some r" "ParseSkipScore t = Some r"
proof -
  have c: "c_string t = t" using n(1) unfolding c_string_def list_all_iff
    by (subst takeWhile_eq_all_conv) (auto dest: num_char_facts(2))
  have m: "map score_lower t = t" using n(1) by (intro map_idI) (auto simp: list_all_iff num_char_facts(5))
  have "CHR ''i'' \<notin> set t" "CHR ''n'' \<notin> set t" using n(1) num_char_facts(6,7) by (auto simp: list_all_iff)
  then have s: "\<not> strstr t ''inf''" "\<not> strstr t ''nan''" by (simp_all add: strstr_hd)
  show "ParseZScore t = Some r" "ParseSkipScore t = Some r"
    using n(2,3) r by (simp_all add: ParseZScore_def ParseSkipScore_def c m s Let_def)
qed

lemma strtod_text:
  assumes "list_all is_digit ip" "ip \<noteq> []" "list_all is_digit fp" "exp_text ex e"
    and v: "v = of_nat (dval (ip @ fp)) / 10 ^ length fp * 10 powi e"
  shows "strtod (with_fraction ip fp @ ex) = Some (round_double v, [])"
    "strtod (CHR ''-'' # with_fraction ip fp @ ex) = Some (round_double (- v), [])"
proof -
  let ?t = "with_fraction ip fp @ ex"
  have nc: "list_all num_char ?t" by (rule num_char_text [OF assms(1,3,4)])
  obtain c t' where t: "?t = c # t'" "is_digit c"
    using assms(1,2) by (cases ip; cases "fp = []") (auto simp: with_fraction_def)
  have sp: "\<not> is_space c" "\<not> is_space (CHR ''-'')" using nc t(1) num_char_facts(1) by (simp_all add: is_space_def)
  have sg: "c \<noteq> CHR ''-''" "c \<noteq> CHR ''+''" using t(2) not_digit_punct by auto
  have "\<not> (2 \<le> length ?t \<and> ?t ! 0 = CHR ''0'' \<and> (?t ! 1 = CHR ''x'' \<or> ?t ! 1 = CHR ''X''))"
  proof
    assume a: "2 \<le> length ?t \<and> ?t ! 0 = CHR ''0'' \<and> (?t ! 1 = CHR ''x'' \<or> ?t ! 1 = CHR ''X'')"
    then have "num_char (?t ! 1)" using nc by (simp add: list_all_length)
    with a num_char_facts(3,4) show False by auto
  qed
  then have u: "strtod_unsigned ?t = Some (v, [])"
    using read_text [OF assms(1-4)] v by (auto simp: strtod_unsigned_def)
  show "strtod ?t = Some (round_double v, [])" using u sp sg unfolding t(1) by (simp add: strtod_def Let_def)
  show "strtod (CHR ''-'' # ?t) = Some (round_double (- v), [])" using u sp unfolding t(1) by (simp add: strtod_def Let_def)
qed

subsection \<open>Seventeen digits\<close>

lemma frac_value:
  assumes "list_all is_digit f"
  shows "list_all is_digit (strip_zeros f) \<and> length (strip_zeros f) \<le> length f \<and>
     of_nat (dval (ip @ strip_zeros f)) / 10 ^ length (strip_zeros f) = (of_nat (dval (ip @ f)) / 10 ^ length f :: rat)"
proof -
  obtain z where z: "f = strip_zeros f @ replicate z (CHR ''0'')" using strip_zeros_split by blast
  have l: "length f = length (strip_zeros f) + z" using arg_cong [OF z, of length] by simp
  have "ip @ f = (ip @ strip_zeros f) @ replicate z (CHR ''0'')" using z by simp
  then have "dval (ip @ f) = dval (ip @ strip_zeros f) * 10 ^ z" by (simp only: dval_append [of _ "replicate z _"]) simp
  moreover have "list_all is_digit (strip_zeros f)" using assms z by (metis list_all_append)
  ultimately show ?thesis using l by (simp add: power_add)
qed

lemma dec_17: "10 ^ 16 \<le> m \<Longrightarrow> m < 10 ^ 17 \<Longrightarrow> length (dec_of_nat m) = 17"
proof -
  assume m: "10 ^ 16 \<le> m" "m < 10 ^ 17"
  have "length (dec_of_nat m) \<le> 17" using dec_of_nat_length_le [OF m(2)] by simp
  moreover have "16 < length (dec_of_nat m)"
  proof (rule ccontr)
    assume "\<not> 16 < length (dec_of_nat m)"
    then have "10 ^ length (dec_of_nat m) \<le> (10 ^ 16 :: nat)" by (intro power_increasing) auto
    with m(1) dval_less [OF dec_of_nat_digits [of m]] show False by (simp add: dval_dec_of_nat)
  qed
  ultimately show ?thesis by simp
qed

lemma is_digit_zero [simp]: "is_digit (CHR ''0'')"
  by (simp add: is_digit_def)

lemma list_all_take_drop: "list_all P xs \<Longrightarrow> list_all P (take k xs) \<and> list_all P (drop k xs)"
  by (auto simp: list_all_iff dest: in_set_takeD in_set_dropD)

text \<open>A text of that form with the value \<open>v\<close>.\<close>

definition num_text :: "string \<Rightarrow> rat \<Rightarrow> bool" where
  "num_text t v \<longleftrightarrow> length t \<le> 40 \<and>
     (\<exists>ip fp ex e. t = with_fraction ip fp @ ex \<and> list_all is_digit ip \<and> ip \<noteq> [] \<and> list_all is_digit fp \<and> exp_text ex e \<and>
        v = of_nat (dval (ip @ fp)) / 10 ^ length fp * 10 powi e)"

lemma num_textI:
  assumes "list_all is_digit ip" "ip \<noteq> []" "list_all is_digit f" "exp_text ex e" "length ip + length f + length ex < 40"
    and "v = of_nat (dval (ip @ f)) / 10 ^ length f * 10 powi e"
  shows "num_text (with_fraction ip (strip_zeros f) @ ex) v"
proof -
  note fv = frac_value [OF assms(3), of ip]
  have "length (with_fraction ip (strip_zeros f) @ ex) \<le> Suc (length ip + length f + length ex)"
    using fv by (simp add: with_fraction_def)
  then have l: "length (with_fraction ip (strip_zeros f) @ ex) \<le> 40" using assms(5) by simp
  have v: "v = of_nat (dval (ip @ strip_zeros f)) / 10 ^ length (strip_zeros f) * 10 powi e"
    using fv assms(6) by simp
  show ?thesis unfolding num_text_def
    by (rule conjI [OF l], rule exI [of _ ip], rule exI [of _ "strip_zeros f"], rule exI [of _ ex], rule exI [of _ e])
      (intro conjI refl assms(1,2,4) v conjunct1 [OF fv])
qed

lemma exp_text_Nil [simp]: "exp_text [] 0"
  by (simp add: exp_text_def)

lemma format_17g_text:
  assumes a: "0 < a" and x: "digits17 a = (x, m)" "\<bar>x\<bar> < 1000"
  shows "num_text (format_17g_pos a) (of_nat m * 10 powi (x - 16))"
proof -
  note d = digits17_spec [OF a x(1)]
  define ds where "ds = dec_of_nat m"
  have ds: "length ds = 17" "list_all is_digit ds" "dval ds = m"
    using dec_17 [OF d(1,2)] dec_of_nat_digits [of m] by (simp_all add: ds_def dval_dec_of_nat)
  have fm: "format_17g_pos a = (if -4 \<le> x \<and> x < 17
      then (if x \<ge> 0
            then with_fraction (take (nat x + 1) ds) (strip_zeros (drop (nat x + 1) ds))
            else with_fraction ''0'' (strip_zeros (replicate (nat (- x) - 1) (CHR ''0'') @ ds)))
      else with_fraction (take 1 ds) (strip_zeros (drop 1 ds))
             @ ''e'' @ (if x < 0 then ''-'' else ''+'')
             @ (if \<bar>x\<bar> < 10 then ''0'' else []) @ dec_of_nat (nat \<bar>x\<bar>))"
    unfolding format_17g_pos_def x(1) ds_def by (simp add: Let_def)
  have tp: "(10 :: rat) powi (x - 16) = 10 powi x / 10 ^ 16" by (simp add: power_int_diff)
  have ne: "take (Suc k) ds \<noteq> []" for k using ds(1) by (cases ds) auto
  consider (A) "0 \<le> x" "x < 17" | (B) "-4 \<le> x" "x < 0" | (C) "\<not> (-4 \<le> x \<and> x < 17)" by linarith
  then show ?thesis
  proof cases
    case A
    let ?i = "take (nat x + 1) ds" and ?f = "drop (nat x + 1) ds"
    note t = list_all_take_drop [OF ds(2), of "nat x + 1"]
    have lf: "length ?f = 16 - nat x" using ds(1) by simp
    have px: "(10 :: rat) powi x = 10 ^ nat x" using A by (simp add: power_int_def)
    have pp: "(10 :: rat) ^ nat x * 10 ^ (16 - nat x) = 10 ^ 16" using A by (simp add: power_add [symmetric])
    have q: "of_nat m * (10 powi x / 10 ^ 16) = (of_nat m / 10 ^ (16 - nat x) :: rat)"
      unfolding px pp [symmetric] by (simp add: field_simps)
    have dv: "dval (?i @ ?f) = m" using ds(3) by simp
    have "num_text (with_fraction ?i (strip_zeros ?f) @ []) (of_nat m * 10 powi (x - 16))"
    proof (rule num_textI [where e = 0])
      show "of_nat m * 10 powi (x - 16) = of_nat (dval (?i @ ?f)) / 10 ^ length ?f * (10 :: rat) powi 0"
        unfolding lf dv tp q by simp
      show "?i \<noteq> []" using ne [of "nat x"] by simp
      show "length ?i + length ?f + length [] < 40" using ds(1) by simp
    qed (rule t [THEN conjunct1] t [THEN conjunct2] exp_text_Nil)+
    then show ?thesis unfolding fm using A by simp
  next
    case B
    let ?f = "replicate (nat (- x) - 1) (CHR ''0'') @ ds"
    have f: "list_all is_digit ?f" using ds(2) by (auto simp: list_all_iff)
    have lf: "length ?f = 16 + nat (- x)" using ds(1) B by simp
    have px: "(10 :: rat) powi x = inverse (10 ^ nat (- x))" using B by (simp add: power_int_def power_one_over inverse_eq_divide)
    have q: "of_nat m * (10 powi x / 10 ^ 16) = (of_nat m / 10 ^ (16 + nat (- x)) :: rat)"
      unfolding px by (simp add: power_add field_simps)
    have dv: "dval (''0'' @ ?f) = m" using ds(3) by (simp add: dval_append dval_Cons)
    have "num_text (with_fraction ''0'' (strip_zeros ?f) @ []) (of_nat m * 10 powi (x - 16))"
    proof (rule num_textI [where e = 0])
      show "length ''0'' + length ?f + length [] < 40" using lf B by simp
      show "of_nat m * 10 powi (x - 16) = of_nat (dval (''0'' @ ?f)) / 10 ^ length ?f * (10 :: rat) powi 0"
        unfolding lf dv tp q by simp
    qed (use f in simp_all)
    then show ?thesis unfolding fm using B by simp
  next
    case C
    let ?i = "take 1 ds" and ?f = "drop 1 ds"
    let ?es = "(if \<bar>x\<bar> < 10 then ''0'' else []) @ dec_of_nat (nat \<bar>x\<bar>)"
    let ?ex = "''e'' @ (if x < 0 then ''-'' else ''+'') @ ?es"
    note t = list_all_take_drop [OF ds(2), of 1]
    have es: "list_all is_digit ?es" "?es \<noteq> []" "dval ?es = nat \<bar>x\<bar>"
      using dec_of_nat_digits [of "nat \<bar>x\<bar>"] by (auto simp: dval_append dval_Cons dval_dec_of_nat)
    have "length (dec_of_nat (nat \<bar>x\<bar>)) \<le> 3" using x(2) by (intro dec_of_nat_length_le) auto
    moreover have "length ?ex \<le> 3 + length (dec_of_nat (nat \<bar>x\<bar>))" by (cases "x < 0"; cases "\<bar>x\<bar> < 10"; simp)
    ultimately have el: "length ?ex \<le> 6" by linarith
    have ex: "exp_text ?ex x"
    proof (cases "x < 0")
      case True
      then have "?ex = ''e-'' @ ?es \<and> x = - int (dval ?es)" unfolding es(3) by simp
      then show ?thesis unfolding exp_text_def using es(1,2) by blast
    next
      case False
      then have "?ex = ''e+'' @ ?es \<and> x = int (dval ?es)" unfolding es(3) by simp
      then show ?thesis unfolding exp_text_def using es(1,2) by blast
    qed
    have lf: "length ?f = 16" using ds(1) by simp
    have dv: "dval (?i @ ?f) = m" using ds(3) by simp
    have "num_text (with_fraction ?i (strip_zeros ?f) @ ?ex) (of_nat m * 10 powi (x - 16))"
    proof (rule num_textI [where e = x])
      have "length ?i = 1" using ds(1) by simp
      then show "length ?i + length ?f + length ?ex < 40" using lf el by linarith
      show "?i \<noteq> []" using ne [of 0] by simp
      show "of_nat m * 10 powi (x - 16) = of_nat (dval (?i @ ?f)) / 10 ^ length ?f * (10 :: rat) powi x"
        unfolding lf dv tp by simp
    qed (rule t [THEN conjunct1] t [THEN conjunct2] ex)+
    moreover have "format_17g_pos a = with_fraction ?i (strip_zeros ?f) @ ?ex" using C unfolding fm by (simp only: if_False)
    ultimately show ?thesis by (simp only:)
  qed
qed

subsection \<open>Reading back\<close>

lemma num_text_parse:
  assumes t: "num_text t v"
  shows "round_double v = Fin r \<Longrightarrow> ParseZScore t = Some r"
    "round_double v = Fin r \<Longrightarrow> ParseSkipScore t = Some r"
    "round_double (- v) = Fin r' \<Longrightarrow> ParseZScore (CHR ''-'' # t) = Some r'"
    "round_double (- v) = Fin r' \<Longrightarrow> ParseSkipScore (CHR ''-'' # t) = Some r'"
proof -
  obtain ip fp ex e where f: "t = with_fraction ip fp @ ex" "list_all is_digit ip" "ip \<noteq> []" "list_all is_digit fp" "exp_text ex e"
      "v = of_nat (dval (ip @ fp)) / 10 ^ length fp * 10 powi e" and l: "length t \<le> 40"
    using t unfolding num_text_def by blast
  note st = strtod_text [OF f(2-5) f(6), folded f(1)]
  have nc: "list_all num_char t" using num_char_text [OF f(2,4,5)] f(1) by simp
  have ne: "t \<noteq> []" using f(1,3) by (auto simp: with_fraction_def)
  have nm: "list_all num_char (CHR ''-'' # t)" using nc by (simp add: num_char_def)
  have lm: "length t < 64" "length (CHR ''-'' # t) < 64" using l by simp_all
  show "round_double v = Fin r \<Longrightarrow> ParseZScore t = Some r" "round_double v = Fin r \<Longrightarrow> ParseSkipScore t = Some r"
    using Parse_num_text [OF nc ne lm(1)] st(1) by simp_all
  show "round_double (- v) = Fin r' \<Longrightarrow> ParseZScore (CHR ''-'' # t) = Some r'"
    "round_double (- v) = Fin r' \<Longrightarrow> ParseSkipScore (CHR ''-'' # t) = Some r'"
    using Parse_num_text [OF nm _ lm(2)] st(2) by simp_all
qed

lemma two_ten_power: "n \<le> 1074 \<Longrightarrow> 399 \<le> m \<Longrightarrow> (2 :: rat) ^ n < 10 ^ m"
proof -
  assume n: "n \<le> 1074" "399 \<le> m"
  have eight: "(2 :: rat) ^ 3 = 8" by simp
  have "(2 :: rat) ^ n \<le> 2 ^ (3 * 358)" using n(1) by (intro power_increasing) auto
  also have "\<dots> = 8 ^ 358" by (simp only: power_mult eight)
  also have "\<dots> < 10 ^ 358" by (rule power_strict_mono) auto
  also have "\<dots> \<le> (10 :: rat) ^ m" using n(2) by (intro power_increasing) auto
  finally show ?thesis .
qed

lemma ilog_ten_range:
  assumes "0 < a" "is_double a"
  shows "\<bar>ilog 10 a\<bar> < 400"
proof -
  obtain k g where kg: "significand k g" "a = dbl k g" "a < 2 ^ 1024" using double_form [OF assms] by blast
  note il = ilog_bounds [OF assms(1), of 10]
  have "ilog 10 a < 400"
  proof (rule ccontr)
    assume "\<not> ilog 10 a < 400"
    then have "(10 :: rat) powi int 400 \<le> 10 powi ilog 10 a" by (intro power_int_increasing) auto
    also have "\<dots> \<le> a" using il(1) by simp
    finally have "(10 :: rat) ^ 400 < 2 ^ 1024" using kg(3) by (simp only: power_int_of_nat)
    from less_asym [OF this two_ten_power] show False by simp
  qed
  moreover have "-400 < ilog 10 a"
  proof (rule ccontr)
    assume "\<not> -400 < ilog 10 a"
    then have "(10 :: rat) powi (ilog 10 a + 1) \<le> 10 powi - int 399" by (intro power_int_increasing) auto
    moreover have "a < 10 powi (ilog 10 a + 1)" using il(2) by simp
    ultimately have u: "a < 10 powi - int 399" by linarith
    have "(1 :: rat) \<le> of_int k" using kg(1) by (simp add: significand_def)
    then have "1 * 2 powi - int 1074 \<le> of_int k * (2 :: rat) powi g"
      using kg(1) by (intro mult_mono power_int_increasing) (auto simp: significand_def)
    then have "(2 :: rat) powi - int 1074 < 10 powi - int 399" using u by (simp add: kg(2) dbl_def)
    then have "inverse ((2 :: rat) ^ 1074) < inverse (10 ^ 399)" by (simp only: power_int_minus power_int_of_nat)
    then have "(10 :: rat) ^ 399 < 2 ^ 1074" by (rule inverse_less_imp_less) simp
    from less_asym [OF this two_ten_power] show False by simp
  qed
  ultimately show ?thesis by simp
qed

text \<open>Seventeen digits determine a double.\<close>

lemma format_17g_pos_text:
  assumes "0 < a" "is_double a"
  shows "\<exists>v. num_text (format_17g_pos a) v \<and> round_double v = Fin a \<and> round_double (- v) = Fin (- a)"
proof -
  obtain x m where xm: "digits17 a = (x, m)" by (cases "digits17 a") auto
  note d = digits17_spec [OF assms(1) xm]
  let ?v = "of_nat m * 10 powi (x - 16) :: rat"
  have "\<bar>x\<bar> < 1000" using d(4) ilog_ten_range [OF assms] by auto
  note t = format_17g_text [OF assms(1) xm this]
  have r: "round_double ?v = Fin a" by (rule round_near_double [OF assms d(3)])
  have "0 < m" using d(1) by (cases m) auto
  then have "0 < ?v" by simp
  from t r round_double_neg [OF this r] show ?thesis by blast
qed

lemma dec_num_text: "n < 10 ^ 20 \<Longrightarrow> num_text (dec_of_nat n) (of_nat n)"
proof -
  assume n: "n < 10 ^ 20"
  have "length (dec_of_nat n) \<le> 40" using dec_of_nat_length_le [OF n] by simp
  moreover have "dec_of_nat n = with_fraction (dec_of_nat n) [] @ []" by (simp add: with_fraction_def)
  moreover have "of_nat n = (of_nat (dval (dec_of_nat n @ [])) / 10 ^ length ([] :: string) * 10 powi 0 :: rat)" by (simp add: dval_dec_of_nat)
  moreover have "list_all is_digit (dec_of_nat n)" "dec_of_nat n \<noteq> []" "list_all is_digit []" using dec_of_nat_digits [of n] by auto
  ultimately show ?thesis unfolding num_text_def using exp_text_Nil by blast
qed

text \<open>A finite double printed by either routine and read back by either parser is itself.\<close>

lemma score_text:
  assumes "is_double r"
  shows "ParseZScore (ZScoreToString (Fin r)) = Some r" "ParseSkipScore (SkipScoreToString (Fin r)) = Some r"
proof -
  have both: "SkipScoreToString (Fin r) = ZScoreToString (Fin r)"
    by (simp add: SkipScoreToString_def ZScoreToString_def is_finite_def)
  have "ParseZScore (ZScoreToString (Fin r)) = Some r \<and> ParseSkipScore (ZScoreToString (Fin r)) = Some r"
  proof (cases "Fin r = round_double (of_int (to_long_long (Fin r)))")
    case True
    let ?t = "to_long_long (Fin r)"
    have t: "ZScoreToString (Fin r) = dec_of_int ?t" using True by (simp add: ZScoreToString_def is_finite_def)
    have "int64_range ?t" by (simp add: to_long_long_def Let_def int64_range_def)
    then have b: "nat \<bar>?t\<bar> < 10 ^ 20" by (auto simp: int64_range_def)
    note p = num_text_parse [OF dec_num_text [OF b]]
    show ?thesis
    proof (cases "?t < 0")
      case neg: True
      then have "(- of_nat (nat \<bar>?t\<bar>) :: rat) = of_int ?t" by simp
      then show ?thesis unfolding t using p(3,4) True [symmetric] neg by (simp add: dec_of_int_def)
    next
      case False
      then have "(of_nat (nat \<bar>?t\<bar>) :: rat) = of_int ?t" by simp
      then show ?thesis unfolding t using p(1,2) True [symmetric] False by (simp add: dec_of_int_def)
    qed
  next
    case False
    then have f: "ZScoreToString (Fin r) = format_17g (Fin r)" by (simp add: ZScoreToString_def)
    have "r \<noteq> 0" using False by (auto simp: to_long_long_def int64_range_def round_double_def)
    then consider "0 < r" | "r < 0" by linarith
    then show ?thesis
    proof cases
      case 1
      obtain v where "num_text (format_17g_pos r) v" "round_double v = Fin r" using format_17g_pos_text [OF 1 assms] by blast
      then show ?thesis unfolding f using num_text_parse(1,2) 1 by (simp add: format_17g_def)
    next
      case 2
      obtain v where "num_text (format_17g_pos (- r)) v" "round_double (- v) = Fin (- (- r))"
        using format_17g_pos_text [of "- r"] is_double_neg [OF assms 2] 2 by auto
      then show ?thesis unfolding f using num_text_parse(3,4) 2 by (simp add: format_17g_def)
    qed
  qed
  then show "ParseZScore (ZScoreToString (Fin r)) = Some r" "ParseSkipScore (SkipScoreToString (Fin r)) = Some r"
    unfolding both by simp_all
qed

subsection \<open>The round trip\<close>

lemma dbl_double: "significand k g \<Longrightarrow> dbl k g < 2 ^ 1024 \<Longrightarrow> is_double (dbl k g)"
  unfolding is_double_def by (rule round_near) (auto simp: dbl_def significand_def)

text \<open>C30: Every finite score survives its text: what \<open>ZScoreToString\<close> (and the skip list's copy of it)
  prints, whether as an integer or with the seventeen digits of \<open>%.17g\<close>, is read back by
  \<open>ParseZScore\<close> (\<open>ParseSkipScore\<close>) as exactly the same double; no precision is lost between a reply
  or a log record and the score that is parsed from it.\<close>

theorem score_round_trip:
  "is_double r \<Longrightarrow> ParseZScore (ZScoreToString (Fin r)) = Some r \<and> ParseSkipScore (SkipScoreToString (Fin r)) = Some r"
  by (simp add: score_text)

theorem score_round_trip_witness:
  "ParseZScore (ZScoreToString (Fin (5 / 2))) = Some (5 / 2) \<and> ParseSkipScore (SkipScoreToString (Fin (5 / 2))) = Some (5 / 2)"
proof (rule score_round_trip)
  have s: "significand (5 * 2 ^ 50) (- 51)" by (simp add: significand_def)
  have d: "dbl (5 * 2 ^ 50) (- 51) = 5 / 2" by (simp add: dbl_def power_int_def power_one_over)
  have "(5 / 2 :: rat) < 2 ^ 1024" by (rule less_le_trans [of _ "2 ^ 2"]) (auto intro: power_increasing)
  then show "is_double (5 / 2)" using dbl_double [OF s] unfolding d by blast
qed

end
