(* ===== verification/Command_Properties.thy ===== *)
theory Command_Properties
  imports Command_Reads Keyspace Score_Facts
begin

section \<open>Properties of the commands\<close>

text \<open>A server that has just started on a store \<open>st\<close>, for the concrete instances below.\<close>

definition boot :: "store \<Rightarrow> world" where
  "boot st =
     \<lparr>w_store = st, w_aof = Aof_new, w_disk = sample_disk, w_clock = (\<lambda>i. 1000 + int (min i 1000)), w_rng = (\<lambda>_. 0),
      w_stats = \<lparr>st_commands = 0, st_hits = 0, st_misses = 0, st_expired = 0, st_total_conns = 0, st_current_conns = 0,
                 st_rejected = 0, st_bytes_in = 0, st_bytes_out = 0, st_proto_errors = 0, st_used_memory = 0, st_start_ms = 0\<rparr>,
      w_info = \<lparr>si_version = ''1.0'', si_shard_count = 4, si_loop_count = 1, si_pid = 1, si_memory = (\<lambda>_. 0)\<rparr>\<rparr>"

lemma boot_ok:
  "\<exists>st. Store_Init 4 = Some st \<and> w_good 1000 (boot st) \<and> (\<forall>t. db t st = Map.empty)"
proof -
  from good_init [of 4] obtain st where st: "Store_Init 4 = Some st" "good 0 st" "lookup st = Map.empty" by auto
  then have "good 1000 st" by (simp add: good_def zroom_def)
  moreover have "clock_ok (\<lambda>i. 1000 + int (min i 1000))" by (auto simp: clock_ok_def min_def)
  ultimately have "w_good 1000 (boot st)" by (simp add: w_good_def boot_def)
  with st show ?thesis by (auto simp: db_def absm_def vis_def fun_eq_iff)
qed

lemma boot_fields [simp]: "w_store (boot st) = st" "w_clock (boot st) i = 1000 + int (min i 1000)"
  by (simp_all add: boot_def)

lemma lower_names [simp]:
  "ToLowerAscii ''GET'' = ''get''" "ToLowerAscii ''SET'' = ''set''" "ToLowerAscii ''INCR'' = ''incr''"
  "ToLowerAscii ''DEL'' = ''del''" "ToLowerAscii ''KEYS'' = ''keys''" "ToLowerAscii ''EXPIRE'' = ''expire''"
  "ToLowerAscii ''TTL'' = ''ttl''" "ToLowerAscii ''ZADD'' = ''zadd''" "ToLowerAscii ''ZRANGE'' = ''zrange''"
  "ToLowerAscii ''ZREM'' = ''zrem''" "ToLowerAscii ''ZINCRBY'' = ''zincrby''" "ToLowerAscii ''ZREVRANGE'' = ''zrevrange''"
  "ToLowerAscii ''ZCOUNT'' = ''zcount''" "ToLowerAscii ''ZRANGEBYSCORE'' = ''zrangebyscore''"
  "ToLowerAscii ''FLUSHALL'' = ''flushall''" "ToLowerAscii ''INCRBY'' = ''incrby''" "ToLowerAscii ''ZRANK'' = ''zrank''"
  "ToLowerAscii ''EX'' = ''ex''" "ToLowerAscii ''PXAT'' = ''pxat''" "ToLowerAscii ''PEXPIREAT'' = ''pexpireat''"
  by code_simp+

text \<open>A server on the store that one command leaves.\<close>

lemma boot_again:
  assumes "w_good n (boot st)" "Execute args (boot st) = Some (r, w')" "becomes t d w'" "t \<le> 1000" "n = 900 + length args"
    "known args"
  shows "w_good 900 (boot (w_store w'))" "\<And>u. 1000 \<le> u \<Longrightarrow> db u (w_store w') = alive u d"
proof -
  have "w_good 900 w'" using Execute_ok [of 900 args "boot st"] assms by auto
  moreover have "clock_ok (\<lambda>i. 1000 + int (min i 1000))" by (auto simp: clock_ok_def min_def)
  ultimately show "w_good 900 (boot (w_store w'))" by (simp add: w_good_def boot_def)
  show "\<And>u. 1000 \<le> u \<Longrightarrow> db u (w_store w') = alive u d" using becomesD [OF assms(3)] assms(4) by simp
qed

lemma boot_string:
  "\<exists>st. w_good 900 (boot st) \<and> (\<forall>u\<ge>1000. db u st = [''k'' \<mapsto> (DInt 41, 0)])"
proof -
  from boot_ok obtain st where st: "w_good 1000 (boot st)" "db 1000 st = Map.empty" by blast
  have g: "w_good 903 (boot st)" by (rule w_good_less [OF st(1)]) simp
  have p: "ParseInt64 ''41'' = Some 41" by code_simp
  from IncrBy_meaning [OF lower_names(16) row(9) g disjI2 [OF conjI [OF refl p]], of 41 "''k''"] st(2)
  obtain w' where w': "Execute [''INCRBY'', ''k'', ''41''] (boot st) = Some (EncodeInteger 41 [], w')"
    "becomes 1000 [''k'' \<mapsto> (DInt 41, 0)] w'"
    by (auto simp: outcome_def db_incr_def)
  have "known [''INCRBY'', ''k'', ''41'']" using row(9) lower_names(16) by (simp add: known_def)
  note b = boot_again [OF g w'(1,2) _ _ this]
  show ?thesis using b by (intro exI [of _ "w_store w'"]) (auto simp: alive_upd)
qed

lemma small_scores [simp]: "ParseZScore ''1'' = Some 1" "ParseZScore ''2'' = Some 2"
proof -
  have s: "significand (2 ^ 52) (- 52)" "significand (2 ^ 52) (- 51)" by (simp_all add: significand_def)
  have d: "dbl (2 ^ 52) (- 52) = 1" "dbl (2 ^ 52) (- 51) = 2" by (simp_all add: dbl_def power_int_def power_one_over)
  have b: "(1 :: rat) < 2 ^ 1024" "(2 :: rat) < 2 ^ 1024"
    by (rule less_le_trans [of _ "2 ^ 2"]; auto intro: power_increasing)+
  note r = dbl_double [OF s(1), unfolded d, OF b(1)] dbl_double [OF s(2), unfolded d, OF b(2)]
  have t: "dec_of_nat 1 = ''1''" "dec_of_nat 2 = ''2''" by code_simp+
  show "ParseZScore ''1'' = Some 1" "ParseZScore ''2'' = Some 2"
    using num_text_parse(1) [OF dec_num_text [of 1], of 1] num_text_parse(1) [OF dec_num_text [of 2], of 2] r t
    by (simp_all add: is_double_def)
qed

lemma boot_zset:
  "\<exists>st. w_good 900 (boot st) \<and> (\<forall>u\<ge>1000. db u st = [''z'' \<mapsto> (DSet [''a'' \<mapsto> Fin 1, ''b'' \<mapsto> Fin 2], 0)])"
proof -
  from boot_ok obtain st where st: "w_good 1000 (boot st)" "db 1000 st = Map.empty" by blast
  let ?args = "[''2'', ''b'', ''1'', ''a'']" and ?f = "[''a'' \<mapsto> Fin 1, ''b'' \<mapsto> Fin 2]"
  have g: "w_good 906 (boot st)" by (rule w_good_less [OF st(1)]) simp
  have p: "parse_pairs ?args = Some [(Fin 2, ''b''), (Fin 1, ''a'')]" by simp
  have f: "zadd_all [(Fin 2, ''b''), (Fin 1, ''a'')] Map.empty = ?f" by (auto simp: zadd_all_def fun_eq_iff)
  from ZAdd_meaning [OF lower_names(8) g _ _ _ p, of "''z''" Map.empty 0] st(2)
  obtain r w' where w': "Execute (''ZADD'' # ''z'' # ?args) (boot st) = Some (r, w')" "becomes 1000 [''z'' \<mapsto> (DSet ?f, 0)] w'"
    unfolding f by (auto simp: outcome_def zbase_def)
  have "known (''ZADD'' # ''z'' # ?args)" using row(21) lower_names(8) by (simp add: known_def)
  note b = boot_again [OF g w'(1,2) _ _ this]
  show ?thesis using b by (intro exI [of _ "w_store w'"]) (auto simp: alive_upd)
qed

lemma Execute_good:
  assumes "Execute args w = Some (r, w')" "w_good (n + length args) w" "known args \<or> line_ok (hd args)"
  shows "w_good n w' \<and> resp_value r"
  using Execute_ok [of n args w] assms by auto

subsection \<open>Strings, expiry\<close>

lemma set_options_ex:
  assumes "ToLowerAscii opt = ''ex''" "ParseInt64 s = Some v" "0 < v" "v \<le> 9223372036854775"
  shows "set_options [opt, s] set_parse0 =
     Inr \<lparr>sp_opts = default_opts\<lparr>so_has_expire := True\<rparr>, sp_relative = True, sp_value = v * 1000\<rparr>"
  using assms by (simp add: set_parse0_def default_opts_def Let_def)

text \<open>C23: SET with EX, then GET. A SET with a positive number of seconds answers OK, gives the key the value and the deadline "clock at the start plus 1000 times the seconds", leaves every other key as it was, and logs the command with the absolute deadline; a GET right after it answers the value before the deadline and nil from the deadline on.\<close>

theorem set_ex_get:
  assumes "ToLowerAscii c = ''set''" "ToLowerAscii opt = ''ex''" "ToLowerAscii g = ''get''" "w_good 5 w"
    "ParseInt64 s = Some v" "0 < v" "v \<le> 9223372036854775"
    and D: "D = later w 0 + v * 1000" "later w 2 < D" "D \<le> INT64_MAX"
  shows "\<exists>w'. Execute [c, k, x, opt, s] w = Some (EncodeSimpleString ''OK'' [], w')
     \<and> (\<forall>u\<ge>later w 2. db u (w_store w') = (db u (w_store w))(k := if u < D then Some (DStr x, D) else None))
     \<and> logs [[''SET'', k, x, ''PXAT'', dec_of_int D]] w w'
     \<and> outcome (Execute [g, k] w') w' (if now_of w' < D then EncodeBulkString x [] else EncodeNullBulk [])
         (now_of w') (dnow w') []"
proof -
  let ?p = "\<lparr>sp_opts = default_opts\<lparr>so_has_expire := True\<rparr>, sp_relative = True, sp_value = v * 1000\<rparr>"
  let ?o = "default_opts\<lparr>so_has_expire := True, so_expire_at_ms := D\<rparr>"
  let ?w1 = "(bump w)\<lparr>w_clock := (\<lambda>i. w_clock w (Suc (Suc i)))\<rparr>"
  have "later w 1 \<le> later w 2" "0 \<le> later w 0" using later_mono [OF assms(4), of 1 2] w_goodD(4) [OF assms(4)] by simp_all
  then have dl: "set_deadline ?p (bump w) = (?o, ?w1)"
    using D assms(6) by (simp add: set_deadline_def NowMs_def Let_def int64_range_def)
  have s: "db_set k (DStr x) ?o d = (kOk, d(k \<mapsto> (DStr x, D)))" for d by (simp add: db_set_def default_opts_def)
  have aof: "set_aof_args k x ?o = [''SET'', k, x, ''PXAT'', dec_of_int D]"
    using D \<open>0 \<le> later w 0\<close> assms(6) by (simp add: set_aof_args_def default_opts_def)
  from Set_meaning [OF assms(1,4) set_options_ex [OF assms(2,5-7)] dl, of k x]
  obtain w' where w': "Execute [c, k, x, opt, s] w = Some (EncodeSimpleString ''OK'' [], w')" "later w 2 \<le> now_of w'"
    "becomes (later w 2) ((db (later w 2) (w_store w))(k \<mapsto> (DStr x, D))) w'" "logs [[''SET'', k, x, ''PXAT'', dec_of_int D]] w w'"
    unfolding s outcome_def aof by (auto simp: numeral_2_eq_2)
  have st: "db u (w_store w') = (db u (w_store w))(k := if u < D then Some (DStr x, D) else None)" if "later w 2 \<le> u" for u
    using becomesD [OF w'(3) that] that D \<open>0 \<le> later w 0\<close> assms(6) by (simp add: alive_upd not_less)
  have "w_good 0 w'" using Execute_good [OF w'(1), of 0] assms(1,4) row(3) by (simp add: known_def numeral_eq_Suc)
  from Get_meaning [OF assms(3) this, of k] have
    "outcome (Execute [g, k] w') w' (if now_of w' < D then EncodeBulkString x [] else EncodeNullBulk []) (now_of w') (dnow w') []"
    using st [OF w'(2)] by (simp split: if_splits)
  with w' st show ?thesis by blast
qed

theorem set_ex_get_witness:
  "\<exists>st w'. Store_Init 4 = Some st \<and> Execute [''SET'', ''k'', ''v'', ''EX'', ''5''] (boot st) = Some (EncodeSimpleString ''OK'' [], w')
     \<and> (\<forall>u\<ge>1002. db u (w_store w') ''k'' = (if u < 6000 then Some (DStr ''v'', 6000) else None))"
proof -
  from boot_ok obtain st where st: "Store_Init 4 = Some st" "w_good 1000 (boot st)" by blast
  have "ToLowerAscii ''EX'' = ''ex''" "ParseInt64 ''5'' = Some 5" by code_simp+
  moreover have "w_good 5 (boot st)" by (rule w_good_less [OF st(2)]) simp
  ultimately show ?thesis using set_ex_get [of "''SET''" "''EX''" "''GET''" "boot st" "''5''" 5 6000 "''k''" "''v''"] st by auto
qed



text \<open>C25: EXPIRE, then TTL. On a live key, EXPIRE with a positive number of seconds answers 1, keeps the value and sets the deadline to its reading of the clock plus that many seconds, logged as an absolute PEXPIREAT; a TTL after it answers the seconds left rounded up, and -2 from the deadline on.\<close>

theorem expire_then_ttl:
  assumes "ToLowerAscii c = ''expire''" "ToLowerAscii t = ''ttl''" "w_good 3 w" "ParseInt64 s = Some v" "0 < v" "v \<le> 9223372036854775"
    and D: "D = now_of w + v * 1000" "later w 1 < D" "D \<le> INT64_MAX - 1000" and k: "db (later w 1) (w_store w) k = Some (x, y)"
  shows "\<exists>w'. Execute [c, k, s] w = Some (EncodeInteger 1 [], w')
     \<and> (\<forall>u\<ge>later w 1. db u (w_store w') = (db u (w_store w))(k := if u < D then Some (x, D) else None))
     \<and> logs [[''PEXPIREAT'', k, dec_of_int D]] w w'
     \<and> outcome (Execute [t, k] w') w' (EncodeInteger (if now_of w' < D then (D - now_of w' + 999) div 1000 else - 2) [])
         (now_of w') (dnow w') []"
proof -
  have nn: "0 \<le> now_of w" by (rule w_goodD(4) [OF assms(3)])
  then have D0: "D \<noteq> 0" "i64 D = D" using D assms(5) by (simp_all add: int64_range_def)
  have p: "ParseExpireArg s 1000 = Some (v * 1000)" using assms(4-6) by (simp add: ParseExpireArg_def)
  have e: "db_expire (later w 1) k (i64 (now_of w + v * 1000)) (db (later w 1) (w_store w)) =
      ((True, False), (db (later w 1) (w_store w))(k \<mapsto> (x, D)))"
    unfolding D(1) [symmetric] D0(2) using k D by (simp add: db_expire_def)
  have row': "map_of kCommandTable ''expire'' = Some (CmdExpireGeneric 1000 ''expire'', True)"
    using row(11) by (simp add: CmdExpire_def [abs_def])
  from Expire_meaning [OF assms(1) row' assms(3) p e] obtain w' where
    w': "Execute [c, k, s] w = Some (EncodeInteger 1 [], w')" "later w 1 \<le> now_of w'"
      "becomes (later w 1) ((db (later w 1) (w_store w))(k \<mapsto> (x, D))) w'" "logs [[''PEXPIREAT'', k, dec_of_int D]] w w'"
    unfolding outcome_def D(1) [symmetric] D0(2) by auto
  have st: "db u (w_store w') = (db u (w_store w))(k := if u < D then Some (x, D) else None)" if "later w 1 \<le> u" for u
    using becomesD [OF w'(3) that] that D0(1) by (simp add: alive_upd not_less)
  have g: "w_good 0 w'" using Execute_good [OF w'(1), of 0] assms(1,3) row(11) by (simp add: known_def numeral_eq_Suc)
  have ttl_row: "map_of kCommandTable ''ttl'' = Some (CmdTtlGeneric 1000, False)" using row(14) by (simp add: CmdTtl_def [abs_def])
  have ms: "db_ttl (now_of w') k (dnow w') = (if now_of w' < D then D - now_of w' else - 2)"
    using st [OF w'(2)] D0(1) by (simp add: db_ttl_def)
  have "0 \<le> now_of w'" by (rule w_goodD(4) [OF g])
  then have q: "i64 (D - now_of w' + 1000 - 1) sdiv 1000 = (D - now_of w' + 999) div 1000" if "now_of w' < D"
    using D(3) that by (subst i64_id) (auto simp: int64_range_def signed_divide_int_def)
  from Ttl_meaning [OF assms(2) ttl_row g ms [symmetric]] have
    "outcome (Execute [t, k] w') w' (EncodeInteger (if now_of w' < D then (D - now_of w' + 999) div 1000 else - 2) [])
       (now_of w') (dnow w') []" using q by (auto split: if_splits)
  with w' st show ?thesis by blast
qed

theorem expire_then_ttl_witness:
  "\<exists>st w'. Execute [''EXPIRE'', ''k'', ''5''] (boot st) = Some (EncodeInteger 1 [], w')
     \<and> (\<forall>u\<ge>1001. db u (w_store w') = [''k'' \<mapsto> (DInt 41, 0)](''k'' := if u < 6000 then Some (DInt 41, 6000) else None))"
proof -
  from boot_string obtain st where st: "w_good 900 (boot st)" "\<And>u. 1000 \<le> u \<Longrightarrow> db u st = [''k'' \<mapsto> (DInt 41, 0)]" by blast
  have g: "w_good 3 (boot st)" by (rule w_good_less [OF st(1)]) simp
  have p: "ParseInt64 ''5'' = Some 5" by code_simp
  from expire_then_ttl [OF lower_names(6,7) g p, of 6000 "''k''" "DInt 41" 0] st(2) [of 1001] show ?thesis
    using st(2) by fastforce
qed

subsection \<open>Ordered sets\<close>

lemma zslice_all [simp]: "zslice 0 (- 1) ks = ks"
  by (cases ks) (simp_all add: zslice_def norm_start_def norm_stop_def Let_def nat_add_distrib)

lemma zslice_single: "i < length ks \<Longrightarrow> zslice (int i) (int i) ks = [ks ! i]"
  by (simp add: zslice_def norm_start_def norm_stop_def Let_def take_Suc_conv_app_nth nth_via_drop)

lemma zrank_nth:
  assumes "i < length (zkeys f)" "zkeys f ! i = (s, m)" "finite (dom f)"
  shows "f m = Some s" "zrank f m = Some i"
proof -
  have srt: "sorted_wrt (<) (zkeys f)" by (rule zkeys_sorted)
  show f: "f m = Some s" using nth_mem [OF assms(1)] assms(2) zkeys_in [OF assms(3), of s m] by simp
  have "{x \<in> zkey_set f. x < (s, m)} = set (take i (zkeys f))"
  proof (intro equalityI subsetI)
    fix x assume "x \<in> {x \<in> zkey_set f. x < (s, m)}"
    then obtain j where j: "j < length (zkeys f)" "x = zkeys f ! j" "x < zkeys f ! i"
      using assms(2) zkeys_set [OF assms(3)] by (metis (mono_tags, lifting) in_set_conv_nth mem_Collect_eq)
    have "j < i" using j sorted_wrt_nth_less [OF srt, of i j] by (cases i j rule: linorder_cases) auto
    then show "x \<in> set (take i (zkeys f))" using j assms(1) by (auto simp: in_set_conv_nth)
  next
    fix x assume "x \<in> set (take i (zkeys f))"
    then obtain j where "j < i" "x = zkeys f ! j" using assms(1) by (auto simp: in_set_conv_nth)
    then show "x \<in> {x \<in> zkey_set f. x < (s, m)}"
      using sorted_wrt_nth_less [OF srt, of j i] assms zkeys_set [OF assms(3)] nth_mem [of j "zkeys f"] by auto
  qed
  moreover have "distinct (take i (zkeys f))" using srt strict_sorted_iff distinct_take by blast
  ultimately show "zrank f m = Some i" using f assms(1) distinct_card [of "take i (zkeys f)"] by (simp add: zrank_def)
qed

text \<open>ZADD, then ZRANGE 0 -1 WITHSCORES. ZADD of pairs of scores and members to a key that is missing or holds an ordered set answers the number of members that are new, stores the pairs in order (a later pair for the same member wins), keeps the deadline and logs one ZADD per pair; the ZRANGE after it lists exactly the members and scores of the resulting map in the order of score, then member, unless the key's deadline passes in between.\<close>

theorem zadd_then_zrange:
  assumes "ToLowerAscii c = ''zadd''" "w_good (length args + 2) w" "args \<noteq> []" "even (length args)" "parse_pairs args = Some ps"
    and base: "dnow w k = None \<and> f = Map.empty \<and> dl = 0 \<or> dnow w k = Some (DSet f, dl)"
    and r: "ToLowerAscii r = ''zrange''" "ToLowerAscii ws = ''withscores''" "ParseInt64 a = Some 0" "ParseInt64 b = Some (- 1)"
    and g: "g = foldl (\<lambda>f (s, m). f(m \<mapsto> s)) f ps"
  shows "\<exists>w'. Execute (c # k # args) w = Some (EncodeInteger (int (card (snd ` set ps - dom f))) [], w')
     \<and> (\<forall>u\<ge>now_of w. db u (w_store w') = (db u (w_store w))(k := if dl = 0 \<or> u < dl then Some (DSet g, dl) else None))
     \<and> logs (map (\<lambda>(s, m). [''ZADD'', k, ZScoreToString s, m]) ps) w w'
     \<and> outcome (Execute [r, k, a, b, ws] w') w'
         (if dl = 0 \<or> now_of w' < dl then encode_keys True (sorted_list_of_set {(s, m). g m = Some s}) else EncodeNullBulk [])
         (now_of w') (dnow w') []"
proof -
  have z: "zbase (dnow w k) = Some (f, dl)" using base by (auto simp: zbase_def)
  have g': "zadd_all ps f = g" by (simp add: g zadd_all_def)
  from ZAdd_meaning [OF assms(1,2) _ assms(3-5) z, unfolded g'] obtain w' where
    w': "Execute (c # k # args) w = Some (EncodeInteger (int (card (snd ` set ps - dom f))) [], w')" "now_of w \<le> now_of w'"
      "becomes (now_of w) ((dnow w)(k \<mapsto> (DSet g, dl))) w'"
      "logs (map (\<lambda>(s, m). [''ZADD'', k, ZScoreToString s, m]) ps) w w'"
    by (auto simp: outcome_def)
  have st: "db u (w_store w') = (db u (w_store w))(k := if dl = 0 \<or> u < dl then Some (DSet g, dl) else None)" if "now_of w \<le> u" for u
    using becomesD [OF w'(3) that] that by (auto simp: alive_upd not_less)
  have good: "w_good 0 w'" using Execute_good [OF w'(1), of 0] assms(1,2) row(21) by (simp add: known_def)
  have rr: "map_of kCommandTable ''zrange'' = Some (CmdZRangeGeneric False, False)" using row(27) by (simp add: CmdZRange_def [abs_def])
  have opt: "scores_option [ws] True" using r(2) by (simp add: scores_option_def)
  have ks: "zkeys g = sorted_list_of_set {(s, m). g m = Some s}" by (simp add: zkeys_def zkey_set_def)
  have zr: "zread (EncodeNullBulk []) (dnow w' k) (\<lambda>f. encode_keys True ((if False then rev else id) (zslice 0 (- 1) (zkeys f)))) =
      (if dl = 0 \<or> now_of w' < dl then encode_keys True (zkeys g) else EncodeNullBulk [])"
    using fun_cong [OF st [OF w'(2)], of k] by (simp add: zread_def)
  note out = ZRange_meaning [OF r(1) rr good r(3,4) opt, of k, unfolded zr]
  from w' st out show ?thesis unfolding ks by blast
qed

theorem zadd_then_zrange_witness:
  "\<exists>st w'. Store_Init 4 = Some st \<and> Execute [''ZADD'', ''z'', ''2'', ''b'', ''1'', ''a''] (boot st) = Some (EncodeInteger 2 [], w')
     \<and> outcome (Execute [''ZRANGE'', ''z'', ''0'', ''-1'', ''WITHSCORES''] w') w'
         (encode_keys True [(Fin 1, ''a''), (Fin 2, ''b'')]) (now_of w') (dnow w') []"
proof -
  from boot_ok obtain st where st: "Store_Init 4 = Some st" "w_good 1000 (boot st)" "db 1000 st = Map.empty" by blast
  have g: "w_good (length [''2'', ''b'', ''1'', ''a''] + 2) (boot st)" by (rule w_good_less [OF st(2)]) simp
  have p: "parse_pairs [''2'', ''b'', ''1'', ''a''] = Some [(Fin 2, ''b''), (Fin 1, ''a'')]" by simp
  have q: "ToLowerAscii ''WITHSCORES'' = ''withscores''" "ParseInt64 ''0'' = Some 0" "ParseInt64 ''-1'' = Some (- 1)" by code_simp+
  have s: "{(s, m). (if m = ''a'' then Some (Fin 1) else if m = ''b'' then Some (Fin 2) else None) = Some s} = {(Fin 1, ''a''), (Fin 2, ''b'')}"
    by (auto split: if_splits)
  have "(Fin 1, ''a'') < (Fin 2, ''b'')" by (simp add: less_prod_def)
  then have "sorted_list_of_set {(Fin 1, ''a''), (Fin 2, ''b'')} = [(Fin 1, ''a''), (Fin 2, ''b'')]" by simp
  then show ?thesis using zadd_then_zrange [OF lower_names(8) g _ _ p _ lower_names(9) q refl, of "''z''" Map.empty 0] st s
    by (auto simp: fun_upd_def)
qed

text \<open>A ZADD with a score that is not a number is the error reply and logs nothing, but it is not without effect: a key that was missing has been created as an empty ordered set, without a deadline, and stays in the database.\<close>

theorem zadd_bad_score_creates:
  assumes "ToLowerAscii c = ''zadd''" "w_good n w" "args \<noteq> []" "even (length args)" "parse_pairs args = None" "dnow w k = None"
  shows "outcome (Execute (c # k # args) w) w (ReplyError ''ERR value is not a valid float'')
     (now_of w) ((dnow w)(k \<mapsto> (DSet Map.empty, 0))) []"
  by (rule ZAdd_bad_score [OF assms(1-5)]) (simp add: zbase_def assms(6))

theorem zadd_bad_score_creates_witness:
  "\<exists>st. Store_Init 4 = Some st \<and> outcome (Execute [''ZADD'', ''z'', ''nan'', ''m''] (boot st)) (boot st)
     (ReplyError ''ERR value is not a valid float'') 1000 [''z'' \<mapsto> (DSet Map.empty, 0)] []"
proof -
  from boot_ok obtain st where st: "Store_Init 4 = Some st" "w_good 1000 (boot st)" "db 1000 st = Map.empty" by blast
  have "ParseZScore ''nan'' = None" by code_simp
  then have p: "parse_pairs [''nan'', ''m''] = None" by simp
  from zadd_bad_score_creates [OF lower_names(8) st(2) _ _ p, of "''z''"] st show ?thesis by auto
qed

text \<open>Ranks and positions agree. Whatever member stands at position i of the order of score, then member, of an ordered set: ZRANK of it answers i, ZREVRANK answers the number of members behind it, and ZRANGE i i lists exactly that member.\<close>

theorem zrank_zrange_agree:
  assumes n: "ToLowerAscii c1 = ''zrank''" "ToLowerAscii c2 = ''zrevrank''" "ToLowerAscii c3 = ''zrange''" "w_good n w"
    and k: "dnow w k = Some (DSet f, dl)" "i < card (dom f)" "sorted_list_of_set {(s, m). f m = Some s} ! i = (s, m)"
    and a: "ParseInt64 a = Some (int i)"
  shows "outcome (Execute [c1, k, m] w) w (EncodeInteger (int i) []) (now_of w) (dnow w) []
     \<and> outcome (Execute [c2, k, m] w) w (EncodeInteger (int (card (dom f)) - 1 - int i) []) (now_of w) (dnow w) []
     \<and> outcome (Execute [c3, k, a, a] w) w (encode_keys False [(s, m)]) (now_of w) (dnow w) []"
proof -
  have ks: "zkeys f = sorted_list_of_set {(s, m). f m = Some s}" by (simp add: zkeys_def zkey_set_def)
  have fin: "finite (dom f)" using k(2) card.infinite by fastforce
  have i: "i < length (zkeys f)" unfolding zkeys_length by (rule k(2))
  have nth: "zkeys f ! i = (s, m)" unfolding ks by (rule k(3))
  note r = zrank_nth [OF i nth fin]
  have rows: "map_of kCommandTable ''zrank'' = Some (CmdZRankGeneric False, False)"
    "map_of kCommandTable ''zrevrank'' = Some (CmdZRankGeneric True, False)"
    "map_of kCommandTable ''zrange'' = Some (CmdZRangeGeneric False, False)"
    using row(25-27) by (simp_all add: CmdZRank_def [abs_def] CmdZRevRank_def [abs_def] CmdZRange_def [abs_def])
  have o: "scores_option [] False" by (simp add: scores_option_def)
  show ?thesis
    using ZRank_meaning [OF n(1) rows(1) n(4), of k m] ZRank_meaning [OF n(2) rows(2) n(4), of k m]
      ZRange_meaning [OF n(3) rows(3) n(4) a a o, of k] k(1) r zslice_single [OF i] nth
    by (simp add: zread_def)
qed

theorem zrank_zrange_agree_witness:
  "\<exists>st. outcome (Execute [''ZRANK'', ''z'', ''b''] (boot st)) (boot st) (EncodeInteger 1 []) 1000 (db 1000 st) []
     \<and> outcome (Execute [''ZRANGE'', ''z'', ''1'', ''1''] (boot st)) (boot st) (encode_keys False [(Fin 2, ''b'')]) 1000 (db 1000 st) []"
proof -
  let ?f = "[''a'' \<mapsto> Fin 1, ''b'' \<mapsto> Fin 2]"
  from boot_zset obtain st where st: "w_good 900 (boot st)" "db 1000 st = [''z'' \<mapsto> (DSet ?f, 0)]" by auto
  have s: "{(s, m). ?f m = Some s} = {(Fin 1, ''a''), (Fin 2, ''b'')}" by (auto split: if_splits)
  have "(Fin 1, ''a'') < (Fin 2, ''b'')" by (simp add: less_prod_def)
  then have l: "sorted_list_of_set {(s, m). ?f m = Some s} ! 1 = (Fin 2, ''b'')" unfolding s by simp
  have q: "ToLowerAscii ''ZREVRANK'' = ''zrevrank''" "ParseInt64 ''1'' = Some (int 1)" by code_simp+
  have d: "db (now_of (boot st)) (w_store (boot st)) ''z'' = Some (DSet ?f, 0)" using st(2) by simp
  have c: "1 < card (dom ?f)" by simp
  from zrank_zrange_agree [OF lower_names(17) q(1) lower_names(9) st(1) d c l q(2)] show ?thesis by auto
qed

text \<open>ZREVRANGE is not the Redis command. It cuts the slice from the ascending order and reverses what it cut, so ZREVRANGE k 0 0, which in Redis lists the member with the highest score, lists the member with the lowest.\<close>

theorem zrevrange_lists_lowest:
  assumes "ToLowerAscii c = ''zrevrange''" "w_good n w" "ParseInt64 a = Some 0" "dnow w k = Some (DSet f, dl)" "finite (dom f)" "f m = Some s"
  shows "\<exists>s0 m0. f m0 = Some s0 \<and> (s0, m0) \<le> (s, m)
     \<and> outcome (Execute [c, k, a, a] w) w (encode_keys False [(s0, m0)]) (now_of w) (dnow w) []"
proof -
  have r: "map_of kCommandTable ''zrevrange'' = Some (CmdZRangeGeneric True, False)" using row(28) by (simp add: CmdZRevRange_def [abs_def])
  have o: "scores_option [] False" by (simp add: scores_option_def)
  have "(s, m) \<in> set (zkeys f)" using zkeys_in [OF assms(5)] assms(6) by simp
  then obtain x ks where ks: "zkeys f = x # ks" by (cases "zkeys f") auto
  obtain s0 m0 where x: "x = (s0, m0)" by (cases x) auto
  have "f m0 = Some s0" using zkeys_in [OF assms(5), of s0 m0] ks x by simp
  moreover have "x \<le> (s, m)"
  proof -
    have "\<forall>y\<in>set ks. x < y" using zkeys_sorted [of f] ks by simp
    moreover have "(s, m) = x \<or> (s, m) \<in> set ks" using \<open>(s, m) \<in> set (zkeys f)\<close> ks by simp
    ultimately show ?thesis using less_imp_le by blast
  qed
  moreover have "zslice 0 0 (zkeys f) = [(s0, m0)]" using ks x by (simp add: zslice_def norm_start_def norm_stop_def Let_def)
  ultimately show ?thesis
    using ZRange_meaning [OF assms(1) r assms(2,3,3) o, of k] assms(4) unfolding x
    by (intro exI [of _ s0] exI [of _ m0]) (simp add: zread_def)
qed

theorem zrevrange_lists_lowest_witness:
  "\<exists>st s0 m0. [''a'' \<mapsto> Fin 1, ''b'' \<mapsto> Fin 2] m0 = Some s0 \<and> (s0, m0) \<le> (Fin 1, ''a'')
     \<and> outcome (Execute [''ZREVRANGE'', ''z'', ''0'', ''0''] (boot st)) (boot st) (encode_keys False [(s0, m0)]) 1000 (db 1000 st) []"
proof -
  let ?f = "[''a'' \<mapsto> Fin 1, ''b'' \<mapsto> Fin 2]"
  from boot_zset obtain st where st: "w_good 900 (boot st)" "db 1000 st = [''z'' \<mapsto> (DSet ?f, 0)]" by auto
  have p: "ParseInt64 ''0'' = Some 0" by code_simp
  have d: "db (now_of (boot st)) (w_store (boot st)) ''z'' = Some (DSet ?f, 0)" using st(2) by simp
  have f: "?f ''a'' = Some (Fin 1)" "finite (dom ?f)" by simp_all
  from zrevrange_lists_lowest [OF lower_names(12) st(1) p d f(2,1)] obtain s0 m0 where
    "?f m0 = Some s0" "(s0, m0) \<le> (Fin 1, ''a'')"
    "outcome (Execute [''ZREVRANGE'', ''z'', ''0'', ''0''] (boot st)) (boot st) (encode_keys False [(s0, m0)]) 1000 (db 1000 st) []"
    by (auto simp del: fun_upd_apply less_eq_prod_simp)
  then show ?thesis by blast
qed

text \<open>C26: ZREM on an ordered set answers the number of distinct members it removed, takes exactly them out of the map, deletes the key when the last member goes, keeps the deadline otherwise, and is logged only when it removed something.\<close>

theorem zrem_exact:
  assumes "ToLowerAscii c = ''zrem''" "w_good n w" "ms \<noteq> []" "dnow w k = Some (DSet f, dl)" "f' = (\<lambda>m. if m \<in> set ms then None else f m)"
  shows "outcome (Execute (c # k # ms) w) w (EncodeInteger (int (card (set ms \<inter> dom f))) [])
     (now_of w) (if f' = Map.empty then (dnow w)(k := None) else (dnow w)(k \<mapsto> (DSet f', dl)))
     (if set ms \<inter> dom f \<noteq> {} then [''zrem'' # k # ms] else [])"
proof -
  have "f' = zdrop ms f" by (simp add: assms(5) zdrop_def)
  from ZRem_meaning [OF assms(1-4) refl this]
  show ?thesis by (simp add: card_gt_0_iff)
qed

theorem zrem_exact_witness:
  "\<exists>st. outcome (Execute [''ZREM'', ''z'', ''a'', ''b'', ''c'', ''a''] (boot st)) (boot st) (EncodeInteger 2 []) 1000 Map.empty
     [[''zrem'', ''z'', ''a'', ''b'', ''c'', ''a'']]"
proof -
  let ?f = "[''a'' \<mapsto> Fin 1, ''b'' \<mapsto> Fin 2]" and ?ms = "[''a'', ''b'', ''c'', ''a'']"
  from boot_zset obtain st where st: "w_good 900 (boot st)" "db 1000 st = [''z'' \<mapsto> (DSet ?f, 0)]" by auto
  have d: "db (now_of (boot st)) (w_store (boot st)) ''z'' = Some (DSet ?f, 0)" using st(2) by simp
  have e: "(\<lambda>m. if m \<in> set ?ms then None else ?f m) = Map.empty" by auto
  have s: "set ?ms \<inter> dom ?f = {''a'', ''b''}" by auto
  have "card {''a'', ''b''} = 2" by simp
  with zrem_exact [OF lower_names(10) st(1) _ d refl, of ?ms, unfolded e s] st(2) show ?thesis
    by (intro exI [of _ st]) (simp add: fun_upd_twist)
qed

subsection \<open>The keyspace\<close>

text \<open>KEYS lists every live key that the glob pattern matches and no other, each once, in one array, and changes nothing.\<close>

theorem keys_exact:
  assumes "ToLowerAscii c = ''keys''" "w_good n w"
  shows "\<exists>ks. distinct ks \<and> set ks = {k. dnow w k \<noteq> None \<and> glob_matches (glob_toks pat 0) k}
    \<and> outcome (Execute [c, pat] w) w (EncodeBulks ks (EncodeArrayHeader (length ks) [])) (now_of w) (dnow w) []"
  by (rule Keys_meaning [OF assms])

theorem keys_exact_witness:
  "\<exists>st ks. set ks = {k. k = ''k'' \<and> glob_matches (glob_toks ''*'' 0) k} \<and> distinct ks
    \<and> outcome (Execute [''KEYS'', ''*''] (boot st)) (boot st) (EncodeBulks ks (EncodeArrayHeader (length ks) [])) 1000 (db 1000 st) []"
proof -
  from boot_string obtain st where st: "w_good 900 (boot st)" "db 1000 st = [''k'' \<mapsto> (DInt 41, 0)]" by auto
  have "{k. db 1000 st k \<noteq> None \<and> P k} = {k. k = ''k'' \<and> P k}" for P using st(2) by auto
  with keys_exact [OF lower_names(5) st(1), of "''*''"] show ?thesis by fastforce
qed

text \<open>DEL removes all the keys it names, whatever they hold, and no other; its reply counts each removed key once, and at least all those that were live (a key that has expired but was not purged is counted too). It is logged when the count is positive.\<close>

theorem del_exact:
  assumes "ToLowerAscii c = ''del''" "w_good n w" "ks \<noteq> []"
  shows "\<exists>m. card {k \<in> set ks. dnow w k \<noteq> None} \<le> m \<and> m \<le> card (set ks)
    \<and> outcome (Execute (c # ks) w) w (EncodeInteger (int m) [])
        (now_of w) (\<lambda>k. if k \<in> set ks then None else dnow w k) (if m > 0 then [''del'' # ks] else [])"
  by (rule Del_meaning [OF assms])

theorem del_exact_witness:
  "\<exists>st. outcome (Execute [''DEL'', ''k'', ''k''] (boot st)) (boot st) (EncodeInteger 1 []) 1000 Map.empty [[''del'', ''k'', ''k'']]"
proof -
  from boot_string obtain st where st: "w_good 900 (boot st)" "db 1000 st = [''k'' \<mapsto> (DInt 41, 0)]" by auto
  have n: "now_of (boot st) = 1000" "w_store (boot st) = st" by simp_all
  have ne: "[''k'', ''k''] \<noteq> []" by simp
  from del_exact [OF lower_names(4) st(1) ne, unfolded n] obtain m where
    m: "card {k \<in> set [''k'', ''k'']. db 1000 st k \<noteq> None} \<le> m" "m \<le> card (set [''k'', ''k''])"
      "outcome (Execute [''DEL'', ''k'', ''k''] (boot st)) (boot st) (EncodeInteger (int m) []) 1000
         (\<lambda>k. if k \<in> set [''k'', ''k''] then None else db 1000 st k) (if m > 0 then [[''del'', ''k'', ''k'']] else [])"
    by blast
  have "{k \<in> set [''k'', ''k'']. db 1000 st k \<noteq> None} = {''k''}" using st(2) by auto
  with m(1,2) have "m = 1" by simp
  moreover have "(\<lambda>k. if k \<in> set [''k'', ''k''] then None else db 1000 st k) = Map.empty" using st(2) by auto
  ultimately show ?thesis using m(3) by auto
qed

text \<open>FLUSHALL empties the database and answers OK; an open log is closed, replaced by one that holds only FLUSHALL, and reopened under the same path and policy. Nothing is synchronised after the close, so the durable bytes are still those of the old log: a power failure right after the reply brings the old data back.\<close>

theorem flushall_exact:
  assumes "ToLowerAscii c = ''flushall''" "w_good n w" "af_open (w_aof w)" "can_open (w_disk w) (af_path (w_aof w))"
    "\<forall>i. length (EncodeCommand [''FLUSHALL''] []) \<le> fwrites (w_disk w) i"
  shows "\<exists>w'. Execute [c] w = Some (EncodeSimpleString ''OK'' [], w') \<and> becomes (now_of w) Map.empty w'
    \<and> af_open (w_aof w') \<and> af_path (w_aof w') = af_path (w_aof w) \<and> af_policy (w_aof w') = af_policy (w_aof w)
    \<and> aof_log (w_aof w', w_disk w') = EncodeCommand [''FLUSHALL''] []
    \<and> durable (w_disk w') = durable (snd (Aof_Close (w_aof w, w_disk w)))"
  using FlushAll_meaning [OF assms(1,2)] assms(3-5) by (auto simp: EncodeCommand_enc)

theorem flushall_exact_witness:
  "\<exists>st w w'. Aof_Open ''appendonly.aof'' kEverySec (Aof_new, sample_disk\<lparr>fwrites := \<lambda>_. 100\<rparr>) = (True, w_aof w, w_disk w)
    \<and> Execute [''FLUSHALL''] w = Some (EncodeSimpleString ''OK'' [], w')
    \<and> aof_log (w_aof w', w_disk w') = EncodeCommand [''FLUSHALL''] []"
proof -
  from boot_ok obtain st where st: "w_good 1000 (boot st)" by blast
  let ?d = "sample_disk\<lparr>fwrites := \<lambda>_. 100\<rparr>"
  let ?r = "Aof_Open ''appendonly.aof'' kEverySec (Aof_new, ?d)"
  let ?w = "(boot st)\<lparr>w_aof := fst (snd ?r), w_disk := snd (snd ?r)\<rparr>"
  have g: "w_good 1000 ?w" using st by simp
  have r: "fst ?r" "af_open (fst (snd ?r))" "af_path (fst (snd ?r)) = ''appendonly.aof''" "can_open (snd (snd ?r)) = can_open sample_disk"
    "fwrites (snd (snd ?r)) = (\<lambda>_. 100)"
    by (simp_all add: Aof_Open_def Aof_new_def sample_disk_def Let_def)
  have len: "length (EncodeCommand [''FLUSHALL''] []) = 18" by code_simp
  have c: "can_open sample_disk p" for p by (simp_all add: sample_disk_def)
  from flushall_exact [OF lower_names(15) g] r c len obtain w' where
    "Execute [''FLUSHALL''] ?w = Some (EncodeSimpleString ''OK'' [], w')" "aof_log (w_aof w', w_disk w') = EncodeCommand [''FLUSHALL''] []"
    by auto
  moreover have "Aof_Open ''appendonly.aof'' kEverySec (Aof_new, ?d) = (True, w_aof ?w, w_disk ?w)"
    using r(1) by (cases ?r) auto
  ultimately show ?thesis by blast
qed

subsection \<open>Every command\<close>

text \<open>C29: Commands that only read. A command whose row in the table is not marked as a write, with any arguments and on any branch, answers, leaves every key with its value and deadline as the clock alone would, and appends nothing to the log.\<close>

theorem reads_change_nothing:
  assumes "map_of kCommandTable (ToLowerAscii c) = Some (h, False)" "w_good n w"
  shows "\<exists>reply w'. Execute (c # args) w = Some (reply, w') \<and> (\<forall>u\<ge>now_of w'. db u (w_store w') = db u (w_store w))
     \<and> w_aof w' = w_aof w \<and> w_disk w' = w_disk w"
proof -
  have g: "w_good n (bump w)" using assms(2) by simp
  from reads_answer [OF assms(1) g, of "ToLowerAscii c # args"] obtain out t w' where
    w': "h (ToLowerAscii c # args) (bump w) = Some (out, w')" "t \<le> now_of w'" "becomes t (db t (w_store w)) w'" "logs [] (bump w) w'"
    by (auto simp: answers_def outcome_def)
  have "db u (w_store w') = db u (w_store w)" if "now_of w' \<le> u" for u using becomesD [OF w'(3), of u] w'(2) that by simp
  then show ?thesis using w'(1,4) unfolding Execute_row [OF refl assms(1)] by (auto simp: logs_def)
qed

theorem reads_change_nothing_witness:
  "\<exists>st reply w'. Execute [''ZRANGE'', ''z'', ''one''] (boot st) = Some (reply, w') \<and> w_aof w' = Aof_new \<and> w_disk w' = sample_disk"
proof -
  from boot_ok obtain st where st: "w_good 1000 (boot st)" by blast
  have "map_of kCommandTable (ToLowerAscii ''ZRANGE'') = Some (CmdZRange, False)" unfolding lower_names by (rule row(27))
  from reads_change_nothing [OF this st, of "[''z'', ''one'']"] show ?thesis by (auto simp: boot_def)
qed

text \<open>C8: Every command ends. For any request whatever, of any number of arguments, on any store with room for that many members, Execute returns: no walk over a skip list is endless, no invalid memory is read, every invariant of the store, its sets and its index is kept, and the reply is exactly one RESP value (an unknown command name must hold no CR or LF for that).\<close>

theorem every_command_returns:
  assumes "w_good (n + length args) w"
  shows "\<exists>reply w'. Execute args w = Some (reply, w') \<and> w_good n w'
    \<and> (args = [] \<or> known args \<or> line_ok (hd args) \<longrightarrow> resp_value reply)"
proof (cases "args = [] \<or> known args \<or> line_ok (hd args)")
  case True
  then show ?thesis using Execute_ok [OF assms] by blast
next
  case False
  then have "map_of kCommandTable (ToLowerAscii (hd args)) = None" "args \<noteq> []" unfolding known_def by blast+
  then show ?thesis using False w_good_less [OF assms, of n] by (simp add: Execute_def Let_def)
qed

theorem every_command_returns_witness:
  "\<exists>st reply w'. Execute (replicate 1000 ''zadd'') (boot st) = Some (reply, w')"
proof -
  from boot_ok obtain st where "w_good 1000 (boot st)" by blast
  then have "w_good (0 + length (replicate 1000 ''zadd'')) (boot st)" by simp
  from every_command_returns [OF this] show ?thesis by blast
qed

text \<open>An unknown command is reported with its name as the client sent it, bytes included: nothing is changed, but a name that contains CR LF ends the error line where the client chooses, and what follows it in the output starts a line of its own.\<close>

theorem unknown_command_echoes:
  assumes "map_of kCommandTable (ToLowerAscii (x @ kCRLF @ y)) = None"
  shows "\<exists>w'. Execute ((x @ kCRLF @ y) # args) w =
       Some ((''-ERR unknown command '' @ [CHR 0x27] @ x @ kCRLF) @ (y @ [CHR 0x27] @ kCRLF), w')
     \<and> w_store w' = w_store w \<and> w_aof w' = w_aof w \<and> w_disk w' = w_disk w"
  using assms by (simp add: Execute_def Let_def ReplyError_def EncodeError_def)

theorem unknown_command_echoes_witness:
  "\<exists>st w'. Execute [''x'' @ kCRLF @ ''+OK''] (boot st) =
       Some ((''-ERR unknown command '' @ [CHR 0x27] @ ''x'' @ kCRLF) @ (''+OK'' @ [CHR 0x27] @ kCRLF), w')"
proof -
  have e: "ToLowerAscii (''x'' @ kCRLF @ ''+OK'') = ''x'' @ kCRLF @ ''+ok''" by code_simp
  have "map_of kCommandTable (ToLowerAscii (''x'' @ kCRLF @ ''+OK'')) = None" unfolding e by (simp add: kCommandTable_def)
  from unknown_command_echoes [OF this, of "[]"] show ?thesis by blast
qed

end
