(* ===== verification/Connection_Properties.thy ===== *)
theory Connection_Properties
  imports Connection_Facts Command_Properties
begin

section \<open>Properties of a connection\<close>

text \<open>Pipelined requests, the output queue, and a request behind a blank line, with concrete runs.\<close>

subsection \<open>Concrete connections\<close>

text \<open>Two PINGs in three chunks over two events, and a kernel that takes four bytes at a time.\<close>

lemma ping_ok: "request_ok [''PING'']"
proof -
  have "ToLowerAscii ''PING'' = ''ping''" by code_simp
  then show ?thesis by (simp add: request_ok_def args_ok_def bulk_ok_def known_def kCommandTable_def)
qed

definition sample_events :: "conn_event list" where
  "sample_events =
     [(kEventReadable, [RecvData (take 5 (EncodeCommand [''PING''] [])), RecvIntr, RecvData (drop 5 (EncodeCommand [''PING''] []))],
        [Sent 4, SendIntr, SendAgain], id),
      (kEventReadable, [RecvData (EncodeCommand [''PING''] [])], [Sent 4], id)]"

lemma sample_events_ok:
  "list_all event_ok sample_events" "list_all event_sends_ok sample_events"
  "concat (map event_data sample_events) = concat (map (\<lambda>a. EncodeCommand a []) [[''PING''], [''PING'']])"
  by (simp_all add: sample_events_def event_ok_def event_sends_ok_def send_bad_def quiet_def)

text \<open>A connection that has just started, and one with a reply queued.\<close>

definition idle_conn :: connection where
  "idle_conn = Connection_Start (\<lparr>cn_fd = Some 7, cn_parser = parser_new, cn_output = [], cn_offset = 0, cn_bytes = 0, cn_events = 0,
     cn_closed = False, cn_close_after = False, cn_handled = 0, cn_connected_at = 0, cn_on_close = True\<rparr>)"

definition sample_conn :: connection where
  "sample_conn = push_reply (''+PONG'' @ kCRLF) idle_conn"

lemma idle_conn_ok:
  "conn_ok idle_conn" "\<not> cn_closed idle_conn" "cn_output idle_conn = []" "unread idle_conn = []"
  "wants_write idle_conn \<longleftrightarrow> cn_output idle_conn \<noteq> []" "\<not> cn_close_after idle_conn" "pending idle_conn = []"
  by (simp_all add: idle_conn_def Connection_Start_def conn_ok_def pending_def unread_def parser_new_def wants_write_def)

lemma sample_conn_ok: "conn_ok sample_conn" "\<not> cn_closed sample_conn" "pending sample_conn = ''+PONG'' @ kCRLF"
  using push_reply_ok [OF idle_conn_ok(1), of "''+PONG'' @ kCRLF"] idle_conn_ok
  by (simp_all add: sample_conn_def) (simp add: push_reply_def)

subsection \<open>The properties\<close>




text \<open>One read. When the bytes of an event complete a sequence of commands, and the replies fit in the output buffer, the event executes exactly these commands in order, leaves the server in the state the sequence leaves, appends exactly their replies to what is sent or queued, and keeps no byte of input back.\<close>

theorem read_event_serves:
  assumes c: "conn_ok c" "\<not> cn_closed c" "wants_write c \<longleftrightarrow> cn_output c \<noteq> []" "\<not> cn_close_after c"
    and s: "quiet (sk_recvs s)" "\<forall>r\<in>set (sk_sends s). \<not> send_bad r"
    and st: "unread c @ data (sk_recvs s) = concat (map (\<lambda>a. EncodeCommand a []) cmds)" "list_all request_ok cmds"
      "length (unread c @ data (sk_recvs s)) \<le> kMaxQueryBuffer" "cmds \<noteq> [] \<Longrightarrow> strict_prefix (unread c) (EncodeCommand (hd cmds) [])"
    and w: "w_good (cost cmds) w" "serve cmds (AddBytesIn (length (data (sk_recvs s))) w) = Some (rs, w')"
      "length (pending c) + length (concat rs) \<le> kMaxOutputBuffer"
  shows "\<exists>c' s'. HandleEvent kEventReadable c s w = Some (c', s', w') \<and> sk_sent s' @ pending c' = sk_sent s @ pending c @ concat rs
     \<and> unread c' = [] \<and> conn_ok c' \<and> \<not> cn_closed c' \<and> (wants_write c' \<longleftrightarrow> cn_output c' \<noteq> [])"
proof -
  have e: "(\<lambda>a. EncodeCommand a []) = enc" by (simp add: EncodeCommand_enc fun_eq_iff)
  have ar: "arrival kEventReadable s = data (sk_recvs s)" "reads kEventReadable s w = AddBytesIn (length (data (sk_recvs s))) w"
    by (simp_all add: arrival_def reads_def)
  have pf: "prefix (unread c @ arrival kEventReadable s) (stream cmds)" "length (unread c @ arrival kEventReadable s) \<le> kMaxQueryBuffer"
    using st(1,3) by (simp_all add: ar e)
  have mx: "cmds = [] \<or> cn_close_after c \<or> strict_prefix (unread c) (enc (hd cmds))" using st(4) by (auto simp: EncodeCommand_enc)
  have "w_good (0 + cost cmds) w" "kEventReadable AND (kEventError OR kEventHup) = 0" using w(1) by simp_all
  from HandleEvent_served [OF c(1-3) s(1) st(2) pf(1) mx pf(2) this] obtain c' s' w2 k rs2 where
    h: "HandleEvent kEventReadable c s w = Some (c', s', w2)"
    and sv: "served cmds (arrival kEventReadable s) 0 c s (reads kEventReadable s w) k rs2 c' s' w2" by blast
  note d = servedD [OF sv, unfolded ar]
  have full: "stream cmds = stream (take k cmds) @ unread c'" using d(6) st(1) by (simp add: e)
  have split: "stream cmds = stream (take k cmds) @ stream (drop k cmds)" by (metis append_take_drop_id concat_append map_append)
  with full have u: "unread c' = stream (drop k cmds)" by simp
  have "\<exists>rs3 w3. serve (take k cmds @ drop k cmds) (AddBytesIn (length (data (sk_recvs s))) w) = Some (rs2 @ rs3, w3)"
  proof -
    show ?thesis using w(2) serve_append [of "take k cmds" "drop k cmds"] d(11)
      by (auto split: option.splits)
  qed
  then have "length (concat rs2) \<le> length (concat rs)" using w(2) by auto
  then have fit: "length (pending c) + length (concat rs2) \<le> kMaxOutputBuffer" using w(3) by simp
  note m = d(12) [OF c(4) fit]
  have "k = length cmds"
  proof (rule ccontr)
    assume "k \<noteq> length cmds"
    then have k: "k < length cmds" using d(2) by simp
    then have "drop k cmds = cmds ! k # drop (Suc k) cmds" by (simp add: Cons_nth_drop_Suc)
    then have "unread c' = enc (cmds ! k) @ stream (drop (Suc k) cmds)" using u by simp
    with m k show False by (auto simp: strict_prefix_def)
  qed
  then have all: "rs2 = rs" "w2 = w'" "unread c' = []" using d(11) w(2) u by simp_all
  have "\<not> cn_closed c'" using d(9) s(2) m by blast
  with h all d(1,7,10) show ?thesis by auto
qed

theorem read_event_serves_witness:
  "\<exists>st rs w' c' s'. serve [[''PING'']] (AddBytesIn 14 (boot st)) = Some (rs, w') \<and> list_all resp_value rs
     \<and> HandleEvent kEventReadable idle_conn \<lparr>sk_recvs = [RecvData (EncodeCommand [''PING''] [])], sk_sends = [], sk_sent = []\<rparr> (boot st)
         = Some (c', s', w') \<and> sk_sent s' @ pending c' = concat rs"
proof -
  from boot_ok obtain st where st: "w_good 1000 (boot st)" by blast
  have len: "length (EncodeCommand [''PING''] []) = 14" by code_simp
  have g: "w_good (cost [[''PING'']]) (boot st)" by (rule w_good_less [OF st]) simp
  have p: "ToLowerAscii ''PING'' = ''ping''" by code_simp
  let ?r = "EncodeSimpleString ''PONG'' []"
  have x: "serve [[''PING'']] (AddBytesIn 14 (boot st)) = Some ([?r], AddBytesOut (length ?r) (bump (AddBytesIn 14 (boot st))))"
    using Execute_row [OF p row(1), of "[]" "AddBytesIn 14 (boot st)"] by (simp add: CmdPing_def)
  have rl: "length ?r = 7" by code_simp
  have rq: "list_all request_ok [[''PING'']]" using ping_ok by simp
  have lr: "list_all resp_value [?r]" by (simp add: resp_encoders line_ok_def)
  let ?s = "\<lparr>sk_recvs = [RecvData (EncodeCommand [''PING''] [])], sk_sends = [], sk_sent = []\<rparr>"
  have "strict_prefix [] (EncodeCommand [''PING''] [])" by (simp add: strict_prefix_def EncodeCommand_enc not_sym [OF enc_nonempty])
  then have "\<exists>c' s'. HandleEvent kEventReadable idle_conn ?s (boot st) = Some (c', s', AddBytesOut (length ?r) (bump (AddBytesIn 14 (boot st))))
     \<and> sk_sent s' @ pending c' = concat [?r]"
    using read_event_serves [OF idle_conn_ok(1,2) idle_conn_ok(5,6), of ?s "[[''PING'']]" "boot st" "[?r]" "AddBytesOut (length ?r) (bump (AddBytesIn 14 (boot st)))"]
      g x rq rl len idle_conn_ok(4,7) by (auto simp: quiet_def simp del: serve.simps)
  with x lr show ?thesis by blast
qed


text \<open>C32: Output drains. When the kernel accepts at least one byte per call, as many calls as bytes are queued send everything in order, unsubscribe the writable event, and close the connection exactly when it was waiting to close.\<close>

theorem output_drains:
  assumes "conn_ok c" "\<not> cn_closed c" "\<forall>r\<in>set (sk_sends s). \<exists>k>0. r = Sent k" "length (pending c) \<le> length (sk_sends s)"
  shows "\<exists>c' s'. HandleWrite c s = (c', s') \<and> sk_sent s' = sk_sent s @ pending c \<and> cn_output c' = []
     \<and> (cn_closed c' \<longleftrightarrow> cn_close_after c) \<and> (\<not> cn_closed c' \<longrightarrow> \<not> wants_write c')"
proof -
  obtain c' s' where h: "HandleWrite c s = (c', s')" by (cases "HandleWrite c s") auto
  then have q: "write_queue c s = (c', s')" using assms(2) by (simp add: HandleWrite_def)
  have out: "cn_output c' = []" by (rule write_queue_drains [OF assms(1,2) q assms(3,4)])
  have nb: "\<not> (\<exists>r\<in>set (sk_sends s). send_bad r)" using assms(3) by (auto simp: send_bad_def)
  note w = write_queue_ok [OF assms(1) q assms(2)]
  have "pending c' = []" using w out conn_ok_pending by blast
  then show ?thesis using h w out nb by auto
qed

theorem output_drains_witness:
  "\<exists>c' s'. HandleWrite sample_conn \<lparr>sk_recvs = [], sk_sends = [Sent 2, Sent 9, Sent 9, Sent 9, Sent 9, Sent 9, Sent 9], sk_sent = []\<rparr> = (c', s')
     \<and> sk_sent s' = ''+PONG'' @ kCRLF \<and> cn_output c' = []"
  using output_drains [OF sample_conn_ok(1,2), of "\<lparr>sk_recvs = [], sk_sends = [Sent 2, Sent 9, Sent 9, Sent 9, Sent 9, Sent 9, Sent 9], sk_sent = []\<rparr>"]
  by (auto simp: sample_conn_ok)


text \<open>A blank line hides the command behind it. When a blank line and a complete command arrive together, the parser consumes the line but reports that it needs more data, so the event ends without executing the command: it stays in the buffer, nothing is queued, and nothing but new data from the client will make the server look at it.\<close>

theorem blank_line_stalls:
  assumes "conn_ok c" "\<not> cn_closed c" "cn_output c = []" "unread c = []" "sk_recvs s = [RecvData (kCRLF @ EncodeCommand a [])]"
    "length (EncodeCommand a []) < kMaxQueryBuffer - 2"
  shows "\<exists>c'. HandleEvent kEventReadable c s w = Some (c', s\<lparr>sk_recvs := []\<rparr>, AddBytesIn (length (EncodeCommand a []) + 2) w)
     \<and> unread c' = EncodeCommand a [] \<and> cn_output c' = [] \<and> cn_events c' = cn_events c \<and> \<not> cn_closed c'"
proof -
  let ?e = "EncodeCommand a []" and ?p = "cn_parser c"
  have le: "pos ?p = length (buf ?p)" using assms(1,4) by (simp add: conn_ok_def unread_def)
  let ?q = "?p\<lparr>buf := buf ?p @ kCRLF @ ?e\<rparr>"
  let ?c = "c\<lparr>cn_parser := ?q\<rparr>"
  have "FindCRLF (buf ?q) (pos ?q) = Some (pos ?p)" by (subst FindCRLF.simps) (simp add: le nth_append)
  then have n: "RespParser_Next ?q = (NextFalse, ?q\<lparr>pos := pos ?p + 2\<rparr>)"
    by (simp add: RespParser_Next_def Ensure_def le nth_append split_inline.simps [of "[]"])
  have "quiet (sk_recvs s)" by (simp add: assms(5) quiet_def)
  from recv_loop_quiet [OF this, of c w] have
    "recv_loop (sk_recvs s) c w = (RecvAgain, [], ?c, AddBytesIn (length ?e + 2) w)" by (simp add: assms(5))
  moreover have "ProcessInput ?c v = Some (?c\<lparr>cn_parser := ?q\<lparr>pos := pos ?p + 2\<rparr>\<rparr>, v)" for v
    using n by (subst ProcessInput.simps) simp
  moreover have "\<not> buffered ?q > kMaxQueryBuffer" using assms(6) by (simp add: buffered_def le)
  ultimately have "HandleRead c s w = Some (True, ?c\<lparr>cn_parser := ?q\<lparr>pos := pos ?p + 2\<rparr>\<rparr>, s\<lparr>sk_recvs := []\<rparr>, AddBytesIn (length ?e + 2) w)"
    using assms(2,3) by (simp add: HandleRead_def Let_def)
  then have "HandleEvent kEventReadable c s w = Some (?c\<lparr>cn_parser := ?q\<lparr>pos := pos ?p + 2\<rparr>\<rparr>, s\<lparr>sk_recvs := []\<rparr>, AddBytesIn (length ?e + 2) w)"
    using assms(2) by (simp add: HandleEvent_def)
  then show ?thesis using assms(2,3) le by (simp add: unread_def)
qed

theorem blank_line_stalls_witness:
  "\<forall>w. \<exists>c'. HandleEvent kEventReadable idle_conn \<lparr>sk_recvs = [RecvData (kCRLF @ EncodeCommand [''PING''] [])], sk_sends = [], sk_sent = []\<rparr> w
       = Some (c', \<lparr>sk_recvs = [], sk_sends = [], sk_sent = []\<rparr>, AddBytesIn 16 w)
     \<and> unread c' = EncodeCommand [''PING''] [] \<and> cn_output c' = []"
proof -
  have len: "length (EncodeCommand [''PING''] []) = 14" by code_simp
  show ?thesis
    using blank_line_stalls [OF idle_conn_ok(1-4), of "\<lparr>sk_recvs = [RecvData (kCRLF @ EncodeCommand [''PING''] [])], sk_sends = [], sk_sent = []\<rparr>" "[''PING'']"] len
    by auto
qed

end
