(* ===== verification/Config.thy ===== *)
theory Config
  imports Score Aof
begin

section \<open>Configuration (src/config.cpp, include/rl/config.h, src/log.cpp)\<close>

text \<open>
  The command line: \<open>SplitArg\<close> reads one option and its value from the arguments, \<open>Config::Parse\<close>
  applies the options in order.  \<open>None\<close> is \<open>return false\<close> (after the message on \<open>stderr\<close>, which is
  not modelled); the boolean of a result is \<open>show_help\<close>.  What is proved: a configuration that is
  accepted is in range, both spellings of an option mean the same, and which spelling is swallowed
  as the value of the option before it.
\<close>

datatype LogLevel = kDebug | kInfo | kWarn | kError

definition ParseLogLevel :: "string \<Rightarrow> LogLevel option" where
  "ParseLogLevel s =
     (if s = ''debug'' then Some kDebug
      else if s = ''info'' then Some kInfo
      else if s = ''warn'' \<or> s = ''warning'' then Some kWarn
      else if s = ''error'' then Some kError
      else None)"

record config =
  cf_bind :: string
  cf_port :: "16 word"
  cf_loop_count :: u64
  cf_shard_count :: u64
  cf_aof_enabled :: bool
  cf_aof_path :: string
  cf_aof_policy :: AofSyncPolicy
  cf_log_level :: LogLevel

definition default_config :: config where
  "default_config =
     \<lparr>cf_bind = ''127.0.0.1'', cf_port = 6379, cf_loop_count = 0, cf_shard_count = 64, cf_aof_enabled = False,
      cf_aof_path = ''appendonly.aof'', cf_aof_policy = kEverySec, cf_log_level = kInfo\<rparr>"

subsection \<open>Numbers\<close>

text \<open>\<open>strtoull(s, &end, 10)\<close>: white space, a sign, digits; an overflow saturates, a minus sign
  negates modulo $2^{64}$; without digits nothing is consumed.\<close>

definition strtoull :: "string \<Rightarrow> u64 \<times> string" where
  "strtoull s =
     (let s1 = dropWhile is_space s;
          neg = (s1 \<noteq> [] \<and> hd s1 = CHR ''-'');
          s2 = (if s1 \<noteq> [] \<and> (hd s1 = CHR ''-'' \<or> hd s1 = CHR ''+'') then tl s1 else s1);
          ds = takeWhile is_digit s2
      in if ds = [] then (0, s)
         else if dval ds \<ge> 18446744073709551616 then (- 1, dropWhile is_digit s2)
         else (if neg then - of_nat (dval ds) else of_nat (dval ds), dropWhile is_digit s2))"

definition ParseU64 :: "string \<Rightarrow> u64 option" where
  "ParseU64 s =
     (if s = [] then None
      else let (v, rest) = strtoull (c_string s) in if rest \<noteq> [] then None else Some v)"

subsection \<open>Options\<close>

text \<open>The option at the head of the arguments: key, value, and the arguments after them.\<close>

definition SplitArg :: "string \<Rightarrow> string list \<Rightarrow> (string \<times> string \<times> string list) option" where
  "SplitArg arg rest =
     (if length arg < 2 \<or> arg ! 0 \<noteq> CHR ''-'' \<or> arg ! 1 \<noteq> CHR ''-'' then None
      else
        let body = drop 2 arg in
        if CHR ''='' \<in> set body
        then Some (takeWhile (\<lambda>c. c \<noteq> CHR ''='') body, tl (dropWhile (\<lambda>c. c \<noteq> CHR ''='') body), rest)
        else if rest \<noteq> [] then Some (body, hd rest, tl rest)
        else Some (body, [], rest))"

definition apply_option :: "string \<Rightarrow> string \<Rightarrow> config \<Rightarrow> config option" where
  "apply_option key v c =
     (if key = ''port'' then
        (case ParseU64 v of
           None \<Rightarrow> None
         | Some n \<Rightarrow> if n = 0 \<or> n > 65535 then None else Some (c\<lparr>cf_port := ucast n\<rparr>))
      else if key = ''bind'' then Some (c\<lparr>cf_bind := v\<rparr>)
      else if key = ''threads'' \<or> key = ''loops'' then
        (case ParseU64 v of
           None \<Rightarrow> None
         | Some n \<Rightarrow> if n > 256 then None else Some (c\<lparr>cf_loop_count := n\<rparr>))
      else if key = ''shards'' then
        (case ParseU64 v of
           None \<Rightarrow> None
         | Some n \<Rightarrow> if n = 0 \<or> n > 65536 then None else Some (c\<lparr>cf_shard_count := n\<rparr>))
      else if key = ''aof'' then
        (let c = c\<lparr>cf_aof_enabled := True\<rparr> in
         Some (if v \<noteq> [] \<and> v \<noteq> ''yes'' \<and> v \<noteq> ''true'' \<and> v \<noteq> ''1'' then c\<lparr>cf_aof_path := v\<rparr> else c))
      else if key = ''aof-fsync'' then map_option (\<lambda>p. c\<lparr>cf_aof_policy := p\<rparr>) (ParseAofPolicy v)
      else if key = ''log-level'' then map_option (\<lambda>l. c\<lparr>cf_log_level := l\<rparr>) (ParseLogLevel v)
      else None)"

lemma SplitArg_shorter: "SplitArg a rest = Some (k, v, rest') \<Longrightarrow> length rest' \<le> length rest"
  by (auto simp: SplitArg_def Let_def split: if_splits)

function parse_options :: "string list \<Rightarrow> config \<Rightarrow> (config \<times> bool) option" where
  "parse_options [] c = Some (c, False)"
| "parse_options (a # rest) c =
     (if a = ''-h'' \<or> a = ''--help'' then Some (c, True)
      else case SplitArg a rest of
        None \<Rightarrow> None
      | Some (key, v, rest') \<Rightarrow>
          (case apply_option key v c of
             None \<Rightarrow> None
           | Some c' \<Rightarrow> parse_options rest' c'))"
  by pat_completeness auto
termination
  by (relation "measure (\<lambda>(args, c). length args)") (auto dest: SplitArg_shorter)

text \<open>\<open>argv[0]\<close> is skipped.\<close>

definition Config_Parse :: "string list \<Rightarrow> config \<Rightarrow> (config \<times> bool) option" where
  "Config_Parse argv c = parse_options (drop 1 argv) c"

subsection \<open>A configuration that is accepted\<close>

definition config_ok :: "config \<Rightarrow> bool" where
  "config_ok c \<longleftrightarrow> 0 < cf_port c \<and> cf_loop_count c \<le> 256 \<and> 0 < cf_shard_count c \<and> cf_shard_count c \<le> 65536"

lemma default_config_ok: "config_ok default_config"
  by (simp add: config_ok_def default_config_def)

lemma port_pos: "n \<noteq> 0 \<Longrightarrow> \<not> n > 65535 \<Longrightarrow> (0 :: 16 word) < ucast (n :: u64)"
proof -
  assume n: "n \<noteq> 0" "\<not> n > 65535"
  have "unat n \<le> 65535" using n(2) by (simp add: word_less_nat_alt not_less)
  then have "unat (ucast n :: 16 word) = unat n" by (simp add: unsigned_ucast_eq take_bit_nat_eq_self)
  moreover have "unat n \<noteq> 0" using n(1) by (simp add: unat_eq_0)
  ultimately show ?thesis by (simp add: word_less_nat_alt)
qed

lemma if_SomeE: "(if b then x else y) = Some c \<Longrightarrow> (x = Some c \<Longrightarrow> P) \<Longrightarrow> (y = Some c \<Longrightarrow> P) \<Longrightarrow> P"
  by (cases b) auto

lemma apply_option_ok:
  assumes "apply_option k v c = Some c'" "config_ok c"
  shows "config_ok c'"
proof -
  have n: "0 < n" if "n \<noteq> 0" for n :: u64 using that by (simp add: word_gt_0)
  show ?thesis
    by (insert assms(1) [unfolded apply_option_def], elim if_SomeE)
      (use assms(2) n port_pos in \<open>auto simp: config_ok_def Let_def not_less split: option.splits if_splits\<close>)
qed

lemma parse_options_ok: "parse_options args c = Some (c', help) \<Longrightarrow> config_ok c \<Longrightarrow> config_ok c'"
proof (induction args c rule: parse_options.induct)
  case (2 a rest c)
  show ?case
  proof (cases "a = ''-h'' \<or> a = ''--help''")
    case False
    with "2.prems"(1) obtain k v r c1 where
      s: "SplitArg a rest = Some (k, v, r)" "apply_option k v c = Some c1" "parse_options r c1 = Some (c', help)"
      by (auto split: option.splits)
    show ?thesis
      by (rule "2.IH" [OF False s(1) refl refl s(2,3) apply_option_ok [OF s(2) "2.prems"(2)]])
  qed (use "2.prems" in auto)
qed auto

subsection \<open>The two spellings of an option\<close>

definition eq_form :: "string \<times> string \<Rightarrow> string" where
  "eq_form kv = ''--'' @ fst kv @ ''='' @ snd kv"

definition two_words :: "string \<times> string \<Rightarrow> string list" where
  "two_words kv = [''--'' @ fst kv, snd kv]"

fun apply_options :: "(string \<times> string) list \<Rightarrow> config \<Rightarrow> config option" where
  "apply_options [] c = Some c"
| "apply_options ((k, v) # kvs) c = (case apply_option k v c of None \<Rightarrow> None | Some c' \<Rightarrow> apply_options kvs c')"

text \<open>A key that can be spelled both ways: it holds no \<open>=\<close> and is not \<open>help\<close>.\<close>

definition plain_key :: "string \<Rightarrow> bool" where
  "plain_key k \<longleftrightarrow> CHR ''='' \<notin> set k \<and> k \<noteq> ''help''"

lemma span_eq: "CHR ''='' \<notin> set k \<Longrightarrow> takeWhile (\<lambda>c. c \<noteq> CHR ''='') (k @ CHR ''='' # v) = k
    \<and> dropWhile (\<lambda>c. c \<noteq> CHR ''='') (k @ CHR ''='' # v) = CHR ''='' # v"
  by (induction k) auto

lemma SplitArg_forms:
  assumes "plain_key k"
  shows "SplitArg (eq_form (k, v)) rest = Some (k, v, rest)" "SplitArg (''--'' @ k) (v # rest) = Some (k, v, rest)"
  using assms span_eq [of k v] by (simp_all add: SplitArg_def eq_form_def plain_key_def)

lemma parse_options_eq_form:
  "list_all (\<lambda>kv. plain_key (fst kv)) kvs \<Longrightarrow>
     parse_options (map eq_form kvs) c = map_option (\<lambda>c. (c, False)) (apply_options kvs c)"
proof (induction kvs arbitrary: c)
  case (Cons kv kvs)
  obtain k v where kv: "kv = (k, v)" by (cases kv) auto
  have "eq_form kv \<noteq> ''--help''" "eq_form kv \<noteq> ''-h''"
  proof -
    have "CHR ''='' \<in> set (eq_form kv)" by (simp add: eq_form_def)
    moreover have "CHR ''='' \<notin> set ''--help''" "CHR ''='' \<notin> set ''-h''" by simp_all
    ultimately show "eq_form kv \<noteq> ''--help''" "eq_form kv \<noteq> ''-h''" by metis+
  qed
  with Cons show ?case by (auto simp: kv SplitArg_forms split: option.split)
qed simp

lemma parse_options_two_words:
  "list_all (\<lambda>kv. plain_key (fst kv)) kvs \<Longrightarrow>
     parse_options (concat (map two_words kvs)) c = map_option (\<lambda>c. (c, False)) (apply_options kvs c)"
proof (induction kvs arbitrary: c)
  case (Cons kv kvs)
  obtain k v where kv: "kv = (k, v)" by (cases kv) auto
  have "k \<noteq> ''help''" using Cons.prems kv by (simp add: plain_key_def)
  then have "''--'' @ k \<noteq> ''--help''" "''--'' @ k \<noteq> ''-h''" by simp_all
  with Cons show ?case by (auto simp: kv two_words_def SplitArg_forms(2) [simplified] split: option.split)
qed simp

text \<open>C17: The command line means the same in both documented spellings. For any list of options whose keys hold no equals sign and are not help, --key=value throughout and --key value throughout give the same result: the options applied in order, stopping with a failure at the first that is unknown or has a bad value.\<close>

theorem config_spellings:
  assumes "list_all (\<lambda>kv. plain_key (fst kv)) kvs"
  shows "Config_Parse (prog # map eq_form kvs) c = map_option (\<lambda>c. (c, False)) (apply_options kvs c)
    \<and> Config_Parse (prog # concat (map two_words kvs)) c = Config_Parse (prog # map eq_form kvs) c"
  using parse_options_eq_form [OF assms] parse_options_two_words [OF assms] by (simp add: Config_Parse_def)

theorem config_spellings_witness:
  "Config_Parse [''redis-lite'', ''--port'', ''7000'', ''--aof'', ''data.aof''] default_config
     = Config_Parse [''redis-lite'', ''--port=7000'', ''--aof=data.aof''] default_config"
  using config_spellings [of "[(''port'', ''7000''), (''aof'', ''data.aof'')]" "''redis-lite''" default_config]
  by (simp add: plain_key_def eq_form_def two_words_def)

text \<open>The optional value of --aof swallows the option behind it. Usage prints --aof [path], but SplitArg takes the next word as the value whatever it is: after --aof, a word such as --port=7000 becomes the path of the log, and the option it spells is never applied.\<close>

theorem aof_swallows_option:
  assumes "x \<noteq> []" "x \<notin> {''yes'', ''true'', ''1''}"
  shows "Config_Parse (prog # ''--aof'' # x # rest) c =
     Config_Parse (prog # rest) (c\<lparr>cf_aof_enabled := True, cf_aof_path := x\<rparr>)"
proof -
  have "plain_key ''aof''" by (simp add: plain_key_def)
  note s = SplitArg_forms(2) [OF this, of x rest]
  have "apply_option ''aof'' x c = Some (c\<lparr>cf_aof_enabled := True, cf_aof_path := x\<rparr>)"
    using assms by (simp add: apply_option_def)
  with s show ?thesis by (simp add: Config_Parse_def)
qed

theorem aof_swallows_option_witness:
  "Config_Parse [''redis-lite'', ''--aof'', ''--port=7000''] default_config =
     Some (default_config\<lparr>cf_aof_enabled := True, cf_aof_path := ''--port=7000''\<rparr>, False)"
  using aof_swallows_option [of "''--port=7000''" "''redis-lite''" "[]" default_config]
  by (simp add: Config_Parse_def)

text \<open>A minus sign wraps: the port below is 1.\<close>

lemma ParseU64_negative: "ParseU64 ''-18446744073709551615'' = Some 1"
  by (simp add: ParseU64_def strtoull_def c_string_def is_space_def is_digit_def dval_def Let_def)

end
