(* ===== verification/Event_Loop.thy ===== *)
theory Event_Loop
  imports Connection Command_Inv
begin

unbundle bit_operations_syntax

section \<open>The event loop (src/event\_loop.cpp, src/poller.cpp, include/rl/event\_loop.h, event\_loop\_pool.h)\<close>

text \<open>
  One loop: its timers, the tasks other threads posted, the callbacks of its file descriptors and
  the \<open>Poller\<close> under it (the Linux back end).  A task is an identifier \<open>'t\<close>; what it does to its
  own loop is a parameter \<open>script\<close>, the list of the calls it makes (those made before it throws:
  the loop swallows exceptions).  \<open>QueueWork\<close> on the loop's own thread runs the task at once, so
  that it is a part of the script.  \<open>std::priority_queue\<close> is the list of the timers in the order
  of \<open>TimerLater\<close>; the readings of \<open>NowMs()\<close> are the sequence \<open>el_clock\<close>.  A null
  \<open>std::function\<close> is \<open>None\<close>.
\<close>

record 't timer =
  tm_deadline :: int
  tm_interval :: int
  tm_seq :: u64
  tm_task :: "'t option"

text \<open>\<open>Poller\<close>: the interest list of the epoll instance, and the descriptors the kernel refuses.\<close>

record poller =
  pl_interest :: "int \<rightharpoonup> u32"
  pl_refuses :: "int \<Rightarrow> bool"

record 't event_loop =
  el_timers :: "'t timer list"
  el_seq :: u64
  el_pending :: "'t option list"
  el_running :: bool
  el_callbacks :: "int \<rightharpoonup> (u32 \<Rightarrow> 't)"
  el_poller :: poller
  el_clock :: "nat \<Rightarrow> int"

datatype 't action =
    ActAfter int "'t option"
  | ActEvery int "'t option"
  | ActRegister int u32 "u32 \<Rightarrow> 't"
  | ActModify int u32
  | ActUnregister int
  | ActStop

subsection \<open>The poller\<close>

abbreviation EPOLLET :: u32 where "EPOLLET \<equiv> 0x80000000"
abbreviation EPOLLRDHUP :: u32 where "EPOLLRDHUP \<equiv> 0x2000"
abbreviation EPOLLPRI :: u32 where "EPOLLPRI \<equiv> 0x002"

text \<open>\<open>EPOLL_CTL_ADD\<close> of a registered descriptor and \<open>MOD\<close>, \<open>DEL\<close> of an unregistered one fail.\<close>

definition Poller_Register :: "int \<Rightarrow> u32 \<Rightarrow> poller \<Rightarrow> bool \<times> poller" where
  "Poller_Register fd events p =
     (if pl_refuses p fd \<or> pl_interest p fd \<noteq> None then (False, p)
      else (True, p\<lparr>pl_interest := (pl_interest p)(fd \<mapsto> events OR EPOLLET OR EPOLLRDHUP)\<rparr>))"

definition Poller_Modify :: "int \<Rightarrow> u32 \<Rightarrow> poller \<Rightarrow> bool \<times> poller" where
  "Poller_Modify fd events p =
     (if pl_interest p fd = None then (False, p)
      else (True, p\<lparr>pl_interest := (pl_interest p)(fd \<mapsto> events OR EPOLLET OR EPOLLRDHUP)\<rparr>))"

definition Poller_Unregister :: "int \<Rightarrow> poller \<Rightarrow> bool \<times> poller" where
  "Poller_Unregister fd p =
     (if pl_interest p fd = None then (False, p)
      else (True, p\<lparr>pl_interest := (pl_interest p)(fd := None)\<rparr>))"

text \<open>The translation of \<open>Wait\<close>.\<close>

definition ready_events :: "u32 \<Rightarrow> u32" where
  "ready_events ev =
     (let e = 0;
          e = (if ev AND (0x001 OR EPOLLPRI) \<noteq> 0 then e OR kEventReadable else e);
          e = (if ev AND 0x004 \<noteq> 0 then e OR kEventWritable else e);
          e = (if ev AND 0x008 \<noteq> 0 then e OR kEventError else e)
      in if ev AND (0x010 OR EPOLLRDHUP) \<noteq> 0 then e OR kEventHup else e)"

definition Poller_Wait :: "(int \<times> u32) list \<Rightarrow> (int \<times> u32) list" where
  "Poller_Wait evs = map (\<lambda>(fd, ev). (fd, ready_events ev)) (take 1024 evs)"

subsection \<open>Timers\<close>

definition TimerLater :: "'t timer \<Rightarrow> 't timer \<Rightarrow> bool" where
  "TimerLater a b =
     (if tm_deadline a \<noteq> tm_deadline b then tm_deadline a > tm_deadline b else tm_seq a > tm_seq b)"

fun pq_push :: "'t timer \<Rightarrow> 't timer list \<Rightarrow> 't timer list" where
  "pq_push t [] = [t]"
| "pq_push t (u # q) = (if TimerLater u t then t # u # q else u # pq_push t q)"

definition loop_now :: "'t event_loop \<Rightarrow> int \<times> 't event_loop" where
  "loop_now l = (el_clock l 0, l\<lparr>el_clock := (\<lambda>i. el_clock l (Suc i))\<rparr>)"

definition RunAfter :: "int \<Rightarrow> 't option \<Rightarrow> 't event_loop \<Rightarrow> 't event_loop" where
  "RunAfter delay task l =
     (let delay = (if delay < 0 then 0 else delay); (now, l) = loop_now l in
      l\<lparr>el_timers := pq_push \<lparr>tm_deadline = i64 (now + delay), tm_interval = 0, tm_seq = el_seq l, tm_task = task\<rparr> (el_timers l),
        el_seq := el_seq l + 1\<rparr>)"

definition RunEvery :: "int \<Rightarrow> 't option \<Rightarrow> 't event_loop \<Rightarrow> 't event_loop" where
  "RunEvery interval task l =
     (let interval = (if interval \<le> 0 then 1 else interval); (now, l) = loop_now l in
      l\<lparr>el_timers := pq_push \<lparr>tm_deadline = i64 (now + interval), tm_interval = interval, tm_seq = el_seq l, tm_task = task\<rparr>
                      (el_timers l),
        el_seq := el_seq l + 1\<rparr>)"

subsection \<open>File descriptors and tasks\<close>

definition Loop_Register :: "int \<Rightarrow> u32 \<Rightarrow> (u32 \<Rightarrow> 't) \<Rightarrow> 't event_loop \<Rightarrow> bool \<times> 't event_loop" where
  "Loop_Register fd events cb l =
     (let (ok, p) = Poller_Register fd events (el_poller l) in
      if \<not> ok then (False, l) else (True, l\<lparr>el_poller := p, el_callbacks := (el_callbacks l)(fd \<mapsto> cb)\<rparr>))"

definition Loop_Modify :: "int \<Rightarrow> u32 \<Rightarrow> 't event_loop \<Rightarrow> bool \<times> 't event_loop" where
  "Loop_Modify fd events l =
     (if el_callbacks l fd = None then (False, l)
      else let (ok, p) = Poller_Modify fd events (el_poller l) in (ok, l\<lparr>el_poller := p\<rparr>))"

definition Loop_Unregister :: "int \<Rightarrow> 't event_loop \<Rightarrow> 't event_loop" where
  "Loop_Unregister fd l =
     (let (ok, p) = Poller_Unregister fd (el_poller l) in
      l\<lparr>el_callbacks := (el_callbacks l)(fd := None), el_poller := p\<rparr>)"

definition Loop_Stop :: "'t event_loop \<Rightarrow> 't event_loop" where
  "Loop_Stop l = (if \<not> el_running l then l else l\<lparr>el_running := False\<rparr>)"

text \<open>A call of a task on its own loop, and a task.\<close>

fun run_action :: "'t action \<Rightarrow> 't event_loop \<Rightarrow> 't event_loop" where
  "run_action (ActAfter d t) l = RunAfter d t l"
| "run_action (ActEvery d t) l = RunEvery d t l"
| "run_action (ActRegister fd ev cb) l = snd (Loop_Register fd ev cb l)"
| "run_action (ActModify fd ev) l = snd (Loop_Modify fd ev l)"
| "run_action (ActUnregister fd) l = Loop_Unregister fd l"
| "run_action ActStop l = Loop_Stop l"

definition run_task :: "('t \<Rightarrow> 't action list) \<Rightarrow> 't \<Rightarrow> 't event_loop \<Rightarrow> 't event_loop" where
  "run_task script t l = foldl (\<lambda>l a. run_action a l) l (script t)"

text \<open>\<open>QueueWork\<close> from another thread.\<close>

definition QueueWork :: "'t option \<Rightarrow> 't event_loop \<Rightarrow> 't event_loop" where
  "QueueWork task l = (if task = None then l else l\<lparr>el_pending := el_pending l @ [task]\<rparr>)"

text \<open>The tasks that ran, in order, beside the state.\<close>

fun run_batch :: "('t \<Rightarrow> 't action list) \<Rightarrow> 't option list \<Rightarrow> 't event_loop \<Rightarrow> 't list \<times> 't event_loop" where
  "run_batch script [] l = ([], l)"
| "run_batch script (None # ts) l = run_batch script ts l"
| "run_batch script (Some t # ts) l = (let (ran, l) = run_batch script ts (run_task script t l) in (t # ran, l))"

definition RunPendingTasks :: "('t \<Rightarrow> 't action list) \<Rightarrow> 't event_loop \<Rightarrow> 't list \<times> 't event_loop" where
  "RunPendingTasks script l =
     (if el_pending l = [] then ([], l) else run_batch script (el_pending l) (l\<lparr>el_pending := []\<rparr>))"

subsection \<open>Expired timers\<close>

text \<open>The next deadline of a periodic timer: one interval later, or one interval from now.\<close>

definition rearm :: "int \<Rightarrow> 't timer \<Rightarrow> 't timer" where
  "rearm now t =
     (let d = i64 (tm_deadline t + tm_interval t) in
      t\<lparr>tm_deadline := (if d \<le> now then i64 (now + tm_interval t) else d)\<rparr>)"

text \<open>The loop of \<open>RunExpiredTimers\<close>: \<open>n\<close> is what is left of \<open>kMaxTimersPerRound\<close>, and the length
  of the list of timers that fired is the counter \<open>fired\<close>.\<close>

fun fire_loop :: "nat \<Rightarrow> int \<Rightarrow> ('t \<Rightarrow> 't action list) \<Rightarrow> 't event_loop \<Rightarrow> 't timer list \<times> 't event_loop" where
  "fire_loop 0 now script l = ([], l)"
| "fire_loop (Suc n) now script l =
     (if el_timers l = [] \<or> now < tm_deadline (hd (el_timers l)) then ([], l)
      else
        let t = hd (el_timers l);
            l = l\<lparr>el_timers := tl (el_timers l)\<rparr>;
            l = (case tm_task t of None \<Rightarrow> l | Some k \<Rightarrow> run_task script k l);
            l = (if 0 < tm_interval t \<and> el_running l
                 then l\<lparr>el_timers := pq_push (rearm now t) (el_timers l)\<rparr> else l);
            (fired, l) = fire_loop n now script l
        in (t # fired, l))"

abbreviation kMaxTimersPerRound :: nat where "kMaxTimersPerRound \<equiv> 256"

definition RunExpiredTimers :: "('t \<Rightarrow> 't action list) \<Rightarrow> 't event_loop \<Rightarrow> 't timer list \<times> 't event_loop" where
  "RunExpiredTimers script l =
     (if el_timers l = [] then ([], l)
      else let (now, l) = loop_now l in fire_loop kMaxTimersPerRound now script l)"

subsection \<open>The loop\<close>

definition poll_timeout :: "'t event_loop \<Rightarrow> int \<times> 't event_loop" where
  "poll_timeout l =
     (if el_timers l = [] then (50, l)
      else let (now, l) = loop_now l;
               delta = i64 (tm_deadline (hd (el_timers l)) - now);
               delta = (if delta < 0 then 0 else delta)
           in (if delta < 50 then delta else 50, l))"

text \<open>The callbacks of the descriptors that are ready; the events delivered, in order.  The
  descriptor of the notifier only drains.\<close>

fun dispatch :: "int \<Rightarrow> ('t \<Rightarrow> 't action list) \<Rightarrow> (int \<times> u32) list \<Rightarrow> 't event_loop \<Rightarrow> (int \<times> u32) list \<times> 't event_loop" where
  "dispatch nfd script [] l = ([], l)"
| "dispatch nfd script ((fd, ev) # evs) l =
     (if fd = nfd then dispatch nfd script evs l
      else case el_callbacks l fd of
        None \<Rightarrow> dispatch nfd script evs l
      | Some cb \<Rightarrow> (let (del, l) = dispatch nfd script evs (run_task script (cb ev) l) in ((fd, ev) # del, l)))"

text \<open>What happens around one round: the tasks other threads post before \<open>Wait\<close> returns, the
  events of the kernel (\<open>None\<close>: \<open>Wait\<close> failed, the loop ends), the tasks posted while callbacks run.\<close>

record 't round_input =
  ri_before :: "'t option list"
  ri_events :: "(int \<times> u32) list option"
  ri_during :: "'t option list"

record 't round_trace =
  rt_timeout :: int
  rt_fired :: "'t timer list"
  rt_ran :: "'t list"
  rt_events :: "(int \<times> u32) list"

definition post_all :: "'t option list \<Rightarrow> 't event_loop \<Rightarrow> 't event_loop" where
  "post_all ts l = foldl (\<lambda>l t. QueueWork t l) l ts"

definition loop_round ::
    "int \<Rightarrow> ('t \<Rightarrow> 't action list) \<Rightarrow> 't round_input \<Rightarrow> 't event_loop \<Rightarrow> 't round_trace \<times> 't event_loop" where
  "loop_round nfd script i l =
     (let (timeout, l) = poll_timeout l; l = post_all (ri_before i) l in
      case ri_events i of
        None \<Rightarrow> (\<lparr>rt_timeout = timeout, rt_fired = [], rt_ran = [], rt_events = []\<rparr>, l\<lparr>el_running := False\<rparr>)
      | Some evs \<Rightarrow>
          let (fired, l) = RunExpiredTimers script l;
              (ran1, l) = RunPendingTasks script l;
              (del, l) = dispatch nfd script (Poller_Wait evs) l;
              l = post_all (ri_during i) l;
              (ran2, l) = RunPendingTasks script l
          in (\<lparr>rt_timeout = timeout, rt_fired = fired, rt_ran = ran1 @ ran2, rt_events = del\<rparr>, l))"

text \<open>\<open>while (running_)\<close>: the rounds that happen for a sequence of inputs.\<close>

fun loop_run ::
    "int \<Rightarrow> ('t \<Rightarrow> 't action list) \<Rightarrow> 't round_input list \<Rightarrow> 't event_loop \<Rightarrow> 't round_trace list \<times> 't event_loop" where
  "loop_run nfd script [] l = ([], l)"
| "loop_run nfd script (i # is) l =
     (if \<not> el_running l then ([], l)
      else let (tr, l) = loop_round nfd script i l; (trs, l) = loop_run nfd script is l in (tr # trs, l))"

subsection \<open>The pool\<close>

text \<open>The number of sub loops \<open>InitAndStart\<close> starts, \<open>hw\<close> being \<open>hardware_concurrency()\<close>.\<close>

definition sub_loop_total :: "u32 \<Rightarrow> u64 \<Rightarrow> u64" where
  "sub_loop_total hw loop_count =
     (if loop_count = 0 then (let n = (if hw = 0 then 4 else ucast hw) in if n > 16 then 16 else n) else loop_count)"

record loop_pool =
  lp_subs :: nat
  lp_next :: u64
  lp_started :: bool

definition InitAndStart :: "u32 \<Rightarrow> u64 \<Rightarrow> loop_pool \<Rightarrow> loop_pool" where
  "InitAndStart hw loop_count p =
     (if lp_started p then p
      else p\<lparr>lp_subs := lp_subs p + unat (sub_loop_total hw loop_count), lp_started := True\<rparr>)"

text \<open>\<open>None\<close> is the main loop.\<close>

definition NextLoop :: "loop_pool \<Rightarrow> nat option \<times> loop_pool" where
  "NextLoop p =
     (if lp_subs p = 0 then (None, p)
      else (Some (unat (lp_next p mod of_nat (lp_subs p))), p\<lparr>lp_next := lp_next p + 1\<rparr>))"

definition Pool_Stop :: "loop_pool \<Rightarrow> loop_pool" where
  "Pool_Stop p = (if \<not> lp_started p then p else p\<lparr>lp_started := False, lp_subs := 0\<rparr>)"

end
