(* ===== verification/Event_Loop_Facts.thy ===== *)
theory Event_Loop_Facts
  imports Event_Loop
begin

section \<open>What the event loop guarantees\<close>

text \<open>
  Timers fire in the order of their deadlines, those of one deadline in the order they were set;
  no timer is early, lost or fired twice in a round.  Posted tasks run exactly once, in order.
\<close>

subsection \<open>The queue of timers\<close>

abbreviation tm_before :: "'t timer \<Rightarrow> 't timer \<Rightarrow> bool" where
  "tm_before a b \<equiv> TimerLater b a"

definition queue_ok :: "'t timer list \<Rightarrow> bool" where
  "queue_ok q \<longleftrightarrow> sorted_wrt tm_before q \<and> distinct (map tm_seq q)"

lemma tm_before_trans: "tm_before a b \<Longrightarrow> tm_before b c \<Longrightarrow> tm_before a c"
  by (auto simp: TimerLater_def split: if_splits)

lemma tm_before_total: "tm_seq a \<noteq> tm_seq b \<Longrightarrow> \<not> tm_before a b \<Longrightarrow> tm_before b a"
  by (auto simp: TimerLater_def split: if_splits)

lemma tm_before_deadline: "tm_before a b \<Longrightarrow> tm_deadline a \<le> tm_deadline b"
  by (auto simp: TimerLater_def split: if_splits)

lemma pq_push_set [simp]: "set (pq_push t q) = insert t (set q)"
  by (induction t q rule: pq_push.induct) auto

lemma pq_push_seqs: "distinct (map tm_seq (pq_push t q)) \<longleftrightarrow> tm_seq t \<notin> tm_seq ` set q \<and> distinct (map tm_seq q)"
  by (induction t q rule: pq_push.induct) auto

lemma pq_push_ok:
  assumes "queue_ok q" "tm_seq t \<notin> tm_seq ` set q"
  shows "queue_ok (pq_push t q)"
proof -
  have "sorted_wrt tm_before q \<Longrightarrow> tm_seq t \<notin> tm_seq ` set q \<Longrightarrow> sorted_wrt tm_before (pq_push t q)"
  proof (induction t q rule: pq_push.induct)
    case (2 t u q)
    then show ?case using tm_before_trans [where a = t and b = u] tm_before_total [where a = t and b = u] by (auto 0 3)
  qed simp
  with assms show ?thesis by (simp add: queue_ok_def pq_push_seqs)
qed

lemma queue_ok_Cons: "queue_ok (t # q) \<longleftrightarrow> (\<forall>u\<in>set q. tm_before t u) \<and> tm_seq t \<notin> tm_seq ` set q \<and> queue_ok q"
  by (auto simp: queue_ok_def)

text \<open>The state of a loop: the queue in order, sequence numbers below the counter, intervals of at
  most \<open>D\<close>.\<close>

definition loop_ok :: "int \<Rightarrow> 't event_loop \<Rightarrow> bool" where
  "loop_ok D l \<longleftrightarrow> queue_ok (el_timers l) \<and>
     (\<forall>t\<in>set (el_timers l). tm_seq t < el_seq l \<and> 0 \<le> tm_interval t \<and> tm_interval t \<le> D \<and> INT64_MIN \<le> tm_deadline t)"

lemma loop_okD:
  assumes "loop_ok D l"
  shows "queue_ok (el_timers l)" "t \<in> set (el_timers l) \<Longrightarrow> tm_seq t < el_seq l"
    "t \<in> set (el_timers l) \<Longrightarrow> 0 \<le> tm_interval t" "t \<in> set (el_timers l) \<Longrightarrow> tm_interval t \<le> D"
    "t \<in> set (el_timers l) \<Longrightarrow> INT64_MIN \<le> tm_deadline t"
  using assms by (auto simp: loop_ok_def)

text \<open>From time \<open>now\<close> on the clock leaves room for delays of up to \<open>D\<close>.\<close>

definition clock_from :: "int \<Rightarrow> int \<Rightarrow> 't event_loop \<Rightarrow> bool" where
  "clock_from now D l \<longleftrightarrow> 0 \<le> now \<and> (\<forall>i. now \<le> el_clock l i \<and> el_clock l i + D \<le> INT64_MAX)"

text \<open>What at most \<open>k\<close> calls do to the timers: nothing is removed, and what is new is not due
  before \<open>now\<close> and has a fresh number.\<close>

definition extends :: "int \<Rightarrow> int \<Rightarrow> nat \<Rightarrow> 't event_loop \<Rightarrow> 't event_loop \<Rightarrow> bool" where
  "extends now D k l l' \<longleftrightarrow>
     loop_ok D l' \<and> clock_from now D l' \<and> unat (el_seq l') \<le> unat (el_seq l) + k \<and> el_seq l \<le> el_seq l' \<and>
     set (el_timers l) \<subseteq> set (el_timers l') \<and>
     (\<forall>t\<in>set (el_timers l') - set (el_timers l). el_seq l \<le> tm_seq t \<and> now \<le> tm_deadline t)"

lemma extends_trans:
  assumes "extends now D j l l1" "extends now D k l1 l2"
  shows "extends now D (j + k) l l2"
  using assms unfolding extends_def by (auto intro: order_trans; meson order_trans)

lemma extends_refl: "loop_ok D l \<Longrightarrow> clock_from now D l \<Longrightarrow> extends now D k l l"
  by (auto simp: extends_def)

definition script_ok :: "int \<Rightarrow> nat \<Rightarrow> ('t \<Rightarrow> 't action list) \<Rightarrow> bool" where
  "script_ok D M script \<longleftrightarrow> 1 \<le> D \<and> (\<forall>t. length (script t) \<le> M) \<and>
     (\<forall>t d x. ActAfter d x \<in> set (script t) \<or> ActEvery d x \<in> set (script t) \<longrightarrow> d \<le> D)"

lemma push_extends:
  assumes ok: "loop_ok D l" "clock_from now D l" and room: "unat (el_seq l) < 18446744073709551615"
    and t: "tm_seq t = el_seq l" "now \<le> tm_deadline t" "0 \<le> tm_interval t" "tm_interval t \<le> D"
    and c: "\<And>i. c i = el_clock l (Suc i)"
  shows "extends now D (Suc 0) l (l\<lparr>el_clock := c, el_timers := pq_push t (el_timers l), el_seq := el_seq l + 1\<rparr>)"
proof -
  have u: "unat (el_seq l + 1) = unat (el_seq l) + 1" using room by (simp add: unat_word_ariths)
  then have lt: "el_seq l < el_seq l + 1" by (simp add: word_less_nat_alt)
  have fresh: "tm_seq t \<notin> tm_seq ` set (el_timers l)" using loop_okD(2) [OF ok(1)] t(1) by fastforce
  have "0 \<le> now" using ok(2) by (simp add: clock_from_def)
  with ok t lt pq_push_ok [OF loop_okD(1) [OF ok(1)] fresh] u c show ?thesis
    by (auto simp: extends_def loop_ok_def clock_from_def less_imp_le dest: less_trans [OF _ lt])
qed

lemma clock_add:
  assumes "clock_from now D l" "0 \<le> d" "d \<le> D"
  shows "i64 (el_clock l 0 + d) = el_clock l 0 + d" "now \<le> el_clock l 0 + d"
proof -
  have "0 \<le> now" "now \<le> el_clock l 0" "el_clock l 0 + D \<le> INT64_MAX" using assms(1) by (simp_all add: clock_from_def)
  with assms(2,3) show "i64 (el_clock l 0 + d) = el_clock l 0 + d" "now \<le> el_clock l 0 + d"
    by (auto simp: int64_range_def intro!: i64_id)
qed

lemma run_action_extends:
  assumes ok: "loop_ok D l" "clock_from now D l" and room: "unat (el_seq l) < 18446744073709551615" and D: "1 \<le> D"
    "\<And>d x. a = ActAfter d x \<or> a = ActEvery d x \<Longrightarrow> d \<le> D"
  shows "extends now D (Suc 0) l (run_action a l)"
proof (cases a)
  case (ActAfter d x)
  let ?d = "if d < 0 then 0 else d"
  have "0 \<le> ?d" "?d \<le> D" using D ActAfter by auto
  note c = clock_add [OF ok(2) this]
  show ?thesis using ActAfter c D(1)
    by (auto simp: RunAfter_def loop_now_def Let_def simp del: if_split intro!: push_extends [OF ok room])
next
  case (ActEvery d x)
  let ?d = "if d \<le> 0 then 1 else d"
  have d: "0 \<le> ?d" "?d \<le> D" using D ActEvery by auto
  note c = clock_add [OF ok(2) this]
  show ?thesis using ActEvery c d
    by (auto simp: RunEvery_def loop_now_def Let_def simp del: if_split intro!: push_extends [OF ok room])
qed (use ok in \<open>auto simp: extends_def loop_ok_def clock_from_def Loop_Register_def Loop_Modify_def Loop_Unregister_def Loop_Stop_def
      split: prod.splits\<close>)

lemma run_task_extends:
  assumes s: "script_ok D M script" and ok: "loop_ok D l" "clock_from now D l"
    and room: "unat (el_seq l) + M \<le> 18446744073709551615"
  shows "extends now D M l (run_task script k l)"
proof -
  have "extends now D (length as) l (foldl (\<lambda>l a. run_action a l) l as)"
    if "loop_ok D l" "clock_from now D l" "unat (el_seq l) + length as \<le> 18446744073709551615"
      "\<forall>d x. ActAfter d x \<in> set as \<or> ActEvery d x \<in> set as \<longrightarrow> d \<le> D" for as and l :: "'a event_loop"
    using that
  proof (induction as arbitrary: l)
    case (Cons a as)
    have e: "extends now D (Suc 0) l (run_action a l)"
      using run_action_extends [OF Cons.prems(1,2), of a] Cons.prems(3,4) s by (auto simp: script_ok_def)
    then have "extends now D (length as) (run_action a l) (foldl (\<lambda>l a. run_action a l) (run_action a l) as)"
      using Cons.prems(3,4) by (intro Cons.IH) (auto simp: extends_def)
    from extends_trans [OF e this] show ?case by simp
  qed (auto intro: extends_refl)
  moreover have len: "length (script k) \<le> M" using s by (simp add: script_ok_def)
  moreover have "unat (el_seq l) + length (script k) \<le> 18446744073709551615" using room len by linarith
  ultimately have "extends now D (length (script k)) l (run_task script k l)"
    using ok s unfolding run_task_def by (auto simp: script_ok_def)
  with len have "extends now D (length (script k)) l (run_task script k l)" "length (script k) \<le> M" by simp_all
  then show ?thesis by (simp add: extends_def)
qed

lemma run_running:
  "el_running (run_action a l) \<Longrightarrow> el_running l" "el_running (run_task script k l) \<Longrightarrow> el_running l"
proof -
  show a: "el_running (run_action a l) \<Longrightarrow> el_running l" for a and l :: "'a event_loop"
    by (cases a) (auto simp: RunAfter_def RunEvery_def loop_now_def Loop_Register_def Loop_Modify_def Loop_Unregister_def
        Loop_Stop_def split: prod.splits if_splits)
  have "el_running (foldl (\<lambda>l a. run_action a l) l as) \<Longrightarrow> el_running l" for as and l :: "'a event_loop"
    by (induction as arbitrary: l) (auto dest: a)
  then show "el_running (run_task script k l) \<Longrightarrow> el_running l" by (auto simp: run_task_def)
qed

lemma fire_running: "fire_loop n now script l = (fired, l') \<Longrightarrow> el_running l' \<Longrightarrow> el_running l"
proof (induction n arbitrary: l fired)
  case (Suc n)
  then show ?case
    by (auto simp: Let_def split: if_splits option.splits prod.splits dest!: run_running)
      (fastforce dest: run_running)+
qed simp

lemma rearm_ok:
  assumes "tm_deadline t \<le> now" "INT64_MIN \<le> tm_deadline t" "0 < tm_interval t" "tm_interval t \<le> D" "0 \<le> now" "now + D \<le> INT64_MAX"
  shows "now < tm_deadline (rearm now t)" "tm_interval (rearm now t) = tm_interval t" "tm_seq (rearm now t) = tm_seq t"
    "tm_deadline (rearm now t) =
       (if now < tm_deadline t + tm_interval t then tm_deadline t + tm_interval t else now + tm_interval t)"
proof -
  have "i64 (tm_deadline t + tm_interval t) = tm_deadline t + tm_interval t" "i64 (now + tm_interval t) = now + tm_interval t"
    by (rule i64_id, use assms in \<open>simp add: int64_range_def\<close>)+
  then show "now < tm_deadline (rearm now t)" "tm_interval (rearm now t) = tm_interval t" "tm_seq (rearm now t) = tm_seq t"
    "tm_deadline (rearm now t) =
       (if now < tm_deadline t + tm_interval t then tm_deadline t + tm_interval t else now + tm_interval t)"
    using assms(3) by (auto simp: rearm_def Let_def)
qed

subsection \<open>A round of timers\<close>

text \<open>One timer: popped, its task run, and put back when it is periodic.\<close>

definition fire_one :: "int \<Rightarrow> ('t \<Rightarrow> 't action list) \<Rightarrow> 't event_loop \<Rightarrow> 't event_loop" where
  "fire_one now script l =
     (let t = hd (el_timers l);
          l = l\<lparr>el_timers := tl (el_timers l)\<rparr>;
          l = (case tm_task t of None \<Rightarrow> l | Some k \<Rightarrow> run_task script k l)
      in if 0 < tm_interval t \<and> el_running l then l\<lparr>el_timers := pq_push (rearm now t) (el_timers l)\<rparr> else l)"

lemma fire_loop_Suc: "fire_loop (Suc n) now script l =
    (if el_timers l = [] \<or> now < tm_deadline (hd (el_timers l)) then ([], l)
     else let (fired, l') = fire_loop n now script (fire_one now script l) in (hd (el_timers l) # fired, l'))"
  by (simp add: fire_one_def Let_def)

declare fire_loop.simps(2) [simp del]

lemma fire_one_ok:
  assumes s: "script_ok D M script" and ok: "loop_ok D l" "clock_from now D l"
    and room: "unat (el_seq l) + M \<le> 18446744073709551615"
    and q: "el_timers l = t # q" "tm_deadline t \<le> now" and l2: "l2 = fire_one now script l"
  shows "loop_ok D l2" "clock_from now D l2" "el_seq l \<le> el_seq l2" "unat (el_seq l2) \<le> unat (el_seq l) + M"
    "set q \<subseteq> set (el_timers l2)"
    "\<And>u. u \<in> set (el_timers l2) \<Longrightarrow> u \<in> set q \<or> el_seq l \<le> tm_seq u \<and> now \<le> tm_deadline u \<or> now < tm_deadline u"
    "0 < tm_interval t \<Longrightarrow> el_running l2 \<Longrightarrow> rearm now t \<in> set (el_timers l2)"
proof -
  let ?l0 = "l\<lparr>el_timers := q\<rparr>"
  have q0: "queue_ok (t # q)" using loop_okD(1) [OF ok(1)] by (simp add: q(1))
  then have ok0: "loop_ok D ?l0" "clock_from now D ?l0"
    using ok loop_okD [OF ok(1)] by (auto simp: loop_ok_def clock_from_def queue_ok_Cons q(1))
  define l1 where "l1 = (case tm_task t of None \<Rightarrow> ?l0 | Some k \<Rightarrow> run_task script k ?l0)"
  have e: "extends now D M ?l0 l1"
    using run_task_extends [OF s ok0] room extends_refl [OF ok0] by (auto simp: l1_def split: option.split)
  have l2': "l2 = (if 0 < tm_interval t \<and> el_running l1 then l1\<lparr>el_timers := pq_push (rearm now t) (el_timers l1)\<rparr> else l1)"
    by (simp add: l2 fire_one_def q(1) l1_def [symmetric])
  note tD = loop_okD(2-5) [OF ok(1), of t, unfolded q(1), simplified]
  have c: "0 \<le> now" "now + D \<le> INT64_MAX"
    using ok(2) by (auto simp: clock_from_def intro: order_trans [OF add_right_mono])
  have seq_t: "tm_seq t < el_seq l" by (rule tD(1))
  have fresh: "tm_seq (rearm now t) \<notin> tm_seq ` set (el_timers l1)"
  proof
    assume "tm_seq (rearm now t) \<in> tm_seq ` set (el_timers l1)"
    then obtain u where u: "u \<in> set (el_timers l1)" "tm_seq u = tm_seq t" by (auto simp: rearm_def Let_def)
    have "tm_seq t \<notin> tm_seq ` set q" using q0 by (simp add: queue_ok_Cons)
    then have "u \<notin> set q" using u(2) by (metis imageI)
    with e u(1) have "el_seq l \<le> tm_seq u" by (auto simp: extends_def)
    with seq_t u(2) show False by simp
  qed
  have l1: "loop_ok D l1" "clock_from now D l1" using e by (simp_all add: extends_def)
  have le: "el_seq l \<le> el_seq l1" using e by (simp add: extends_def)
  note re = rearm_ok [OF q(2) tD(4) _ tD(3) c]
  have seq2: "el_seq l2 = el_seq l1" by (simp add: l2')
  show "el_seq l \<le> el_seq l2" "unat (el_seq l2) \<le> unat (el_seq l) + M" using e by (simp_all add: extends_def seq2)
  show "set q \<subseteq> set (el_timers l2)" using e by (auto simp: extends_def l2')
  show "0 < tm_interval t \<Longrightarrow> el_running l2 \<Longrightarrow> rearm now t \<in> set (el_timers l2)" by (auto simp: l2' split: if_splits)
  show "u \<in> set q \<or> el_seq l \<le> tm_seq u \<and> now \<le> tm_deadline u \<or> now < tm_deadline u" if "u \<in> set (el_timers l2)" for u
    using that e re(1) by (auto simp: l2' extends_def split: if_splits)
  show "loop_ok D l2"
  proof (cases "0 < tm_interval t \<and> el_running l1")
    case True
    then have "loop_ok D (l1\<lparr>el_timers := pq_push (rearm now t) (el_timers l1)\<rparr>)"
      using l1(1) pq_push_ok [OF loop_okD(1) [OF l1(1)] fresh] re tD seq_t le c(1)
      by (auto simp: loop_ok_def dest: less_le_trans)
    then show ?thesis using True by (simp add: l2')
  qed (use l1 in \<open>auto simp: l2'\<close>)
  show "clock_from now D l2" using l1(2) by (simp add: clock_from_def l2')
qed

lemma fire_loop_ok:
  assumes s: "script_ok D M script"
  shows "loop_ok D l \<Longrightarrow> clock_from now D l \<Longrightarrow> unat (el_seq l) + n * M \<le> 18446744073709551615 \<Longrightarrow>
    fire_loop n now script l = (fired, l') \<Longrightarrow>
      loop_ok D l' \<and> el_seq l \<le> el_seq l' \<and> sorted_wrt tm_before fired \<and> length fired \<le> n
    \<and> (\<forall>u\<in>set fired. tm_deadline u \<le> now \<and> (u \<in> set (el_timers l) \<or> el_seq l \<le> tm_seq u \<and> now \<le> tm_deadline u))
    \<and> (\<forall>u\<in>set (el_timers l). u \<in> set fired \<or> u \<in> set (el_timers l'))
    \<and> (\<forall>u\<in>set (el_timers l'). u \<in> set (el_timers l) \<or> el_seq l \<le> tm_seq u \<or> now < tm_deadline u)
    \<and> (length fired < n \<longrightarrow> (\<forall>u\<in>set (el_timers l'). now < tm_deadline u))
    \<and> set fired \<inter> set (el_timers l') = {}
    \<and> (\<forall>u\<in>set fired. 0 < tm_interval u \<and> el_running l' \<longrightarrow> rearm now u \<in> set (el_timers l'))"
proof (induction n arbitrary: l fired)
  case 0
  then show ?case by auto
next
  case (Suc n)
  show ?case
  proof (cases "el_timers l = [] \<or> now < tm_deadline (hd (el_timers l))")
    case True
    then have r: "fired = []" "l' = l" using Suc.prems(4) by (auto simp: fire_loop_Suc)
    have "now < tm_deadline u" if "u \<in> set (el_timers l)" for u
    proof (cases "el_timers l")
      case (Cons t q)
      have "tm_deadline t \<le> tm_deadline u"
        using loop_okD(1) [OF Suc.prems(1)] that Cons by (auto simp: queue_ok_Cons dest: tm_before_deadline)
      then show ?thesis using True Cons by simp
    qed (use that in simp)
    with r Suc.prems(1) show ?thesis by simp
  next
    case False
    then obtain t q where q: "el_timers l = t # q" "tm_deadline t \<le> now" by (cases "el_timers l") auto
    define l2 where "l2 = fire_one now script l"
    obtain fs where f: "fire_loop n now script l2 = (fs, l')" "fired = t # fs"
      using Suc.prems(4) False q(1) by (auto simp: fire_loop_Suc l2_def split: prod.splits)
    have room: "unat (el_seq l) + M \<le> 18446744073709551615" "unat (el_seq l) + M + n * M \<le> 18446744073709551615"
      using Suc.prems(3) by (simp_all add: algebra_simps)
    note o1 = fire_one_ok [OF s Suc.prems(1,2) room(1) q l2_def]
    have "unat (el_seq l2) + n * M \<le> 18446744073709551615" using o1(4) room(2) by linarith
    note ih = Suc.IH [OF o1(1,2) this f(1)]
    have q0: "queue_ok (t # q)" using loop_okD(1) [OF Suc.prems(1)] by (simp add: q(1))
    then have tq: "t \<notin> set q" "\<And>u. u \<in> set q \<Longrightarrow> tm_before t u" by (auto simp: queue_ok_Cons)
    have seq_t: "tm_seq t < el_seq l" using loop_okD(2) [OF Suc.prems(1), of t] q(1) by simp
    have due: "u \<in> set q \<or> el_seq l \<le> tm_seq u \<and> now \<le> tm_deadline u" if "u \<in> set fs" for u
    proof -
      from ih that have u: "tm_deadline u \<le> now" "u \<in> set (el_timers l2) \<or> el_seq l2 \<le> tm_seq u \<and> now \<le> tm_deadline u" by blast+
      then show ?thesis using o1(6) [of u] o1(3) by (auto simp: not_less [symmetric] dest: order_trans)
    qed
    have after: "tm_before t u" if "u \<in> set fs" for u
      using due [OF that] tq(2) [of u] seq_t q(2) by (auto simp: TimerLater_def)
    have t_gone: "t \<notin> set (el_timers l2)" using o1(6) [of t] tq(1) seq_t q(2) by auto
    have t_out: "t \<notin> set (el_timers l')"
    proof
      assume "t \<in> set (el_timers l')"
      with ih t_gone have "el_seq l2 \<le> tm_seq t \<or> now < tm_deadline t" by blast
      with seq_t o1(3) q(2) show False by (auto dest: order_trans)
    qed
    have re: "rearm now t \<in> set (el_timers l')" if "0 < tm_interval t" "el_running l'"
    proof -
      have r: "rearm now t \<in> set (el_timers l2)"
        by (rule o1(7) [OF that(1)]) (rule fire_running [OF f(1) that(2)])
      have "now < tm_deadline (rearm now t)"
        using rearm_ok(1) [OF q(2) _ that(1), of D] loop_okD(4,5) [OF Suc.prems(1), of t] Suc.prems(2) q(1)
        by (auto simp: clock_from_def intro: order_trans [OF add_right_mono])
      with ih r show ?thesis by (metis linorder_not_less)
    qed
    have old: "u \<in> set (el_timers l) \<or> el_seq l \<le> tm_seq u \<or> now < tm_deadline u" if "u \<in> set (el_timers l')" for u
    proof -
      from ih that consider "u \<in> set (el_timers l2)" | "el_seq l2 \<le> tm_seq u" | "now < tm_deadline u" by blast
      then show ?thesis using o1(6) [of u] o1(3) q(1) by cases (auto dest: order_trans)
    qed
    have ih1: "loop_ok D l'" "sorted_wrt tm_before fs" "length fs \<le> n" "\<forall>u\<in>set fs. tm_deadline u \<le> now"
      "length fs < n \<longrightarrow> (\<forall>u\<in>set (el_timers l'). now < tm_deadline u)" "set fs \<inter> set (el_timers l') = {}"
      "\<forall>u\<in>set fs. 0 < tm_interval u \<and> el_running l' \<longrightarrow> rearm now u \<in> set (el_timers l')"
      "\<forall>u\<in>set (el_timers l2). u \<in> set fs \<or> u \<in> set (el_timers l')" using ih by blast+
    have kept: "\<forall>u\<in>set (el_timers l). u \<in> set fired \<or> u \<in> set (el_timers l')"
      using ih1(8) o1(5) q(1) unfolding f(2) by auto
    have fired: "\<forall>u\<in>set fired. tm_deadline u \<le> now \<and> (u \<in> set (el_timers l) \<or> el_seq l \<le> tm_seq u \<and> now \<le> tm_deadline u)"
      using ih1(4) due q unfolding f(2) by auto
    have le: "el_seq l \<le> el_seq l'" using ih o1(3) by (blast intro: order_trans)
    have "set fired \<inter> set (el_timers l') = {}" using ih1(6) t_out unfolding f(2) by simp
    moreover have "\<forall>u\<in>set fired. 0 < tm_interval u \<and> el_running l' \<longrightarrow> rearm now u \<in> set (el_timers l')"
      using ih1(7) re unfolding f(2) by simp
    moreover have "sorted_wrt tm_before fired" "length fired \<le> Suc n"
      "length fired < Suc n \<longrightarrow> (\<forall>u\<in>set (el_timers l'). now < tm_deadline u)"
      using ih1(2,3,5) after unfolding f(2) by simp_all
    ultimately show ?thesis using ih1(1) kept fired le old by blast
  qed
qed

subsection \<open>Posted tasks\<close>

definition somes :: "'t option list \<Rightarrow> 't list" where
  "somes ts = map the (filter (\<lambda>t. t \<noteq> None) ts)"

lemma somes_simps [simp]: "somes [] = []" "somes (None # ts) = somes ts" "somes (Some t # ts) = t # somes ts"
  "somes (xs @ ys) = somes xs @ somes ys"
  by (simp_all add: somes_def)

lemma pending_keep [simp]:
  "el_pending (run_action a l) = el_pending l" "el_pending (run_task script k l) = el_pending l"
  "el_pending (snd (loop_now l)) = el_pending l"
proof -
  show a: "el_pending (run_action a l) = el_pending l" for a and l :: "'a event_loop"
    by (cases a) (auto simp: RunAfter_def RunEvery_def loop_now_def Loop_Register_def Loop_Modify_def Loop_Unregister_def
        Loop_Stop_def split: prod.splits)
  have "el_pending (foldl (\<lambda>l a. run_action a l) l as) = el_pending l" for as and l :: "'a event_loop"
    by (induction as arbitrary: l) (auto simp: a)
  then show "el_pending (run_task script k l) = el_pending l" by (simp add: run_task_def)
qed (simp add: loop_now_def)

lemma run_batch_ok: "run_batch script ts l = (ks, l') \<Longrightarrow> ks = somes ts \<and> el_pending l' = el_pending l"
  by (induction script ts l arbitrary: ks rule: run_batch.induct) (auto simp: Let_def split: prod.splits)

lemma RunPendingTasks_ok:
  "RunPendingTasks script l = (ks, l') \<Longrightarrow> ks = somes (el_pending l) \<and> el_pending l' = []"
  by (auto simp: RunPendingTasks_def split: if_splits dest: run_batch_ok)

lemma fire_loop_pending: "el_pending (snd (fire_loop n now script l)) = el_pending l"
proof (induction n arbitrary: l)
  case (Suc n)
  have "el_pending (fire_one now script l) = el_pending l" by (simp add: fire_one_def Let_def split: option.split)
  with Suc [of "fire_one now script l"] show ?case by (simp add: fire_loop_Suc case_prod_beta)
qed simp

lemma RunExpiredTimers_pending: "RunExpiredTimers script l = (fired, l') \<Longrightarrow> el_pending l' = el_pending l"
  using fire_loop_pending [of 256 "fst (loop_now l)" script "snd (loop_now l)"]
  by (auto simp: RunExpiredTimers_def case_prod_beta split: if_splits)

lemma dispatch_pending: "dispatch nfd script evs l = (del, l') \<Longrightarrow> el_pending l' = el_pending l"
  by (induction nfd script evs l arbitrary: del rule: dispatch.induct)
    (auto simp: Let_def split: if_splits option.splits prod.splits)

lemma post_all_pending: "somes (el_pending (post_all ts l)) = somes (el_pending l @ ts)"
proof (induction ts arbitrary: l)
  case (Cons t ts)
  then show ?case by (cases t) (simp_all add: post_all_def QueueWork_def)
qed (simp add: post_all_def)

lemma loop_round_tasks:
  assumes "loop_round nfd script i l = (tr, l')" "ri_events i \<noteq> None"
  shows "rt_ran tr = somes (el_pending l @ ri_before i @ ri_during i) \<and> el_pending l' = []"
proof -
  obtain l1 tmo where 1: "poll_timeout l = (tmo, l1)" by (cases "poll_timeout l") auto
  have p1: "el_pending l1 = el_pending l"
    using 1 by (auto simp: poll_timeout_def loop_now_def Let_def split: if_splits)
  obtain evs where e: "ri_events i = Some evs" using assms(2) by auto
  define l2 where "l2 = post_all (ri_before i) l1"
  obtain fired l3 where 3: "RunExpiredTimers script l2 = (fired, l3)" by (cases "RunExpiredTimers script l2") auto
  obtain ks1 l4 where 4: "RunPendingTasks script l3 = (ks1, l4)" by (cases "RunPendingTasks script l3") auto
  obtain del l5 where 5: "dispatch nfd script (Poller_Wait evs) l4 = (del, l5)"
    by (cases "dispatch nfd script (Poller_Wait evs) l4") auto
  define l6 where "l6 = post_all (ri_during i) l5"
  obtain ks2 l7 where 7: "RunPendingTasks script l6 = (ks2, l7)" by (cases "RunPendingTasks script l6") auto
  have "tr = \<lparr>rt_timeout = tmo, rt_fired = fired, rt_ran = ks1 @ ks2, rt_events = del\<rparr>" "l' = l7"
    using assms(1) 1 e 3 4 5 7 by (simp_all add: loop_round_def l2_def [symmetric] l6_def [symmetric])
  moreover have "ks1 = somes (el_pending l @ ri_before i)"
    using RunPendingTasks_ok [OF 4] RunExpiredTimers_pending [OF 3] post_all_pending [of "ri_before i" l1] p1
    by (simp add: l2_def)
  moreover have "ks2 = somes (ri_during i)"
    using RunPendingTasks_ok [OF 7] RunPendingTasks_ok [OF 4] dispatch_pending [OF 5] post_all_pending [of "ri_during i" l5]
    by (simp add: l6_def)
  ultimately show ?thesis using RunPendingTasks_ok [OF 7] by simp
qed

subsection \<open>The properties\<close>

text \<open>Concrete instances: a loop at time 100 with three timers, in which the second task sets another timer.\<close>

definition empty_loop :: "'t event_loop" where
  "empty_loop = \<lparr>el_timers = [], el_seq = 0, el_pending = [], el_running = True, el_callbacks = Map.empty,
     el_poller = \<lparr>pl_interest = Map.empty, pl_refuses = (\<lambda>_. False)\<rparr>, el_clock = (\<lambda>i. 100 + 20 * int (min i 3))\<rparr>"

definition sample_loop :: "nat event_loop" where
  "sample_loop = RunAfter 10 (Some 3) (RunEvery 5 (Some 2) (RunAfter 30 (Some 1) empty_loop))"

definition sample_script :: "nat \<Rightarrow> nat action list" where
  "sample_script k = (if k = 2 then [ActAfter 0 (Some 4)] else [])"

text \<open>C11: One round of timers. Whatever the tasks do (set timers, register descriptors, stop the loop), the timers that fire do so in strict order of deadline, and in the order they were set when deadlines are equal; none fires before its deadline; no timer is lost, and none that fired stays queued as it was; if fewer than 256 fired, no timer that is due is left; and a periodic timer that fired in a running loop is queued again one interval after its deadline, or one interval from now when it has fallen behind.\<close>

theorem timer_round:
  assumes "loop_ok D l" "script_ok D M script" "RunExpiredTimers script l = (fired, l')" "now = el_clock l 0"
    and clock: "0 \<le> now" "\<And>i. now \<le> el_clock l i" "\<And>i. el_clock l i + D \<le> INT64_MAX"
    and room: "unat (el_seq l) + 256 * M \<le> 18446744073709551615"
  shows "sorted_wrt tm_before fired \<and> (\<forall>u\<in>set fired. tm_deadline u \<le> now)
    \<and> (\<forall>u\<in>set (el_timers l). u \<in> set fired \<or> u \<in> set (el_timers l')) \<and> set fired \<inter> set (el_timers l') = {}
    \<and> length fired \<le> 256 \<and> (length fired < 256 \<longrightarrow> (\<forall>u\<in>set (el_timers l'). now < tm_deadline u))
    \<and> (\<forall>u\<in>set fired. 0 < tm_interval u \<and> el_running l' \<longrightarrow>
         u\<lparr>tm_deadline := if now < tm_deadline u + tm_interval u then tm_deadline u + tm_interval u else now + tm_interval u\<rparr>
           \<in> set (el_timers l'))
    \<and> loop_ok D l'"
proof (cases "el_timers l = []")
  case True
  with assms(1,3) show ?thesis by (simp add: RunExpiredTimers_def)
next
  case False
  let ?l = "l\<lparr>el_clock := (\<lambda>i. el_clock l (Suc i))\<rparr>"
  have f: "fire_loop 256 now script ?l = (fired, l')"
    using assms(3,4) False by (simp add: RunExpiredTimers_def loop_now_def)
  have ok: "loop_ok D ?l" "clock_from now D ?l" "unat (el_seq ?l) + 256 * M \<le> 18446744073709551615"
    using assms(1) clock room by (simp_all add: loop_ok_def clock_from_def)
  note o1 = fire_loop_ok [OF assms(2) ok f]
  have "u\<lparr>tm_deadline := if now < tm_deadline u + tm_interval u then tm_deadline u + tm_interval u else now + tm_interval u\<rparr>
      \<in> set (el_timers l')" if u: "u \<in> set fired" "0 < tm_interval u" "el_running l'" for u
  proof -
    have "u \<in> set (el_timers l) \<or> now \<le> tm_deadline u" "tm_deadline u \<le> now" using o1 u(1) by auto
    moreover have "rearm now u \<in> set (el_timers l')" using o1 u by blast
    moreover have "tm_interval (rearm now u) \<le> D" using loop_okD(4) [of D l'] o1 \<open>rearm now u \<in> set (el_timers l')\<close> by blast
    moreover have "INT64_MIN \<le> tm_deadline u" using calculation(1) loop_okD(5) [OF assms(1)] clock(1) by force
    moreover have "tm_interval (rearm now u) = tm_interval u" by (simp add: rearm_def Let_def)
    moreover have "now + D \<le> INT64_MAX" using clock(3) [of 0] assms(4) by simp
    ultimately have "tm_deadline (rearm now u) =
        (if now < tm_deadline u + tm_interval u then tm_deadline u + tm_interval u else now + tm_interval u)"
      using rearm_ok(4) [of u now D] u(2) clock(1) by simp
    then have "rearm now u = u\<lparr>tm_deadline := if now < tm_deadline u + tm_interval u then tm_deadline u + tm_interval u
        else now + tm_interval u\<rparr>" by (simp add: rearm_def Let_def)
    with \<open>rearm now u \<in> set (el_timers l')\<close> show ?thesis by simp
  qed
  then show ?thesis using o1 by auto
qed

lemma sample_loop_ok: "loop_ok 30 sample_loop" "script_ok 30 1 sample_script" "el_seq sample_loop = 3"
  "el_clock sample_loop i = 160"
  by (auto simp: sample_loop_def empty_loop_def RunAfter_def RunEvery_def loop_now_def loop_ok_def queue_ok_def TimerLater_def
      script_ok_def sample_script_def int64_range_def Let_def)

theorem timer_round_witness:
  "\<exists>fired l'. RunExpiredTimers sample_script sample_loop = (fired, l') \<and> sorted_wrt tm_before fired
     \<and> (\<forall>u\<in>set (el_timers sample_loop). u \<in> set fired \<or> u \<in> set (el_timers l'))
     \<and> (length fired < 256 \<longrightarrow> (\<forall>u\<in>set (el_timers l'). 160 < tm_deadline u))"
proof -
  obtain fired l' where r: "RunExpiredTimers sample_script sample_loop = (fired, l')"
    by (cases "RunExpiredTimers sample_script sample_loop") auto
  from timer_round [OF sample_loop_ok(1,2) r refl] r show ?thesis by (auto simp: sample_loop_ok)
qed

text \<open>C20: Posted tasks. Over any number of rounds in which the poller does not fail, the tasks that ran are exactly the tasks that were waiting and those posted by other threads, null ones aside, in the order they were posted, each once; after a round none waits; and as long as the loop was not stopped every round takes place.\<close>

theorem posted_tasks_run:
  assumes "loop_run nfd script is l = (trs, l')" "\<forall>i\<in>set is. ri_events i \<noteq> None"
  shows "concat (map rt_ran trs) @ somes (el_pending l') =
      somes (el_pending l @ concat (map (\<lambda>i. ri_before i @ ri_during i) (take (length trs) is)))
    \<and> (trs \<noteq> [] \<longrightarrow> el_pending l' = []) \<and> (el_running l' \<longrightarrow> length trs = length is)"
  using assms
proof (induction "is" arbitrary: l trs)
  case (Cons i "is")
  show ?case
  proof (cases "el_running l")
    case True
    obtain tr l1 where r: "loop_round nfd script i l = (tr, l1)" by (cases "loop_round nfd script i l") auto
    obtain ts where q: "loop_run nfd script is l1 = (ts, l')" "trs = tr # ts"
      using Cons.prems(1) True r by (auto split: prod.splits)
    note t = loop_round_tasks [OF r] and ih = Cons.IH [OF q(1)]
    have "el_pending l' = []" if "ts = []" using q(1) t Cons.prems(2) that by (cases "is") (auto split: if_splits prod.splits)
    then show ?thesis using t ih Cons.prems(2) q(2) by (cases "ts = []") auto
  qed (use Cons.prems(1) in auto)
qed simp

theorem posted_tasks_run_witness:
  "\<exists>trs l'. loop_run 0 sample_script [\<lparr>ri_before = [Some 7, None], ri_events = Some [], ri_during = [Some 8]\<rparr>] (QueueWork (Some 6) sample_loop)
      = (trs, l') \<and> concat (map rt_ran trs) @ somes (el_pending l') = somes (el_pending (QueueWork (Some 6) sample_loop) @
          concat (map (\<lambda>i. ri_before i @ ri_during i) (take (length trs) [\<lparr>ri_before = [Some 7, None], ri_events = Some [], ri_during = [Some 8]\<rparr>])))"
proof -
  let ?is = "[\<lparr>ri_before = [Some 7, None], ri_events = Some [], ri_during = [Some 8]\<rparr>]"
  obtain trs l' where r: "loop_run 0 sample_script ?is (QueueWork (Some 6) sample_loop) = (trs, l')"
    by (cases "loop_run 0 sample_script ?is (QueueWork (Some 6) sample_loop)") auto
  from posted_tasks_run [OF r] show ?thesis using r by auto
qed

end
