(* ===== verification/Network.thy ===== *)
theory Network
  imports Event_Loop
begin

section \<open>Listener and connection table (src/listener.cpp, src/connection\_manager.cpp)\<close>

text \<open>
  The accept loop of the listener, over the list of the results the next \<open>accept\<close> calls have, and
  the connection manager: its table from descriptors to shared connection objects, the objects that
  are alive with the loop each belongs to, and the tasks it posts to the loops.  A loop is its index
  in the pool, \<open>None\<close> the main loop; every operation takes the loop whose thread runs it.  An
  operation is \<open>None\<close> when \<open>AssertInLoopThread\<close> fails, which aborts the process.
\<close>

type_synonym loop_id = "nat option"

subsection \<open>The listener\<close>

datatype accept_result =
    AccFd int bool
  | AccAgain
  | AccIntr
  | AccExhausted
  | AccErr

text \<open>\<open>AccFd fd b\<close>: a connection; \<open>b\<close> is whether \<open>SetNonBlocking\<close> succeeds.  \<open>ls_posted\<close> are the
  connections handed to a loop, \<open>ls_closed\<close> the descriptors closed at once.  \<open>ls_reserve_ok\<close> is
  whether the kernel can open the reserve descriptor.\<close>

record listener =
  ls_fd :: "int option"
  ls_reserve :: bool
  ls_accepted :: u64
  ls_pool :: loop_pool
  ls_posted :: "(loop_id \<times> int) list"
  ls_closed :: "int list"
  ls_reserve_ok :: "nat \<Rightarrow> bool"

definition OpenReserveFd :: "listener \<Rightarrow> listener" where
  "OpenReserveFd s = s\<lparr>ls_reserve := ls_reserve_ok s 0, ls_reserve_ok := (\<lambda>i. ls_reserve_ok s (Suc i))\<rparr>"

text \<open>Out of descriptors: the reserve is closed, one connection accepted and closed, and the
  reserve opened again.  The second component is what is left of the accept results.\<close>

definition HandleAcceptError :: "accept_result list \<Rightarrow> listener \<Rightarrow> accept_result list \<times> listener" where
  "HandleAcceptError rs s =
     (if ls_reserve s
      then let s = s\<lparr>ls_reserve := False\<rparr>;
               (rs, s) = (case rs of
                  [] \<Rightarrow> ([], s)
                | AccFd fd b # rs \<Rightarrow> (rs, s\<lparr>ls_closed := ls_closed s @ [fd]\<rparr>)
                | r # rs \<Rightarrow> (rs, s))
           in (rs, OpenReserveFd s)
      else (rs, OpenReserveFd s))"

fun accept_loop :: "accept_result list \<Rightarrow> listener \<Rightarrow> accept_result list \<times> listener" where
  "accept_loop [] s = ([], s)"
| "accept_loop (AccAgain # rs) s = (rs, s)"
| "accept_loop (AccIntr # rs) s = accept_loop rs s"
| "accept_loop (AccExhausted # rs) s = HandleAcceptError rs s"
| "accept_loop (AccErr # rs) s = (rs, s)"
| "accept_loop (AccFd fd nonblocking # rs) s =
     (if \<not> nonblocking then accept_loop rs (s\<lparr>ls_closed := ls_closed s @ [fd]\<rparr>)
      else let (target, p) = NextLoop (ls_pool s) in
           accept_loop rs (s\<lparr>ls_accepted := ls_accepted s + 1, ls_pool := p, ls_posted := ls_posted s @ [(target, fd)]\<rparr>))"

definition OnReadable :: "accept_result list \<Rightarrow> listener \<Rightarrow> accept_result list \<times> listener" where
  "OnReadable rs s = accept_loop rs s"

text \<open>\<open>Start\<close>, on the main loop: the result of \<open>CreateListener\<close> and that of \<open>Register\<close> are parameters.
  When only the registration fails the socket stays open until \<open>Stop\<close>.  \<open>Stop\<close> may run on any
  thread: the descriptor is handed to the main loop, which unregisters it and then closes it.\<close>

definition Listener_Start :: "int option \<Rightarrow> bool \<Rightarrow> listener \<Rightarrow> bool \<times> listener" where
  "Listener_Start created registered s =
     (case created of
        None \<Rightarrow> (False, s\<lparr>ls_fd := None\<rparr>)
      | Some fd \<Rightarrow> (registered, OpenReserveFd (s\<lparr>ls_fd := Some fd\<rparr>)))"

definition Listener_Stop :: "listener \<Rightarrow> int option \<times> listener" where
  "Listener_Stop s = (ls_fd s, s\<lparr>ls_fd := None, ls_reserve := False\<rparr>)"

text \<open>The task \<open>Stop\<close> posts.\<close>

definition stop_task :: "int \<Rightarrow> 't event_loop \<Rightarrow> 't event_loop" where
  "stop_task fd l = Loop_Unregister fd l"

subsection \<open>The connection manager\<close>

text \<open>The objects are numbered; \<open>cm_posted\<close> are the close tasks waiting on a loop, each with the
  reference it keeps.\<close>

record manager =
  cm_table :: "(int \<times> nat) list"
  cm_objs :: "(nat \<times> connection \<times> loop_id) list"
  cm_fresh :: nat
  cm_posted :: "(loop_id \<times> nat) list"
  cm_total :: int
  cm_checking :: bool

definition manager_new :: manager where
  "manager_new = \<lparr>cm_table = [], cm_objs = [], cm_fresh = 0, cm_posted = [], cm_total = 0, cm_checking = False\<rparr>"

definition cm_count :: "manager \<Rightarrow> nat" where
  "cm_count m = length (cm_table m)"

definition SetCurrentConnections :: "int \<Rightarrow> world \<Rightarrow> world" where
  "SetCurrentConnections n w = w\<lparr>w_stats := (w_stats w)\<lparr>st_current_conns := n\<rparr>\<rparr>"

text \<open>\<open>IncConnections\<close> counts in a field no code reads; \<open>SetTotalConnections\<close> stores a signed
  number in an unsigned counter.\<close>

definition SetTotalConnections :: "int \<Rightarrow> world \<Rightarrow> world" where
  "SetTotalConnections n w = w\<lparr>w_stats := (w_stats w)\<lparr>st_total_conns := of_int n\<rparr>\<rparr>"

definition IncRejected :: "world \<Rightarrow> world" where
  "IncRejected w = w\<lparr>w_stats := (w_stats w)\<lparr>st_rejected := st_rejected (w_stats w) + 1\<rparr>\<rparr>"

text \<open>A strong reference to \<open>r\<close> is dropped on the thread of \<open>th\<close> while the references \<open>held\<close> live
  in local variables: with the last one the destructor runs, which unregisters a connection that is
  still open from its loop.\<close>

definition release :: "loop_id \<Rightarrow> nat list \<Rightarrow> nat \<Rightarrow> manager \<Rightarrow> manager option" where
  "release th held r m =
     (if r \<in> set held \<or> r \<in> snd ` set (cm_table m) \<or> r \<in> snd ` set (cm_posted m) then Some m
      else case map_of (cm_objs m) r of
        None \<Rightarrow> Some m
      | Some (c, owner) \<Rightarrow>
          if \<not> cn_closed c \<and> cn_fd c \<noteq> None \<and> owner \<noteq> th then None
          else Some (m\<lparr>cm_objs := AList.delete r (cm_objs m)\<rparr>))"

definition Manager_Remove :: "loop_id \<Rightarrow> nat list \<Rightarrow> int \<Rightarrow> manager \<times> world \<Rightarrow> (manager \<times> world) option" where
  "Manager_Remove th held fd mw =
     (let (m, w) = mw in
      case map_of (cm_table m) fd of
        None \<Rightarrow> Some (m, w)
      | Some r \<Rightarrow>
          do { m \<leftarrow> release th held r (m\<lparr>cm_table := AList.delete fd (cm_table m)\<rparr>);
               Some (m, SetCurrentConnections (int (cm_count m)) w) })"

text \<open>\<open>MarkClosed\<close> of an object up to its callback: the descriptor that was closed, whose number the
  kernel may hand out again from here on, and the state.  The callback is \<open>Remove\<close> of that number.\<close>

definition close_object :: "nat \<Rightarrow> manager \<Rightarrow> int option \<times> manager" where
  "close_object r m =
     (case map_of (cm_objs m) r of
        None \<Rightarrow> (None, m)
      | Some (c, owner) \<Rightarrow>
          if cn_closed c then (None, m)
          else (cn_fd c, m\<lparr>cm_objs := AList.update r (MarkClosed c, owner) (cm_objs m)\<rparr>))"

definition on_close :: "loop_id \<Rightarrow> nat \<Rightarrow> int option \<Rightarrow> manager \<times> world \<Rightarrow> (manager \<times> world) option" where
  "on_close th r dead mw = (case dead of None \<Rightarrow> Some mw | Some fd \<Rightarrow> Manager_Remove th [r] fd mw)"

text \<open>\<open>CreateConnection\<close>: \<open>starts\<close> is whether \<open>Connection::Start\<close> could register the descriptor.  An
  entry the table already has for the descriptor is overwritten, which drops its reference.\<close>

definition CreateConnection ::
    "loop_id \<Rightarrow> int \<Rightarrow> bool \<Rightarrow> manager \<times> world \<Rightarrow> (manager \<times> world) option" where
  "CreateConnection th fd starts mw =
     (if fd = -1 then Some mw
      else
        let (m, w) = mw;
            (c, w) = Connection_new fd w;
            r = cm_fresh m;
            old = map_of (cm_table m) fd;
            m = m\<lparr>cm_objs := AList.update r ((Connection_Start c)\<lparr>cn_on_close := True\<rparr>, th) (cm_objs m),
                   cm_fresh := r + 1, cm_table := AList.update fd r (cm_table m)\<rparr>
        in do { m \<leftarrow> (case old of None \<Rightarrow> Some m | Some r' \<Rightarrow> release th [r] r' m);
                let m = m\<lparr>cm_total := cm_total m + 1\<rparr>;
                let w = SetTotalConnections (cm_total m) (SetCurrentConnections (int (cm_count m)) w);
                if starts then Some (m, w)
                else
                  do { (m, w) \<leftarrow> Manager_Remove th [r] fd (m, IncRejected w);
                       let (dead, m) = close_object r m;
                       (m, w) \<leftarrow> on_close th r dead (m, w);
                       m \<leftarrow> release th [] r m;
                       Some (m, w) } })"

text \<open>The task a close posts: \<open>Close()\<close> on the loop of the object, with what \<open>send\<close> accepts, then the
  reference of the task is dropped.\<close>

definition run_close_task :: "loop_id \<Rightarrow> send_result list \<Rightarrow> manager \<times> world \<Rightarrow> (manager \<times> world) option" where
  "run_close_task th sends mw =
     (let (m, w) = mw in
      case find (\<lambda>p. fst p = th) (cm_posted m) of
        None \<Rightarrow> Some (m, w)
      | Some (_, r) \<Rightarrow>
          let m = m\<lparr>cm_posted := remove1 (th, r) (cm_posted m)\<rparr> in
          case map_of (cm_objs m) r of
            None \<Rightarrow> Some (m, w)
          | Some (c, owner) \<Rightarrow>
              let (c', s) = Connection_Close c \<lparr>sk_recvs = [], sk_sends = sends, sk_sent = []\<rparr>;
                  m = m\<lparr>cm_objs := AList.update r (c', owner) (cm_objs m)\<rparr>
              in do { (m, w) \<leftarrow> on_close th r (if \<not> cn_closed c \<and> cn_closed c' then cn_fd c else None) (m, w);
                      m \<leftarrow> release th [] r m;
                      Some (m, w) })"

definition kIdleTimeoutMs :: int where
  "kIdleTimeoutMs = 5 * 60 * 1000"

text \<open>What \<open>CheckTimeouts\<close> does with an entry.\<close>

definition idle_conn_at :: "int \<Rightarrow> connection \<Rightarrow> bool" where
  "idle_conn_at now c \<longleftrightarrow> cn_bytes c = 0 \<and> i64 (now - cn_connected_at c) > kIdleTimeoutMs \<and> cn_handled c = 0"

definition is_gone :: "manager \<Rightarrow> nat \<Rightarrow> bool" where
  "is_gone m r = (case map_of (cm_objs m) r of None \<Rightarrow> True | Some (c, _) \<Rightarrow> cn_closed c)"

definition is_idle :: "int \<Rightarrow> manager \<Rightarrow> nat \<Rightarrow> bool" where
  "is_idle now m r = (case map_of (cm_objs m) r of None \<Rightarrow> False | Some (c, _) \<Rightarrow> \<not> cn_closed c \<and> idle_conn_at now c)"

definition owner_of :: "manager \<Rightarrow> nat \<Rightarrow> loop_id" where
  "owner_of m r = (case map_of (cm_objs m) r of None \<Rightarrow> None | Some (_, owner) \<Rightarrow> owner)"

text \<open>\<open>CheckTimeouts\<close>, on the main loop: entries that are closed leave the table, connections that are
  idle leave it and are closed on their own loop, which keeps them until then.\<close>

definition CheckTimeouts :: "manager \<times> world \<Rightarrow> manager \<times> world" where
  "CheckTimeouts mw =
     (let (m, w) = mw; (now, w) = NowMs w;
          expired = filter (is_idle now m) (map snd (cm_table m));
          gone = filter (is_gone m) (map snd (cm_table m));
          m' = m\<lparr>cm_table := filter (\<lambda>(fd, r). \<not> is_gone m r \<and> \<not> is_idle now m r) (cm_table m),
                  cm_objs := filter (\<lambda>(r, c). r \<notin> set gone \<or> r \<in> snd ` set (cm_posted m)) (cm_objs m),
                  cm_posted := cm_posted m @ map (\<lambda>r. (owner_of m r, r)) expired\<rparr>
      in (m', if expired \<noteq> [] then SetCurrentConnections (int (cm_count m')) w else w))"

text \<open>The timer on the main loop, every second; stopping only clears the flag, the timer stays.\<close>

definition StartPeriodicCheck :: "'t \<Rightarrow> manager \<times> 't event_loop \<Rightarrow> manager \<times> 't event_loop" where
  "StartPeriodicCheck check ml =
     (let (m, l) = ml in
      if cm_checking m then (m, l) else (m\<lparr>cm_checking := True\<rparr>, RunEvery 1000 (Some check) l))"

definition StopPeriodicCheck :: "manager \<Rightarrow> manager" where
  "StopPeriodicCheck m = m\<lparr>cm_checking := False\<rparr>"

text \<open>\<open>CloseAll\<close>, on the thread that shuts the server down.\<close>

definition CloseAll :: "manager \<times> world \<Rightarrow> manager \<times> world" where
  "CloseAll mw =
     (let (m, w) = mw;
          live = filter (\<lambda>r. \<not> is_gone m r) (map snd (cm_table m))
      in (m\<lparr>cm_table := [], cm_posted := cm_posted m @ map (\<lambda>r. (owner_of m r, r)) live,
            cm_objs := filter (\<lambda>(r, c). r \<in> set live \<or> r \<in> snd ` set (cm_posted m)) (cm_objs m)\<rparr>,
          SetCurrentConnections 0 w))"

end
