(* ===== verification/Network_Facts.thy ===== *)
theory Network_Facts
  imports Network Command_Properties
begin

section \<open>Accepting, and the life of a connection\<close>

text \<open>
  The accept loop hands every waiting connection to a loop in turn, unless it runs out of
  descriptors.  The threads of the loops and of the listener are then interleaved, one step of
  \<open>net_step\<close> for each piece of code that holds a lock or makes a system call: with a single sub loop
  a connection stays in the table until it is closed and no thread check fails; with two, a
  descriptor number that the kernel hands out again before the callback of its last owner makes that
  callback destroy the new connection, on the wrong thread.
\<close>

subsection \<open>Accepting\<close>

text \<open>The results before the end of the queue: connections and interruptions.\<close>

definition arrivals :: "accept_result list \<Rightarrow> bool" where
  "arrivals rs \<longleftrightarrow> (\<forall>r\<in>set rs. r = AccIntr \<or> (\<exists>fd b. r = AccFd fd b))"

fun usable :: "accept_result list \<Rightarrow> int list" where
  "usable [] = []"
| "usable (AccFd fd b # rs) = (if b then fd # usable rs else usable rs)"
| "usable (r # rs) = usable rs"

fun refused :: "accept_result list \<Rightarrow> int list" where
  "refused [] = []"
| "refused (AccFd fd b # rs) = (if b then refused rs else fd # refused rs)"
| "refused (r # rs) = refused rs"

text \<open>The loops in turn, from the counter on.\<close>

fun turns :: "nat \<Rightarrow> nat \<Rightarrow> int list \<Rightarrow> (loop_id \<times> int) list" where
  "turns n i [] = []"
| "turns n i (fd # fds) = (Some (i mod n), fd) # turns n (Suc i) fds"

lemma turns_nth: "k < length fds \<Longrightarrow> turns n i fds ! k = (Some ((i + k) mod n), fds ! k)"
  by (induction n i fds arbitrary: k rule: turns.induct) (auto simp: nth_Cons split: nat.split)

lemma turns_length [simp]: "length (turns n i fds) = length fds"
  by (induction n i fds rule: turns.induct) auto

lemma NextLoop_turn:
  assumes "0 < lp_subs p" "lp_subs p < 18446744073709551616" "unat (lp_next p) < 18446744073709551615"
  shows "NextLoop p = (Some (unat (lp_next p) mod lp_subs p), p\<lparr>lp_next := lp_next p + 1\<rparr>)"
    "unat (lp_next p + 1) = Suc (unat (lp_next p))"
  using assms by (simp_all add: NextLoop_def unat_mod unat_word_ariths)

lemma accept_arrivals:
  "arrivals rs \<Longrightarrow> 0 < lp_subs (ls_pool s) \<Longrightarrow> lp_subs (ls_pool s) < 18446744073709551616 \<Longrightarrow>
     unat (lp_next (ls_pool s)) + length (usable rs) < 18446744073709551616 \<Longrightarrow>
   \<exists>s'. accept_loop (rs @ xs) s = accept_loop xs s'
     \<and> ls_posted s' = ls_posted s @ turns (lp_subs (ls_pool s)) (unat (lp_next (ls_pool s))) (usable rs)
     \<and> ls_closed s' = ls_closed s @ refused rs \<and> ls_accepted s' = ls_accepted s + of_nat (length (usable rs))
     \<and> ls_reserve s' = ls_reserve s"
proof (induction rs arbitrary: s)
  case (Cons r rs)
  consider "r = AccIntr" | (no) fd where "r = AccFd fd False" | (yes) fd where "r = AccFd fd True"
    using Cons.prems(1) by (auto simp: arrivals_def)
  then show ?case
  proof cases
    case 1
    then show ?thesis using Cons by (simp add: arrivals_def)
  next
    case no
    then show ?thesis using Cons.IH [of "s\<lparr>ls_closed := ls_closed s @ [fd]\<rparr>"] Cons.prems by (simp add: arrivals_def)
  next
    case yes
    let ?p = "ls_pool s"
    have u: "unat (lp_next ?p) < 18446744073709551615" using Cons.prems(4) yes by simp
    note t = NextLoop_turn [OF Cons.prems(2,3) u]
    let ?s = "s\<lparr>ls_accepted := ls_accepted s + 1, ls_pool := ?p\<lparr>lp_next := lp_next ?p + 1\<rparr>,
        ls_posted := ls_posted s @ [(Some (unat (lp_next ?p) mod lp_subs ?p), fd)]\<rparr>"
    have "arrivals rs" using Cons.prems(1) by (simp add: arrivals_def)
    from Cons.IH [OF this, of ?s] Cons.prems t yes show ?thesis by (simp add: algebra_simps)
  qed
qed auto

definition sample_listener :: listener where
  "sample_listener = \<lparr>ls_fd = Some 3, ls_reserve = True, ls_accepted = 0, ls_pool = \<lparr>lp_subs = 2, lp_next = 0, lp_started = True\<rparr>,
     ls_posted = [], ls_closed = [], ls_reserve_ok = (\<lambda>_. True)\<rparr>"



text \<open>Running out of descriptors strands the queue. When accept fails for want of a descriptor, the loop sacrifices the reserve to drop one connection and then stops: all connections behind it stay in the queue, and the edge-triggered listening socket reports nothing until yet another client arrives.\<close>

theorem accept_exhausted_strands:
  assumes "arrivals rs" "0 < lp_subs (ls_pool s)" "lp_subs (ls_pool s) < 18446744073709551616"
    "unat (lp_next (ls_pool s)) + length (usable rs) < 18446744073709551616" "ls_reserve s"
  shows "\<exists>s'. OnReadable (rs @ AccExhausted # AccFd victim b # waiting) s = (waiting, s')
     \<and> ls_closed s' = ls_closed s @ refused rs @ [victim] \<and> map snd (ls_posted s') = map snd (ls_posted s) @ usable rs"
proof -
  have m: "map snd (turns n i fds) = fds" for n i fds by (induction n i fds rule: turns.induct) auto
  from accept_arrivals [OF assms(1-4), of "AccExhausted # AccFd victim b # waiting"] assms(5) show ?thesis
    unfolding OnReadable_def by (elim exE conjE) (simp add: m HandleAcceptError_def OpenReserveFd_def)
qed

theorem accept_exhausted_strands_witness:
  "\<exists>s'. OnReadable ([AccFd 7 True] @ AccExhausted # AccFd 8 True # [AccFd 9 True, AccFd 10 True, AccAgain]) sample_listener
      = ([AccFd 9 True, AccFd 10 True, AccAgain], s')
     \<and> ls_closed s' = [8] \<and> map snd (ls_posted s') = [7]"
  using accept_exhausted_strands [of "[AccFd 7 True]" sample_listener 8 True "[AccFd 9 True, AccFd 10 True, AccAgain]"]
  by (auto simp: arrivals_def sample_listener_def)

subsection \<open>The threads\<close>

text \<open>
  The state the threads share: the connection manager, the open descriptors, the connections posted
  to a loop and not created yet, and the closes under way, between \<open>CloseSocket\<close> and the end of the
  callback, with the number of the descriptor that was closed.  A loop that is closing a connection
  does nothing else.
\<close>

record net =
  nt_mw :: "manager \<times> world"
  nt_open :: "int set"
  nt_queue :: "(loop_id \<times> int) list"
  nt_closing :: "(loop_id \<times> nat \<times> int) list"
  nt_aborted :: bool

definition net_init :: "world \<Rightarrow> net" where
  "net_init w = \<lparr>nt_mw = (manager_new, w), nt_open = {}, nt_queue = [], nt_closing = [], nt_aborted = False\<rparr>"

definition busy :: "loop_id \<Rightarrow> net \<Rightarrow> bool" where
  "busy th s \<longleftrightarrow> th \<in> fst ` set (nt_closing s)"

text \<open>The callback of \<open>MarkClosed\<close>, and the reference of the event handler that is released after it.\<close>

definition finish_close :: "loop_id \<Rightarrow> nat \<Rightarrow> int \<Rightarrow> manager \<times> world \<Rightarrow> (manager \<times> world) option" where
  "finish_close th r fd mw =
     do { (m, w) \<leftarrow> on_close th r (Some fd) mw; m \<leftarrow> release th [] r m; Some (m, w) }"

text \<open>\<open>accept\<close> returns a number that is not open; a loop creates the connections posted to it in
  order; it closes one of its connections, and then runs the callback.\<close>

inductive net_step :: "nat \<Rightarrow> net \<Rightarrow> net \<Rightarrow> bool" for n where
  accept: "\<not> nt_aborted s \<Longrightarrow> 0 \<le> fd \<Longrightarrow> fd \<notin> nt_open s \<Longrightarrow> k < n \<Longrightarrow>
     net_step n s (s\<lparr>nt_open := insert fd (nt_open s), nt_queue := nt_queue s @ [(Some k, fd)]\<rparr>)"
| create: "\<not> nt_aborted s \<Longrightarrow> nt_queue s = xs @ (th, fd) # ys \<Longrightarrow> th \<notin> fst ` set xs \<Longrightarrow> \<not> busy th s \<Longrightarrow>
     CreateConnection th fd True (nt_mw s) = Some mw \<Longrightarrow>
     net_step n s (s\<lparr>nt_queue := xs @ ys, nt_mw := mw\<rparr>)"
| create_abort: "\<not> nt_aborted s \<Longrightarrow> nt_queue s = xs @ (th, fd) # ys \<Longrightarrow> th \<notin> fst ` set xs \<Longrightarrow> \<not> busy th s \<Longrightarrow>
     CreateConnection th fd True (nt_mw s) = None \<Longrightarrow>
     net_step n s (s\<lparr>nt_aborted := True\<rparr>)"
| close: "\<not> nt_aborted s \<Longrightarrow> \<not> busy th s \<Longrightarrow> nt_mw s = (m, w) \<Longrightarrow> map_of (cm_objs m) r = Some (c, th) \<Longrightarrow>
     close_object r m = (Some fd, m') \<Longrightarrow>
     net_step n s (s\<lparr>nt_mw := (m', w), nt_open := nt_open s - {fd}, nt_closing := nt_closing s @ [(th, r, fd)]\<rparr>)"
| callback: "\<not> nt_aborted s \<Longrightarrow> nt_closing s = xs @ (th, r, fd) # ys \<Longrightarrow> finish_close th r fd (nt_mw s) = Some mw \<Longrightarrow>
     net_step n s (s\<lparr>nt_closing := xs @ ys, nt_mw := mw\<rparr>)"
| callback_abort: "\<not> nt_aborted s \<Longrightarrow> nt_closing s = xs @ (th, r, fd) # ys \<Longrightarrow> finish_close th r fd (nt_mw s) = None \<Longrightarrow>
     net_step n s (s\<lparr>nt_aborted := True\<rparr>)"

inductive net_reach :: "nat \<Rightarrow> net \<Rightarrow> net \<Rightarrow> bool" for n s0 where
  start: "net_reach n s0 s0"
| step: "net_reach n s0 s \<Longrightarrow> net_step n s s' \<Longrightarrow> net_reach n s0 s'"

inductive_cases net_stepE: "net_step n s s'"

definition conn_live :: "manager \<Rightarrow> nat \<Rightarrow> int \<Rightarrow> bool" where
  "conn_live m r fd \<longleftrightarrow> (\<exists>c L. map_of (cm_objs m) r = Some (c, L) \<and> \<not> cn_closed c \<and> cn_fd c = Some fd)"

subsection \<open>One sub loop\<close>

text \<open>The invariant of a server with one sub loop.\<close>

definition net_inv :: "net \<Rightarrow> bool" where
  "net_inv s \<longleftrightarrow>
     \<not> nt_aborted s \<and> cm_posted (fst (nt_mw s)) = []
     \<and> (\<forall>r c L. map_of (cm_objs (fst (nt_mw s))) r = Some (c, L) \<longrightarrow> L = Some 0 \<and> r < cm_fresh (fst (nt_mw s)))
     \<and> (\<forall>x\<in>set (nt_queue s). fst x = Some 0 \<and> 0 \<le> snd x \<and> snd x \<in> nt_open s) \<and> distinct (map snd (nt_queue s))
     \<and> (\<forall>r fd. conn_live (fst (nt_mw s)) r fd \<longrightarrow>
          map_of (cm_table (fst (nt_mw s))) fd = Some r \<and> fd \<in> nt_open s \<and> fd \<notin> snd ` set (nt_queue s))
     \<and> (nt_closing s = [] \<or> (\<exists>r fd. nt_closing s = [(Some 0, r, fd)] \<and> (\<forall>x. \<not> conn_live (fst (nt_mw s)) r x)
          \<and> map_of (cm_table (fst (nt_mw s))) fd = Some r))
     \<and> (\<forall>fd r. map_of (cm_table (fst (nt_mw s))) fd = Some r \<longrightarrow>
          conn_live (fst (nt_mw s)) r fd \<or> nt_closing s = [(Some 0, r, fd)])"

lemma net_invD:
  assumes "net_inv s" "nt_mw s = (m, w)"
  shows "\<not> nt_aborted s" "cm_posted m = []"
    "map_of (cm_objs m) r = Some (c, L) \<Longrightarrow> L = Some 0 \<and> r < cm_fresh m"
    "x \<in> set (nt_queue s) \<Longrightarrow> fst x = Some 0 \<and> 0 \<le> snd x \<and> snd x \<in> nt_open s" "distinct (map snd (nt_queue s))"
    "conn_live m r fd \<Longrightarrow> map_of (cm_table m) fd = Some r \<and> fd \<in> nt_open s \<and> fd \<notin> snd ` set (nt_queue s)"
    "nt_closing s = [] \<or> (\<exists>r fd. nt_closing s = [(Some 0, r, fd)] \<and> (\<forall>x. \<not> conn_live m r x) \<and> map_of (cm_table m) fd = Some r)"
    "map_of (cm_table m) fd = Some r \<Longrightarrow> conn_live m r fd \<or> nt_closing s = [(Some 0, r, fd)]"
  using assms unfolding net_inv_def by (auto simp: assms(2))

lemma net_invI:
  assumes "nt_mw s = (m, w)" "\<not> nt_aborted s" "cm_posted m = []"
    "\<And>r c L. map_of (cm_objs m) r = Some (c, L) \<Longrightarrow> L = Some 0 \<and> r < cm_fresh m"
    "\<And>x. x \<in> set (nt_queue s) \<Longrightarrow> fst x = Some 0 \<and> 0 \<le> snd x \<and> snd x \<in> nt_open s" "distinct (map snd (nt_queue s))"
    "\<And>r fd. conn_live m r fd \<Longrightarrow> map_of (cm_table m) fd = Some r \<and> fd \<in> nt_open s \<and> fd \<notin> snd ` set (nt_queue s)"
    "nt_closing s = [] \<or> (\<exists>r fd. nt_closing s = [(Some 0, r, fd)] \<and> (\<forall>x. \<not> conn_live m r x) \<and> map_of (cm_table m) fd = Some r)"
    "\<And>fd r. map_of (cm_table m) fd = Some r \<Longrightarrow> conn_live m r fd \<or> nt_closing s = [(Some 0, r, fd)]"
  shows "net_inv s"
  using assms unfolding net_inv_def by (auto simp: assms(1))

lemma net_inv_init: "net_inv (net_init w)"
  by (simp add: net_inv_def net_init_def manager_new_def conn_live_def)

lemma map_of_AList [simp]: "map_of (AList.update k v xs) = (map_of xs)(k \<mapsto> v)"
  "map_of (AList.delete k xs) = (map_of xs)(k := None)"
  by (simp_all add: update_conv' delete_conv')

text \<open>A connection is created under a descriptor the table does not hold.\<close>

lemma create_inv:
  assumes i: "net_inv s" and q: "nt_queue s = xs @ (th, fd) # ys" and b: "\<not> busy th s"
  shows "\<exists>mw. CreateConnection th fd True (nt_mw s) = Some mw \<and> net_inv (s\<lparr>nt_queue := xs @ ys, nt_mw := mw\<rparr>)"
proof -
  obtain m w where mw: "nt_mw s = (m, w)" by (cases "nt_mw s") auto
  note D = net_invD [OF i mw]
  have x: "th = Some 0" "0 \<le> fd" "fd \<in> nt_open s" using D(4) [of "(th, fd)"] q by auto
  have cl: "nt_closing s = []" using D(7) b x(1) by (auto simp: busy_def)
  have nl: "\<not> conn_live m r fd" for r using D(6) [of r fd] q by auto
  have old: "map_of (cm_table m) fd = None"
    using D(8) [of fd] nl cl by (cases "map_of (cm_table m) fd") auto
  let ?r = "cm_fresh m"
  have fresh: "map_of (cm_objs m) ?r = None" using D(3) [of ?r] by (cases "map_of (cm_objs m) ?r") auto
  obtain c w1 where c: "Connection_new fd w = (c, w1)" "\<not> cn_closed c" "cn_fd c = Some fd"
    by (cases "Connection_new fd w") (auto simp: Connection_new_def NowMs_def)
  let ?c = "(Connection_Start c)\<lparr>cn_on_close := True\<rparr>"
  let ?m = "m\<lparr>cm_objs := AList.update ?r (?c, th) (cm_objs m), cm_fresh := ?r + 1, cm_table := AList.update fd ?r (cm_table m),
      cm_total := cm_total m + 1\<rparr>"
  have res: "\<exists>w2. CreateConnection th fd True (nt_mw s) = Some (?m, w2)"
    using c(1) old x(2) by (simp add: CreateConnection_def mw Let_def)
  have live: "conn_live ?m r y \<longleftrightarrow> (if r = ?r then y = fd else conn_live m r y)" for r y
    using c(2,3) fresh by (auto simp: conn_live_def Connection_Start_def)
  have nr: "\<not> conn_live m ?r y" for y using fresh by (simp add: conn_live_def)
  have ds: "distinct (map snd (xs @ ys))" "fd \<notin> snd ` set (xs @ ys)" using D(5) unfolding q by auto
  have sub: "z \<in> set (nt_queue s)" if "z \<in> set (xs @ ys)" for z using that q by auto
  have "net_inv (s\<lparr>nt_queue := xs @ ys, nt_mw := (?m, w2)\<rparr>)" for w2
  proof (rule net_invI [of _ ?m w2], goal_cases)
    case (4 r c L)
    then show ?case using D(3) [of r c L] x(1) by (cases "r = ?r") (auto simp: less_Suc_eq)
  next
    case (5 z)
    then show ?case using D(4) [OF sub] by simp
  next
    case (7 r y)
    show ?case
    proof (cases "r = ?r")
      case True
      with 7 live have "y = fd" by simp
      then show ?thesis using True x(3) ds(2) by simp
    next
      case False
      with 7 live have l: "conn_live m r y" by simp
      then have "y \<noteq> fd" "y \<notin> snd ` set (xs @ ys)" using nl D(6) [OF l] sub by auto
      then show ?thesis using D(6) [OF l] by simp
    qed
  next
    case (9 y r)
    then show ?case using D(8) [of y r] cl live nr by (cases "y = fd") auto
  qed (use D(1,2) ds cl in simp_all)
  with res show ?thesis by blast
qed

lemma accept_inv:
  assumes i: "net_inv s" and fd: "0 \<le> fd" "fd \<notin> nt_open s"
  shows "net_inv (s\<lparr>nt_open := insert fd (nt_open s), nt_queue := nt_queue s @ [(Some 0, fd)]\<rparr>)"
proof -
  obtain m w where mw: "nt_mw s = (m, w)" by (cases "nt_mw s") auto
  note D = net_invD [OF i mw]
  show ?thesis
  proof (rule net_invI [of _ m w], goal_cases)
    case (5 x)
    then show ?case using D(4) [of x] fd by auto
  next
    case 6
    have "fd \<notin> snd ` set (nt_queue s)" using D(4) fd(2) by auto
    then show ?case using D(5) by auto
  next
    case (7 r y)
    then show ?case using D(6) [of r y] fd(2) by auto
  qed (use mw D(1,2,3,7,8) in simp_all)
qed

lemma close_inv:
  assumes i: "net_inv s" and b: "\<not> busy th s" and mw: "nt_mw s = (m, w)"
    and c: "map_of (cm_objs m) r = Some (c, th)" "close_object r m = (Some fd, m')"
  shows "net_inv (s\<lparr>nt_mw := (m', w), nt_open := nt_open s - {fd}, nt_closing := nt_closing s @ [(th, r, fd)]\<rparr>)"
proof -
  note D = net_invD [OF i mw]
  have th: "th = Some 0" using D(3) [OF c(1)] by simp
  have cl: "nt_closing s = []" using D(7) b th by (auto simp: busy_def)
  have m': "\<not> cn_closed c" "cn_fd c = Some fd" "m' = m\<lparr>cm_objs := AList.update r (MarkClosed c, th) (cm_objs m)\<rparr>"
    using c by (auto simp: close_object_def split: if_splits)
  have live: "conn_live m' q y \<longleftrightarrow> q \<noteq> r \<and> conn_live m q y" for q y
    using m' by (auto simp: conn_live_def MarkClosed_def)
  have lr: "conn_live m r fd" using c(1) m' by (auto simp: conn_live_def)
  have tab: "map_of (cm_table m) fd = Some r" using D(6) [OF lr] by simp
  have other: "y \<noteq> fd" if "conn_live m q y" "q \<noteq> r" for q y using D(6) [OF that(1)] tab that(2) by auto
  show ?thesis
  proof (rule net_invI [of _ m' w], goal_cases)
    case (4 q d L)
    then show ?case using D(3) [of q d L] D(3) [OF c(1)] by (cases "q = r") (auto simp: m')
  next
    case (5 x)
    then have "x \<in> set (nt_queue s)" by simp
    moreover from this have "snd x \<noteq> fd" using D(6) [OF lr] by auto
    ultimately show ?case using D(4) by auto
  next
    case (7 q y)
    then show ?case using D(6) [of q y] other live by (auto simp: m')
  next
    case (9 y q)
    then have t: "map_of (cm_table m) y = Some q" by (simp add: m')
    show ?case
    proof (cases "q = r")
      case True
      with D(8) [OF t] cl have "conn_live m r y" by simp
      then have "y = fd" using c(1) m' by (simp add: conn_live_def)
      then show ?thesis using True th cl by simp
    next
      case False
      then show ?thesis using D(8) [OF t] cl live by simp
    qed
  qed (use D(1,2,5) th cl tab live m' in simp_all)
qed

lemma callback_inv:
  assumes i: "net_inv s" and q: "nt_closing s = xs @ (th, r, fd) # ys"
  shows "\<exists>mw. finish_close th r fd (nt_mw s) = Some mw \<and> net_inv (s\<lparr>nt_closing := xs @ ys, nt_mw := mw\<rparr>)"
proof -
  obtain m w where mw: "nt_mw s = (m, w)" by (cases "nt_mw s") auto
  note D = net_invD [OF i mw]
  have c: "xs = []" "ys = []" "th = Some 0" "\<And>x. \<not> conn_live m r x" "map_of (cm_table m) fd = Some r"
    using D(7) q by (auto simp: append_eq_Cons_conv)
  let ?m1 = "m\<lparr>cm_table := AList.delete fd (cm_table m)\<rparr>"
  have rel: "release th [] r ?m1 = Some ?m1 \<or> release th [] r ?m1 = Some (?m1\<lparr>cm_objs := AList.delete r (cm_objs m)\<rparr>)"
    using c(4) D(3) [of r] c(3) by (auto simp: release_def conn_live_def split: option.split)
  then obtain m2 where m2: "release th [] r ?m1 = Some m2" "m2 = ?m1 \<or> m2 = ?m1\<lparr>cm_objs := AList.delete r (cm_objs m)\<rparr>" by auto
  have f: "\<exists>w2. finish_close th r fd (nt_mw s) = Some (m2, w2)"
    using c(5) m2(1) by (simp add: finish_close_def on_close_def Manager_Remove_def mw release_def [of th "[r]"])
  have live: "conn_live m2 q y \<longleftrightarrow> conn_live m q y" for q y
    using c(4) [of y] m2(2) by (cases "q = r") (auto simp: conn_live_def)
  have "net_inv (s\<lparr>nt_closing := xs @ ys, nt_mw := (m2, w2)\<rparr>)" for w2
  proof (rule net_invI [of _ m2 w2], goal_cases)
    case (4 q d L)
    then show ?case using D(3) [of q d L] m2(2) by (auto split: if_splits)
  next
    case (7 q y)
    then have l: "conn_live m q y" by (simp add: live)
    then have "q \<noteq> r" using c(4) by auto
    then have "y \<noteq> fd" using D(6) [OF l] c(5) by auto
    then show ?case using D(6) [OF l] m2(2) by auto
  next
    case (9 y q)
    then have t: "map_of (cm_table m) y = Some q" "y \<noteq> fd" using m2(2) by (auto split: if_splits)
    then show ?case using D(8) [OF t(1)] live q c by auto
  qed (use D(1,2,4,5) c(1,2) m2(2) in auto)
  with f show ?thesis by blast
qed

lemma net_step_inv: "net_step (Suc 0) s s' \<Longrightarrow> net_inv s \<Longrightarrow> net_inv s'"
proof (induction rule: net_step.induct)
  case (accept s fd k)
  then show ?case using accept_inv [of s fd] by simp
next
  case (create s xs th fd ys mw)
  then show ?case using create_inv [of s xs th fd ys] by auto
next
  case (create_abort s xs th fd ys)
  then show ?case using create_inv [of s xs th fd ys] by auto
next
  case (close s th m w r c fd m')
  then show ?case using close_inv by blast
next
  case (callback s xs th r fd ys mw)
  then show ?case using callback_inv [of s xs th r fd ys] by auto
next
  case (callback_abort s xs th r fd ys)
  then show ?case using callback_inv [of s xs th r fd ys] by auto
qed


text \<open>The states of a run with a first connection on descriptor 5 and loop 0.\<close>

definition first_conn :: "world \<Rightarrow> connection" where
  "first_conn w = (Connection_Start (fst (Connection_new 5 w)))\<lparr>cn_on_close := True\<rparr>"

definition one_manager :: "connection \<Rightarrow> manager" where
  "one_manager c = \<lparr>cm_table = [(5, 0)], cm_objs = [(0, c, Some 0)], cm_fresh = 1, cm_posted = [], cm_total = 1, cm_checking = False\<rparr>"

lemma first_conn_fields [simp]: "\<not> cn_closed (first_conn w)" "cn_fd (first_conn w) = Some 5"
  by (simp_all add: first_conn_def Connection_Start_def Connection_new_def NowMs_def)

lemma reach_first:
  assumes "0 < n"
  shows "\<exists>w'. net_reach n (net_init w) \<lparr>nt_mw = (one_manager (first_conn w), w'), nt_open = {5}, nt_queue = [], nt_closing = [], nt_aborted = False\<rparr>"
proof -
  have "net_reach n (net_init w) ((net_init w)\<lparr>nt_open := {5}, nt_queue := [(Some 0, 5)]\<rparr>)" (is "net_reach _ _ ?s")
    using net_reach.step [OF net_reach.start net_step.accept [of "net_init w" 5 0 n]] assms by (simp add: net_init_def)
  moreover obtain c0 w0 where n: "Connection_new 5 w = (c0, w0)" by (cases "Connection_new 5 w") auto
  define w' where "w' = SetTotalConnections 1 (SetCurrentConnections 1 w0)"
  have "CreateConnection (Some 0) 5 True (manager_new, w) = Some (one_manager (first_conn w), w')"
    by (simp add: CreateConnection_def n manager_new_def one_manager_def first_conn_def cm_count_def w'_def)
  ultimately have "net_reach n (net_init w) (?s\<lparr>nt_queue := [] @ [], nt_mw := (one_manager (first_conn w), w')\<rparr>)"
    by (intro net_reach.step [OF _ net_step.create [where th = "Some 0" and fd = 5]]) (simp_all add: net_init_def busy_def)
  then show ?thesis by (auto simp: net_init_def)
qed


text \<open>C39: Two sub loops can abort the server. There is an interleaving in which loop 0 closes the socket of a connection, the kernel gives its number to a new connection that loop 1 registers in the table, and only then the callback of the old connection removes "its" descriptor: it takes the new connection out of the table, drops the last reference to it and runs its destructor on loop 0, where the thread check of Unregister aborts the process.\<close>

theorem fd_reuse_aborts:
  "\<exists>s. net_reach 2 (net_init w) s \<and> nt_aborted s"
proof -
  let ?c = "first_conn w"
  from reach_first [of 2 w] obtain w1 where r1: "net_reach 2 (net_init w)
      \<lparr>nt_mw = (one_manager ?c, w1), nt_open = {5}, nt_queue = [], nt_closing = [], nt_aborted = False\<rparr>" by auto
  let ?m2 = "(one_manager ?c)\<lparr>cm_objs := [(0, MarkClosed ?c, Some 0)]\<rparr>"
  have cl: "close_object 0 (one_manager ?c) = (Some 5, ?m2)" by (simp add: close_object_def one_manager_def)
  from net_reach.step [OF r1 net_step.close [where th = "Some 0", OF _ _ _ _ cl]]
  have r2: "net_reach 2 (net_init w)
      \<lparr>nt_mw = (?m2, w1), nt_open = {}, nt_queue = [], nt_closing = [(Some 0, 0, 5)], nt_aborted = False\<rparr>"
    by (simp add: busy_def one_manager_def)
  from net_reach.step [OF r2 net_step.accept [of _ 5 1 2]] have r3: "net_reach 2 (net_init w)
      \<lparr>nt_mw = (?m2, w1), nt_open = {5}, nt_queue = [(Some 1, 5)], nt_closing = [(Some 0, 0, 5)], nt_aborted = False\<rparr>" by simp
  let ?c1 = "first_conn w1"
  let ?m3 = "\<lparr>cm_table = [(5, 1)], cm_objs = [(1, ?c1, Some 1)], cm_fresh = 2, cm_posted = [], cm_total = 2, cm_checking = False\<rparr>"
  have mc: "cn_closed (MarkClosed ?c)" by (simp add: MarkClosed_def)
  obtain c0 w0 where n: "Connection_new 5 w1 = (c0, w0)" by (cases "Connection_new 5 w1") auto
  define w2 where "w2 = SetTotalConnections 2 (SetCurrentConnections 1 w0)"
  have "first_conn w1 = (Connection_Start c0)\<lparr>cn_on_close := True\<rparr>" by (simp add: first_conn_def n)
  then have cr: "CreateConnection (Some 1) 5 True (?m2, w1) = Some (?m3, w2)"
    using mc by (simp add: CreateConnection_def n one_manager_def release_def cm_count_def w2_def)
  from net_reach.step [OF r3 net_step.create [where xs = "[]" and ys = "[]" and th = "Some 1" and fd = 5 and mw = "(?m3, w2)"]] cr
  have r4: "net_reach 2 (net_init w)
      \<lparr>nt_mw = (?m3, w2), nt_open = {5}, nt_queue = [], nt_closing = [(Some 0, 0, 5)], nt_aborted = False\<rparr>"
    by (simp add: busy_def)
  have "finish_close (Some 0) 0 5 (?m3, w2) = None"
    by (simp add: finish_close_def on_close_def Manager_Remove_def release_def)
  with net_reach.step [OF r4 net_step.callback_abort [where xs = "[]" and ys = "[]" and th = "Some 0" and r = 0 and fd = 5]]
  show ?thesis by (intro exI) (auto)
qed

end
