(* ===== verification/Server.thy ===== *)
theory Server
  imports Config Network
begin

section \<open>The server (src/server.cpp, src/main.cc, the background threads of src/store.cpp)\<close>

text \<open>
  How the parts are put together: \<open>Server::Init\<close> in the order of the code, the steps of the
  background threads, the shutdown.  Between them the server executes requests; the requests of all
  connections and the ticks of the two background threads are a sequence of events.  What the
  operating system supplies is in the state \<open>Init\<close> starts from: the disk, the clock, the random
  numbers, the process id.  \<open>None\<close> is an initialisation or a command that does not return.
\<close>

definition stats_new :: stats where
  "stats_new = \<lparr>st_commands = 0, st_hits = 0, st_misses = 0, st_expired = 0, st_total_conns = 0, st_current_conns = 0,
     st_rejected = 0, st_bytes_in = 0, st_bytes_out = 0, st_proto_errors = 0, st_used_memory = 0, st_start_ms = 0\<rparr>"

definition SetUptimeStart :: "world \<Rightarrow> world" where
  "SetUptimeStart w = (let (now, w) = NowMs w in w\<lparr>w_stats := (w_stats w)\<lparr>st_start_ms := now\<rparr>\<rparr>)"

record server =
  sv_config :: config
  sv_world :: world
  sv_pool :: loop_pool
  sv_manager :: manager
  sv_flusher :: bool

subsection \<open>Init\<close>

text \<open>The statistics, the store and the file are created; the file is opened for appending before
  it is replayed.  The boolean is the result of \<open>Init\<close>.\<close>

definition Server_Init :: "config \<Rightarrow> u32 \<Rightarrow> world \<Rightarrow> (bool \<times> server) option" where
  "Server_Init cfg hw w =
     (let w = SetUptimeStart (w\<lparr>w_stats := stats_new\<rparr>);
          pool0 = \<lparr>lp_subs = 0, lp_next = 0, lp_started = False\<rparr>;
          sv = (\<lambda>w pool. \<lparr>sv_config = cfg, sv_world = w, sv_pool = pool, sv_manager = manager_new, sv_flusher = False\<rparr>)
      in do { st \<leftarrow> Store_Init (cf_shard_count cfg);
              let w = w\<lparr>w_store := st, w_aof := Aof_new\<rparr>;
              let (ok, a, d) = (if cf_aof_enabled cfg then Aof_Open (cf_aof_path cfg) (cf_aof_policy cfg) (w_aof w, w_disk w)
                                else (True, w_aof w, w_disk w));
              let w = w\<lparr>w_aof := a, w_disk := d\<rparr>;
              if \<not> ok then Some (False, sv w pool0)
              else
                do { let pool = InitAndStart hw (cf_loop_count cfg) pool0;
                     let w = w\<lparr>w_info := (w_info w)\<lparr>si_version := ''1.0.0'', si_shard_count := unat (cf_shard_count cfg),
                                                     si_loop_count := lp_subs pool\<rparr>\<rparr>;
                     (n, w) \<leftarrow> (if cf_aof_enabled cfg then LoadAof (cf_aof_path cfg) w else Some (0, w));
                     if n < 0 then Some (False, sv w pool)
                     else Some (True, (sv w pool)\<lparr>sv_manager := manager_new\<lparr>cm_checking := True\<rparr>, sv_flusher := cf_aof_enabled cfg\<rparr>) } })"

subsection \<open>The background threads\<close>

text \<open>A tick of the flusher, every 100 ms.\<close>

definition FlushTick :: "world \<Rightarrow> world" where
  "FlushTick w =
     (if af_open (w_aof w)
      then let (a, d) = Aof_FlushIfNeeded (w_aof w, w_disk w) in w\<lparr>w_aof := a, w_disk := d\<rparr>
      else w)"

text \<open>A tick of the expiry thread: one expired key is counted, however many there were.\<close>

definition BackgroundTick :: "world \<Rightarrow> world" where
  "BackgroundTick w =
     (let (n, w) = timed (\<lambda>now st. ExpireCycle now st) w in
      if n > 0 then w\<lparr>w_stats := (w_stats w)\<lparr>st_expired := st_expired (w_stats w) + 1\<rparr>\<rparr> else w)"

subsection \<open>Shutdown\<close>

definition Store_Shutdown :: "store \<Rightarrow> store" where
  "Store_Shutdown st =
     (if shards st \<noteq> [] then st\<lparr>shards := [], key_count := 0, expires_count := 0\<rparr> else st)"

definition Server_Shutdown :: "server \<Rightarrow> server" where
  "Server_Shutdown s =
     (let (m, w) = CloseAll (StopPeriodicCheck (sv_manager s), sv_world s);
          w = w\<lparr>w_store := Store_Shutdown (w_store w)\<rparr>;
          pool = Pool_Stop (sv_pool s);
          (a, d) = (if af_open (w_aof w) then Aof_Close (Aof_SyncNow (w_aof w, w_disk w)) else (w_aof w, w_disk w))
      in s\<lparr>sv_world := w\<lparr>w_aof := a, w_disk := d\<rparr>, sv_pool := pool, sv_manager := m, sv_flusher := False\<rparr>)"

subsection \<open>Serving\<close>

datatype server_event = Request "string list" | Flush | Cycle

fun serve_event :: "server_event \<Rightarrow> world \<Rightarrow> world option" where
  "serve_event (Request args) w = map_option snd (Execute args w)"
| "serve_event Flush w = Some (FlushTick w)"
| "serve_event Cycle w = Some (BackgroundTick w)"

fun serve_events :: "server_event list \<Rightarrow> world \<Rightarrow> world option" where
  "serve_events [] w = Some w"
| "serve_events (e # es) w = do { w \<leftarrow> serve_event e w; serve_events es w }"

fun requests :: "server_event list \<Rightarrow> string list list" where
  "requests [] = []"
| "requests (Request args # es) = args # requests es"
| "requests (e # es) = requests es"

text \<open>\<open>main\<close>: the configuration is parsed, the server initialised and started, events served until the
  signal, and the server shut down (by its destructor when \<open>Init\<close> or \<open>Start\<close> fails; \<open>listens\<close> is
  whether the listening socket could be opened).  The result is the exit code and the world left.\<close>

definition main_run :: "string list \<Rightarrow> u32 \<Rightarrow> bool \<Rightarrow> server_event list \<Rightarrow> world \<Rightarrow> (int \<times> world) option" where
  "main_run argv hw listens es w =
     (case Config_Parse argv default_config of
        None \<Rightarrow> Some (1, w)
      | Some (cfg, help) \<Rightarrow>
          if help then Some (0, w)
          else
            do { (ok, s) \<leftarrow> Server_Init cfg hw w;
                 if \<not> ok \<or> \<not> listens then Some (1, sv_world (Server_Shutdown s))
                 else do { w \<leftarrow> serve_events es (sv_world s);
                           Some (0, sv_world (Server_Shutdown (s\<lparr>sv_world := w\<rparr>))) } })"

end
