(* ===== verification/Recovery.thy ===== *)
theory Recovery
  imports Server Command_Reads Score_Facts Connection_Facts
begin

section \<open>What a restart brings back\<close>

text \<open>
  The log as a second implementation of the database: executing the commands a request appended to
  the file, on any server that holds the database the request found, gives the database the request
  left.  Stated and proved per request for every command that involves no time (no expiry and no
  \<open>FLUSHALL\<close>), then for whole histories with the background threads running between the requests.
\<close>

subsection \<open>Scores that were parsed are doubles\<close>

lemma round_double_pos:
  assumes "0 < v" "round_double v = Fin r"
  shows "0 \<le> r \<and> is_double r"
proof -
  define q where "q = max (ilog 2 v - 52) (-1074)"
  define k where "k = round_even (v / 2 powi q)"
  have r: "r = dbl k q" "r < 2 ^ 1024"
    using assms by (auto simp: round_double_def Let_def k_def q_def dbl_def not_le split: if_splits)
  note il = ilog_bounds [OF assms(1), of 2]
  have err: "\<bar>of_int k - v / 2 powi q\<bar> \<le> 1 / 2" unfolding k_def by (rule round_even_error)
  have "v < 2 powi (ilog 2 v + 1)" using il(2) by simp
  also have "\<dots> \<le> 2 powi (q + int 53)" by (intro power_int_increasing) (auto simp: q_def)
  finally have "v < 2 ^ 53 * 2 powi q" unfolding two_powi_split by (simp only: mult.commute)
  then have "v / 2 powi q < 2 ^ 53" by (simp only: divide_less_eq two_powi if_True)
  then have "(of_int k :: rat) < 2 ^ 53 + 1" using err by linarith
  then have "(of_int k :: rat) < of_int (2 ^ 53 + 1)" by simp
  then have k53: "k \<le> 2 ^ 53" unfolding of_int_less_iff by simp
  have "0 \<le> v / 2 powi q" using assms(1) by simp
  then have "- 1 < (of_int k :: rat)" using err by linarith
  then have "of_int (- 1) < (of_int k :: rat)" by simp
  then have k0: "0 \<le> k" unfolding of_int_less_iff by simp
  have low: "2 ^ 52 \<le> k" if "q \<noteq> -1074"
  proof -
    have "ilog 2 v = q + int 52" using that by (auto simp: q_def max_def split: if_splits)
    then have "2 ^ 52 * 2 powi q \<le> v" using il(1) two_powi_split [of q 52] by (simp add: mult.commute)
    then have "2 ^ 52 \<le> v / 2 powi q" by (simp only: le_divide_eq two_powi if_True)
    then have "2 ^ 52 - 1 < (of_int k :: rat)" using err by linarith
    then have "of_int (2 ^ 52 - 1) < (of_int k :: rat)" by simp
    then show ?thesis unfolding of_int_less_iff by simp
  qed
  have q: "-1074 \<le> q" by (simp add: q_def)
  consider "k = 0" | "k = 2 ^ 53" | "0 < k" "k < 2 ^ 53" using k0 k53 by linarith
  then have "is_double r"
  proof cases
    case 1
    then show ?thesis using r(1) by (simp add: is_double_def dbl_def round_double_def)
  next
    case 2
    have "dbl (2 ^ 52) (q + 1) = dbl (2 ^ 53) q" by (simp add: dbl_def power_int_add)
    moreover have "significand (2 ^ 52) (q + 1)" using q by (simp add: significand_def)
    ultimately show ?thesis using dbl_double [of "2 ^ 52" "q + 1"] r 2 by simp
  next
    case 3
    then have "significand k q" using low q by (auto simp: significand_def)
    then show ?thesis using dbl_double r by simp
  qed
  moreover have "0 \<le> r" using k0 by (simp add: r(1) dbl_def)
  ultimately show ?thesis by blast
qed

lemma round_double_double: "round_double v = Fin r \<Longrightarrow> is_double r"
proof -
  assume a: "round_double v = Fin r"
  consider "v = 0" | "0 < v" | "v < 0" by linarith
  then show ?thesis
  proof cases
    case 1
    then show ?thesis using a by (simp add: round_double_def is_double_def)
  next
    case 2
    then show ?thesis using round_double_pos a by blast
  next
    case 3
    then have "round_double (- v) = Fin (- r)" using a by (auto simp: round_double_def Let_def split: if_splits)
    with 3 have p: "0 \<le> - r" "is_double (- r)" using round_double_pos [of "- v" "- r"] by auto
    show ?thesis
    proof (cases "r = 0")
      case False
      then show ?thesis using round_double_neg [of "- r" "- r"] p by (simp add: is_double_def)
    qed (simp add: is_double_def round_double_def)
  qed
qed

lemma ParseZScore_double: "ParseZScore s = Some r \<Longrightarrow> is_double r"
  by (auto simp: ParseZScore_def strtod_def Let_def split: if_splits option.splits prod.splits score.splits
      dest!: round_double_double)

lemma ParseZScore_length: "ParseZScore s = Some r \<Longrightarrow> length s < 64"
  by (auto simp: ParseZScore_def split: if_splits)

lemma score_text_ok: "is_double r \<Longrightarrow> ParseZScore (ZScoreToString (Fin r)) = Some r \<and> length (ZScoreToString (Fin r)) < 64"
  using score_text(1) [of r] ParseZScore_length by blast

lemma parse_pairs_scores:
  "parse_pairs args = Some ps \<Longrightarrow> (s, m) \<in> set ps \<Longrightarrow> \<exists>r. s = Fin r \<and> is_double r \<and> m \<in> set args"
proof (induction args arbitrary: ps rule: parse_pairs.induct)
  case (1 sa ma rest)
  from "1.prems"(1) obtain r0 qs where p: "ParseZScore sa = Some r0" "parse_pairs rest = Some qs" "ps = (Fin r0, ma) # qs"
    by (auto split: option.splits)
  show ?case
  proof (cases "(s, m) = (Fin r0, ma)")
    case False
    with "1.IH" [OF p(1,2)] "1.prems"(2) p(3) show ?thesis by auto
  qed (use ParseZScore_double [OF p(1)] in auto)
qed auto

subsection \<open>Databases without deadlines\<close>

definition plain :: "ddb \<Rightarrow> bool" where
  "plain d \<longleftrightarrow> (\<forall>k v x. d k = Some (v, x) \<longrightarrow> x = 0 \<and> v \<noteq> DSet Map.empty)"

definition holds_db :: "ddb \<Rightarrow> world \<Rightarrow> bool" where
  "holds_db d w \<longleftrightarrow> (\<forall>u\<ge>now_of w. db u (w_store w) = d)"

lemma plainD: "plain d \<Longrightarrow> d k = Some (v, x) \<Longrightarrow> x = 0" "plain d \<Longrightarrow> d k = Some (DSet f, x) \<Longrightarrow> f \<noteq> Map.empty"
  by (auto simp: plain_def)

lemma alive_plain [simp]: "plain d \<Longrightarrow> alive t d = d"
proof -
  assume p: "plain d"
  have "alive t d k = d k" for k
  proof (cases "d k")
    case (Some vx)
    obtain v x where vx: "vx = (v, x)" by (cases vx)
    have "x = 0" using p Some unfolding vx by (rule plainD(1))
    then show ?thesis using Some vx by (simp add: alive_def)
  qed (simp add: alive_def)
  then show ?thesis by (rule ext)
qed

lemma plain_upd: "plain d \<Longrightarrow> v \<noteq> DSet Map.empty \<Longrightarrow> plain (d(k \<mapsto> (v, 0)))"
  by (auto simp: plain_def)

lemma plain_del: "plain d \<Longrightarrow> plain (\<lambda>k. if P k then None else d k)" "plain d \<Longrightarrow> plain (d(k := None))"
  by (auto simp: plain_def split: if_splits)

lemma holds_dbD: "holds_db d w \<Longrightarrow> dnow w = d" "holds_db d w \<Longrightarrow> now_of w \<le> t \<Longrightarrow> db t (w_store w) = d"
  by (simp_all add: holds_db_def)

lemma holds_db_bump [simp]: "holds_db d (bump w) = holds_db d w"
  by (simp add: holds_db_def)

text \<open>A command \<open>c\<close> takes every server that holds \<open>d\<close> to one that holds \<open>d'\<close>; a sequence of them.\<close>

definition sets_to :: "string list \<Rightarrow> ddb \<Rightarrow> ddb \<Rightarrow> bool" where
  "sets_to c d d' \<longleftrightarrow> (\<forall>n w. w_good (n + length c) w \<and> holds_db d w \<longrightarrow>
     (\<exists>reply w'. Execute c w = Some (reply, w') \<and> w_good n w' \<and> holds_db d' w' \<and> (logs [c] w w' \<or> logs [] w w')))"

fun leads :: "string list list \<Rightarrow> ddb \<Rightarrow> ddb \<Rightarrow> bool" where
  "leads [] d d' \<longleftrightarrow> d' = d"
| "leads (c # cs) d d' \<longleftrightarrow> (\<exists>d1. sets_to c d d1 \<and> leads cs d1 d')"

lemma Execute_keeps:
  assumes "Execute args w = Some (reply, w')" "w_good (n + length args) w"
  shows "w_good n w'"
proof (cases "args = [] \<or> known args")
  case True
  then show ?thesis using Execute_ok [OF assms(2)] assms(1) by auto
next
  case False
  then have "map_of kCommandTable (ToLowerAscii (hd args)) = None" "args \<noteq> []" unfolding known_def by blast+
  then show ?thesis using assms(1) w_good_less [OF assms(2), of n] by (auto simp: Execute_def Let_def)
qed

lemma outcome_holds:
  assumes "outcome r w reply t d cs" "plain d"
  shows "\<exists>w'. r = Some (reply, w') \<and> holds_db d w' \<and> logs cs w w'"
proof -
  from assms(1) obtain w' where w': "r = Some (reply, w')" "t \<le> now_of w'" "becomes t d w'" "logs cs w w'"
    by (auto simp: outcome_def)
  have "holds_db d w'" unfolding holds_db_def
  proof (intro allI impI)
    fix u assume "now_of w' \<le> u"
    with w'(2) have "t \<le> u" by (rule order_trans)
    then show "db u (w_store w') = d" using becomesD [OF w'(3)] assms(2) by simp
  qed
  with w' show ?thesis by blast
qed

lemma sets_toI:
  assumes "\<And>n w. w_good (n + length c) w \<Longrightarrow> dnow w = d \<Longrightarrow> \<exists>reply t cs. outcome (Execute c w) w reply t d' cs \<and> (cs = [] \<or> cs = [c])"
    "plain d'"
  shows "sets_to c d d'"
  unfolding sets_to_def
proof (intro allI impI)
  fix n w assume a: "w_good (n + length c) w \<and> holds_db d w"
  with assms(1) [of n w] holds_dbD(1) obtain reply t cs where o: "outcome (Execute c w) w reply t d' cs" "cs = [] \<or> cs = [c]" by blast
  from outcome_holds [OF o(1) assms(2)] obtain w' where "Execute c w = Some (reply, w')" "holds_db d' w'" "logs cs w w'" by blast
  with o(2) a Execute_keeps show "\<exists>reply w'. Execute c w = Some (reply, w') \<and> w_good n w' \<and> holds_db d' w' \<and> (logs [c] w w' \<or> logs [] w w')"
    by blast
qed

text \<open>A request is safe: it ends, and the commands it logged lead from the database it found to the
  database it left.\<close>

definition safe :: "string list \<Rightarrow> nat \<Rightarrow> ddb \<Rightarrow> world \<Rightarrow> bool" where
  "safe args n d w \<longleftrightarrow> (\<exists>reply w' cs d'. Execute args w = Some (reply, w') \<and> w_good n w' \<and> holds_db d' w' \<and> plain d'
     \<and> logs cs w w' \<and> leads cs d d' \<and> list_all args_ok cs \<and> cost cs \<le> 4 * length args)"

lemma safeI:
  assumes "w_good (n + length args) w" "outcome (Execute args w) w reply t d' cs" "plain d'" "leads cs d d'"
    "list_all args_ok cs" "cost cs \<le> 4 * length args"
  shows "safe args n d w"
  using outcome_holds [OF assms(2,3)] Execute_keeps [OF _ assms(1)] assms(3-6) unfolding safe_def by blast

lemma safe_same:
  assumes "w_good (n + length args) w" "outcome (Execute args w) w reply t d []" "plain d"
  shows "safe args n d w"
  by (rule safeI [OF assms]) simp_all

lemma safe_row:
  assumes g: "w_good (n + length (c # args)) w" and h: "holds_db d w" "plain d"
    and row: "ToLowerAscii c = name" "map_of kCommandTable name = Some (h, b)" "h (name # args) (bump w) = Some (reply, bump w)"
  shows "safe (c # args) n d w"
proof (rule safe_same [OF g outcome_row [OF row(1,2)] h(2)])
  show "outcome (h (name # args) (bump w)) (bump w) reply (now_of w) d []"
    using outcome_same [of "h (name # args) (bump w)", OF row(3)] holds_dbD(1) [OF h(1)] by simp
qed

subsection \<open>SET\<close>

definition untimed_option :: "string \<Rightarrow> bool" where
  "untimed_option a \<longleftrightarrow> ToLowerAscii a = ''nx'' \<or> ToLowerAscii a = ''xx'' \<or> ToLowerAscii a = ''keepttl''"

lemma untimed_options:
  "list_all untimed_option as \<Longrightarrow> \<not> so_has_expire (sp_opts p) \<Longrightarrow> so_expire_at_ms (sp_opts p) = 0 \<Longrightarrow>
     (\<exists>msg. set_options as p = Inl msg)
     \<or> (\<exists>q. set_options as p = Inr q \<and> \<not> so_has_expire (sp_opts q) \<and> so_expire_at_ms (sp_opts q) = 0)"
proof (induction as p rule: set_options.induct)
  case (2 a rest p)
  let ?opt = "ToLowerAscii a"
  note IH = "2.IH" [OF refl refl]
  from "2.prems"(1) consider "?opt = ''nx''" | "?opt = ''xx''" | "?opt = ''keepttl''" by (auto simp: untimed_option_def)
  then show ?case
  proof cases
    case 1
    show ?thesis using IH(1) [OF 1] "2.prems" by (simp add: Let_def 1)
  next
    case 2
    show ?thesis using IH(2) [OF _ 2] "2.prems" by (simp add: Let_def 2)
  next
    case 3
    show ?thesis using IH(3) [OF _ _ 3] "2.prems" by (simp add: Let_def 3)
  qed
qed simp

lemma db_set_plain:
  assumes "plain d" "\<not> so_has_expire os"
  shows "db_set k (DStr v) os d = (kOk, d(k \<mapsto> (DStr v, 0))) \<or> fst (db_set k (DStr v) os d) \<noteq> kOk \<and> snd (db_set k (DStr v) os d) = d"
  using assms plainD(1) [OF assms(1), of k] by (auto simp: db_set_def split: option.splits)

text \<open>What \<open>SET\<close> logs.\<close>

lemma set_logged:
  assumes "plain d" "opts = [] \<or> opts = [''KEEPTTL'']"
  shows "sets_to (''SET'' # k # v # opts) d (d(k \<mapsto> (DStr v, 0)))"
proof (rule sets_toI)
  fix n w assume g: "w_good (n + length (''SET'' # k # v # opts)) w" and d: "dnow w = d"
  let ?os = "default_opts\<lparr>so_keep_ttl := (opts \<noteq> [])\<rparr>"
  have l: "ToLowerAscii ''SET'' = ''set''" "ToLowerAscii ''KEEPTTL'' = ''keepttl''" by code_simp+
  have p: "set_options opts set_parse0 = Inr (set_parse0\<lparr>sp_opts := ?os\<rparr>)"
    using assms(2) l(2) by (auto simp: set_parse0_def default_opts_def Let_def)
  have dl: "set_deadline (set_parse0\<lparr>sp_opts := ?os\<rparr>) (bump w) = (?os, bump w)"
    by (simp add: set_deadline_def default_opts_def)
  have s: "db_set k (DStr v) ?os d = (kOk, d(k \<mapsto> (DStr v, 0)))"
    using plainD(1) [OF assms(1), of k] by (auto simp: db_set_def default_opts_def split: option.splits)
  have a: "set_aof_args k v ?os = ''SET'' # k # v # opts" using assms(2) by (auto simp: set_aof_args_def default_opts_def)
  from Set_meaning [OF l(1) g p dl, of k v]
  show "\<exists>reply t cs. outcome (Execute (''SET'' # k # v # opts) w) w reply t (d(k \<mapsto> (DStr v, 0))) cs \<and> (cs = [] \<or> cs = [''SET'' # k # v # opts])"
    by (simp add: d s a) blast
qed (simp add: plain_upd assms(1))

lemma Set_safe:
  assumes g: "w_good (n + length (c # args)) w" and h: "holds_db d w" "plain d" and c: "ToLowerAscii c = ''set''"
    and u: "list_all untimed_option (drop 2 args)" and ok: "args_ok (c # args)"
  shows "safe (c # args) n d w"
proof (cases "length args < 2")
  case True
  show ?thesis by (rule safe_row [OF g h c row(3)]) (use True in \<open>simp add: CmdSet_def\<close>)
next
  case False
  then obtain k v as where args: "args = k # v # as" by (cases args; cases "tl args") auto
  from untimed_options [of as set_parse0] u have
    "(\<exists>msg. set_options as set_parse0 = Inl msg) \<or> (\<exists>q. set_options as set_parse0 = Inr q \<and> \<not> so_has_expire (sp_opts q) \<and> so_expire_at_ms (sp_opts q) = 0)"
    by (simp add: args set_parse0_def default_opts_def)
  then show ?thesis
  proof (elim disjE exE conjE)
    fix msg assume "set_options as set_parse0 = Inl msg"
    then show ?thesis by (intro safe_row [OF g h c row(3)]) (simp add: CmdSet_def args)
  next
    fix q assume q: "set_options as set_parse0 = Inr q" "\<not> so_has_expire (sp_opts q)" "so_expire_at_ms (sp_opts q) = 0"
    have dl: "set_deadline q (bump w) = (sp_opts q, bump w)" using q(2) by (simp add: set_deadline_def)
    note m = Set_meaning [OF c g q(1) dl, of k v, unfolded bump_fields holds_dbD(1) [OF h(1)]]
    show ?thesis
    proof (cases "fst (db_set k (DStr v) (sp_opts q) d) = kOk")
      case False
      then have "snd (db_set k (DStr v) (sp_opts q) d) = d" using db_set_plain [OF h(2) q(2), of k v] by auto
      with m False have "outcome (Execute (c # args) w) w (EncodeNullBulk []) (now_of w) d []" by (simp add: args)
      from safe_same [OF g this h(2)] show ?thesis .
    next
      case True
      then have s: "snd (db_set k (DStr v) (sp_opts q) d) = d(k \<mapsto> (DStr v, 0))" using db_set_plain [OF h(2) q(2), of k v] by auto
      define os where "os = (if so_keep_ttl (sp_opts q) then [''KEEPTTL''] else [])"
      have a: "set_aof_args k v (sp_opts q) = ''SET'' # k # v # os" using q(3) by (simp add: set_aof_args_def os_def)
      have o: "outcome (Execute (c # args) w) w (EncodeSimpleString ''OK'' []) (now_of w) (d(k \<mapsto> (DStr v, 0))) [''SET'' # k # v # os]"
        using m True s a by (simp add: args)
      have "sets_to (''SET'' # k # v # os) d (d(k \<mapsto> (DStr v, 0)))" by (rule set_logged [OF h(2)]) (simp add: os_def)
      moreover have "args_ok (''SET'' # k # v # os)" using ok by (simp add: args_ok_def args os_def bulk_ok_def)
      ultimately show ?thesis
        by (intro safeI [OF g o plain_upd [OF h(2)]]) (auto simp: os_def args)
    qed
  qed
qed

subsection \<open>INCR, DECR, DEL\<close>

lemma db_incr_plain:
  assumes "plain d"
  shows "fst (db_incr k x d) = None \<and> snd (db_incr k x d) = d \<or> (\<exists>m. db_incr k x d = (Some m, d(k \<mapsto> (DInt m, 0))))"
  using plainD(1) [OF assms, of k] by (auto simp: db_incr_def split: option.splits)

lemma incr_logged:
  assumes "plain d" "int64_range x" "db_incr k x d = (Some m, d(k \<mapsto> (DInt m, 0)))"
  shows "sets_to [''INCRBY'', k, dec_of_int x] d (d(k \<mapsto> (DInt m, 0)))"
proof (rule sets_toI)
  fix n w assume g: "w_good (n + length [''INCRBY'', k, dec_of_int x]) w" and d: "dnow w = d"
  have l: "ToLowerAscii ''INCRBY'' = ''incrby''" by code_simp
  from IncrBy_meaning [OF l row(9) g disjI2 [OF conjI [OF refl ParseInt64_dec_of_int [OF assms(2)]]], of x k]
  show "\<exists>reply t cs. outcome (Execute [''INCRBY'', k, dec_of_int x] w) w reply t (d(k \<mapsto> (DInt m, 0))) cs
      \<and> (cs = [] \<or> cs = [[''INCRBY'', k, dec_of_int x]])"
    by (simp add: d assms(3)) blast
qed (simp add: plain_upd assms(1))

lemma dec_of_int_ok: "int64_range x \<Longrightarrow> bulk_ok (dec_of_int x)"
proof -
  assume x: "int64_range x"
  have "length (dec_of_nat n) \<le> 19" if "n \<le> 9223372036854775808" for n
    by (rule dec_of_nat_length_le) (use that in simp_all)
  moreover have "nat \<bar>x\<bar> \<le> 9223372036854775808" using x by (auto simp: int64_range_def)
  ultimately have "length (dec_of_nat (nat \<bar>x\<bar>)) \<le> 19" by blast
  then show ?thesis by (auto simp: bulk_ok_def dec_of_int_def)
qed

lemma IncrBy_safe:
  assumes g: "w_good (n + length (c # args)) w" and h: "holds_db d w" "plain d" and ok: "args_ok (c # args)"
    and c: "ToLowerAscii c = name" "map_of kCommandTable name = Some (CmdIncrBy is_decr, b)"
  shows "safe (c # args) n d w"
proof -
  let ?o = "if length args = 2 then ParseInt64 (args ! 1) else Some 1"
  consider (bad) "length args \<noteq> 1 \<and> length args \<noteq> 2 \<or> ?o = None \<or> is_decr \<and> ?o = Some INT64_MIN"
    | (good) delta where "length args = 1 \<or> length args = 2" "?o = Some delta" "\<not> (is_decr \<and> delta = INT64_MIN)"
    by (cases ?o) auto
  then show ?thesis
  proof cases
    case bad
    have "\<exists>reply. CmdIncrBy is_decr (name # args) (bump w) = Some (reply, bump w)"
      using bad by (auto simp: CmdIncrBy_def split: option.splits)
    then show ?thesis using safe_row [OF g h c] by blast
  next
    case good
    define x where "x = (if is_decr then - delta else delta)"
    obtain k where k: "args = [k] \<and> delta = 1 \<or> (\<exists>s. args = [k, s] \<and> ParseInt64 s = Some delta)"
      using good by (cases args; cases "tl args") auto
    then have "int64_range delta" by (auto simp: int64_range_def dest: ParseInt64_range)
    then have x: "int64_range x" using good(3) by (auto simp: x_def intro: int64_range_neg)
    have m: "outcome (Execute (c # args) w) w
       (case fst (db_incr k x d) of None \<Rightarrow> ReplyNotInt | Some m \<Rightarrow> EncodeInteger m []) (now_of w) (snd (db_incr k x d))
       (if fst (db_incr k x d) = None then [] else [[''INCRBY'', k, dec_of_int x]])"
      using k IncrBy_meaning [OF c g _ good(3) x_def] holds_dbD(1) [OF h(1)] by blast
    from db_incr_plain [OF h(2), of k x] show ?thesis
    proof (elim disjE conjE exE)
      assume "fst (db_incr k x d) = None" "snd (db_incr k x d) = d"
      with m show ?thesis by (intro safe_same [OF g _ h(2)]) simp
    next
      fix q assume q: "db_incr k x d = (Some q, d(k \<mapsto> (DInt q, 0)))"
      with m have o: "outcome (Execute (c # args) w) w (EncodeInteger q []) (now_of w) (d(k \<mapsto> (DInt q, 0))) [[''INCRBY'', k, dec_of_int x]]"
        by simp
      have "args_ok [''INCRBY'', k, dec_of_int x]" using ok k dec_of_int_ok [OF x] by (auto simp: args_ok_def bulk_ok_def)
      then show ?thesis using incr_logged [OF h(2) x q] k by (intro safeI [OF g o plain_upd [OF h(2)]]) auto
    qed
  qed
qed

lemma del_logged:
  assumes "plain d" "ks \<noteq> []"
  shows "sets_to (''del'' # ks) d (\<lambda>k. if k \<in> set ks then None else d k)"
proof (rule sets_toI)
  fix n w assume g: "w_good (n + length (''del'' # ks)) w" and d: "dnow w = d"
  have "ToLowerAscii ''del'' = ''del''" by code_simp
  from Del_meaning [OF this g assms(2)] obtain m where
    "outcome (Execute (''del'' # ks) w) w (EncodeInteger (int m) []) (now_of w) (\<lambda>k. if k \<in> set ks then None else d k)
       (if m > 0 then [''del'' # ks] else [])" unfolding d by blast
  then show "\<exists>reply t cs. outcome (Execute (''del'' # ks) w) w reply t (\<lambda>k. if k \<in> set ks then None else d k) cs
      \<and> (cs = [] \<or> cs = [''del'' # ks])" by (intro exI conjI) (assumption, simp)
qed (rule plain_del [OF assms(1)])

lemma Del_safe:
  assumes g: "w_good (n + length (c # args)) w" and h: "holds_db d w" "plain d" and ok: "args_ok (c # args)"
    and c: "ToLowerAscii c = ''del''"
  shows "safe (c # args) n d w"
proof (cases "args = []")
  case True
  show ?thesis by (rule safe_row [OF g h c row(5)]) (use True in \<open>simp add: CmdDel_def\<close>)
next
  case False
  let ?d = "\<lambda>k. if k \<in> set args then None else d k"
  from Del_meaning [OF c g False] obtain m where m: "card {k \<in> set args. d k \<noteq> None} \<le> m"
    "outcome (Execute (c # args) w) w (EncodeInteger (int m) []) (now_of w) ?d (if m > 0 then [''del'' # args] else [])"
    unfolding holds_dbD(1) [OF h(1)] by blast
  show ?thesis
  proof (cases "m = 0")
    case True
    with m(1) have "card {k \<in> set args. d k \<noteq> None} = 0" by simp
    then have "{k \<in> set args. d k \<noteq> None} = {}" by (subst (asm) card_0_eq) auto
    then have "\<forall>k\<in>set args. d k = None" by blast
    then have "?d k = d k" for k by simp
    then have "?d = d" by (rule ext)
    with m(2) True show ?thesis by (intro safe_same [OF g _ h(2)]) simp
  next
    case mp: False
    with m(2) have o: "outcome (Execute (c # args) w) w (EncodeInteger (int m) []) (now_of w) ?d [''del'' # args]" by simp
    have "args_ok (''del'' # args)" using ok by (simp add: args_ok_def bulk_ok_def)
    then show ?thesis using del_logged [OF h(2) False] by (intro safeI [OF g o plain_del(1) [OF h(2)]]) auto
  qed
qed

subsection \<open>Ordered sets\<close>

lemma zadd_logged:
  assumes "plain d" "zbase (d k) = Some (f, 0)" "is_double r"
  shows "sets_to [''ZADD'', k, ZScoreToString (Fin r), m] d (d(k \<mapsto> (DSet (f(m \<mapsto> Fin r)), 0)))"
proof (rule sets_toI)
  let ?c = "[''ZADD'', k, ZScoreToString (Fin r), m]"
  fix n w assume g: "w_good (n + length ?c) w" and d: "dnow w = d"
  have l: "ToLowerAscii ''ZADD'' = ''zadd''" by code_simp
  have p: "parse_pairs [ZScoreToString (Fin r), m] = Some [(Fin r, m)]" using score_text_ok [OF assms(3)] by simp
  have z: "zbase (dnow w k) = Some (f, 0)" using assms(2) d by simp
  from ZAdd_meaning [OF l g _ _ _ p z]
  show "\<exists>reply t cs. outcome (Execute ?c w) w reply t (d(k \<mapsto> (DSet (f(m \<mapsto> Fin r)), 0))) cs \<and> (cs = [] \<or> cs = [?c])"
    by (simp add: d zadd_all_def) blast
qed (simp add: plain_upd assms(1))

lemma zadd_leads:
  assumes "plain d" "zbase (d k) = Some (f, 0)" "\<forall>(s, m)\<in>set ps. \<exists>r. s = Fin r \<and> is_double r" "ps \<noteq> []"
  shows "leads (map (\<lambda>(s, m). [''ZADD'', k, ZScoreToString s, m]) ps) d (d(k \<mapsto> (DSet (zadd_all ps f), 0)))"
  using assms
proof (induction ps arbitrary: d f)
  case (Cons p ps)
  obtain s m where p: "p = (s, m)" by (cases p) auto
  with Cons.prems(3) obtain r where r: "s = Fin r" "is_double r" by auto
  let ?d = "d(k \<mapsto> (DSet (f(m \<mapsto> Fin r)), 0))"
  have one: "sets_to [''ZADD'', k, ZScoreToString s, m] d ?d" unfolding r(1) by (rule zadd_logged [OF Cons.prems(1,2) r(2)])
  have all: "zadd_all (p # ps) f = zadd_all ps (f(m \<mapsto> Fin r))" by (simp add: zadd_all_def p r(1))
  show ?case
  proof (cases "ps = []")
    case True
    then show ?thesis using one r(1) by (simp add: p zadd_all_def fun_upd_def)
  next
    case False
    have "zbase (?d k) = Some (f(m \<mapsto> Fin r), 0)" by (simp add: zbase_def)
    moreover have "plain ?d" by (rule plain_upd [OF Cons.prems(1)]) simp
    moreover have "\<forall>(s, m)\<in>set ps. \<exists>r. s = Fin r \<and> is_double r" using Cons.prems(3) by simp
    ultimately have "leads (map (\<lambda>(s, m). [''ZADD'', k, ZScoreToString s, m]) ps) ?d (?d(k \<mapsto> (DSet (zadd_all ps (f(m \<mapsto> Fin r))), 0)))"
      using Cons.IH False by blast
    then show ?thesis unfolding all fun_upd_upd using one p by (simp only: list.map case_prod_conv leads.simps) blast
  qed
qed simp

lemma zbase_plain: "plain d \<Longrightarrow> zbase (d k) = None \<or> (\<exists>f. zbase (d k) = Some (f, 0))"
  by (auto simp: zbase_def dest: plainD(1) split: option.splits dval.splits)

lemma zadd_all_nonempty: "ps \<noteq> [] \<Longrightarrow> zadd_all ps f \<noteq> Map.empty"
proof (induction ps rule: rev_induct)
  case (snoc p ps)
  obtain s m where "p = (s, m)" by (cases p)
  then have "zadd_all (ps @ [p]) f m = Some s" by (simp add: zadd_all_def)
  then show ?case by auto
qed simp

lemma ZAdd_safe:
  assumes g: "w_good (n + length (c # args)) w" and h: "holds_db d w" "plain d" and ok: "args_ok (c # args)"
    and c: "ToLowerAscii c = ''zadd''" and s: "parse_pairs (drop 1 args) \<noteq> None"
  shows "safe (c # args) n d w"
proof (cases "length (c # args) < 4 \<or> length (c # args) mod 2 \<noteq> 0")
  case True
  show ?thesis by (rule safe_row [OF g h c row(21)]) (use True in \<open>simp add: CmdZAdd_def\<close>)
next
  case False
  then obtain k as where args: "args = k # as" by (cases args) auto
  have as: "as \<noteq> []" "even (length as)" using False by (auto simp: args)
  obtain ps where ps: "parse_pairs as = Some ps" using s by (auto simp: args)
  have len: "length ps \<le> length as" by (rule parse_pairs_length [OF ps])
  have ne: "ps \<noteq> []" using as ps by (cases as; cases "tl as") (auto split: option.splits)
  have scores: "\<forall>(s, m)\<in>set ps. \<exists>r. s = Fin r \<and> is_double r" using parse_pairs_scores [OF ps] by fast
  from zbase_plain [OF h(2), of k] show ?thesis
  proof (elim disjE exE)
    assume "zbase (d k) = None"
    with write_wrong_type(1) [OF g _ c as, of k] holds_dbD(1) [OF h(1)] show ?thesis
      unfolding args by (intro safe_same [OF g [unfolded args] _ h(2)]) auto
  next
    fix f assume z: "zbase (d k) = Some (f, 0)"
    let ?cs = "map (\<lambda>(s, m). [''ZADD'', k, ZScoreToString s, m]) ps"
    have "length as \<le> n + length (c # args)" by (simp add: args)
    note o = ZAdd_meaning [OF c g this as ps, of k, unfolded holds_dbD(1) [OF h(1)], OF z]
    have "list_all args_ok ?cs"
    proof -
      have "args_ok [''ZADD'', k, ZScoreToString s, m]" if "(s, m) \<in> set ps" for s m
      proof -
        from parse_pairs_scores [OF ps that] obtain r where r: "s = Fin r" "is_double r" "m \<in> set as" by blast
        have "length (ZScoreToString s) < 64" using score_text_ok [OF r(2)] r(1) by simp
        then show ?thesis using ok r(3) by (auto simp: args_ok_def bulk_ok_def args list_all_iff)
      qed
      then show ?thesis by (auto simp: list_all_iff)
    qed
    moreover have "cost ?cs \<le> 4 * length (c # args)"
    proof -
      have "cost ?cs = 4 * length ps" by (induction ps) auto
      then show ?thesis using len by (simp add: args)
    qed
    moreover have "plain (d(k \<mapsto> (DSet (zadd_all ps f), 0)))" by (rule plain_upd [OF h(2)]) (use zadd_all_nonempty [OF ne] in simp)
    ultimately show ?thesis
      using zadd_leads [OF h(2) z scores ne] unfolding args by (intro safeI [OF g [unfolded args] o [unfolded args]])
  qed
qed

lemma zincr_logged:
  assumes "plain d" "zbase (d k) = Some (f, 0)" "ParseZScore s = Some x"
  shows "sets_to [''zincrby'', k, s, m] d (d(k \<mapsto> (DSet (f(m \<mapsto> incr_score f m x)), 0)))"
proof (rule sets_toI)
  let ?c = "[''zincrby'', k, s, m]"
  fix n w assume g: "w_good (n + length ?c) w" and d: "dnow w = d"
  have l: "ToLowerAscii ''zincrby'' = ''zincrby''" by code_simp
  have z: "zbase (dnow w k) = Some (f, 0)" using assms(2) d by simp
  from ZIncrBy_meaning [OF l g _ assms(3) z, of m]
  show "\<exists>reply t cs. outcome (Execute ?c w) w reply t (d(k \<mapsto> (DSet (f(m \<mapsto> incr_score f m x)), 0))) cs \<and> (cs = [] \<or> cs = [?c])"
    by (simp add: d) blast
qed (simp add: plain_upd assms(1))

lemma ZIncrBy_safe:
  assumes g: "w_good (n + length (c # args)) w" and h: "holds_db d w" "plain d" and ok: "args_ok (c # args)"
    and c: "ToLowerAscii c = ''zincrby''"
  shows "safe (c # args) n d w"
proof (cases "length args = 3 \<and> ParseZScore (args ! 1) \<noteq> None")
  case False
  then have "\<exists>reply. CmdZIncrBy (''zincrby'' # args) (bump w) = Some (reply, bump w)"
    by (auto simp: CmdZIncrBy_def)
  then show ?thesis using safe_row [OF g h c row(24)] by blast
next
  case True
  then obtain k s m x where args: "args = [k, s, m]" and x: "ParseZScore s = Some x"
    by (cases args; cases "tl args"; cases "tl (tl args)") auto
  from zbase_plain [OF h(2), of k] show ?thesis
  proof (elim disjE exE)
    assume "zbase (d k) = None"
    with write_wrong_type(2) [OF g _ c x, of k m] holds_dbD(1) [OF h(1)] show ?thesis
      unfolding args by (intro safe_same [OF g [unfolded args] _ h(2)]) auto
  next
    fix f assume z: "zbase (d k) = Some (f, 0)"
    have "0 < n + length (c # args)" by simp
    note o = ZIncrBy_meaning [OF c g this x, of k, unfolded holds_dbD(1) [OF h(1)], OF z, of m]
    have "args_ok [''zincrby'', k, s, m]" using ok by (simp add: args_ok_def bulk_ok_def args)
    moreover have "plain (d(k \<mapsto> (DSet (f(m \<mapsto> incr_score f m x)), 0)))" by (rule plain_upd [OF h(2)]) simp
    ultimately show ?thesis
      using zincr_logged [OF h(2) z x, of m] unfolding args by (intro safeI [OF g [unfolded args] o]) auto
  qed
qed

definition zrem_db :: "string \<Rightarrow> (string \<rightharpoonup> score) \<Rightarrow> ddb \<Rightarrow> ddb" where
  "zrem_db k f d = (if f = Map.empty then d(k := None) else d(k \<mapsto> (DSet f, 0)))"

lemma plain_zrem: "plain d \<Longrightarrow> plain (zrem_db k f d)"
  by (simp add: zrem_db_def plain_upd plain_del)

lemma zrem_logged:
  assumes "plain d" "d k = Some (DSet f, 0)" "ms \<noteq> []"
  shows "sets_to (''zrem'' # k # ms) d (zrem_db k (zdrop ms f) d)"
proof (rule sets_toI)
  let ?c = "''zrem'' # k # ms"
  fix n w assume g: "w_good (n + length ?c) w" and d: "dnow w = d"
  have l: "ToLowerAscii ''zrem'' = ''zrem''" by code_simp
  from ZRem_meaning [OF l g assms(3) _ refl refl, of k f 0] assms(2)
  show "\<exists>reply t cs. outcome (Execute ?c w) w reply t (zrem_db k (zdrop ms f) d) cs \<and> (cs = [] \<or> cs = [?c])"
    unfolding zrem_db_def d by (intro exI conjI) (assumption, simp)
qed (rule plain_zrem [OF assms(1)])

lemma ZRem_safe:
  assumes g: "w_good (n + length (c # args)) w" and h: "holds_db d w" "plain d" and ok: "args_ok (c # args)"
    and c: "ToLowerAscii c = ''zrem''"
  shows "safe (c # args) n d w"
proof (cases "length args < 2")
  case True
  show ?thesis by (rule safe_row [OF g h c row(31)]) (use True in \<open>simp add: CmdZRem_def\<close>)
next
  case False
  then obtain k ms where args: "args = k # ms" "ms \<noteq> []" by (cases args; cases "tl args") auto
  show ?thesis
  proof (cases "\<exists>f. d k = Some (DSet f, 0)")
    case False
    then have "dnow w k \<noteq> Some (DSet f, dl)" for f dl using plainD(1) [OF h(2), of k] holds_dbD(1) [OF h(1)] by auto
    from ZRem_missing [OF c g args(2) this] holds_dbD(1) [OF h(1)] show ?thesis
      unfolding args(1) by (intro safe_same [OF g [unfolded args(1)] _ h(2)]) simp
  next
    case True
    then obtain f where f: "d k = Some (DSet f, 0)" by blast
    then have fd: "dnow w k = Some (DSet f, 0)" using holds_dbD(1) [OF h(1)] by simp
    note o = ZRem_meaning [OF c g args(2) fd refl refl, unfolded holds_dbD(1) [OF h(1)], folded zrem_db_def]
    show ?thesis
    proof (cases "card (set ms \<inter> dom f) = 0")
      case 0: True
      then have "set ms \<inter> dom f = {}" by (subst (asm) card_0_eq) auto
      then have "zdrop ms f m = f m" for m unfolding zdrop_def by (auto simp: disjoint_iff domIff)
      then have "zdrop ms f = f" by (rule ext)
      moreover have "f \<noteq> Map.empty" using plainD(2) [OF h(2) f] .
      ultimately have "zrem_db k (zdrop ms f) d = d" using f by (simp add: zrem_db_def fun_upd_idem)
      with o 0 show ?thesis unfolding args(1) by (intro safe_same [OF g [unfolded args(1)] _ h(2)]) simp
    next
      case pos: False
      then have p: "0 < card (set ms \<inter> dom f)" by (simp only: neq0_conv)
      note o1 = o [unfolded if_P [OF p]]
      have "args_ok (''zrem'' # k # ms)" using ok by (simp add: args_ok_def bulk_ok_def args)
      then show ?thesis using zrem_logged [OF h(2) f args(2)] unfolding args(1)
        by (intro safeI [OF g [unfolded args(1)] o1 plain_zrem [OF h(2)]]) auto
    qed
  qed
qed

subsection \<open>Every request\<close>

definition time_names :: "string set" where
  "time_names = {''expire'', ''pexpire'', ''pexpireat'', ''flushall''}"

text \<open>A request that involves no time: no expiry command, no \<open>FLUSHALL\<close>, no expiry option of \<open>SET\<close>;
  and no \<open>ZADD\<close> with an invalid score, which creates an empty set and does not log it.\<close>

definition timeless :: "string list \<Rightarrow> bool" where
  "timeless args \<longleftrightarrow>
     (let name = ToLowerAscii (hd args) in
      name \<notin> time_names
      \<and> (name = ''set'' \<longrightarrow> list_all untimed_option (drop 3 args))
      \<and> (name = ''zadd'' \<longrightarrow> parse_pairs (drop 2 args) \<noteq> None))"

definition data_names :: "string set" where
  "data_names = {''set'', ''del'', ''incr'', ''decr'', ''incrby'', ''decrby'', ''zadd'', ''zincrby'', ''zrem''}"

lemma write_names: "map_of kCommandTable name = Some (h, True) \<Longrightarrow> name \<in> time_names \<union> data_names"
  by (drule map_of_SomeD) (auto simp: kCommandTable_def time_names_def data_names_def)

lemma safe_request:
  assumes g: "w_good (n + length args) w" and h: "holds_db d w" "plain d" and ok: "args_ok args" and t: "timeless args"
  shows "safe args n d w"
proof -
  obtain c as where args: "args = c # as" using ok by (cases args) (auto simp: args_ok_def)
  note g = g [unfolded args] and ok = ok [unfolded args]
  obtain name where c: "ToLowerAscii c = name" by blast
  have t: "name \<notin> time_names"
    "name = ''set'' \<Longrightarrow> list_all untimed_option (drop 2 as)" "name = ''zadd'' \<Longrightarrow> parse_pairs (drop 1 as) \<noteq> None"
    using t by (simp_all add: timeless_def args c Let_def)
  show ?thesis unfolding args
  proof (cases "map_of kCommandTable name")
    case None
    have "outcome (Execute (c # as) w) w (ReplyError (''ERR unknown command '' @ [CHR 0x27] @ c @ [CHR 0x27])) (now_of w) d []"
      using None holds_dbD(1) [OF h(1)] by (auto simp: Execute_def c Let_def outcome_def logs_def)
    from safe_same [OF g this h(2)] show "safe (c # as) n d w" .
  next
    case (Some hb)
    obtain hd b where hb: "hb = (hd, b)" by (cases hb) auto
    show "safe (c # as) n d w"
    proof (cases b)
      case False
      with Some hb have r: "map_of kCommandTable name = Some (hd, False)" by simp
      have "w_good (n + length (c # as)) (bump w)" using g by simp
      from reads_answer [OF r this, of "name # as", unfolded answers_def] obtain reply u where
        o: "outcome (hd (name # as) (bump w)) (bump w) reply u (db u (w_store w)) []" "now_of w \<le> u"
        by auto
      have "db u (w_store w) = d" by (rule holds_dbD(2) [OF h(1) o(2)])
      with o(1) have "outcome (Execute (c # as) w) w reply u d []" by (intro outcome_row [OF c r]) simp
      from safe_same [OF g this h(2)] show ?thesis .
    next
      case True
      with Some hb have "map_of kCommandTable name = Some (hd, True)" by simp
      from write_names [OF this] t(1) have "name \<in> data_names" by blast
      then show ?thesis unfolding data_names_def
      proof (elim insertE)
        assume "name = ''set''" then show ?thesis using Set_safe [OF g h _ _ ok] c t(2) by blast
      next
        assume "name = ''del''" then show ?thesis using Del_safe [OF g h ok] c by blast
      next
        assume "name = ''incr''" then show ?thesis using IncrBy_safe [OF g h ok c] row(7) by (simp add: CmdIncr_def)
      next
        assume "name = ''decr''" then show ?thesis using IncrBy_safe [OF g h ok c] row(8) by (simp add: CmdDecr_def)
      next
        assume "name = ''incrby''" then show ?thesis using IncrBy_safe [OF g h ok c] row(9) by simp
      next
        assume "name = ''decrby''" then show ?thesis using IncrBy_safe [OF g h ok c] row(10) by (simp add: CmdDecrBy_def)
      next
        assume "name = ''zadd''" then show ?thesis using ZAdd_safe [OF g h ok] c t(3) by blast
      next
        assume "name = ''zincrby''" then show ?thesis using ZIncrBy_safe [OF g h ok] c by blast
      next
        assume "name = ''zrem''" then show ?thesis using ZRem_safe [OF g h ok] c by blast
      qed simp
    qed
  qed
qed

subsection \<open>Histories\<close>

text \<open>What the file sees of a stretch of execution: \<open>es\<close> are its events.\<close>

definition file_run :: "aof_event list \<Rightarrow> world \<Rightarrow> world \<Rightarrow> bool" where
  "file_run es w w' \<longleftrightarrow> (w_aof w', w_disk w') = aof_run es (w_aof w, w_disk w)"

lemma file_run_logs: "logs cs w w' = file_run (map EvAppend cs) w w'"
  by (simp add: logs_def file_run_def)

lemma file_run_trans: "file_run es w w1 \<Longrightarrow> file_run es' w1 w2 \<Longrightarrow> file_run (es @ es') w w2"
  by (simp add: file_run_def aof_run_append)

lemma appended_map [simp]: "appended (map EvAppend cs) = cs"
  by (induction cs) auto

lemma leads_append: "leads (cs @ cs') d d' \<longleftrightarrow> (\<exists>d1. leads cs d d1 \<and> leads cs' d1 d')"
  by (induction cs arbitrary: d) auto

lemma cost_append [simp]: "cost (cs @ cs') = cost cs + cost cs'"
  by (simp add: cost_def)

text \<open>The commands of a chain, replayed.\<close>

lemma leads_replay:
  "leads cs d d' \<Longrightarrow> w_good (n + cost cs) w \<Longrightarrow> holds_db d w \<Longrightarrow> \<exists>w'. Replay cs w = Some w' \<and> w_good n w' \<and> holds_db d' w'"
proof (induction cs arbitrary: d w)
  case (Cons c cs)
  from Cons.prems(1) obtain d1 where d1: "sets_to c d d1" "leads cs d1 d'" by auto
  have "w_good (n + cost cs + length c) w" using Cons.prems(2) by (simp add: ac_simps)
  with d1(1) Cons.prems(3) obtain reply w1 where w1: "Execute c w = Some (reply, w1)" "w_good (n + cost cs) w1" "holds_db d1 w1"
    unfolding sets_to_def by blast
  from Cons.IH [OF d1(2) w1(2,3)] w1(1) show ?case by simp
qed auto

lemma BackgroundTick_safe:
  assumes g: "w_good n w" and h: "holds_db d w"
  shows "w_good n (BackgroundTick w)" "holds_db d (BackgroundTick w)" "file_run [] w (BackgroundTick w)"
proof -
  obtain k w1 where t: "timed (\<lambda>now st. ExpireCycle now st) w = (k, w1)"
    by (cases "timed (\<lambda>now st. ExpireCycle now st) w") auto
  note tf = timed_fields [OF t]
  note c = ExpireCycle_ok [OF w_goodD(2) [OF g] tf(1)]
  have hp: "zheap (w_store w1) = zheap (w_store w)" "znext (w_store w1) = znext (w_store w)"
    using arg_cong [where f = "\<lambda>x. zheap (snd x)", OF tf(1)] arg_cong [where f = "\<lambda>x. znext (snd x)", OF tf(1)]
    by (simp_all add: ExpireCycle_def Let_def)
  have "good n (w_store w1)" using c hp by (intro good_shrink [OF w_goodD(1) [OF g]]) auto
  then have g1: "w_good n w1" using g tf(2) by (auto simp: w_good_def intro: clock_shift)
  have d: "db u (w_store w1) = d" if "now_of w1 \<le> u" for u
  proof -
    have "now_of w \<le> u" using timed_past [OF g t] that by simp
    then show ?thesis using c hp holds_dbD(2) [OF h] by (simp add: db_def)
  qed
  have "BackgroundTick w = w1 \<or> (\<exists>s. BackgroundTick w = w1\<lparr>w_stats := s\<rparr>)" using t by (auto simp: BackgroundTick_def)
  then show "w_good n (BackgroundTick w)" "holds_db d (BackgroundTick w)" "file_run [] w (BackgroundTick w)"
    using g1 d tf(3,4) by (auto simp: holds_db_def file_run_def)
qed

lemma FlushTick_safe:
  assumes "w_good n w" "holds_db d w"
  shows "w_good n (FlushTick w)" "holds_db d (FlushTick w)" "\<exists>es. file_run es w (FlushTick w) \<and> appended es = []"
proof -
  show "w_good n (FlushTick w)" "holds_db d (FlushTick w)" using assms by (auto simp: FlushTick_def holds_db_def split: prod.splits)
  show "\<exists>es. file_run es w (FlushTick w) \<and> appended es = []"
  proof (cases "af_open (w_aof w)")
    case True
    have "file_run [EvFlush] w (FlushTick w)" using True by (simp add: file_run_def FlushTick_def split: prod.splits)
    then show ?thesis by fastforce
  next
    case False
    have "file_run [] w (FlushTick w)" using False by (simp add: file_run_def FlushTick_def)
    then show ?thesis by fastforce
  qed
qed

lemma serve_safe:
  "w_good (n + cost (requests es)) w \<Longrightarrow> holds_db d w \<Longrightarrow> plain d \<Longrightarrow>
     list_all (\<lambda>args. args_ok args \<and> timeless args) (requests es) \<Longrightarrow>
   \<exists>w' evs d'. serve_events es w = Some w' \<and> w_good n w' \<and> holds_db d' w' \<and> plain d' \<and> file_run evs w w'
     \<and> leads (appended evs) d d' \<and> list_all args_ok (appended evs) \<and> cost (appended evs) \<le> 4 * cost (requests es)"
proof (induction es arbitrary: w d)
  case Nil
  then show ?case by (auto simp: file_run_def intro!: exI [of _ "[]"])
next
  case (Cons e es)
  have "\<exists>w1 evs1 d1. serve_event e w = Some w1 \<and> w_good (n + cost (requests es)) w1 \<and> holds_db d1 w1 \<and> plain d1 \<and> file_run evs1 w w1
     \<and> leads (appended evs1) d d1 \<and> list_all args_ok (appended evs1) \<and> cost (appended evs1) \<le> 4 * cost (requests [e])"
  proof (cases e)
    case (Request args)
    have "w_good (n + cost (requests es) + length args) w" using Cons.prems(1) by (simp add: Request ac_simps)
    from safe_request [OF this Cons.prems(2,3)] Cons.prems(4) Request have "safe args (n + cost (requests es)) d w" by simp
    then obtain reply w1 cs d1 where s: "Execute args w = Some (reply, w1)" "w_good (n + cost (requests es)) w1" "holds_db d1 w1" "plain d1"
      "logs cs w w1" "leads cs d d1" "list_all args_ok cs" "cost cs \<le> 4 * length args" unfolding safe_def by blast
    then show ?thesis unfolding file_run_logs using Request
      by (intro exI [of _ w1] exI [of _ "map EvAppend cs"] exI [of _ d1]) simp
  next
    case Flush
    have g: "w_good (n + cost (requests es)) w" using Cons.prems(1) by (simp add: Flush)
    from FlushTick_safe [OF g Cons.prems(2)] obtain ev where "file_run ev w (FlushTick w)" "appended ev = []" by blast
    with FlushTick_safe [OF g Cons.prems(2)] Flush Cons.prems(3) show ?thesis by (intro exI [of _ "FlushTick w"] exI [of _ ev] exI [of _ d]) simp
  next
    case Cycle
    have g: "w_good (n + cost (requests es)) w" using Cons.prems(1) by (simp add: Cycle)
    from BackgroundTick_safe [OF g Cons.prems(2)] Cycle Cons.prems(3) show ?thesis
      by (intro exI [of _ "BackgroundTick w"] exI [of _ "[]"] exI [of _ d]) simp
  qed
  then obtain w1 evs1 d1 where 1: "serve_event e w = Some w1" "w_good (n + cost (requests es)) w1" "holds_db d1 w1" "plain d1"
    "file_run evs1 w w1" "leads (appended evs1) d d1" "list_all args_ok (appended evs1)" "cost (appended evs1) \<le> 4 * cost (requests [e])"
    by blast
  have "list_all (\<lambda>args. args_ok args \<and> timeless args) (requests es)" using Cons.prems(4) by (cases e) auto
  from Cons.IH [OF 1(2-4) this] obtain w2 evs2 d2 where 2: "serve_events es w1 = Some w2" "w_good n w2" "holds_db d2 w2" "plain d2"
    "file_run evs2 w1 w2" "leads (appended evs2) d1 d2" "list_all args_ok (appended evs2)" "cost (appended evs2) \<le> 4 * cost (requests es)"
    by blast
  have req: "cost (requests (e # es)) = cost (requests [e]) + cost (requests es)" by (cases e) auto
  have "leads (appended (evs1 @ evs2)) d d2" using 1(6) 2(6) by (auto simp: appended_append leads_append)
  with 1 2 req file_run_trans [OF 1(5) 2(5)] show ?case
    by (intro exI [of _ w2] exI [of _ "evs1 @ evs2"] exI [of _ d2]) (simp add: appended_append)
qed

end
