(* ===== verification/Restart.thy ===== *)
theory Restart
  imports Recovery Command_Properties
begin

section \<open>Restarts of the whole server\<close>

text \<open>
  \<open>Server::Init\<close>, serving, \<open>Server::Shutdown\<close> and \<open>Server::Init\<close> again on the disk that is left: the
  composition of the configuration, the store, the commands and the log.  An accepted configuration
  is in the range for which the store can be built.
\<close>

subsection \<open>Init on a log\<close>

lemma config_ok_shards: "config_ok c \<Longrightarrow> cf_shard_count c \<le> 9223372036854775808"
  unfolding config_ok_def by (elim conjE) (erule order_trans, simp)

text \<open>The world in which \<open>Init\<close> replays: a new store, the file opened.\<close>

lemma Server_Init_replays_clock:
  assumes cfg: "config_ok cfg" "cf_aof_enabled cfg" and o: "can_open (w_disk w) (cf_aof_path cfg)"
    and c: "clock_ok (w_clock w)" and n: "n \<le> sl_max"
    and l: "Aof_LoadAll (cf_aof_path cfg) (w_disk w) = Some (cs, t)" "length cs < 2147483648"
  shows "\<exists>w0. w_good n w0 \<and> holds_db Map.empty w0 \<and> w_clock w0 = (\<lambda>i. w_clock w (Suc i)) \<and>
      (w_aof w0, w_disk w0) = snd (Aof_Open (cf_aof_path cfg) (cf_aof_policy cfg) (Aof_new, w_disk w)) \<and>
      (\<forall>w1. Replay cs w0 = Some w1 \<longrightarrow> (\<exists>s. Server_Init cfg hw w = Some (True, s) \<and> sv_world s = w1))"
proof -
  let ?p = "cf_aof_path cfg" and ?pol = "cf_aof_policy cfg" and ?d = "w_disk w"
  from good_init [OF config_ok_shards [OF cfg(1)]] obtain st where
    st: "Store_Init (cf_shard_count cfg) = Some st" "good 0 st" "lookup st = Map.empty" by blast
  then have g: "good n st" using n by (simp add: good_def zroom_def)
  define d1 where "d1 = ?d\<lparr>files := (files ?d)(?p \<mapsto> content ?d ?p)\<rparr>"
  define a1 where "a1 = Aof_new\<lparr>af_path := ?p, af_policy := ?pol, af_open := True, af_stdio := [],
    af_file_size := int (length (content ?d ?p))\<rparr>"
  have op: "Aof_Open ?p ?pol (Aof_new, ?d) = (True, a1, d1)"
    using o by (simp add: Aof_Open_def Aof_new_def a1_def d1_def content_def Let_def)
  have l1: "Aof_LoadAll ?p d1 = Some (cs, t)"
    using l(1) o by (auto simp: Aof_LoadAll_def d1_def content_def split: option.splits)
  obtain w1 where w1: "w1 = SetUptimeStart (w\<lparr>w_stats := stats_new\<rparr>)" by blast
  have f1: "w_aof w1 = w_aof w" "w_disk w1 = w_disk w" "w_clock w1 = (\<lambda>i. w_clock w (Suc i))"
    by (simp_all add: w1 SetUptimeStart_def NowMs_def)
  define pool where "pool = InitAndStart hw (cf_loop_count cfg) \<lparr>lp_subs = 0, lp_next = 0, lp_started = False\<rparr>"
  define w0 where "w0 = w1\<lparr>w_store := st, w_aof := a1, w_disk := d1,
    w_info := (w_info w1)\<lparr>si_version := ''1.0.0'', si_shard_count := unat (cf_shard_count cfg), si_loop_count := lp_subs pool\<rparr>\<rparr>"
  have i: "Server_Init cfg hw w = Some (True, s)" "sv_world s = w2"
    if r: "Replay cs w0 = Some w2" and s: "s = \<lparr>sv_config = cfg, sv_world = w2, sv_pool = pool,
      sv_manager = manager_new\<lparr>cm_checking := True\<rparr>, sv_flusher = True\<rparr>" for w2 s
  proof -
    have len: "sint (of_nat (length cs) :: 32 word) = int (length cs)"
      using l(2) by (simp add: signed_of_nat signed_take_bit_int_eq_self)
    have "LoadAof ?p w0 = Some (int (length cs), w2)" using l1 r len by (simp add: LoadAof_def w0_def)
    moreover have "w1\<lparr>w_store := st, w_aof := a1, w_disk := d1\<rparr>\<lparr>w_info := (w_info w1)\<lparr>si_version := ''1.0.0'',
        si_shard_count := unat (cf_shard_count cfg), si_loop_count := lp_subs pool\<rparr>\<rparr> = w0" by (simp add: w0_def)
    ultimately show "Server_Init cfg hw w = Some (True, s)"
      by (simp add: Server_Init_def st(1) cfg(2) op s f1 flip: w1 pool_def)
  qed (simp add: s)
  have "w_good n w0" using g c by (simp add: w0_def w_good_def f1 clock_shift)
  moreover have "holds_db Map.empty w0" using st(3) by (simp add: holds_db_def db_def w0_def absm_def vis_def fun_eq_iff)
  moreover have "(w_aof w0, w_disk w0) = snd (Aof_Open ?p ?pol (Aof_new, ?d))" by (simp add: op w0_def)
  moreover have "w_clock w0 = (\<lambda>i. w_clock w (Suc i))" by (simp add: w0_def f1)
  ultimately show ?thesis using i by blast
qed

lemma Server_Init_replays:
  assumes "config_ok cfg" "cf_aof_enabled cfg" "can_open (w_disk w) (cf_aof_path cfg)" "clock_ok (w_clock w)" "n \<le> sl_max"
    "Aof_LoadAll (cf_aof_path cfg) (w_disk w) = Some (cs, t)" "length cs < 2147483648"
  shows "\<exists>w0. w_good n w0 \<and> holds_db Map.empty w0 \<and>
      (w_aof w0, w_disk w0) = snd (Aof_Open (cf_aof_path cfg) (cf_aof_policy cfg) (Aof_new, w_disk w)) \<and>
      (\<forall>w1. Replay cs w0 = Some w1 \<longrightarrow> (\<exists>s. Server_Init cfg hw w = Some (True, s) \<and> sv_world s = w1))"
  using Server_Init_replays_clock [OF assms, of hw] by blast

lemma leads_args: "list_all args_ok cs \<Longrightarrow> length cs \<le> cost cs"
proof (induction cs)
  case (Cons c cs)
  then show ?case by (cases c) (auto simp: cost_def args_ok_def)
qed (simp add: cost_def)

text \<open>Starting on a log of commands that lead from the empty database to \<open>d\<close>.\<close>

lemma Server_Init_recovers:
  assumes cfg: "config_ok cfg" "cf_aof_enabled cfg" and o: "can_open (w_disk w) (cf_aof_path cfg)" and c: "clock_ok (w_clock w)"
    and l: "content (w_disk w) (cf_aof_path cfg) = concat (map enc cs)" "list_all args_ok cs" "leads cs Map.empty d"
    and n: "cost cs < 2147483648"
  shows "\<exists>s. Server_Init cfg hw w = Some (True, s) \<and> holds_db d (sv_world s)"
proof -
  have "prefix (content (w_disk w) (cf_aof_path cfg)) (concat (map enc cs))" by (simp add: l(1))
  from LoadAll_prefix [OF l(2) this o] l(1) have ld: "Aof_LoadAll (cf_aof_path cfg) (w_disk w) = Some (cs, 0)" by auto
  have "length cs < 2147483648" "cost cs \<le> sl_max" using leads_args [OF l(2)] n by simp_all
  from Server_Init_replays [OF cfg o c this(2) ld this(1), of hw] obtain w0 where
    w0: "w_good (cost cs) w0" "holds_db Map.empty w0"
      "\<And>w1. Replay cs w0 = Some w1 \<Longrightarrow> \<exists>s. Server_Init cfg hw w = Some (True, s) \<and> sv_world s = w1" by blast
  have "w_good (0 + cost cs) w0" using w0(1) by simp
  from leads_replay [OF l(3) this w0(2)] w0(3) show ?thesis by blast
qed

text \<open>Starting on an empty log and serving.\<close>

lemma first_run:
  assumes cfg: "config_ok cfg" "cf_aof_enabled cfg" and o: "can_open (w_disk w) (cf_aof_path cfg)" and h: "healthy (w_disk w)"
    and c: "clock_ok (w_clock w)" and e: "content (w_disk w) (cf_aof_path cfg) = []"
    and es: "list_all (\<lambda>a. args_ok a \<and> timeless a) (requests es)" "4 * cost (requests es) < 2147483648"
  shows "\<exists>s w1 d evs. Server_Init cfg hw w = Some (True, s) \<and> serve_events es (sv_world s) = Some w1 \<and> holds_db d w1
    \<and> (w_aof w1, w_disk w1) = aof_run evs (snd (Aof_Open (cf_aof_path cfg) (cf_aof_policy cfg) (Aof_new, w_disk w)))
    \<and> leads (appended evs) Map.empty d \<and> list_all args_ok (appended evs) \<and> cost (appended evs) < 2147483648"
proof -
  have ld: "Aof_LoadAll (cf_aof_path cfg) (w_disk w) = Some ([], 0)"
    using e o by (auto simp: Aof_LoadAll_def content_def split: option.splits)
  have "cost (requests es) \<le> sl_max" using es(2) by simp
  from Server_Init_replays [OF cfg o c this ld, of hw] obtain w0 s where
    w0: "w_good (cost (requests es)) w0" "holds_db Map.empty w0" "Server_Init cfg hw w = Some (True, s)" "sv_world s = w0"
      "(w_aof w0, w_disk w0) = snd (Aof_Open (cf_aof_path cfg) (cf_aof_policy cfg) (Aof_new, w_disk w))" by auto
  have "w_good (0 + cost (requests es)) w0" using w0(1) by simp
  from serve_safe [OF this w0(2) _ es(1)] obtain w1 evs d where
    "serve_events es w0 = Some w1" "holds_db d w1" "file_run evs w0 w1" "leads (appended evs) Map.empty d"
    "list_all args_ok (appended evs)" and n: "cost (appended evs) \<le> 4 * cost (requests es)" by (auto simp: plain_def)
  moreover note order_le_less_trans [OF n es(2)]
  ultimately show ?thesis using w0(3-5) unfolding file_run_def
    by (intro exI [of _ s] exI [of _ w1] exI [of _ d] exI [of _ evs]) simp
qed

lemma Aof_Open_fresh:
  assumes "can_open d p" "healthy d" "content d p = []"
  shows "af_open (fst (snd (Aof_Open p pol (Aof_new, d))))" "healthy (snd (snd (Aof_Open p pol (Aof_new, d))))"
    "aof_log (snd (Aof_Open p pol (Aof_new, d))) = []" "af_path (fst (snd (Aof_Open p pol (Aof_new, d)))) = p"
    "can_open (snd (snd (Aof_Open p pol (Aof_new, d)))) = can_open d"
  using assms by (simp_all add: Aof_Open_def Aof_new_def healthy_def aof_log_def content_def Let_def)

lemma Shutdown_log:
  assumes o: "af_open (w_aof (sv_world s))" and h: "healthy (w_disk (sv_world s))"
  defines "d \<equiv> power_fail (w_disk (sv_world (Server_Shutdown s)))"
  shows "content d (af_path (w_aof (sv_world s))) = aof_log (w_aof (sv_world s), w_disk (sv_world s))"
    "can_open d = can_open (w_disk (sv_world s))"
proof -
  let ?ad = "(w_aof (sv_world s), w_disk (sv_world s))"
  let ?y = "Aof_SyncNow ?ad"
  have "af_open (fst ?ad)" "healthy (snd ?ad)" using o h by simp_all
  note sy = Aof_SyncNow_ok [OF this]
  have g: "af_open (fst ?y)" "af_path (fst ?y) = af_path (w_aof (sv_world s))" "can_open (snd ?y) = can_open (w_disk (sv_world s))"
    using sy(1) o by (simp_all add: grows_def)
  have b: "af_buffer (fst ?y) = []" "af_stdio (fst ?y) = []" using sy(2,3) by (simp_all add: aof_log_def [of ?y])
  have cl: "Aof_Close ?y = fclose (FsyncFile (fflush ?y))" using g(1) b(1) by (simp add: Aof_Close_def)
  have d: "d = power_fail (snd (Aof_Close ?y))"
    using o by (simp add: d_def Server_Shutdown_def CloseAll_def SetCurrentConnections_def Let_def case_prod_beta)
  show "content d (af_path (w_aof (sv_world s))) = aof_log ?ad"
    using Aof_Close_ok [OF g(1) refl] b sy(2) g(2) by (simp add: d power_fail_def content_def)
  show "can_open d = can_open (w_disk (sv_world s))"
    using g(3) by (simp add: d cl power_fail_def fclose_def fflush_def FsyncFile_def case_prod_beta)
qed

subsection \<open>The data survives\<close>

text \<open>Two servers hold the same data: at any times from now on, the same keys with the same values.\<close>

definition same_data :: "world \<Rightarrow> world \<Rightarrow> bool" where
  "same_data w1 w2 \<longleftrightarrow> (\<forall>u1\<ge>now_of w1. \<forall>u2\<ge>now_of w2. db u1 (w_store w1) = db u2 (w_store w2))"

lemma holds_db_same: "holds_db d w1 \<Longrightarrow> holds_db d w2 \<Longrightarrow> same_data w1 w2"
  by (simp add: holds_db_def same_data_def)

text \<open>What a server of \<open>first_run\<close> has in its file.\<close>

lemma run_log:
  assumes "can_open dk p" "healthy dk" "content dk p = []" "list_all args_ok (appended evs)"
    and r: "(a, d) = aof_run evs (snd (Aof_Open p pol (Aof_new, dk)))"
  shows "af_open a" "healthy d" "af_path a = p" "can_open d = can_open dk" "aof_log (a, d) = concat (map enc (appended evs))"
proof -
  note op = Aof_Open_fresh [OF assms(1-3), of pol]
  have "[] \<notin> set (appended evs)" using assms(4) by (auto simp: list_all_iff args_ok_def)
  from aof_run_ok [OF op(1,2) this] show "aof_log (a, d) = concat (map enc (appended evs))" unfolding r op(3) by simp
  have "grows (snd (Aof_Open p pol (Aof_new, dk))) (a, d)" using aof_run_ok [OF op(1,2) \<open>[] \<notin> _\<close>] unfolding r by simp
  with op show "af_open a" "healthy d" "af_path a = p" "can_open d = can_open dk" by (simp_all add: grows_def)
qed




subsection \<open>The log doubles\<close>

lemma Set_logs:
  assumes "w_good (n + 3) w"
  shows "\<exists>reply w'. Execute [''SET'', k, v] w = Some (reply, w') \<and> w_good n w' \<and> logs [[''SET'', k, v]] w w'"
proof -
  have l: "ToLowerAscii ''SET'' = ''set''" by code_simp
  have p: "set_options [] set_parse0 = Inr set_parse0" by simp
  have dl: "set_deadline set_parse0 (bump w) = (default_opts, bump w)"
    by (simp add: set_deadline_def set_parse0_def default_opts_def)
  have s: "fst (db_set k (DStr v) default_opts d) = kOk" for d
    by (auto simp: db_set_def default_opts_def split: option.splits)
  have a: "set_aof_args k v default_opts = [''SET'', k, v]" by (simp add: set_aof_args_def default_opts_def)
  from Set_meaning [OF l assms p dl, of k v] obtain reply w' where
    w': "Execute [''SET'', k, v] w = Some (reply, w')" "logs [[''SET'', k, v]] w w'"
    unfolding outcome_def s a by auto
  have "w_good (n + length [''SET'', k, v]) w" using assms by (simp add: eval_nat_numeral)
  with Execute_keeps [OF w'(1)] w' show ?thesis by blast
qed

abbreviation set_cmds :: "(string \<times> string) list \<Rightarrow> string list list" where
  "set_cmds kvs \<equiv> map (\<lambda>(k, v). [''SET'', k, v]) kvs"

lemma Replay_set_logs:
  "w_good (n + 3 * length kvs) w \<Longrightarrow> \<exists>w'. Replay (set_cmds kvs) w = Some w' \<and> logs (set_cmds kvs) w w'"
proof (induction kvs arbitrary: w)
  case Nil
  then show ?case by (simp add: logs_Nil)
next
  case (Cons kv kvs)
  obtain k v where kv: "kv = (k, v)" by (cases kv) auto
  have "w_good (n + 3 * length kvs + 3) w" using Cons.prems by (simp add: ac_simps)
  from Set_logs [OF this, of k v] obtain reply w1 where
    1: "Execute [''SET'', k, v] w = Some (reply, w1)" "w_good (n + 3 * length kvs) w1" "logs [[''SET'', k, v]] w w1" by blast
  from Cons.IH [OF 1(2)] obtain w2 where 2: "Replay (set_cmds kvs) w1 = Some w2" "logs (set_cmds kvs) w1 w2" by blast
  from logs_trans [OF 1(3) 2(2)] 1(1) 2(1) show ?case by (simp add: kv)
qed

text \<open>C36: Every restart doubles the log. Init opens the log for appending before it replays it, and the replayed commands persist themselves as those of a client do: a server that starts on a log of SET commands has afterwards a log that holds all of them twice.\<close>

theorem restart_doubles_log:
  assumes "config_ok cfg" "cf_aof_enabled cfg" "can_open (w_disk w) (cf_aof_path cfg)" "healthy (w_disk w)"
    "clock_ok (w_clock w)" "content (w_disk w) (cf_aof_path cfg) = concat (map enc (set_cmds kvs))"
    "list_all (\<lambda>(k, v). bulk_ok k \<and> bulk_ok v) kvs" "3 * length kvs \<le> 2147483647"
  shows "\<exists>s. Server_Init cfg hw w = Some (True, s) \<and>
    aof_log (w_aof (sv_world s), w_disk (sv_world s)) = concat (map enc (set_cmds (kvs @ kvs)))"
proof -
  let ?p = "cf_aof_path cfg" and ?bytes = "concat (map enc (set_cmds kvs))"
  let ?ad = "snd (Aof_Open ?p (cf_aof_policy cfg) (Aof_new, w_disk w))"
  have ok: "list_all args_ok (set_cmds kvs)" using assms(7) by (induction kvs) (auto simp: args_ok_def bulk_ok_def)
  have ne: "[] \<notin> set (set_cmds kvs)" by auto
  have "prefix (content (w_disk w) ?p) ?bytes" by (simp add: assms(6))
  from LoadAll_prefix [OF ok this assms(3)] assms(6) have ld: "Aof_LoadAll ?p (w_disk w) = Some (set_cmds kvs, 0)" by auto
  have "length (set_cmds kvs) < 2147483648" "3 * length kvs \<le> sl_max" using assms(8) by simp_all
  from Server_Init_replays [OF assms(1-3,5) this(2) ld this(1), of hw] obtain w0 where
    w0: "w_good (3 * length kvs) w0" "(w_aof w0, w_disk w0) = ?ad"
      "\<And>w1. Replay (set_cmds kvs) w0 = Some w1 \<Longrightarrow> \<exists>s. Server_Init cfg hw w = Some (True, s) \<and> sv_world s = w1" by blast
  have "w_good (0 + 3 * length kvs) w0" using w0(1) by simp
  from Replay_set_logs [OF this] obtain w1 where w1: "Replay (set_cmds kvs) w0 = Some w1" "logs (set_cmds kvs) w0 w1" by blast
  have op: "af_open (fst ?ad)" "healthy (snd ?ad)" "aof_log ?ad = ?bytes"
    using assms(3,4,6) by (simp_all add: Aof_Open_def Aof_new_def healthy_def aof_log_def content_def Let_def)
  have "(w_aof w1, w_disk w1) = aof_run (map EvAppend (set_cmds kvs)) ?ad" using w1(2) w0(2) by (simp add: logs_def)
  moreover have "[] \<notin> set (appended (map EvAppend (set_cmds kvs)))" unfolding appended_map by (rule ne)
  ultimately have "aof_log (w_aof w1, w_disk w1) = ?bytes @ ?bytes"
    using aof_run_ok [OF op(1,2)] op(3) by (metis appended_map)
  with w0(3) [OF w1(1)] show ?thesis by auto
qed

subsection \<open>An accepted configuration\<close>

text \<open>C16: Types of the configuration. Whatever the command line, a configuration that Parse accepts has a nonzero port, at most 256 event loops and between 1 and 65536 shards, and with its shard count the store can be built: a power of two of shards, at least as many as configured and fewer than twice as many, of which the hash of any key selects one.\<close>

theorem config_accepted:
  assumes "Config_Parse argv default_config = Some (cfg, help)"
  shows "0 < cf_port cfg \<and> cf_loop_count cfg \<le> 256 \<and> 0 < cf_shard_count cfg \<and> cf_shard_count cfg \<le> 65536
    \<and> (\<exists>st. Store_Init (cf_shard_count cfg) = Some st \<and> (\<exists>b\<le>63. length (shards st) = 2 ^ b)
         \<and> unat (cf_shard_count cfg) \<le> length (shards st)
         \<and> (1 < cf_shard_count cfg \<longrightarrow> length (shards st) < 2 * unat (cf_shard_count cfg))
         \<and> (\<forall>key. GetShard st key < length (shards st)))"
proof -
  have c: "config_ok cfg" using parse_options_ok [OF _ default_config_ok] assms unfolding Config_Parse_def by blast
  show ?thesis using c init_shards [OF config_ok_shards [OF c]] unfolding config_ok_def by blast
qed

theorem config_accepted_witness:
  "\<exists>st. Store_Init 65536 = Some st \<and> (\<exists>b\<le>63. length (shards st) = 2 ^ b) \<and> 65536 \<le> length (shards st)"
proof -
  have "Config_Parse [''redis-lite'', ''--shards=65536''] default_config = Some (default_config\<lparr>cf_shard_count := 65536\<rparr>, False)"
    by (simp add: Config_Parse_def SplitArg_def apply_option_def ParseU64_def strtoull_def c_string_def is_space_def
      is_digit_def dval_def Let_def)
  from config_accepted [OF this] show ?thesis by auto
qed

subsection \<open>A concrete server\<close>

definition sample_config :: config where
  "sample_config = default_config\<lparr>cf_aof_enabled := True, cf_aof_path := ''f'', cf_aof_policy := kAlways\<rparr>"

definition sample_events :: "server_event list" where
  "sample_events = [Request [''SET'', ''a'', ''1''], Flush, Request [''INCR'', ''a''], Cycle, Request [''DEL'', ''b'']]"

lemma sample_facts:
  "config_ok sample_config" "cf_aof_enabled sample_config" "cf_aof_path sample_config = ''f''" "cf_aof_policy sample_config = kAlways"
  "can_open sample_disk ''f''" "healthy sample_disk" "clock_ok (w_clock (boot st))" "w_disk (boot st) = sample_disk"
  "content sample_disk ''f'' = []" "files sample_disk ''f'' = Some []" "durable sample_disk ''f'' = Some []"
  by (simp_all add: sample_config_def config_ok_def default_config_def sample_disk_def healthy_def boot_def clock_ok_def min_def content_def)

lemma sample_requests:
  "list_all (\<lambda>a. args_ok a \<and> timeless a) (requests sample_events)" "4 * cost (requests sample_events) < 2147483648"
proof -
  have "ToLowerAscii ''SET'' = ''set''" "ToLowerAscii ''INCR'' = ''incr''" "ToLowerAscii ''DEL'' = ''del''" by code_simp+
  then show "list_all (\<lambda>a. args_ok a \<and> timeless a) (requests sample_events)"
    by (simp add: sample_events_def args_ok_def bulk_ok_def timeless_def time_names_def)
qed (simp add: sample_events_def cost_def)




theorem restart_doubles_log_witness:
  "\<forall>st. \<exists>s. Server_Init sample_config 1 (boot st\<lparr>w_disk := sample_disk\<lparr>files := [''f'' \<mapsto> enc [''SET'', ''a'', ''1'']]\<rparr>\<rparr>) = Some (True, s)
     \<and> aof_log (w_aof (sv_world s), w_disk (sv_world s)) = enc [''SET'', ''a'', ''1''] @ enc [''SET'', ''a'', ''1'']"
proof
  fix st
  let ?w = "boot st\<lparr>w_disk := sample_disk\<lparr>files := [''f'' \<mapsto> enc [''SET'', ''a'', ''1'']]\<rparr>\<rparr>"
  have "can_open (w_disk ?w) ''f''" "healthy (w_disk ?w)" "clock_ok (w_clock ?w)"
    "content (w_disk ?w) ''f'' = concat (map enc (set_cmds [(''a'', ''1'')]))"
    using sample_facts(7) [of st] by (simp_all add: sample_disk_def healthy_def content_def)
  note restart_doubles_log [OF sample_facts(1,2), unfolded sample_facts(3), OF this, of 1]
  then show "\<exists>s. Server_Init sample_config 1 ?w = Some (True, s)
     \<and> aof_log (w_aof (sv_world s), w_disk (sv_world s)) = enc [''SET'', ''a'', ''1''] @ enc [''SET'', ''a'', ''1'']"
    by (simp add: bulk_ok_def)
qed

end
