(* ===== verification/Torn_Log.thy ===== *)
theory Torn_Log
  imports Restart
begin

section \<open>Starting on a torn log\<close>

text \<open>
  A crash can leave the first bytes of a command at the end of the file.  \<open>LoadAll\<close> drops them from
  the commands it returns and leaves them in the file, which \<open>Open\<close> has opened for appending: what
  the server writes from then on stands behind them.
\<close>

subsection \<open>A header line that does not parse\<close>

lemma ParseInt64_loop_star: "CHR ''*'' \<in> set x \<Longrightarrow> ParseInt64_loop neg x acc = None"
proof (induction x arbitrary: neg acc)
  case (Cons c x)
  show ?case
  proof (cases "c = CHR ''*''")
    case True
    then show ?thesis by (simp add: is_digit_def)
  next
    case False
    with Cons have "ParseInt64_loop n x a = None" for n a by simp
    then show ?thesis by (simp add: Let_def)
  qed
qed simp

lemma ParseInt64_star:
  assumes "CHR ''*'' \<in> set x"
  shows "ParseInt64 x = None"
proof (cases x)
  case (Cons c cs)
  show ?thesis
  proof (cases "c = CHR ''-'' \<or> c = CHR ''+''")
    case True
    with assms Cons have "CHR ''*'' \<in> set cs" by auto
    with True Cons show ?thesis by (auto simp: ParseInt64_def ParseInt64_loop_star Let_def)
  next
    case False
    then show ?thesis using ParseInt64_loop_star [OF assms, of False 0]
      by (simp add: ParseInt64_def Let_def Cons del: ParseInt64_loop.simps)
  qed
qed (use assms in simp)

text \<open>Behind complete commands, a torn first line hides whatever is appended to it.\<close>

lemma Next_torn:
  assumes "CR \<notin> set ds" "LF \<notin> set ds"
  shows "\<exists>r. RespParser_Next \<lparr>buf = pre @ ''*'' @ ds @ concat (map enc cs), pos = length pre\<rparr>
      = (r, \<lparr>buf = pre @ ''*'' @ ds @ concat (map enc cs), pos = length pre\<rparr>) \<and> (r = NextFalse \<or> (\<exists>e. r = NextThrow e))"
proof (cases cs)
  case Nil
  have "LF \<notin> set (drop (length pre + 1) (pre @ ''*'' @ ds))" using assms(2) by simp
  from FindCRLF_no_LF [OF this] show ?thesis
    by (simp add: Nil RespParser_Next_def Ensure_def Let_def nth_append)
next
  case (Cons c rest)
  define x where "x = ds @ ''*'' @ dec_of_nat (length c)"
  define y where "y = concat (map bulk c) @ concat (map enc rest)"
  let ?b = "(pre @ ''*'') @ x @ kCRLF @ y"
  have b: "pre @ ''*'' @ ds @ concat (map enc cs) = ?b" by (simp add: Cons enc_def x_def y_def)
  have "CR \<notin> set (dec_of_nat n)" for n
    using dec_of_nat_digits [of n] by (auto simp: list_all_iff is_digit_def)
  then have "CR \<notin> set x" using assms(1) by (auto simp: x_def)
  then have f: "FindCRLF ?b (length pre + 1) = Some (length pre + 1 + length x)"
    by (rule FindCRLF_field) simp
  have s: "substr ?b (length pre + 1) (length pre + 1 + length x - length pre - 1) = x" by simp
  have "ParseInt64 x = None" by (rule ParseInt64_star) (simp add: x_def)
  then show ?thesis unfolding b using f s by (simp add: RespParser_Next_def Ensure_def Let_def nth_append)
qed

lemma load_loop_torn:
  assumes "CR \<notin> set ds" "LF \<notin> set ds"
  shows "list_all args_ok old \<Longrightarrow>
    \<exists>t. load_loop \<lparr>buf = pre @ concat (map enc old) @ ''*'' @ ds @ concat (map enc cs), pos = length pre\<rparr> out = (out @ old, t)"
proof (induction old arbitrary: pre out)
  case Nil
  from Next_torn [OF assms, of pre cs] show ?case by (auto simp: load_loop.simps)
next
  case (Cons c old)
  let ?y = "concat (map enc old) @ ''*'' @ ds @ concat (map enc cs)"
  have ok: "args_ok c" "c \<noteq> []" using Cons.prems by (auto simp: args_ok_def)
  from Cons.IH [of "pre @ enc c" "out @ [c]"] Cons.prems obtain t where
    "load_loop \<lparr>buf = pre @ enc c @ ?y, pos = length pre + length (enc c)\<rparr> (out @ [c]) = (out @ c # old, t)" by auto
  with RespParser_Next_enc [OF ok(1), of pre ?y] ok(2) show ?case by (subst load_loop.simps) simp
qed

lemma LoadAll_torn:
  assumes "CR \<notin> set ds" "LF \<notin> set ds" "list_all args_ok old" "can_open d p"
    and "content d p = concat (map enc old) @ ''*'' @ ds @ concat (map enc cs)"
  shows "\<exists>t. Aof_LoadAll p d = Some (old, t)"
  using load_loop_torn [OF assms(1-3), of "[]" cs "[]"] assms(4,5)
  by (auto simp: Aof_LoadAll_def content_def RespParser_Append_def parser_new_def split: option.splits)

subsection \<open>Replaying and serving behind it\<close>

text \<open>What a replay does to the file.\<close>

lemma leads_replay_file:
  "leads cs d d' \<Longrightarrow> w_good (n + cost cs) w \<Longrightarrow> holds_db d w \<Longrightarrow> list_all args_ok cs \<Longrightarrow>
     \<exists>w' evs. Replay cs w = Some w' \<and> w_good n w' \<and> holds_db d' w' \<and> file_run evs w w' \<and> list_all args_ok (appended evs)"
proof (induction cs arbitrary: d w)
  case Nil
  then show ?case by (auto simp: file_run_def intro!: exI [of _ "[]"])
next
  case (Cons c cs)
  from Cons.prems(1) obtain d1 where d1: "sets_to c d d1" "leads cs d1 d'" by auto
  have "w_good (n + cost cs + length c) w" using Cons.prems(2) by (simp add: ac_simps)
  with d1(1) Cons.prems(3) obtain reply w1 where w1: "Execute c w = Some (reply, w1)" "w_good (n + cost cs) w1" "holds_db d1 w1"
    "logs [c] w w1 \<or> logs [] w w1" unfolding sets_to_def by blast
  then obtain cs1 where l: "file_run (map EvAppend cs1) w w1" "list_all args_ok cs1"
    using Cons.prems(4) unfolding file_run_logs by fastforce
  from Cons.IH [OF d1(2) w1(2,3)] Cons.prems(4) obtain w2 evs where
    w2: "Replay cs w1 = Some w2" "w_good n w2" "holds_db d' w2" "file_run evs w1 w2" "list_all args_ok (appended evs)" by auto
  have "list_all args_ok (appended (map EvAppend cs1 @ evs))" using l(2) w2(5) by (simp add: appended_append)
  with w1(1) w2 file_run_trans [OF l(1) w2(4)] show ?case by auto
qed

text \<open>The log of a server opened on a file that is not empty.\<close>

lemma run_log_behind:
  assumes "can_open dk p" "healthy dk" "list_all args_ok (appended evs)"
    and r: "(a, d) = aof_run evs (snd (Aof_Open p pol (Aof_new, dk)))"
  shows "af_open a" "healthy d" "af_path a = p" "can_open d = can_open dk"
    "aof_log (a, d) = content dk p @ concat (map enc (appended evs))"
proof -
  let ?ad = "snd (Aof_Open p pol (Aof_new, dk))"
  have op: "af_open (fst ?ad)" "healthy (snd ?ad)" "af_path (fst ?ad) = p" "can_open (snd ?ad) = can_open dk" "aof_log ?ad = content dk p"
    using assms(1,2) by (simp_all add: Aof_Open_def Aof_new_def healthy_def aof_log_def content_def Let_def)
  have "[] \<notin> set (appended evs)" using assms(3) by (auto simp: list_all_iff args_ok_def)
  from aof_run_ok [OF op(1,2) this] show "aof_log (a, d) = content dk p @ concat (map enc (appended evs))" unfolding r op(5) by simp
  have "grows ?ad (a, d)" using aof_run_ok [OF op(1,2) \<open>[] \<notin> _\<close>] unfolding r by simp
  with op show "af_open a" "healthy d" "af_path a = p" "can_open d = can_open dk" by (simp_all add: grows_def)
qed

text \<open>Recovery from a torn log, or from one with anything appended to it.\<close>

lemma Server_Init_torn:
  assumes cfg: "config_ok cfg" "cf_aof_enabled cfg" and o: "can_open (w_disk w) (cf_aof_path cfg)" and c: "clock_ok (w_clock w)"
    and t: "CR \<notin> set ds" "LF \<notin> set ds" "content (w_disk w) (cf_aof_path cfg) = concat (map enc old) @ ''*'' @ ds @ concat (map enc cs)"
    and l: "list_all args_ok old" "leads old Map.empty d0" and n: "n + cost old < 2147483648"
  shows "\<exists>s evs. Server_Init cfg hw w = Some (True, s) \<and> w_good n (sv_world s) \<and> holds_db d0 (sv_world s) \<and> list_all args_ok (appended evs)
    \<and> (w_aof (sv_world s), w_disk (sv_world s)) = aof_run evs (snd (Aof_Open (cf_aof_path cfg) (cf_aof_policy cfg) (Aof_new, w_disk w)))"
proof -
  from LoadAll_torn [OF t(1,2) l(1) o t(3)] obtain k where ld: "Aof_LoadAll (cf_aof_path cfg) (w_disk w) = Some (old, k)" by blast
  have "length old < 2147483648" "n + cost old \<le> sl_max" using leads_args [OF l(1)] n by simp_all
  from Server_Init_replays [OF cfg o c this(2) ld this(1), of hw] obtain w0 where
    w0: "w_good (n + cost old) w0" "holds_db Map.empty w0"
      "(w_aof w0, w_disk w0) = snd (Aof_Open (cf_aof_path cfg) (cf_aof_policy cfg) (Aof_new, w_disk w))"
      "\<And>w1. Replay old w0 = Some w1 \<Longrightarrow> \<exists>s. Server_Init cfg hw w = Some (True, s) \<and> sv_world s = w1" by blast
  from leads_replay_file [OF l(2) w0(1,2) l(1)] w0(3,4) show ?thesis unfolding file_run_def by metis
qed



end
