(* ===== verification/Deadline_Restart.thy ===== *)
theory Deadline_Restart
  imports Restart
begin

section \<open>Deadlines across restarts\<close>

text \<open>
  A deadline is logged as a reading of the clock.  \<open>NowMs\<close> reads the time since the machine started,
  and a replay applies the deadlines as it meets them, with the clock of the new process.
\<close>

subsection \<open>Single commands\<close>

text \<open>The database of a world is \<open>d\<close>, but for the deadlines that pass.\<close>

abbreviation keeps_db :: "ddb \<Rightarrow> world \<Rightarrow> bool" where
  "keeps_db d w \<equiv> becomes (now_of w) d w"

lemma outcome_step:
  assumes "outcome (Execute c w) w reply t d cs" "w_good (n + length c) w"
  shows "\<exists>reply w'. Execute c w = Some (reply, w') \<and> w_good n w' \<and> t \<le> now_of w' \<and> keeps_db d w' \<and> logs cs w w'"
proof -
  from assms(1) obtain w' where w': "Execute c w = Some (reply, w')" "t \<le> now_of w'" "becomes t d w'" "logs cs w w'"
    by (auto simp: outcome_def)
  from w'(2,3) have "keeps_db d w'" by (auto simp: becomes_def)
  with w' Execute_keeps [OF w'(1) assms(2)] show ?thesis by blast
qed

lemma keeps_dnow: "keeps_db d w \<Longrightarrow> dnow w = alive (now_of w) d"
  by (simp add: becomesD)

lemma holds_keeps: "holds_db d w \<Longrightarrow> alive (now_of w) d = d \<Longrightarrow> plain d \<Longrightarrow> keeps_db d w"
  by (simp add: becomes_def holds_db_def)

lemma Set_step:
  assumes "w_good (n + 3) w" "holds_db Map.empty w"
  shows "\<exists>reply w'. Execute [''SET'', k, v] w = Some (reply, w') \<and> w_good n w' \<and> now_of w \<le> now_of w'
    \<and> keeps_db [k \<mapsto> (DStr v, 0)] w' \<and> logs [[''SET'', k, v]] w w'"
proof -
  have g: "w_good (n + length [''SET'', k, v]) w" using assms(1) by (simp add: numeral_eq_Suc)
  have l: "ToLowerAscii ''SET'' = ''set''" by code_simp
  have p: "set_options [] set_parse0 = Inr set_parse0" by simp
  have dl: "set_deadline set_parse0 (bump w) = (default_opts, bump w)"
    by (simp add: set_deadline_def set_parse0_def default_opts_def)
  have s: "db_set k (DStr v) default_opts (dnow w) = (kOk, [k \<mapsto> (DStr v, 0)])"
    using holds_dbD(1) [OF assms(2)] by (simp add: db_set_def default_opts_def)
  have a: "set_aof_args k v default_opts = [''SET'', k, v]" by (simp add: set_aof_args_def default_opts_def)
  from outcome_step [OF Set_meaning [OF l assms(1) p dl, of k v] g] show ?thesis by (simp add: s a)
qed

lemma Incr_step:
  assumes "w_good (n + 3) w" "keeps_db d w" "c = [''INCR'', k] \<or> c = [''INCRBY'', k, dec_of_int 1]"
    "d1 = alive (now_of w) d"
  shows "\<exists>reply w'. Execute c w = Some (reply, w') \<and> w_good n w' \<and> now_of w \<le> now_of w'
    \<and> keeps_db (snd (db_incr k 1 d1)) w'
    \<and> logs (if fst (db_incr k 1 d1) = None then [] else [[''INCRBY'', k, dec_of_int 1]]) w w'"
proof -
  have g: "w_good (n + length c) w" using assms(1,3) by (auto intro: w_good_less)
  have l: "ToLowerAscii ''INCR'' = ''incr''" "ToLowerAscii ''INCRBY'' = ''incrby''" by code_simp+
  have r: "map_of kCommandTable ''incr'' = Some (CmdIncrBy False, True)" using row(7) by (simp add: CmdIncr_def [abs_def])
  have one: "ParseInt64 (dec_of_int 1) = Some 1" by (rule ParseInt64_dec_of_int) (simp add: int64_range_def)
  have d: "dnow w = d1" using keeps_dnow [OF assms(2)] assms(4) by simp
  from assms(3) show ?thesis
  proof
    assume c: "c = [''INCR'', k]"
    from outcome_step [OF IncrBy_meaning [OF l(1) r assms(1), of "[k]" k 1 "[]" 1] g [unfolded c]]
    show ?thesis by (simp add: c d)
  next
    assume c: "c = [''INCRBY'', k, dec_of_int 1]"
    from outcome_step [OF IncrBy_meaning [OF l(2) row(9) assms(1), of "[k, dec_of_int 1]" k 1 "dec_of_int 1" 1] g [unfolded c]] one
    show ?thesis by (simp add: c d)
  qed
qed

lemma Expire_step:
  assumes "w_good (n + 3) w" "keeps_db d w" "ParseInt64 s = Some v" "v \<le> 9223372036854775" "- 9223372036854775 \<le> v"
    and D: "D = now_of w + v * 1000"
  shows "\<exists>reply w' d' cs. Execute [''EXPIRE'', k, s] w = Some (reply, w') \<and> w_good n w' \<and> now_of w \<le> now_of w'
    \<and> keeps_db d' w' \<and> logs cs w w' \<and> (D \<le> INT64_MAX \<and> now_of w' < D \<and> 0 < v \<and> d k = Some (x, 0)
         \<longrightarrow> d' = (alive (later w 1) d)(k \<mapsto> (x, D)) \<and> cs = [[''PEXPIREAT'', k, dec_of_int D]])"
proof -
  have g: "w_good (n + length [''EXPIRE'', k, s]) w" using assms(1) by (simp add: numeral_eq_Suc)
  have l: "ToLowerAscii ''EXPIRE'' = ''expire''" by code_simp
  have row': "map_of kCommandTable ''expire'' = Some (CmdExpireGeneric 1000 ''expire'', True)"
    using row(11) by (simp add: CmdExpire_def [abs_def])
  have p: "ParseExpireArg s 1000 = Some (v * 1000)" using assms(3-5) by (simp add: ParseExpireArg_def)
  have mono: "now_of w \<le> later w 1" and n0: "0 \<le> now_of w" using assms(1) by (simp_all add: w_good_def clock_ok_def)
  have dl: "db (later w 1) (w_store w) = alive (later w 1) d" by (rule becomesD [OF assms(2) mono])
  obtain ch rm d' where e: "db_expire (later w 1) k (i64 D) (alive (later w 1) d) = ((ch, rm), d')"
    by (metis prod.exhaust)
  from outcome_step [OF Expire_meaning [OF l row' assms(1) p e [unfolded D, folded dl]] g, folded D] obtain reply w' where
    w': "Execute [''EXPIRE'', k, s] w = Some (reply, w')" "w_good n w'" "later w 1 \<le> now_of w'"
      "keeps_db d' w'" "logs (if rm \<and> \<not> ch then [] else if rm then [[''DEL'', k]] else [[''PEXPIREAT'', k, dec_of_int (i64 D)]]) w w'"
    by blast
  have "d' = (alive (later w 1) d)(k \<mapsto> (x, D)) \<and> \<not> rm \<and> i64 D = D"
    if "D \<le> INT64_MAX" "now_of w' < D" "0 < v" "d k = Some (x, 0)"
  proof -
    have "i64 D = D" using that n0 D by (simp add: int64_range_def)
    moreover have "alive (later w 1) d k = Some (x, 0)" using that(4) by (simp add: alive_def)
    ultimately show ?thesis using e that w'(3) by (simp add: db_expire_def)
  qed
  then show ?thesis using w' mono
    by (intro exI [of _ reply] exI [of _ w'] exI [of _ d']
        exI [of _ "if rm \<and> \<not> ch then [] else if rm then [[''DEL'', k]] else [[''PEXPIREAT'', k, dec_of_int (i64 D)]]"]) auto
qed

lemma PExpireAt_step:
  assumes "w_good (n + 3) w" "keeps_db d w" "int64_range D" "d1 = alive (now_of w) d" "db_expire (now_of w) k D d1 = ((ch, rm), d')"
  shows "\<exists>reply w'. Execute [''PEXPIREAT'', k, dec_of_int D] w = Some (reply, w') \<and> w_good n w' \<and> now_of w \<le> now_of w' \<and> keeps_db d' w'"
proof -
  have g: "w_good (n + length [''PEXPIREAT'', k, dec_of_int D]) w" using assms(1) by (simp add: numeral_eq_Suc)
  have l: "ToLowerAscii ''PEXPIREAT'' = ''pexpireat''" by code_simp
  have "db_expire (now_of w) k D (dnow w) = ((ch, rm), d')" using keeps_dnow [OF assms(2)] assms(4,5) by simp
  from outcome_step [OF PExpireAt_meaning [OF l assms(1) ParseInt64_dec_of_int [OF assms(3)] this] g] show ?thesis by blast
qed

subsection \<open>The session and its replay\<close>

definition counter_session :: "string \<Rightarrow> string \<Rightarrow> string \<Rightarrow> server_event list" where
  "counter_session k t s = [Request [''SET'', k, t], Request [''EXPIRE'', k, s], Request [''INCR'', k]]"

definition counter_log :: "string \<Rightarrow> string \<Rightarrow> int \<Rightarrow> string list list" where
  "counter_log k t D = [[''SET'', k, t], [''PEXPIREAT'', k, dec_of_int D], [''INCRBY'', k, dec_of_int 1]]"

lemma db_incr_counter:
  assumes "ParseInt64 t = Some n" "int64_range (n + 1)"
  shows "db_incr k 1 [k \<mapsto> (DStr t, x)] = (Some (n + 1), [k \<mapsto> (DInt (n + 1), x)])"
    "db_incr k 1 Map.empty = (Some 1, [k \<mapsto> (DInt 1, 0)])"
  using assms by (simp_all add: db_incr_def dint_def)

lemma alive_single: "alive u [k \<mapsto> (x, D)] = (if D \<noteq> 0 \<and> D \<le> u then Map.empty else [k \<mapsto> (x, D)])"
  by (auto simp: alive_def fun_eq_iff)

lemma counter_served:
  assumes g: "w_good 9 w" and h: "holds_db Map.empty w" and t: "ParseInt64 t = Some n" "int64_range (n + 1)"
    and s: "ParseInt64 s = Some v" "0 < v" "v \<le> 9223372036854775"
  shows "\<exists>w1 D cs. serve_events (counter_session k t s) w = Some w1 \<and> now_of w + v * 1000 \<le> D \<and> D \<le> now_of w1 + v * 1000
    \<and> file_run (map EvAppend cs) w w1
    \<and> (now_of w1 < D \<and> D \<le> INT64_MAX \<longrightarrow> cs = counter_log k t D \<and> keeps_db [k \<mapsto> (DInt (n + 1), D)] w1)"
proof -
  have "w_good (6 + 3) w" using g by simp
  from Set_step [OF this h, of k t] obtain r1 w1 where
    w1: "Execute [''SET'', k, t] w = Some (r1, w1)" "w_good 6 w1" "now_of w \<le> now_of w1" "keeps_db [k \<mapsto> (DStr t, 0)] w1"
      "logs [[''SET'', k, t]] w w1" by blast
  define D where "D = now_of w1 + v * 1000"
  have "w_good (3 + 3) w1" "- 9223372036854775 \<le> v" using w1(2) s(2) by simp_all
  from Expire_step [OF this(1) w1(4) s(1,3) this(2) D_def, of k "DStr t"] obtain r2 w2 d cs where
    w2: "Execute [''EXPIRE'', k, s] w1 = Some (r2, w2)" "w_good 3 w2" "now_of w1 \<le> now_of w2" "keeps_db d w2" "logs cs w1 w2"
      "D \<le> INT64_MAX \<Longrightarrow> now_of w2 < D \<Longrightarrow> d = (alive (later w1 1) [k \<mapsto> (DStr t, 0)])(k \<mapsto> (DStr t, D)) \<and> cs = [[''PEXPIREAT'', k, dec_of_int D]]"
    using s(2) by auto
  have "w_good (0 + 3) w2" using w2(2) by simp
  from Incr_step [OF this w2(4) disjI1 [OF refl] refl, of k] obtain r3 w3 where
    w3: "Execute [''INCR'', k] w2 = Some (r3, w3)" "now_of w2 \<le> now_of w3" "keeps_db (snd (db_incr k 1 (alive (now_of w2) d))) w3"
      "logs (if fst (db_incr k 1 (alive (now_of w2) d)) = None then [] else [[''INCRBY'', k, dec_of_int 1]]) w2 w3" by blast
  let ?cs = "[''SET'', k, t] # cs @ (if fst (db_incr k 1 (alive (now_of w2) d)) = None then [] else [[''INCRBY'', k, dec_of_int 1]])"
  have "logs ?cs w w3" using logs_trans [OF w1(5) logs_trans [OF w2(5) w3(4)]] by simp
  then have f: "file_run (map EvAppend ?cs) w w3" by (simp only: file_run_logs)
  have "?cs = counter_log k t D \<and> keeps_db [k \<mapsto> (DInt (n + 1), D)] w3" if c: "now_of w3 < D" "D \<le> INT64_MAX"
  proof -
    have lt: "now_of w2 < D" using c(1) w3(2) by simp
    then have "d = [k \<mapsto> (DStr t, D)]" "cs = [[''PEXPIREAT'', k, dec_of_int D]]" using w2(6) [OF c(2)] by (auto simp: alive_single)
    moreover have "alive (now_of w2) [k \<mapsto> (DStr t, D)] = [k \<mapsto> (DStr t, D)]" using lt by (simp add: alive_single)
    ultimately show ?thesis using w3(3) by (simp add: db_incr_counter [OF t] counter_log_def)
  qed
  moreover have "serve_events (counter_session k t s) w = Some w3" using w1(1) w2(1) w3(1) by (simp add: counter_session_def)
  moreover have "now_of w + v * 1000 \<le> D" "D \<le> now_of w3 + v * 1000" using w1(3) w2(3) w3(2) by (simp_all add: D_def)
  ultimately show ?thesis using f by blast
qed

text \<open>The replay: up to the deadline the same counter with the same deadline, after it a new one.\<close>

lemma counter_replayed:
  assumes g: "w_good 9 w" and h: "holds_db Map.empty w" and t: "ParseInt64 t = Some n" "int64_range (n + 1)"
    and D: "0 < D" "D \<le> INT64_MAX"
  shows "\<exists>w1. Replay (counter_log k t D) w = Some w1 \<and> (now_of w1 < D \<longrightarrow> keeps_db [k \<mapsto> (DInt (n + 1), D)] w1)
    \<and> (D \<le> now_of w \<longrightarrow> keeps_db [k \<mapsto> (DInt 1, 0)] w1)"
proof -
  have "w_good (6 + 3) w" using g by simp
  from Set_step [OF this h, of k t] obtain r1 w1 where
    w1: "Execute [''SET'', k, t] w = Some (r1, w1)" "w_good 6 w1" "now_of w \<le> now_of w1" "keeps_db [k \<mapsto> (DStr t, 0)] w1" by blast
  define d where "d = (if D \<le> now_of w1 then Map.empty else [k \<mapsto> (DStr t, D)])"
  have "db_expire (now_of w1) k D [k \<mapsto> (DStr t, 0)] = ((True, D \<le> now_of w1), d)" using D(1) by (auto simp: db_expire_def d_def)
  moreover have "w_good (3 + 3) w1" "int64_range D" using w1(2) D by (simp_all add: int64_range_def)
  ultimately obtain r2 w2 where
    w2: "Execute [''PEXPIREAT'', k, dec_of_int D] w1 = Some (r2, w2)" "w_good 3 w2" "now_of w1 \<le> now_of w2" "keeps_db d w2"
    using PExpireAt_step [OF _ w1(4), of 3 D "[k \<mapsto> (DStr t, 0)]"] by (fastforce simp: alive_single)
  have "w_good (0 + 3) w2" using w2(2) by simp
  from Incr_step [OF this w2(4) disjI2 [OF refl] refl, of k] obtain r3 w3 where
    w3: "Execute [''INCRBY'', k, dec_of_int 1] w2 = Some (r3, w3)" "now_of w2 \<le> now_of w3"
      "keeps_db (snd (db_incr k 1 (alive (now_of w2) d))) w3" by blast
  have "keeps_db [k \<mapsto> (DInt (n + 1), D)] w3" if "now_of w3 < D"
    using that w2(3) w3(2,3) by (simp add: d_def alive_single db_incr_counter [OF t])
  moreover have "keeps_db [k \<mapsto> (DInt 1, 0)] w3" if "D \<le> now_of w"
  proof -
    have "alive (now_of w2) d = Map.empty" using that w1(3) by (simp add: d_def alive_def)
    then show ?thesis using w3(3) by (simp add: db_incr_counter [OF t])
  qed
  moreover have "Replay (counter_log k t D) w = Some w3" using w1(1) w2(1) w3(1) by (simp add: counter_log_def)
  ultimately show ?thesis by blast
qed

lemma keeps_deadline: "0 < D \<Longrightarrow> keeps_db [k \<mapsto> (x, D)] w \<Longrightarrow> \<forall>u\<ge>now_of w. db u (w_store w) = (if u < D then [k \<mapsto> (x, D)] else Map.empty)"
  by (simp add: becomes_def alive_single)

lemma keeps_forever: "keeps_db [k \<mapsto> (x, 0)] w \<Longrightarrow> holds_db [k \<mapsto> (x, 0)] w"
  by (simp add: becomes_def holds_db_def alive_single)

subsection \<open>The readings of the clock\<close>

text \<open>A later world reads the same clock, some readings further.\<close>

definition moves :: "world \<Rightarrow> world \<Rightarrow> bool" where
  "moves w w' \<longleftrightarrow> (\<exists>j. w_clock w' = (\<lambda>i. w_clock w (i + j)))"

lemma moves_same: "w_clock w' = w_clock w \<Longrightarrow> moves w w'"
  by (auto simp: moves_def intro!: exI [of _ 0])

lemma moves_step: "w_clock w' = (\<lambda>i. w_clock w (Suc i)) \<Longrightarrow> moves w w'"
  by (auto simp: moves_def intro!: exI [of _ 1])

lemma moves_trans: "moves w w1 \<Longrightarrow> moves w1 w2 \<Longrightarrow> moves w w2"
proof -
  assume "moves w w1" "moves w1 w2"
  then obtain j k where "w_clock w1 = (\<lambda>i. w_clock w (i + j))" "w_clock w2 = (\<lambda>i. w_clock w1 (i + k))" by (auto simp: moves_def)
  then have "w_clock w2 = (\<lambda>i. w_clock w (i + (k + j)))" by (simp add: ac_simps)
  then show "moves w w2" unfolding moves_def by blast
qed

lemma moves_Persist [simp]: "moves w (Persist args w') \<longleftrightarrow> moves w w'"
  by (simp add: moves_def)

lemma moves_timed: "timed f w = (r, w') \<Longrightarrow> moves w w'"
  by (rule moves_step [OF timed_fields(2)])

lemma moves_NowMs: "NowMs w = (t, w') \<Longrightarrow> moves w w'"
  by (auto simp: NowMs_def intro: moves_step)

lemma moves_set_deadline: "set_deadline p w = (os, w') \<Longrightarrow> moves w w'"
  unfolding set_deadline_def Let_def
  by (auto split: if_splits prod.splits intro: moves_same dest!: moves_NowMs intro: moves_trans)

lemma moves_handlers:
  "CmdSet args w = Some (reply, w') \<Longrightarrow> moves w w'"
  "CmdExpireGeneric m name args w = Some (reply, w') \<Longrightarrow> moves w w'"
  "CmdIncrBy b args w = Some (reply, w') \<Longrightarrow> moves w w'"
  "CmdPExpireAt args w = Some (reply, w') \<Longrightarrow> moves w w'"
  by (auto simp: CmdSet_def CmdExpireGeneric_def CmdIncrBy_def CmdPExpireAt_def Let_def split: if_splits option.splits prod.splits sum.splits
      intro: moves_same dest!: moves_set_deadline moves_timed moves_NowMs intro: moves_trans)

lemma moves_rows:
  "Execute [''SET'', k, t] w = Some (r, w') \<Longrightarrow> moves w w'" "Execute [''EXPIRE'', k, s] w = Some (r, w') \<Longrightarrow> moves w w'"
  "Execute [''INCR'', k] w = Some (r, w') \<Longrightarrow> moves w w'" "Execute [''INCRBY'', k, s] w = Some (r, w') \<Longrightarrow> moves w w'"
  "Execute [''PEXPIREAT'', k, s] w = Some (r, w') \<Longrightarrow> moves w w'"
proof -
  have b: "moves w (bump w)" by (rule moves_same) simp
  have "ToLowerAscii ''PEXPIREAT'' = ''pexpireat''" by code_simp
  note rows = Execute_row [OF lower_names(2) row(3)] Execute_row [OF lower_names(6) row(11)] Execute_row [OF lower_names(3) row(7)]
    Execute_row [OF _ row(9)] Execute_row [OF this row(13)]
  show "Execute [''SET'', k, t] w = Some (r, w') \<Longrightarrow> moves w w'" "Execute [''EXPIRE'', k, s] w = Some (r, w') \<Longrightarrow> moves w w'"
    "Execute [''INCR'', k] w = Some (r, w') \<Longrightarrow> moves w w'" "Execute [''INCRBY'', k, s] w = Some (r, w') \<Longrightarrow> moves w w'"
    "Execute [''PEXPIREAT'', k, s] w = Some (r, w') \<Longrightarrow> moves w w'"
    by (auto simp: rows CmdExpire_def CmdIncr_def dest!: moves_handlers intro: moves_trans [OF b])
qed

lemma moves_session: "serve_events (counter_session k t s) w = Some w1 \<Longrightarrow> moves w w1"
  by (auto simp: counter_session_def split: option.splits bind_splits dest!: moves_rows) (blast intro: moves_trans)

lemma moves_replay: "Replay (counter_log k t D) w = Some w1 \<Longrightarrow> moves w w1"
  by (auto simp: counter_log_def split: bind_splits dest!: moves_rows) (blast intro: moves_trans)

text \<open>Starting on that log.\<close>

lemma counter_restarted:
  assumes cfg: "config_ok cfg" "cf_aof_enabled cfg" and w: "can_open (w_disk w) (cf_aof_path cfg)" "clock_ok (w_clock w)"
    "content (w_disk w) (cf_aof_path cfg) = concat (map enc (counter_log k t D))"
    and t: "list_all args_ok (counter_log k t D)" "ParseInt64 t = Some n" "int64_range (n + 1)" and D: "0 < D" "D \<le> INT64_MAX"
  shows "\<exists>s2 w3. Server_Init cfg hw w = Some (True, s2) \<and> w3 = sv_world s2 \<and> (\<exists>j. now_of w3 = later w j)
    \<and> (now_of w3 < D \<longrightarrow> (\<forall>u\<ge>now_of w3. db u (w_store w3) = (if u < D then [k \<mapsto> (DInt (n + 1), D)] else Map.empty)))
    \<and> (D \<le> now_of w \<longrightarrow> (\<forall>u\<ge>now_of w3. db u (w_store w3) = [k \<mapsto> (DInt 1, 0)]))"
proof -
  have "prefix (content (w_disk w) (cf_aof_path cfg)) (concat (map enc (counter_log k t D)))" by (simp add: w(3))
  from LoadAll_prefix [OF t(1) this w(1)] w(3) have "Aof_LoadAll (cf_aof_path cfg) (w_disk w) = Some (counter_log k t D, 0)" by auto
  moreover have "length (counter_log k t D) < 2147483648" by (simp add: counter_log_def)
  ultimately obtain w4 where w4: "w_good 9 w4" "holds_db Map.empty w4" "w_clock w4 = (\<lambda>i. w_clock w (Suc i))"
    "\<And>w5. Replay (counter_log k t D) w4 = Some w5 \<Longrightarrow> \<exists>s. Server_Init cfg hw w = Some (True, s) \<and> sv_world s = w5"
    using Server_Init_replays_clock [OF cfg w(1,2), of 9 _ _ hw] by auto
  from counter_replayed [OF w4(1,2) t(2,3) D, of k] obtain w5 where
    w5: "Replay (counter_log k t D) w4 = Some w5" "now_of w5 < D \<Longrightarrow> keeps_db [k \<mapsto> (DInt (n + 1), D)] w5"
      "D \<le> now_of w4 \<Longrightarrow> keeps_db [k \<mapsto> (DInt 1, 0)] w5" by blast
  from w4(4) [OF w5(1)] obtain s2 where s2: "Server_Init cfg hw w = Some (True, s2)" "sv_world s2 = w5" by blast
  have "now_of w \<le> now_of w4" using w(2) w4(3) by (simp add: clock_ok_def)
  then have "\<forall>u\<ge>now_of w5. db u (w_store w5) = [k \<mapsto> (DInt 1, 0)]" if "D \<le> now_of w"
    using keeps_forever [OF w5(3)] that by (simp add: holds_db_def)
  moreover obtain j where "now_of w5 = later w4 j" using moves_replay [OF w5(1)] by (auto simp: moves_def)
  then have "\<exists>j. now_of w5 = later w j" using w4(3) by auto
  ultimately show ?thesis using s2 keeps_deadline [OF D(1) w5(2)] by blast
qed

subsection \<open>The property\<close>

subsection \<open>The property\<close>

text \<open>C37: What a deadline means after a restart. A server with a log starts on an empty log, executes SET k t of a decimal number n, EXPIRE k s and INCR k before the deadline D, the clock's reading at the EXPIRE plus s seconds, and shuts down. A server that starts on the log restores the counter n + 1 and D if its own clock, the time since the machine started, stays below D while it replays: the key then lives until the new clock reaches D, whatever time has really passed, so that after a reboot it can outlive its deadline by the former uptime of the machine. If the clock is at D or above when the server starts, the key comes back: the replay expires it before the INCRBY of the log, which creates it again with the value 1 and no deadline at all, for good.\<close>

theorem deadline_after_restart:
  assumes "config_ok cfg" "cf_aof_enabled cfg" "can_open (w_disk w) (cf_aof_path cfg)" "healthy (w_disk w)"
    "clock_ok (w_clock w)" "content (w_disk w) (cf_aof_path cfg) = []" "bulk_ok k" "bulk_ok t"
    "ParseInt64 t = Some n" "int64_range (n + 1)" "ParseInt64 s = Some v" "0 < v" "v \<le> 9223372036854775"
  shows "\<exists>s0 w1 D. Server_Init cfg hw w = Some (True, s0) \<and> serve_events (counter_session k t s) (sv_world s0) = Some w1
    \<and> now_of w + v * 1000 \<le> D \<and> D \<le> now_of w1 + v * 1000 \<and> (\<exists>j. now_of w1 = later w j)
    \<and> (now_of w1 < D \<and> D \<le> INT64_MAX \<longrightarrow>
        (\<forall>u\<ge>now_of w1. db u (w_store w1) = (if u < D then [k \<mapsto> (DInt (n + 1), D)] else Map.empty))
        \<and> (\<forall>hw2 w2. clock_ok (w_clock w2) \<and> w_disk w2 = power_fail (w_disk (sv_world (Server_Shutdown (s0\<lparr>sv_world := w1\<rparr>)))) \<longrightarrow>
            (\<exists>s2 w3. Server_Init cfg hw2 w2 = Some (True, s2) \<and> w3 = sv_world s2 \<and> (\<exists>j. now_of w3 = later w2 j)
               \<and> (now_of w3 < D \<longrightarrow> (\<forall>u\<ge>now_of w3. db u (w_store w3) = (if u < D then [k \<mapsto> (DInt (n + 1), D)] else Map.empty)))
               \<and> (D \<le> now_of w2 \<longrightarrow> (\<forall>u\<ge>now_of w3. db u (w_store w3) = [k \<mapsto> (DInt 1, 0)])))))"
proof -
  let ?p = "cf_aof_path cfg" and ?open = "snd (Aof_Open (cf_aof_path cfg) (cf_aof_policy cfg) (Aof_new, w_disk w))"
  have ld: "Aof_LoadAll ?p (w_disk w) = Some ([], 0)" using assms(3,6) by (auto simp: Aof_LoadAll_def content_def split: option.splits)
  obtain w0 s0 where w0: "w_good 9 w0" "holds_db Map.empty w0" "w_clock w0 = (\<lambda>i. w_clock w (Suc i))"
    "Server_Init cfg hw w = Some (True, s0)" "sv_world s0 = w0" "(w_aof w0, w_disk w0) = ?open"
    using Server_Init_replays_clock [OF assms(1-3,5) _ ld, of 9 hw] by auto
  have mono: "now_of w \<le> now_of w0" using assms(5) w0(3) by (simp add: clock_ok_def)
  from counter_served [OF w0(1,2) assms(9-13), of k] obtain w1 D cs where
    w1: "serve_events (counter_session k t s) w0 = Some w1" "now_of w0 + v * 1000 \<le> D" "D \<le> now_of w1 + v * 1000"
      "file_run (map EvAppend cs) w0 w1"
      "now_of w1 < D \<Longrightarrow> D \<le> INT64_MAX \<Longrightarrow> cs = counter_log k t D \<and> keeps_db [k \<mapsto> (DInt (n + 1), D)] w1" by blast
  have "0 \<le> now_of w0" using w0(1) by (simp add: w_good_def clock_ok_def)
  then have D0: "0 < D" using w1(2) assms(12) by linarith
  have re: "\<exists>s2 w3. Server_Init cfg hw2 w2 = Some (True, s2) \<and> w3 = sv_world s2 \<and> (\<exists>j. now_of w3 = later w2 j)
      \<and> (now_of w3 < D \<longrightarrow> (\<forall>u\<ge>now_of w3. db u (w_store w3) = (if u < D then [k \<mapsto> (DInt (n + 1), D)] else Map.empty)))
      \<and> (D \<le> now_of w2 \<longrightarrow> (\<forall>u\<ge>now_of w3. db u (w_store w3) = [k \<mapsto> (DInt 1, 0)]))"
    if c: "now_of w1 < D" "D \<le> INT64_MAX" and w2: "clock_ok (w_clock w2)"
      "w_disk w2 = power_fail (w_disk (sv_world (Server_Shutdown (s0\<lparr>sv_world := w1\<rparr>))))" for hw2 w2
  proof -
    have cs: "cs = counter_log k t D" using w1(5) [OF c] by blast
    have "int64_range D" "int64_range 1" using c D0 by (simp_all add: int64_range_def)
    then have ok: "list_all args_ok (counter_log k t D)"
      using assms(7,8) dec_of_int_ok by (simp add: counter_log_def args_ok_def bulk_ok_def)
    have run: "(w_aof w1, w_disk w1) = aof_run (map EvAppend cs) ?open" using w1(4) w0(6) by (simp add: file_run_def)
    have "list_all args_ok (appended (map EvAppend cs))" using ok cs by simp
    note l = run_log [OF assms(3,4,6) this run]
    have "af_open (w_aof (sv_world (s0\<lparr>sv_world := w1\<rparr>)))" "healthy (w_disk (sv_world (s0\<lparr>sv_world := w1\<rparr>)))" using l(1,2) by simp_all
    note sh = Shutdown_log [OF this]
    have "can_open (w_disk w2) ?p" "content (w_disk w2) ?p = concat (map enc (counter_log k t D))"
      using sh l(3-5) assms(3) w2(2) cs by simp_all
    from counter_restarted [OF assms(1,2) this(1) w2(1) this(2) ok assms(9,10) D0 c(2), of hw2] show ?thesis .
  qed
  have m: "\<forall>u\<ge>now_of w1. db u (w_store w1) = (if u < D then [k \<mapsto> (DInt (n + 1), D)] else Map.empty)"
    if "now_of w1 < D" "D \<le> INT64_MAX" using keeps_deadline [OF D0] w1(5) [OF that] by blast
  have s: "now_of w + v * 1000 \<le> D" "serve_events (counter_session k t s) (sv_world s0) = Some w1" using w1(1,2) mono w0(5) by simp_all
  obtain j where "now_of w1 = later w0 j" using moves_session [OF w1(1)] by (auto simp: moves_def)
  then have r: "\<exists>j. now_of w1 = later w j" using w0(3) by auto
  show ?thesis
    by (rule exI [of _ s0], rule exI [of _ w1], rule exI [of _ D], intro conjI impI allI) (use w0(4) w1(3) s r m re in \<open>blast+\<close>)
qed

text \<open>The first machine has been up for at least a second, the deadline is 6 to 7 seconds after its start; on a
  machine whose clock stands at 0 the key lives until that clock reaches 6 seconds, on one that has been
  up for 8 seconds it is back for good.\<close>

theorem deadline_after_restart_witness:
  "\<forall>st. \<exists>s0 w1 D. Server_Init sample_config 4 (boot st) = Some (True, s0)
    \<and> serve_events (counter_session ''a'' ''41'' ''5'') (sv_world s0) = Some w1 \<and> 6000 \<le> D \<and> D \<le> 7000
    \<and> (\<exists>s2. Server_Init sample_config 4 (boot st\<lparr>w_clock := (\<lambda>i. 0), w_disk := power_fail (w_disk (sv_world (Server_Shutdown (s0\<lparr>sv_world := w1\<rparr>))))\<rparr>)
          = Some (True, s2) \<and> (\<forall>u\<ge>0. db u (w_store (sv_world s2)) = (if u < D then [''a'' \<mapsto> (DInt 42, D)] else Map.empty)))
    \<and> (\<exists>s2. Server_Init sample_config 4 (boot st\<lparr>w_clock := (\<lambda>i. 8000), w_disk := power_fail (w_disk (sv_world (Server_Shutdown (s0\<lparr>sv_world := w1\<rparr>))))\<rparr>)
          = Some (True, s2) \<and> (\<forall>u\<ge>8000. db u (w_store (sv_world s2)) = [''a'' \<mapsto> (DInt 1, 0)]))"
proof
  fix st
  have p: "ParseInt64 ''41'' = Some 41" "ParseInt64 ''5'' = Some 5" by code_simp+
  have "bulk_ok ''a''" "bulk_ok ''41''" "int64_range (41 + 1)" by (simp_all add: bulk_ok_def int64_range_def)
  note b = this
  let ?d = "\<lambda>s0 w1. power_fail (w_disk (sv_world (Server_Shutdown (s0\<lparr>sv_world := w1\<rparr>))))"
  have "can_open (w_disk (boot st)) ''f''" "healthy (w_disk (boot st))" "clock_ok (w_clock (boot st))" "content (w_disk (boot st)) ''f'' = []"
    using sample_facts(5,6,9) sample_facts(7,8) [of st] by simp_all
  note h = this
  have v: "(0 :: int) < 5" "(5 :: int) \<le> 9223372036854775" by simp_all
  note deadline_after_restart [where cfg = sample_config, unfolded sample_facts(3), OF sample_facts(1,2) h b(1,2) p(1) b(3) p(2) v, of 4]
  then obtain s0 w1 D where s0: "Server_Init sample_config 4 (boot st) = Some (True, s0)"
    "serve_events (counter_session ''a'' ''41'' ''5'') (sv_world s0) = Some w1" "now_of (boot st) + 5 * 1000 \<le> D" "D \<le> now_of w1 + 5 * 1000"
    "\<exists>j. now_of w1 = later (boot st) j"
    and run: "now_of w1 < D \<and> D \<le> INT64_MAX \<longrightarrow>
      (\<forall>u\<ge>now_of w1. db u (w_store w1) = (if u < D then [''a'' \<mapsto> (DInt (41 + 1), D)] else Map.empty))
      \<and> (\<forall>hw2 w2. clock_ok (w_clock w2) \<and> w_disk w2 = ?d s0 w1 \<longrightarrow>
        (\<exists>s2 w3. Server_Init sample_config hw2 w2 = Some (True, s2) \<and> w3 = sv_world s2 \<and> (\<exists>j. now_of w3 = later w2 j)
          \<and> (now_of w3 < D \<longrightarrow> (\<forall>u\<ge>now_of w3. db u (w_store w3) = (if u < D then [''a'' \<mapsto> (DInt (41 + 1), D)] else Map.empty)))
          \<and> (D \<le> now_of w2 \<longrightarrow> (\<forall>u\<ge>now_of w3. db u (w_store w3) = [''a'' \<mapsto> (DInt 1, 0)]))))"
    by (elim exE conjE) (rule that, (assumption | rule exI)+)
  have D: "6000 \<le> D" "D \<le> 7000" "now_of w1 < D" "D \<le> INT64_MAX" using s0(3-5) by auto
  let ?w = "\<lambda>c. boot st\<lparr>w_clock := (\<lambda>i. c), w_disk := ?d s0 w1\<rparr>"
  have c: "clock_ok (w_clock (?w 0))" "clock_ok (w_clock (?w 8000))" by (simp_all add: clock_ok_def)
  have re: "\<exists>s2 w3. Server_Init sample_config 4 (?w c) = Some (True, s2) \<and> w3 = sv_world s2 \<and> now_of w3 = c
      \<and> (now_of w3 < D \<longrightarrow> (\<forall>u\<ge>now_of w3. db u (w_store w3) = (if u < D then [''a'' \<mapsto> (DInt (41 + 1), D)] else Map.empty)))
      \<and> (D \<le> c \<longrightarrow> (\<forall>u\<ge>now_of w3. db u (w_store w3) = [''a'' \<mapsto> (DInt 1, 0)]))" if "clock_ok (w_clock (?w c))" for c
    using run [THEN mp, OF conjI [OF D(3,4)], THEN conjunct2, rule_format, of "?w c" 4] that by simp
  from re [OF c(1)] D(1) obtain s2 where
    "Server_Init sample_config 4 (?w 0) = Some (True, s2)" "\<forall>u\<ge>0. db u (w_store (sv_world s2)) = (if u < D then [''a'' \<mapsto> (DInt 42, D)] else Map.empty)"
    by auto
  moreover from re [OF c(2)] D(2) obtain s3 where
    "Server_Init sample_config 4 (?w 8000) = Some (True, s3)" "\<forall>u\<ge>8000. db u (w_store (sv_world s3)) = [''a'' \<mapsto> (DInt 1, 0)]" by auto
  ultimately show "\<exists>s0 w1 D. Server_Init sample_config 4 (boot st) = Some (True, s0)
    \<and> serve_events (counter_session ''a'' ''41'' ''5'') (sv_world s0) = Some w1 \<and> 6000 \<le> D \<and> D \<le> 7000
    \<and> (\<exists>s2. Server_Init sample_config 4 (boot st\<lparr>w_clock := (\<lambda>i. 0), w_disk := power_fail (w_disk (sv_world (Server_Shutdown (s0\<lparr>sv_world := w1\<rparr>))))\<rparr>)
          = Some (True, s2) \<and> (\<forall>u\<ge>0. db u (w_store (sv_world s2)) = (if u < D then [''a'' \<mapsto> (DInt 42, D)] else Map.empty)))
    \<and> (\<exists>s2. Server_Init sample_config 4 (boot st\<lparr>w_clock := (\<lambda>i. 8000), w_disk := power_fail (w_disk (sv_world (Server_Shutdown (s0\<lparr>sv_world := w1\<rparr>))))\<rparr>)
          = Some (True, s2) \<and> (\<forall>u\<ge>8000. db u (w_store (sv_world s2)) = [''a'' \<mapsto> (DInt 1, 0)]))"
    using s0(1,2) D(1,2) by blast
qed

end
