(* ===== verification/Skip_List_Valid.thy ===== *)
theory Skip_List_Valid
  imports Data_Properties
begin

section \<open>The self-check of the skip list (SkipList::Validate)\<close>

text \<open>
  \<open>Validate\<close> walks the whole structure and compares it with the definition of the spans.  The result
  is \<open>None\<close> when it would touch memory that is not allocated, \<open>Some None\<close> when it returns true and
  \<open>Some (Some e)\<close> when it fails; \<open>e\<close> says at which test (the text of the message is not modelled).
  On every list the operations build, all the tests on spans, levels and counts pass; the test of the
  order compares the header, whose score is \<open>0.0\<close>, with the first node.
\<close>

datatype valid_error = VCycle | VCount | VOrder nat | VLevel nat | VZero nat | VSpan nat | VTail nat | VTop

text \<open>The walk on level 0: the addresses in order and the map \<open>rank_of\<close>.\<close>

partial_function (option) v_nodes ::
    "sheap \<Rightarrow> nat \<Rightarrow> nat option \<Rightarrow> nat list \<Rightarrow> (nat \<rightharpoonup> u64) \<Rightarrow> u64 \<Rightarrow> (valid_error + nat list \<times> (nat \<rightharpoonup> u64) \<times> u64) option" where
  "v_nodes h len p nodes rank_of r =
     (case p of
        None \<Rightarrow> Some (Inr (nodes, rank_of, r))
      | Some x \<Rightarrow>
          let nodes = nodes @ [x]; r = r + 1; rank_of = rank_of(x \<mapsto> r) in
          if length nodes > len + 1 then Some (Inl VCycle)
          else do { f \<leftarrow> get_fwd h x 0; v_nodes h len f nodes rank_of r })"

text \<open>\<open>operator[]\<close> of the map: a missing key reads as \<open>0\<close>.\<close>

definition rank_at :: "(nat \<rightharpoonup> u64) \<Rightarrow> nat \<Rightarrow> u64" where
  "rank_at m x = (case m x of None \<Rightarrow> 0 | Some r \<Rightarrow> r)"

fun v_order :: "sheap \<Rightarrow> nat \<Rightarrow> nat list \<Rightarrow> valid_error option option" where
  "v_order h i (a # b # nodes) =
     do { na \<leftarrow> h a; nb \<leftarrow> h b;
          if \<not> Less na (nd_score nb) (nd_member nb) then Some (Some (VOrder i))
          else v_order h (Suc i) (b # nodes) }"
| "v_order h i nodes = Some None"

partial_function (option) v_level :: "sheap \<Rightarrow> (nat \<rightharpoonup> u64) \<Rightarrow> nat \<Rightarrow> nat \<Rightarrow> valid_error option option" where
  "v_level h rank_of i p =
     do { f \<leftarrow> get_fwd h p i;
          case f of
            None \<Rightarrow> Some None
          | Some target \<Rightarrow>
              do { nt \<leftarrow> h target;
                   if nd_level nt \<le> i then Some (Some (VLevel i))
                   else do { sp \<leftarrow> get_span h p i;
                             if sp = 0 then Some (Some (VZero i))
                             else if ucast sp \<noteq> rank_at rank_of target - rank_at rank_of p then Some (Some (VSpan i))
                             else v_level h rank_of i target } } }"

definition v_tail :: "sheap \<Rightarrow> (nat \<rightharpoonup> u64) \<Rightarrow> u64 \<Rightarrow> nat \<Rightarrow> nat \<Rightarrow> valid_error option option" where
  "v_tail h rank_of tail_rank p i =
     do { f \<leftarrow> get_fwd h p i;
          if f = None
          then do { sp \<leftarrow> get_span h p i;
                    if ucast sp \<noteq> tail_rank - rank_at rank_of p then Some (Some (VTail i)) else Some None }
          else Some None }"

text \<open>A loop that returns at the first failure.\<close>

fun first_fail :: "('a \<Rightarrow> valid_error option option) \<Rightarrow> 'a list \<Rightarrow> valid_error option option" where
  "first_fail f [] = Some None"
| "first_fail f (x # xs) = do { e \<leftarrow> f x; if e = None then first_fail f xs else Some e }"

definition v_node_tails :: "sheap \<Rightarrow> nat \<Rightarrow> (nat \<rightharpoonup> u64) \<Rightarrow> u64 \<Rightarrow> nat \<Rightarrow> valid_error option option" where
  "v_node_tails h level rank_of tail_rank p =
     do { nd \<leftarrow> h p;
          let lim = (if nd_level nd < level then nd_level nd else level);
          first_fail (v_tail h rank_of tail_rank p) [0..<lim] }"

definition Validate :: "skiplist \<Rightarrow> valid_error option option" where
  "Validate s =
     (let h = sl_heap s in
      do { f \<leftarrow> get_fwd h header 0;
           x \<leftarrow> v_nodes h (unat (sl_length s)) f [header] [header \<mapsto> 0] 0;
           case x of
             Inl e \<Rightarrow> Some (Some e)
           | Inr (nodes, rank_of, r) \<Rightarrow>
               if r \<noteq> sl_length s then Some (Some VCount)
               else
                 do { e \<leftarrow> v_order h 1 nodes;
                      if e \<noteq> None then Some e
                      else
                        do { e \<leftarrow> first_fail (\<lambda>i. v_level h rank_of i header) [0..<sl_level s];
                             if e \<noteq> None then Some e
                             else
                               do { e \<leftarrow> first_fail (v_node_tails h (sl_level s) rank_of (sl_length s + 1)) nodes;
                                    if e \<noteq> None then Some e
                                    else if sl_level s > 1
                                    then do { f \<leftarrow> get_fwd h header (sl_level s - 1);
                                              if f = None then Some (Some VTop) else Some None }
                                    else Some None } } } })"

subsection \<open>On a list the operations built\<close>

text \<open>The rank of a node is the number of nodes before it.\<close>

definition ranked :: "(nat \<rightharpoonup> u64) \<Rightarrow> cell list \<Rightarrow> bool" where
  "ranked m cs \<longleftrightarrow> (\<forall>pre c post. cs = pre @ c # post \<longrightarrow> rank_at m (ca c) = of_nat (length pre))"

lemma ranked_snoc:
  assumes "ranked m cs" "ca c \<notin> ca ` set cs"
  shows "ranked (m(ca c \<mapsto> of_nat (length cs))) (cs @ [c])"
  unfolding ranked_def
proof (intro allI impI)
  fix pre d post assume e: "cs @ [c] = pre @ d # post"
  show "rank_at (m(ca c \<mapsto> of_nat (length cs))) (ca d) = of_nat (length pre)"
  proof (cases post rule: rev_cases)
    case Nil
    with e show ?thesis by (simp add: rank_at_def)
  next
    case (snoc ps p)
    with e have cs: "cs = pre @ d # ps" by simp
    then have "ca d \<noteq> ca c" using assms(2) by auto
    with assms(1) cs show ?thesis by (auto simp: ranked_def rank_at_def)
  qed
qed

lemma v_nodes_ok:
  assumes "seg h 0 (cs @ c # post) []" "\<forall>d\<in>set (c # post). 1 \<le> cl d" "distinct (map ca (cs @ c # post))"
    "length (cs @ c # post) = len + 1" "ranked m (cs @ [c])" "r = of_nat (length cs)"
  shows "\<exists>f m'. get_fwd h (ca c) 0 = Some f
    \<and> v_nodes h len f (map ca (cs @ [c])) m r = Some (Inr (map ca (cs @ c # post), m', of_nat len))
    \<and> ranked m' (cs @ c # post)"
  using assms
proof (induction post arbitrary: cs c m r)
  case Nil
  then have "get_fwd h (ca c) 0 = Some None" by (simp add: lnk_def)
  with Nil show ?case by (intro exI [of _ None] exI [of _ m]) (simp add: v_nodes.simps)
next
  case (Cons d post)
  let ?m = "m(ca d \<mapsto> of_nat (length (cs @ [c])))"
  have f: "get_fwd h (ca c) 0 = Some (Some (ca d))" using Cons.prems(1,2) by (simp add: lnk_def)
  have p: "seg h 0 ((cs @ [c]) @ d # post) []" "\<forall>e\<in>set (d # post). 1 \<le> cl e" "distinct (map ca ((cs @ [c]) @ d # post))"
    "length ((cs @ [c]) @ d # post) = len + 1" "of_nat (length cs) + 1 = (of_nat (length (cs @ [c])) :: u64)"
    using Cons.prems(1-4) by simp_all
  have rk: "ranked ?m ((cs @ [c]) @ [d])" using Cons.prems(3,5) by (intro ranked_snoc) auto
  from Cons.IH [OF p(1-4) rk p(5)] obtain f' m' where IH: "get_fwd h (ca d) 0 = Some f'"
    "v_nodes h len f' (map ca ((cs @ [c]) @ [d])) ?m (of_nat (length cs) + 1)
       = Some (Inr (map ca ((cs @ [c]) @ d # post), m', of_nat len))" "ranked m' ((cs @ [c]) @ d # post)" by blast
  have "v_nodes h len (Some (ca d)) (map ca (cs @ [c])) m r = Some (Inr (map ca (cs @ c # d # post), m', of_nat len))"
    using IH(1,2) Cons.prems(4,6) by (subst v_nodes.simps) (simp add: Let_def ac_simps del: fun_upd_apply)
  with f IH(3) show ?case by auto
qed

lemma v_level_ok:
  assumes "seg h i (c # post) []" "i < cl c" "\<forall>d\<in>set (c # post). holds h d" "ranked m (pre @ c # post)"
    "length (pre @ c # post) \<le> 4294967295"
  shows "v_level h m i (ca c) = Some None"
  using assms
proof (induction "length post" arbitrary: pre c post rule: less_induct)
  case less
  have l: "get_fwd h (ca c) i = Some (tgt i post)" "get_span h (ca c) i = Some (of_nat (dist i post))"
    using less.prems(1,2) by (simp_all add: lnk_def)
  show ?case
  proof (cases "tgt i post")
    case None
    with l show ?thesis by (subst v_level.simps) simp
  next
    case (Some y)
    from tgt_Some [OF this] obtain as d bs where
      d: "post = as @ d # bs" "ca d = y" "i < cl d" "\<forall>e\<in>set as. cl e \<le> i" by blast
    have "holds h d" using less.prems(3) d(1) by simp
    then obtain nd where nd: "h y = Some nd" "nd_level nd = cl d" using d(2) by (auto simp: holds_def shape_def)
    have di: "dist i post = length as + 1" using d(1,3,4) by simp
    have sz: "length as + 1 < 4294967296" using less.prems(5) d(1) by simp
    have "\<not> 2 ^ LENGTH(32) dvd length as + 1" using sz by (intro nat_dvd_not_less) simp_all
    then have sp: "(of_nat (dist i post) :: u32) \<noteq> 0" unfolding di word_of_nat_eq_0_iff .
    have uc: "ucast (of_nat (dist i post) :: u32) = (of_nat (length as + 1) :: u64)" unfolding di using sz by (intro ucast_of_nat_u32)
    have "rank_at m (ca c) = of_nat (length pre)" using less.prems(4) by (auto simp: ranked_def)
    moreover have "rank_at m y = of_nat (length (pre @ c # as))"
    proof -
      have "pre @ c # post = (pre @ c # as) @ d # bs" by (simp add: d(1))
      with less.prems(4) have "rank_at m (ca d) = of_nat (length (pre @ c # as))" unfolding ranked_def by blast
      then show ?thesis using d(2) by simp
    qed
    ultimately have rk: "rank_at m y - rank_at m (ca c) = of_nat (length as + 1)" by simp
    have "seg h i (d # bs) []" "\<forall>e\<in>set (d # bs). holds h e" "ranked m ((pre @ c # as) @ d # bs)"
      "length ((pre @ c # as) @ d # bs) \<le> 4294967295" "length bs < length post"
      using less.prems d(1) by simp_all
    from less.hyps [OF this(5,1) d(3) this(2-4)] have rest: "v_level h m i y = Some None" by (simp only: d(2))
    show ?thesis using l Some nd d(3) sp uc rk rest by (subst v_level.simps) simp
  qed
qed

lemma v_tail_ok:
  assumes "seg h i (pre @ c # post) []" "ranked m (pre @ c # post)" "i < cl c"
    "length (pre @ c # post) = n + 1" "n < 4294967295"
  shows "v_tail h m (of_nat n + 1) (ca c) i = Some None"
proof -
  have l: "get_fwd h (ca c) i = Some (tgt i post)" "get_span h (ca c) i = Some (of_nat (dist i post))"
    using assms(1,3) by (simp_all add: lnk_def)
  have "ucast (of_nat (dist i post) :: u32) = (of_nat n + 1 - rank_at m (ca c) :: u64)" if "tgt i post = None"
  proof -
    have d: "dist i post = length post + 1" using that by (simp add: tgt_None)
    have "ucast (of_nat (length post + 1) :: u32) = (of_nat (length post + 1) :: u64)" using assms(4,5) by (intro ucast_of_nat_u32) simp
    moreover have "n = length pre + length post" using assms(4) by simp
    moreover have "rank_at m (ca c) = of_nat (length pre)" using assms(2) by (auto simp: ranked_def)
    ultimately show ?thesis unfolding d by simp
  qed
  with l show ?thesis by (simp add: v_tail_def)
qed

lemma first_fail_ok: "\<forall>x\<in>set xs. f x = Some None \<Longrightarrow> first_fail f xs = Some None"
  by (induction xs) auto

lemma Less_keys: "nkey na = k \<Longrightarrow> nkey nb = k' \<Longrightarrow> Less na (nd_score nb) (nd_member nb) \<longleftrightarrow> k < k'"
  by (simp only: Less_key)

lemma v_order_sorted:
  "\<forall>c\<in>set cs. holds h c \<Longrightarrow> sorted_wrt (<) (map ck cs) \<Longrightarrow> v_order h i (map ca cs) = Some None"
proof (induction cs arbitrary: i rule: induct_list012)
  case (3 a b cs)
  then obtain na nb where "h (ca a) = Some na" "nkey na = ck a" "h (ca b) = Some nb" "nkey nb = ck b"
    by (auto simp: holds_def shape_def)
  moreover from Less_keys [OF this(2,4)] have "Less na (nd_score nb) (nd_member nb)" using "3.prems"(2) by simp
  ultimately show ?case using "3.IH"(2) [of "Suc i"] "3.prems" by simp
qed auto

lemma holds_nkey: "holds h c \<Longrightarrow> \<exists>nd. h (ca c) = Some nd \<and> nkey nd = ck c \<and> nd_level nd = cl c"
  by (auto simp: holds_def shape_def)

text \<open>Every test but the first comparison of the order succeeds.\<close>

lemma Validate_ok:
  assumes rep: "sl_rep s xs"
  shows "Validate s = Some (case xs of [] \<Rightarrow> None | c # _ \<Rightarrow> if (Fin 0, []) < ck c then None else Some (VOrder 1))"
proof -
  note R = sl_repD [OF rep]
  let ?h = "sl_heap s" and ?all = "hcell # xs" and ?n = "length xs"
  have seg: "seg ?h i ?all []" if "i < sl_level s" for i using R(11) [OF that] .
  have len: "unat (sl_length s) = ?n" using R(14,15) by simp
  have ge1: "\<forall>d\<in>set ?all. 1 \<le> cl d" using R(8) by simp
  have all: "\<forall>d\<in>set ?all. holds ?h d" using R(1,2) by simp
  have r0: "ranked [header \<mapsto> 0] ([] @ [hcell])" by (auto simp: ranked_def rank_at_def Cons_eq_append_conv)
  have "seg ?h 0 ([] @ ?all) []" "distinct (map ca ([] @ ?all))" "length ([] @ ?all) = ?n + 1" "(0 :: u64) = of_nat (length ([] :: cell list))"
    using seg [of 0] R(6,3) by simp_all
  from v_nodes_ok [OF this(1) ge1 this(2,3) r0 this(4)] obtain f m where
    v: "get_fwd ?h header 0 = Some f" "v_nodes ?h ?n f [header] [header \<mapsto> 0] 0 = Some (Inr (map ca ?all, m, of_nat ?n))"
      "ranked m ?all" by auto
  have ord: "v_order ?h 1 (map ca ?all) = Some (case xs of [] \<Rightarrow> None | c # _ \<Rightarrow> if (Fin 0, []) < ck c then None else Some (VOrder 1))"
  proof (cases xs)
    case (Cons c cs)
    from holds_nkey [OF R(1)] holds_nkey [OF R(2) [of c]] Cons obtain nh nc where
      "?h 0 = Some nh" "nkey nh = (Fin 0, [])" "?h (ca c) = Some nc" "nkey nc = ck c" by (auto simp: hcell_def)
    moreover note Less_keys [OF this(2,4)]
    moreover have "v_order ?h (Suc 1) (map ca xs) = Some None" using R(2,13) by (intro v_order_sorted) simp_all
    ultimately show ?thesis by (simp add: Cons del: fst_conv snd_conv prod.inject)
  qed simp
  have lev: "first_fail (\<lambda>i. v_level ?h m i header) [0..<sl_level s] = Some None"
  proof (rule first_fail_ok, rule ballI)
    fix i assume "i \<in> set [0..<sl_level s]"
    then have i: "i < sl_level s" by simp
    have "i < cl hcell" "ranked m ([] @ ?all)" "length ([] @ ?all) \<le> 4294967295" using i R(7,15) v(3) by simp_all
    from v_level_ok [OF seg [OF i] this(1) all this(2,3)] show "v_level ?h m i header = Some None" by simp
  qed
  have tails: "first_fail (v_node_tails ?h (sl_level s) m (of_nat ?n + 1)) (map ca ?all) = Some None"
  proof (rule first_fail_ok, rule ballI)
    fix p assume "p \<in> set (map ca ?all)"
    then obtain c where c: "c \<in> set ?all" "p = ca c" unfolding set_map by blast
    from split_list [OF c(1)] obtain pre post where cs: "?all = pre @ c # post" by blast
    from holds_nkey all c(1) obtain nd where nd: "?h (ca c) = Some nd" "nd_level nd = cl c" by blast
    have n: "length (pre @ c # post) = ?n + 1" "?n < 4294967295" using arg_cong [OF cs, of length] R(15) by simp_all
    have "v_tail ?h m (of_nat ?n + 1) p i = Some None" if "i < sl_level s" "i < cl c" for i
      using v_tail_ok [OF seg [OF that(1), unfolded cs] v(3) [unfolded cs] that(2) n] c(2) by simp
    then show "v_node_tails ?h (sl_level s) m (of_nat ?n + 1) p = Some None"
      using nd c(2) by (auto simp: v_node_tails_def intro!: first_fail_ok)
  qed
  have top: "\<exists>y. get_fwd ?h header (sl_level s - 1) = Some (Some y)" if "1 < sl_level s"
  proof -
    from R(10) [OF that] obtain c where c: "c \<in> set xs" "cl c = sl_level s" by blast
    have "lnk ?h (sl_level s - 1) hcell xs" using seg [of "sl_level s - 1"] that by simp
    then have "get_fwd ?h header (sl_level s - 1) = Some (tgt (sl_level s - 1) xs)" using R(7) that by (simp add: lnk_def)
    moreover have "tgt (sl_level s - 1) xs \<noteq> None" using c that by (auto simp: tgt_None not_le intro!: bexI [of _ c])
    ultimately show ?thesis by auto
  qed
  show ?thesis
    using v(1,2) ord lev tails top R(14) len by (auto simp: Validate_def Let_def split: list.splits)
qed

subsection \<open>After any history\<close>

text \<open>C33: The self-check. After any sequence of Insert, Delete and Clear, Validate touches only allocated memory and finds every span, level and count right: it returns true on the empty list and whenever the first key is above the header's own key, the score 0.0 with the empty member. When the first score is negative it fails at index 1 although nothing is wrong, because the test of the order starts at the header.\<close>

theorem validate_exact:
  assumes "length ps \<le> 4294967294"
  shows "\<exists>s r'. sl_exec ps (SkipList_new, r) = Some (s, r') \<and>
    Validate s = Some (case sl_contents ps of [] \<Rightarrow> None | k # _ \<Rightarrow> if (Fin 0, []) < k then None else Some (VOrder 1))"
proof -
  from sl_exec_ok [OF sl_keys_new, of ps r] assms obtain s r' where
    s: "sl_exec ps (SkipList_new, r) = Some (s, r')" "sl_keys s (sl_contents ps)" by (auto simp: sl_contents_def)
  then obtain xs where xs: "sl_rep s xs" "sl_contents ps = map ck xs" by (auto simp: sl_keys_def)
  with s(1) Validate_ok [OF xs(1)] show ?thesis by (cases xs) auto
qed

theorem validate_exact_witness:
  "\<exists>s r'. sl_exec [OpInsert (Fin (- 1)) ''a''] (SkipList_new, \<lambda>_. 0) = Some (s, r') \<and> Validate s = Some (Some (VOrder 1))"
  using validate_exact [of "[OpInsert (Fin (- 1)) ''a'']" "\<lambda>_. 0"] by (auto simp: sl_contents_def)

end
