(* ===== verification/Poller_Select.thy ===== *)
theory Poller_Select
  imports Event_Loop
begin

section \<open>The select back end (src/poller.cpp, the Windows part)\<close>

text \<open>
  The registry of the \<open>select\<close> back end: a vector of entries, searched from the front; removal moves
  the last entry into the gap.  \<open>cap\<close> is \<open>FD_SETSIZE\<close>, a constant of the platform.  Proved: the
  vector always is a finite map from descriptors to events, which registering, modifying and
  removing update as the map of the specification, as long as the vector is not full; what \<open>Wait\<close>
  reports; and that a full vector refuses to modify the entries it has.
\<close>

record select_poller =
  sp_entries :: "(int \<times> u32) list"

definition Select_new :: select_poller where
  "Select_new = \<lparr>sp_entries = []\<rparr>"

text \<open>The loop over the entries: the first with the descriptor gets the events; \<open>None\<close> when none has it.\<close>

fun set_entry :: "int \<Rightarrow> u32 \<Rightarrow> (int \<times> u32) list \<Rightarrow> (int \<times> u32) list option" where
  "set_entry fd ev [] = None"
| "set_entry fd ev ((f, e) # es) =
     (if f = fd then Some ((f, ev) # es) else map_option (\<lambda>es. (f, e) # es) (set_entry fd ev es))"

definition Select_Register :: "nat \<Rightarrow> int \<Rightarrow> u32 \<Rightarrow> select_poller \<Rightarrow> bool \<times> select_poller" where
  "Select_Register cap fd ev p =
     (if length (sp_entries p) \<ge> cap then (False, p)
      else case set_entry fd ev (sp_entries p) of
        Some es \<Rightarrow> (True, p\<lparr>sp_entries := es\<rparr>)
      | None \<Rightarrow> (True, p\<lparr>sp_entries := sp_entries p @ [(fd, ev)]\<rparr>))"

definition Select_Modify :: "nat \<Rightarrow> int \<Rightarrow> u32 \<Rightarrow> select_poller \<Rightarrow> bool \<times> select_poller" where
  "Select_Modify cap fd ev p = Select_Register cap fd ev p"

text \<open>\<open>entries_[i] = entries_.back(); entries_.pop_back()\<close> at the first entry of the descriptor.\<close>

fun find_entry :: "int \<Rightarrow> nat \<Rightarrow> (int \<times> u32) list \<Rightarrow> nat option" where
  "find_entry fd i [] = None"
| "find_entry fd i ((f, e) # es) = (if f = fd then Some i else find_entry fd (Suc i) es)"

definition Select_Unregister :: "int \<Rightarrow> select_poller \<Rightarrow> bool \<times> select_poller" where
  "Select_Unregister fd p =
     (case find_entry fd 0 (sp_entries p) of
        None \<Rightarrow> (True, p)
      | Some i \<Rightarrow> (True, p\<lparr>sp_entries := butlast ((sp_entries p)[i := last (sp_entries p)])\<rparr>))"

text \<open>\<open>Wait\<close>: the answer of \<open>select\<close> is \<open>None\<close> (an error) or the three sets it leaves, of which
  only the members among the descriptors asked for count; its result is the number of them.\<close>

record select_sets =
  ss_read :: "int \<Rightarrow> bool"
  ss_write :: "int \<Rightarrow> bool"
  ss_except :: "int \<Rightarrow> bool"

definition entry_events :: "select_sets \<Rightarrow> int \<times> u32 \<Rightarrow> u32" where
  "entry_events s e =
     (let (fd, want) = e;
          ev = 0;
          ev = (if want AND kEventReadable \<noteq> 0 \<and> ss_read s fd then ev OR kEventReadable else ev);
          ev = (if want AND kEventWritable \<noteq> 0 \<and> ss_write s fd then ev OR kEventWritable else ev)
      in if ss_except s fd then ev OR kEventError else ev)"

definition Select_Wait :: "select_sets option \<Rightarrow> select_poller \<Rightarrow> (int \<times> u32) list option" where
  "Select_Wait answer p =
     (if sp_entries p = [] then Some []
      else case answer of
        None \<Rightarrow> None
      | Some s \<Rightarrow> Some (filter (\<lambda>(fd, ev). ev \<noteq> 0) (map (\<lambda>e. (fst e, entry_events s e)) (sp_entries p))))"

subsection \<open>The vector is a map\<close>

definition sp_ok :: "nat \<Rightarrow> select_poller \<Rightarrow> bool" where
  "sp_ok cap p \<longleftrightarrow> distinct (map fst (sp_entries p)) \<and> length (sp_entries p) \<le> cap"

lemma set_entry_ok:
  "set_entry fd ev es = None \<longleftrightarrow> fd \<notin> fst ` set es"
  "set_entry fd ev es = Some es' \<Longrightarrow> map fst es' = map fst es \<and> map_of es' = (map_of es)(fd \<mapsto> ev)"
proof -
  show "set_entry fd ev es = None \<longleftrightarrow> fd \<notin> fst ` set es" by (induction fd ev es rule: set_entry.induct) auto
  show "set_entry fd ev es = Some es' \<Longrightarrow> map fst es' = map fst es \<and> map_of es' = (map_of es)(fd \<mapsto> ev)"
    by (induction fd ev es arbitrary: es' rule: set_entry.induct) (auto split: if_splits simp: fun_upd_twist)
qed

lemma map_of_snoc: "fd \<notin> fst ` set es \<Longrightarrow> map_of (es @ [(fd, ev)]) = (map_of es)(fd \<mapsto> ev)"
  by (induction es) (auto simp: fun_upd_twist)

lemma map_of_cut:
  "distinct (map fst (as @ x # cs)) \<Longrightarrow> (map_of (as @ x # cs))(fst x := None) = map_of (as @ cs)"
proof (induction as)
  case Nil
  then have "map_of cs (fst x) = None" by (simp add: map_of_eq_None_iff)
  then show ?case by (cases x) (simp add: fun_upd_idem del: fun_upd_apply)
next
  case (Cons a as)
  then have ne: "fst x \<noteq> fst a" by auto
  have "map_of ((a # as) @ x # cs) = (map_of (as @ x # cs))(fst a \<mapsto> snd a)" by simp
  moreover have "map_of ((a # as) @ cs) = (map_of (as @ cs))(fst a \<mapsto> snd a)" by simp
  moreover have "(map_of (as @ x # cs))(fst x := None) = map_of (as @ cs)" by (rule Cons.IH) (use Cons.prems in simp)
  ultimately show ?case by (simp only: fun_upd_twist [OF ne, symmetric])
qed

lemma Select_Register_ok:
  assumes "sp_ok cap p" "length (sp_entries p) < cap"
  shows "\<exists>p'. Select_Register cap fd ev p = (True, p') \<and> sp_ok cap p' \<and> map_of (sp_entries p') = (map_of (sp_entries p))(fd \<mapsto> ev)"
proof (cases "set_entry fd ev (sp_entries p)")
  case None
  then have "fd \<notin> fst ` set (sp_entries p)" by (simp add: set_entry_ok(1))
  with None assms show ?thesis by (simp add: Select_Register_def sp_ok_def map_of_snoc del: map_of_append)
next
  case (Some es)
  note e = set_entry_ok(2) [OF this]
  then have "length es = length (sp_entries p)" by (metis length_map)
  with e assms Some show ?thesis by (simp add: Select_Register_def sp_ok_def)
qed

lemma find_entry_ok:
  "find_entry fd i es = Some j \<Longrightarrow> \<exists>as e bs. es = as @ (fd, e) # bs \<and> j = i + length as \<and> fd \<notin> fst ` set as"
  "find_entry fd i es = None \<Longrightarrow> fd \<notin> fst ` set es"
proof -
  show "find_entry fd i es = Some j \<Longrightarrow> \<exists>as e bs. es = as @ (fd, e) # bs \<and> j = i + length as \<and> fd \<notin> fst ` set as"
  proof (induction fd i es rule: find_entry.induct)
    case (2 fd i f e es)
    show ?case
    proof (cases "f = fd")
      case True
      then show ?thesis using "2.prems" by (intro exI [of _ "[]"]) auto
    next
      case False
      with "2.prems" "2.IH" obtain as e' bs where "es = as @ (fd, e') # bs" "j = Suc i + length as" "fd \<notin> fst ` set as" by auto
      with False show ?thesis by (intro exI [of _ "(f, e) # as"]) auto
    qed
  qed simp
  show "find_entry fd i es = None \<Longrightarrow> fd \<notin> fst ` set es"
    by (induction fd i es rule: find_entry.induct) (auto split: if_splits)
qed

lemma swap_remove:
  assumes "distinct (map fst (as @ x # bs))"
  shows "map_of (butlast ((as @ x # bs)[length as := last (as @ x # bs)])) = (map_of (as @ x # bs))(fst x := None)
    \<and> distinct (map fst (butlast ((as @ x # bs)[length as := last (as @ x # bs)])))"
proof (cases bs rule: rev_cases)
  case Nil
  then show ?thesis using map_of_cut [OF assms] assms by (simp add: butlast_append del: map_of_append)
next
  case (snoc ys y)
  then have b: "butlast ((as @ x # bs)[length as := last (as @ x # bs)]) = as @ y # ys" by (simp add: butlast_append)
  have "map_of (as @ y # ys) = map_of (as @ bs)"
    using assms snoc by (subst map_of_inject_set) auto
  then show ?thesis using map_of_cut [OF assms] assms snoc unfolding b by auto
qed

lemma Select_Unregister_ok:
  assumes "sp_ok cap p"
  shows "\<exists>p'. Select_Unregister fd p = (True, p') \<and> sp_ok cap p' \<and> map_of (sp_entries p') = (map_of (sp_entries p))(fd := None)"
proof (cases "find_entry fd 0 (sp_entries p)")
  case None
  then have "map_of (sp_entries p) fd = None" using find_entry_ok(2) by (simp add: map_of_eq_None_iff)
  with None assms show ?thesis by (simp add: Select_Unregister_def fun_upd_idem)
next
  case (Some i)
  from find_entry_ok(1) [OF this] obtain as e bs where e: "sp_entries p = as @ (fd, e) # bs" "i = length as" by auto
  have "distinct (map fst (as @ (fd, e) # bs))" using assms e(1) by (simp add: sp_ok_def)
  note s = swap_remove [OF this]
  have "length (butlast ((sp_entries p)[i := last (sp_entries p)])) \<le> cap" using assms by (auto simp: sp_ok_def)
  then show ?thesis using s Some e by (simp add: Select_Unregister_def sp_ok_def)
qed

subsection \<open>Histories\<close>

datatype poll_op = PReg int u32 | PMod int u32 | PDel int

fun select_run :: "nat \<Rightarrow> poll_op list \<Rightarrow> select_poller \<Rightarrow> bool list \<times> select_poller" where
  "select_run cap [] p = ([], p)"
| "select_run cap (op # ops) p =
     (let (b, p) = (case op of PReg fd ev \<Rightarrow> Select_Register cap fd ev p | PMod fd ev \<Rightarrow> Select_Modify cap fd ev p
                    | PDel fd \<Rightarrow> Select_Unregister fd p);
          (bs, p) = select_run cap ops p
      in (b # bs, p))"

text \<open>The specification: a map; when it is full, every registration and modification is refused.\<close>

fun registry :: "nat \<Rightarrow> poll_op list \<Rightarrow> (int \<rightharpoonup> u32) \<Rightarrow> bool list \<times> (int \<rightharpoonup> u32)" where
  "registry cap [] m = ([], m)"
| "registry cap (op # ops) m =
     (let (b, m) = (case op of PDel fd \<Rightarrow> (True, m(fd := None))
                    | PReg fd ev \<Rightarrow> if card (dom m) < cap then (True, m(fd \<mapsto> ev)) else (False, m)
                    | PMod fd ev \<Rightarrow> if card (dom m) < cap then (True, m(fd \<mapsto> ev)) else (False, m));
          (bs, m) = registry cap ops m
      in (b # bs, m))"

lemma sp_ok_card: "sp_ok cap p \<Longrightarrow> card (dom (map_of (sp_entries p))) = length (sp_entries p)"
  unfolding sp_ok_def dom_map_of_conv_image_fst by (metis distinct_card length_map set_map)

lemma Select_Register_spec:
  assumes "sp_ok cap p"
  shows "\<exists>b p'. Select_Register cap fd ev p = (b, p') \<and> sp_ok cap p' \<and>
    (b, map_of (sp_entries p')) = (if card (dom (map_of (sp_entries p))) < cap then (True, (map_of (sp_entries p))(fd \<mapsto> ev))
       else (False, map_of (sp_entries p)))"
proof (cases "length (sp_entries p) < cap")
  case True
  with Select_Register_ok [OF assms True, of fd ev] sp_ok_card [OF assms] show ?thesis by auto
next
  case False
  with sp_ok_card [OF assms] assms show ?thesis by (intro exI [of _ False] exI [of _ p]) (simp add: Select_Register_def)
qed

lemma select_run_ok:
  "sp_ok cap p \<Longrightarrow> \<exists>bs p'. select_run cap ops p = (bs, p') \<and> sp_ok cap p'
     \<and> registry cap ops (map_of (sp_entries p)) = (bs, map_of (sp_entries p'))"
proof (induction ops arbitrary: p)
  case (Cons op ops)
  have "\<exists>b p1. (case op of PReg fd ev \<Rightarrow> Select_Register cap fd ev p | PMod fd ev \<Rightarrow> Select_Modify cap fd ev p
        | PDel fd \<Rightarrow> Select_Unregister fd p) = (b, p1) \<and> sp_ok cap p1
      \<and> (case op of PDel fd \<Rightarrow> (True, (map_of (sp_entries p))(fd := None))
         | PReg fd ev \<Rightarrow> if card (dom (map_of (sp_entries p))) < cap then (True, (map_of (sp_entries p))(fd \<mapsto> ev)) else (False, map_of (sp_entries p))
         | PMod fd ev \<Rightarrow> if card (dom (map_of (sp_entries p))) < cap then (True, (map_of (sp_entries p))(fd \<mapsto> ev)) else (False, map_of (sp_entries p)))
        = (b, map_of (sp_entries p1))"
  proof (cases op)
    case (PReg fd ev)
    from Select_Register_spec [OF Cons.prems, of fd ev] show ?thesis unfolding PReg by (auto split: if_splits)
  next
    case (PMod fd ev)
    from Select_Register_spec [OF Cons.prems, of fd ev] show ?thesis unfolding PMod Select_Modify_def by (auto split: if_splits)
  next
    case (PDel fd)
    from Select_Unregister_ok [OF Cons.prems, of fd] show ?thesis unfolding PDel by auto
  qed
  then obtain b p1 where 1: "(case op of PReg fd ev \<Rightarrow> Select_Register cap fd ev p | PMod fd ev \<Rightarrow> Select_Modify cap fd ev p
        | PDel fd \<Rightarrow> Select_Unregister fd p) = (b, p1)" "sp_ok cap p1"
      "(case op of PDel fd \<Rightarrow> (True, (map_of (sp_entries p))(fd := None))
         | PReg fd ev \<Rightarrow> if card (dom (map_of (sp_entries p))) < cap then (True, (map_of (sp_entries p))(fd \<mapsto> ev)) else (False, map_of (sp_entries p))
         | PMod fd ev \<Rightarrow> if card (dom (map_of (sp_entries p))) < cap then (True, (map_of (sp_entries p))(fd \<mapsto> ev)) else (False, map_of (sp_entries p)))
        = (b, map_of (sp_entries p1))" by blast
  from Cons.IH [OF 1(2)] obtain bs p2 where "select_run cap ops p1 = (bs, p2)" "sp_ok cap p2"
    "registry cap ops (map_of (sp_entries p1)) = (bs, map_of (sp_entries p2))" by blast
  with 1 show ?case by (simp only: select_run.simps registry.simps Let_def prod.case) blast
qed simp

text \<open>C18: The registry of the select back end. For any sequence of Register, Modify and Unregister, the vector, with its search from the front and its removal by swapping with the last entry, gives the answers and holds the contents of one map from descriptors to events, with one entry for each descriptor.\<close>

theorem select_registry:
  "\<exists>bs p. select_run cap ops Select_new = (bs, p) \<and> registry cap ops Map.empty = (bs, map_of (sp_entries p))
     \<and> distinct (map fst (sp_entries p))"
proof -
  have "sp_ok cap Select_new" by (simp add: sp_ok_def Select_new_def)
  from select_run_ok [OF this, of ops] show ?thesis by (auto simp: Select_new_def sp_ok_def)
qed

text \<open>A full select back end. When FD_SETSIZE descriptors are registered, Modify of any of them is refused, because it tests for room like Register does: a connection that could not send everything is then never watched for writing, whatever select answers, and its output is stuck, as EnableWriteIfNeeded ignores the refusal.\<close>

theorem select_full_refuses:
  assumes "length (sp_entries p) = cap" "distinct (map fst (sp_entries p))" "(fd, ev) \<in> set (sp_entries p)" "ev AND kEventWritable = 0"
  shows "Select_Modify cap fd (ev OR kEventWritable) p = (False, p)
    \<and> (\<forall>answer out got. Select_Wait answer p = Some out \<and> (fd, got) \<in> set out \<longrightarrow> got AND kEventWritable = 0)"
proof (intro conjI allI impI)
  show "Select_Modify cap fd (ev OR kEventWritable) p = (False, p)" using assms(1) by (simp add: Select_Modify_def Select_Register_def)
  fix answer out got assume w: "Select_Wait answer p = Some out \<and> (fd, got) \<in> set out"
  then obtain s e where e: "e \<in> set (sp_entries p)" "fst e = fd" "got = entry_events s e"
    by (auto simp: Select_Wait_def split: if_splits option.splits)
  with assms(2,3) have "e = (fd, ev)" by (metis eq_key_imp_eq_value prod.collapse)
  then show "got AND kEventWritable = 0" using e(3) assms(4) by (auto simp: entry_events_def Let_def)
qed

theorem select_full_refuses_witness:
  "Select_Modify 2 6 5 \<lparr>sp_entries = [(6, 1), (7, 1)]\<rparr> = (False, \<lparr>sp_entries = [(6, 1), (7, 1)]\<rparr>)"
  using select_full_refuses [of "\<lparr>sp_entries = [(6, 1), (7, 1)]\<rparr>" 2 6 1] by simp

subsection \<open>The interface of a back end\<close>

text \<open>What the event loop relies on: which descriptors are watched after each call.  A refusal
  changes nothing, a modification neither adds nor removes.\<close>

locale poller_backend =
  fixes inv :: "'p \<Rightarrow> bool" and watched :: "'p \<Rightarrow> int set"
    and reg :: "int \<Rightarrow> u32 \<Rightarrow> 'p \<Rightarrow> bool \<times> 'p" and md :: "int \<Rightarrow> u32 \<Rightarrow> 'p \<Rightarrow> bool \<times> 'p"
    and unreg :: "int \<Rightarrow> 'p \<Rightarrow> bool \<times> 'p"
  assumes reg_ok: "inv p \<Longrightarrow> reg fd ev p = (b, p') \<Longrightarrow> inv p' \<and> watched p' = (if b then insert fd (watched p) else watched p)"
    and md_ok: "inv p \<Longrightarrow> fd \<in> watched p \<Longrightarrow> md fd ev p = (b, p') \<Longrightarrow> inv p' \<and> watched p' = watched p"
    and unreg_ok: "inv p \<Longrightarrow> unreg fd p = (b, p') \<Longrightarrow> inv p' \<and> watched p' = watched p - {fd}"

text \<open>The calls of a loop on its back end, beside the descriptors that have a callback.\<close>

fun loop_call ::
    "(int \<Rightarrow> u32 \<Rightarrow> 'p \<Rightarrow> bool \<times> 'p) \<Rightarrow> (int \<Rightarrow> u32 \<Rightarrow> 'p \<Rightarrow> bool \<times> 'p) \<Rightarrow> (int \<Rightarrow> 'p \<Rightarrow> bool \<times> 'p) \<Rightarrow>
     poll_op \<Rightarrow> int set \<times> 'p \<Rightarrow> int set \<times> 'p" where
  "loop_call reg md unreg (PReg fd ev) (cb, p) = (let (b, p') = reg fd ev p in if b then (insert fd cb, p') else (cb, p'))"
| "loop_call reg md unreg (PMod fd ev) (cb, p) = (if fd \<notin> cb then (cb, p) else (cb, snd (md fd ev p)))"
| "loop_call reg md unreg (PDel fd) (cb, p) = (cb - {fd}, snd (unreg fd p))"

context poller_backend begin

lemma in_step_one:
  assumes "inv p" "watched p = insert nfd cb" "op \<noteq> PDel nfd" "loop_call reg md unreg op (cb, p) = (cb', p')"
  shows "inv p' \<and> watched p' = insert nfd cb'"
proof (cases op)
  case (PReg fd ev)
  obtain b q where r: "reg fd ev p = (b, q)" by fastforce
  from reg_ok [OF assms(1) this] r assms(2,4) PReg show ?thesis by (auto split: if_splits)
next
  case (PMod fd ev)
  obtain b q where "md fd ev p = (b, q)" by fastforce
  with md_ok [OF assms(1) _ this] assms(1,2,4) PMod show ?thesis by (auto split: if_splits)
next
  case (PDel fd)
  obtain b q where "unreg fd p = (b, q)" by fastforce
  with unreg_ok [OF assms(1) this] assms(2-4) PDel show ?thesis by auto
qed

lemma in_step:
  "inv p \<Longrightarrow> watched p = insert nfd cb \<Longrightarrow> PDel nfd \<notin> set ops \<Longrightarrow>
     foldl (\<lambda>x op. loop_call reg md unreg op x) (cb, p) ops = (cb', p') \<Longrightarrow> inv p' \<and> watched p' = insert nfd cb'"
proof (induction ops arbitrary: cb p)
  case (Cons op ops)
  obtain cb1 p1 where 1: "loop_call reg md unreg op (cb, p) = (cb1, p1)" by fastforce
  have "op \<noteq> PDel nfd" using Cons.prems(3) by auto
  from in_step_one [OF Cons.prems(1,2) this 1] Cons.IH [of p1 cb1] Cons.prems(3,4) 1 show ?case by simp
qed auto

end

text \<open>Both back ends provide it.\<close>

interpretation ep: poller_backend "\<lambda>_. True" "\<lambda>p. dom (pl_interest p)" Poller_Register Poller_Modify Poller_Unregister
  by unfold_locales (auto simp: Poller_Register_def Poller_Modify_def Poller_Unregister_def split: if_splits)

lemma select_backend: "poller_backend (sp_ok cap) (\<lambda>p. dom (map_of (sp_entries p))) (Select_Register cap) (Select_Modify cap) Select_Unregister"
proof
  fix p fd ev b p' assume p: "sp_ok cap p"
  show "Select_Register cap fd ev p = (b, p') \<Longrightarrow> sp_ok cap p' \<and> dom (map_of (sp_entries p')) = (if b then insert fd (dom (map_of (sp_entries p))) else dom (map_of (sp_entries p)))"
    using Select_Register_spec [OF p, of fd ev] by (auto simp del: dom_map_of_conv_image_fst split: if_splits)
  show "fd \<in> dom (map_of (sp_entries p)) \<Longrightarrow> Select_Modify cap fd ev p = (b, p') \<Longrightarrow> sp_ok cap p' \<and> dom (map_of (sp_entries p')) = dom (map_of (sp_entries p))"
    using Select_Register_spec [OF p, of fd ev] unfolding Select_Modify_def by (auto simp del: dom_map_of_conv_image_fst split: if_splits)
  show "Select_Unregister fd p = (b, p') \<Longrightarrow> sp_ok cap p' \<and> dom (map_of (sp_entries p')) = dom (map_of (sp_entries p)) - {fd}"
    using Select_Unregister_ok [OF p, of fd] by auto
qed

interpretation se: poller_backend "sp_ok cap" "\<lambda>p. dom (map_of (sp_entries p))" "Select_Register cap" "Select_Modify cap" Select_Unregister
  for cap
  by (rule select_backend)

text \<open>The calls among the actions of a task.\<close>

fun poll_ops :: "'t action list \<Rightarrow> poll_op list" where
  "poll_ops [] = []"
| "poll_ops (ActRegister fd ev cb # as) = PReg fd ev # poll_ops as"
| "poll_ops (ActModify fd ev # as) = PMod fd ev # poll_ops as"
| "poll_ops (ActUnregister fd # as) = PDel fd # poll_ops as"
| "poll_ops (ActAfter d t # as) = poll_ops as"
| "poll_ops (ActEvery d t # as) = poll_ops as"
| "poll_ops (ActStop # as) = poll_ops as"

lemma quiet_actions [simp]:
  "el_callbacks (RunAfter d t l) = el_callbacks l" "el_poller (RunAfter d t l) = el_poller l"
  "el_callbacks (RunEvery d t l) = el_callbacks l" "el_poller (RunEvery d t l) = el_poller l"
  "el_callbacks (Loop_Stop l) = el_callbacks l" "el_poller (Loop_Stop l) = el_poller l"
  by (simp_all add: RunAfter_def RunEvery_def Loop_Stop_def loop_now_def Let_def)

lemma loop_calls:
  "foldl (\<lambda>x op. loop_call Poller_Register Poller_Modify Poller_Unregister op x) (dom (el_callbacks l), el_poller l) (poll_ops as)
     = (let l' = foldl (\<lambda>l a. run_action a l) l as in (dom (el_callbacks l'), el_poller l'))"
proof (induction as arbitrary: l rule: poll_ops.induct)
  case (2 fd ev cb as)
  have "loop_call Poller_Register Poller_Modify Poller_Unregister (PReg fd ev) (dom (el_callbacks l), el_poller l)
      = (dom (el_callbacks (snd (Loop_Register fd ev cb l))), el_poller (snd (Loop_Register fd ev cb l)))"
    by (auto simp: Loop_Register_def Poller_Register_def Let_def)
  then show ?case using "2.IH" [of "snd (Loop_Register fd ev cb l)"] by simp
next
  case (3 fd ev as)
  have "loop_call Poller_Register Poller_Modify Poller_Unregister (PMod fd ev) (dom (el_callbacks l), el_poller l)
      = (dom (el_callbacks (snd (Loop_Modify fd ev l))), el_poller (snd (Loop_Modify fd ev l)))"
    by (auto simp: Loop_Modify_def Let_def case_prod_beta)
  then show ?case using "3.IH" [of "snd (Loop_Modify fd ev l)"] by simp
next
  case (4 fd as)
  have "loop_call Poller_Register Poller_Modify Poller_Unregister (PDel fd) (dom (el_callbacks l), el_poller l)
      = (dom (el_callbacks (Loop_Unregister fd l)), el_poller (Loop_Unregister fd l))"
    by (auto simp: Loop_Unregister_def Let_def case_prod_beta)
  then show ?case using "4.IH" [of "Loop_Unregister fd l"] by simp
next
  case (5 d t as)
  then show ?case using "5.IH" [of "RunAfter d t l"] by simp
next
  case (6 d t as)
  then show ?case using "6.IH" [of "RunEvery d t l"] by simp
next
  case (7 as)
  then show ?case using "7.IH" [of "Loop_Stop l"] by simp
qed simp

text \<open>C27: Callbacks and registrations stay in step. Whatever a loop's tasks register, modify and unregister, in any order and with any refusals of the kernel, the back end watches exactly the descriptors that have a callback, and the notifier, as long as no task unregisters the notifier: no event is delivered to nobody and no callback waits for a descriptor that is not watched. It holds of the loop on epoll, and of the same calls on the select back end of any capacity.\<close>

theorem callbacks_in_step:
  assumes "dom (pl_interest (el_poller l)) = insert nfd (dom (el_callbacks l))" "ActUnregister nfd \<notin> set as" "0 < cap"
  shows "(let l' = foldl (\<lambda>l a. run_action a l) l as in dom (pl_interest (el_poller l')) = insert nfd (dom (el_callbacks l')))
    \<and> (let (cb, p) = foldl (\<lambda>x op. loop_call (Select_Register cap) (Select_Modify cap) Select_Unregister op x)
                         ({}, snd (Select_Register cap nfd kEventReadable Select_new)) (poll_ops as)
       in dom (map_of (sp_entries p)) = insert nfd cb)"
proof -
  have ops: "PDel nfd \<notin> set (poll_ops as)" using assms(2) by (induction as rule: poll_ops.induct) auto
  let ?p = "snd (Select_Register cap nfd kEventReadable Select_new)"
  have p: "sp_ok cap ?p" "dom (map_of (sp_entries ?p)) = insert nfd {}"
    using assms(3) by (auto simp: Select_Register_def Select_new_def sp_ok_def)
  obtain cb' p' where f: "foldl (\<lambda>x op. loop_call (Select_Register cap) (Select_Modify cap) Select_Unregister op x) ({}, ?p) (poll_ops as) = (cb', p')"
    by fastforce
  have "dom (pl_interest (el_poller l')) = insert nfd (dom (el_callbacks l'))" if "l' = foldl (\<lambda>l a. run_action a l) l as" for l'
    using ep.in_step [OF TrueI assms(1) ops loop_calls [unfolded Let_def]] that by blast
  then show ?thesis using se.in_step [OF p ops f] f by (simp add: Let_def)
qed

theorem callbacks_in_step_witness:
  "let l = foldl (\<lambda>l a. run_action a l)
      \<lparr>el_timers = [], el_seq = 0, el_pending = [], el_running = True, el_callbacks = Map.empty,
       el_poller = \<lparr>pl_interest = [3 \<mapsto> 1], pl_refuses = (\<lambda>fd. fd = 9)\<rparr>, el_clock = (\<lambda>_. 0)\<rparr>
      [ActRegister 5 1 (\<lambda>_. ''read''), ActRegister 9 1 (\<lambda>_. ''no''), ActModify 5 5, ActAfter 10 None]
   in dom (pl_interest (el_poller l)) = insert 3 (dom (el_callbacks l))"
  using callbacks_in_step [of "\<lparr>el_timers = [], el_seq = 0, el_pending = [], el_running = True, el_callbacks = Map.empty,
       el_poller = \<lparr>pl_interest = [3 \<mapsto> 1], pl_refuses = (\<lambda>fd. fd = 9)\<rparr>, el_clock = (\<lambda>_. 0)\<rparr>" 3
      "[ActRegister 5 1 (\<lambda>_. ''read''), ActRegister 9 1 (\<lambda>_. ''no''), ActModify 5 5, ActAfter 10 None]" 64]
  unfolding Let_def by (rule conjunct1) simp_all

end
