(* ===== verification/Bench.thy ===== *)
theory Bench
  imports Config Connection
begin

section \<open>The load generator (tools/bench.cc)\<close>

text \<open>
  The client program: its options, the batches of commands it sends, the reader of the replies and
  the division of the requests among the clients.  The measurements (clocks, percentiles, the
  printed report) are not modelled.  What \<open>RecvSome\<close> returns is the list \<open>rd_in\<close>; when it is used up
  the client polls forever, which is \<open>None\<close>.
\<close>

subsection \<open>Options\<close>

record options =
  op_host :: string
  op_port :: "16 word"
  op_clients :: int
  op_requests :: int
  op_pipeline :: int
  op_value_size :: nat
  op_command :: string
  op_key_space :: int
  op_warmup :: bool
  op_verbose :: bool

definition default_options :: options where
  "default_options =
     \<lparr>op_host = ''127.0.0.1'', op_port = 6379, op_clients = 50, op_requests = 100000, op_pipeline = 16, op_value_size = 64,
      op_command = ''set'', op_key_space = 10000, op_warmup = True, op_verbose = False\<rparr>"

text \<open>\<open>strtoll(s, &end, 10)\<close>: it saturates at the ends of the range.  An empty text is the number \<open>0\<close>.\<close>

definition strtoll :: "string \<Rightarrow> int \<times> string" where
  "strtoll s =
     (let s1 = dropWhile is_space s;
          neg = (s1 \<noteq> [] \<and> hd s1 = CHR ''-'');
          s2 = (if s1 \<noteq> [] \<and> (hd s1 = CHR ''-'' \<or> hd s1 = CHR ''+'') then tl s1 else s1);
          ds = takeWhile is_digit s2;
          v = (if neg then - int (dval ds) else int (dval ds))
      in if ds = [] then (0, s)
         else (if v < INT64_MIN then INT64_MIN else if v > INT64_MAX then INT64_MAX else v, dropWhile is_digit s2))"

definition ParseInt :: "string \<Rightarrow> int option" where
  "ParseInt s = (let (v, rest) = strtoll (c_string s) in if rest \<noteq> [] then None else Some v)"

text \<open>\<open>static_cast<int>\<close> of a 64-bit integer.\<close>

definition to_int32 :: "int \<Rightarrow> int" where
  "to_int32 v = sint (of_int v :: 32 word)"

text \<open>An option with a number: \<open>p\<close> is the test of the code that refuses it.\<close>

definition number_option :: "string \<Rightarrow> (int \<Rightarrow> bool) \<Rightarrow> (int \<Rightarrow> options) \<Rightarrow> options option" where
  "number_option value p f = (case ParseInt value of None \<Rightarrow> None | Some v \<Rightarrow> if p v then None else Some (f v))"

definition value_option :: "string \<Rightarrow> string \<Rightarrow> options \<Rightarrow> options option" where
  "value_option a value c =
     (if a = ''-h'' \<or> a = ''--host'' then Some (c\<lparr>op_host := value\<rparr>)
      else if a = ''-p'' \<or> a = ''--port'' then number_option value (\<lambda>v. v \<le> 0 \<or> v > 65535) (\<lambda>v. c\<lparr>op_port := of_int v\<rparr>)
      else if a = ''-c'' \<or> a = ''--clients'' then number_option value (\<lambda>v. v \<le> 0 \<or> v > 4096) (\<lambda>v. c\<lparr>op_clients := to_int32 v\<rparr>)
      else if a = ''-n'' \<or> a = ''--requests'' then number_option value (\<lambda>v. v \<le> 0) (\<lambda>v. c\<lparr>op_requests := v\<rparr>)
      else if a = ''-P'' \<or> a = ''--pipeline'' then number_option value (\<lambda>v. v \<le> 0 \<or> v > 4096) (\<lambda>v. c\<lparr>op_pipeline := to_int32 v\<rparr>)
      else if a = ''-d'' \<or> a = ''--datasize'' then number_option value (\<lambda>v. v < 0 \<or> v > 1024 * 1024) (\<lambda>v. c\<lparr>op_value_size := nat v\<rparr>)
      else if a = ''-k'' \<or> a = ''--keyspace'' then number_option value (\<lambda>v. v \<le> 0) (\<lambda>v. c\<lparr>op_key_space := to_int32 v\<rparr>)
      else if value \<noteq> ''set'' \<and> value \<noteq> ''get'' \<and> value \<noteq> ''incr'' then None
      else Some (c\<lparr>op_command := value\<rparr>))"

definition value_names :: "string list" where
  "value_names = [''-h'', ''--host'', ''-p'', ''--port'', ''-c'', ''--clients'', ''-n'', ''--requests'', ''-P'', ''--pipeline'',
     ''-d'', ''--datasize'', ''-k'', ''--keyspace'', ''-t'', ''--command'']"

text \<open>The arguments after the program name: \<open>return false\<close>, \<open>exit\<close>, or the options.\<close>

datatype args_result = ArgsBad | ArgsExit int | ArgsOk options

fun ParseArgs :: "string list \<Rightarrow> options \<Rightarrow> args_result" where
  "ParseArgs [] c = ArgsOk c"
| "ParseArgs (a # rest) c =
     (if a \<in> set value_names then
        (case rest of
           [] \<Rightarrow> ArgsExit 2
         | value # rest' \<Rightarrow> (case value_option a value c of None \<Rightarrow> ArgsBad | Some c' \<Rightarrow> ParseArgs rest' c'))
      else if a = ''--no-warmup'' then ParseArgs rest (c\<lparr>op_warmup := False\<rparr>)
      else if a = ''-v'' \<or> a = ''--verbose'' then ParseArgs rest (c\<lparr>op_verbose := True\<rparr>)
      else if a = ''--help'' then ArgsExit 0
      else ArgsBad)"

subsection \<open>Batches\<close>

text \<open>\<open>%07lld\<close>.\<close>

definition pad7 :: "int \<Rightarrow> string" where
  "pad7 v =
     (let s = dec_of_nat (nat \<bar>v\<bar>) in
      if v < 0 then CHR ''-'' # replicate (6 - length s) (CHR ''0'') @ s else replicate (7 - length s) (CHR ''0'') @ s)"

text \<open>The value of a \<open>SET\<close>: the number of the key is written over the end of \<open>value\<close>, which the
  commands of one batch share.\<close>

definition batch_value :: "options \<Rightarrow> int \<Rightarrow> string \<Rightarrow> string" where
  "batch_value c idx value =
     (if op_value_size c \<ge> 8 then (let tail = pad7 (idx smod 10000000) in take (op_value_size c - length tail) value @ tail)
      else value)"

text \<open>The command with the number \<open>i\<close> and the value left behind; \<open>None\<close> is the division by a key
  space of \<open>0\<close>, which kills the process.\<close>

definition batch_command :: "options \<Rightarrow> int \<Rightarrow> string \<Rightarrow> (string list \<times> string) option" where
  "batch_command c i value =
     (if op_key_space c = 0 then None
      else
        let idx = i smod op_key_space c; key = ''key:'' @ dec_of_int idx in
        Some (if op_command c = ''set'' then let value = batch_value c idx value in ([op_command c, key, value], value)
              else ([op_command c, key], value)))"

fun build_loop :: "options \<Rightarrow> int \<Rightarrow> nat list \<Rightarrow> string \<Rightarrow> string \<Rightarrow> string option" where
  "build_loop c start [] value out = Some out"
| "build_loop c start (i # is) value out =
     do { (args, value) \<leftarrow> batch_command c (start + int i) value; build_loop c start is value (EncodeCommand args out) }"

definition BuildBatch :: "options \<Rightarrow> int \<Rightarrow> int \<Rightarrow> string option" where
  "BuildBatch c start batch = build_loop c start [0..<nat batch] (replicate (op_value_size c) (CHR ''v'')) []"

subsection \<open>Reading replies\<close>

record reader =
  rd_buf :: string
  rd_pos :: nat
  rd_in :: "recv_result list"
  rd_err :: string
  rd_errors :: int

definition reader_new :: "recv_result list \<Rightarrow> reader" where
  "reader_new rs = \<lparr>rd_buf = [], rd_pos = 0, rd_in = rs, rd_err = [], rd_errors = 0\<rparr>"

text \<open>\<open>recv\<close> with room for \<open>cap\<close> bytes: what does not fit is left for the next call.\<close>

fun recv_some :: "nat \<Rightarrow> recv_result list \<Rightarrow> (recv_result \<times> recv_result list) option" where
  "recv_some cap [] = None"
| "recv_some cap (RecvData d # rs) =
     Some (if length d \<le> cap then (RecvData d, rs) else (RecvData (take cap d), RecvData (drop cap d) # rs))"
| "recv_some cap (r # rs) = Some (r, rs)"

definition recv_size :: "recv_result list \<Rightarrow> nat" where
  "recv_size rs = sum_list (map (\<lambda>r. case r of RecvData d \<Rightarrow> Suc (length d) | _ \<Rightarrow> 1) rs)"

lemma recv_some_less: "recv_some cap rs = Some (r, rs') \<Longrightarrow> 0 < cap \<Longrightarrow> recv_size rs' < recv_size rs"
  by (induction cap rs rule: recv_some.induct) (auto simp: recv_size_def split: if_splits)

text \<open>\<open>Fill\<close> and \<open>FillLine\<close>; no data is the end of the stream.\<close>

function Fill :: "nat \<Rightarrow> reader \<Rightarrow> (bool \<times> reader) option" where
  "Fill n s =
     (if length (rd_buf s) - rd_pos s \<ge> n then Some (True, s)
      else case recv_some 65536 (rd_in s) of
        None \<Rightarrow> None
      | Some (r, rs) \<Rightarrow>
          (case r of
             RecvData d \<Rightarrow> if d = [] then Some (False, s\<lparr>rd_in := rs\<rparr>) else Fill n (s\<lparr>rd_in := rs, rd_buf := rd_buf s @ d\<rparr>)
           | RecvFin \<Rightarrow> Some (False, s\<lparr>rd_in := rs\<rparr>)
           | RecvErr \<Rightarrow> Some (False, s\<lparr>rd_in := rs, rd_err := ''recv failed''\<rparr>)
           | _ \<Rightarrow> Fill n (s\<lparr>rd_in := rs\<rparr>)))"
  by pat_completeness auto
termination
  by (relation "measure (\<lambda>(n, s). recv_size (rd_in s))") (auto dest: recv_some_less)

function FillLine :: "reader \<Rightarrow> (bool \<times> reader) option" where
  "FillLine s =
     (if length (rd_buf s) - rd_pos s \<ge> 2 \<and> FindCRLF (rd_buf s) (rd_pos s) \<noteq> None then Some (True, s)
      else case recv_some 1 (rd_in s) of
        None \<Rightarrow> None
      | Some (r, rs) \<Rightarrow>
          (case r of
             RecvData d \<Rightarrow> if d = [] then Some (False, s\<lparr>rd_in := rs\<rparr>) else FillLine (s\<lparr>rd_in := rs, rd_buf := rd_buf s @ d\<rparr>)
           | RecvFin \<Rightarrow> Some (False, s\<lparr>rd_in := rs\<rparr>)
           | RecvErr \<Rightarrow> Some (False, s\<lparr>rd_in := rs, rd_err := ''recv failed while reading line''\<rparr>)
           | _ \<Rightarrow> FillLine (s\<lparr>rd_in := rs\<rparr>)))"
  by pat_completeness auto
termination
  by (relation "measure (\<lambda>s. recv_size (rd_in s))") (auto dest: recv_some_less)

declare Fill.simps [simp del] FillLine.simps [simp del]

text \<open>The end of the line at the cursor, read if need be; \<open>None\<close> inside is \<open>return -1\<close>.\<close>

definition line_end :: "string \<Rightarrow> reader \<Rightarrow> (nat option \<times> reader) option" where
  "line_end msg s =
     (case FindCRLF (rd_buf s) (rd_pos s) of
        Some nl \<Rightarrow> Some (Some nl, s)
      | None \<Rightarrow>
          do { (ok, s) \<leftarrow> FillLine s;
               if \<not> ok then Some (None, s)
               else case FindCRLF (rd_buf s) (rd_pos s) of
                 None \<Rightarrow> Some (None, s\<lparr>rd_err := (if msg = [] then rd_err s else msg)\<rparr>)
               | Some nl \<Rightarrow> Some (Some nl, s) })"

text \<open>One reply up to its elements: \<open>Inl r\<close> is the result \<open>r\<close> of \<open>ReadOne\<close> (1 read, 0 closed, -1
  failed), \<open>Inr n\<close> an array of \<open>n\<close> elements that are still to be read.\<close>

definition read_head :: "reader \<Rightarrow> ((int + int) \<times> reader) option" where
  "read_head s =
     do { (ok, s) \<leftarrow> Fill 1 s;
          if \<not> ok then Some (Inl (if rd_err s \<noteq> [] then -1 else 0), s)
          else
            let t = rd_buf s ! rd_pos s in
            if t = CHR ''+'' \<or> t = CHR ''-'' \<or> t = CHR '':'' then
              do { (nl, s) \<leftarrow> line_end ''malformed reply (no CRLF)'' s;
                   case nl of
                     None \<Rightarrow> Some (Inl (-1), s)
                   | Some nl \<Rightarrow>
                       Some (Inl 1, s\<lparr>rd_errors := (if t = CHR ''-'' then rd_errors s + 1 else rd_errors s), rd_pos := nl + 2\<rparr>) }
            else if t = CHR ''$'' then
              do { (nl, s) \<leftarrow> line_end ''malformed bulk header'' s;
                   case nl of
                     None \<Rightarrow> Some (Inl (-1), s)
                   | Some nl \<Rightarrow>
                       (case ParseInt64 (substr (rd_buf s) (rd_pos s + 1) (nl - rd_pos s - 1)) of
                          None \<Rightarrow> Some (Inl (-1), s\<lparr>rd_err := ''malformed bulk length''\<rparr>)
                        | Some len \<Rightarrow>
                            let s = s\<lparr>rd_pos := nl + 2\<rparr> in
                            if len < 0 then Some (Inl 1, s)
                            else do { (ok, s) \<leftarrow> Fill (nat len + 2) s;
                                      if \<not> ok then Some (Inl (if rd_err s \<noteq> [] then -1 else 0), s)
                                      else Some (Inl 1, s\<lparr>rd_pos := rd_pos s + nat len + 2\<rparr>) }) }
            else if t = CHR ''*'' then
              do { (nl, s) \<leftarrow> line_end [] s;
                   case nl of
                     None \<Rightarrow> Some (Inl (-1), s)
                   | Some nl \<Rightarrow>
                       (case ParseInt64 (substr (rd_buf s) (rd_pos s + 1) (nl - rd_pos s - 1)) of
                          None \<Rightarrow> Some (Inl (-1), s)
                        | Some n \<Rightarrow> Some (Inr n, s\<lparr>rd_pos := nl + 2\<rparr>)) }
            else Some (Inl (-1), s\<lparr>rd_err := ''unknown reply type: '' @ [t]\<rparr>) }"

text \<open>The loop over the elements, each of which is a reply of its own.\<close>

partial_function (option) read_elems :: "int \<Rightarrow> reader \<Rightarrow> (int \<times> reader) option" where
  "read_elems n s =
     (if n \<le> 0 then Some (1, s)
      else do { (h, s) \<leftarrow> read_head s;
                (r, s) \<leftarrow> (case h of Inl r \<Rightarrow> Some (r, s) | Inr m \<Rightarrow> read_elems m s);
                if r \<le> 0 then Some (r, s) else read_elems (n - 1) s })"

definition ReadOne :: "reader \<Rightarrow> (int \<times> reader) option" where
  "ReadOne s = do { (h, s) \<leftarrow> read_head s; case h of Inl r \<Rightarrow> Some (r, s) | Inr n \<Rightarrow> read_elems n s }"

fun read_replies :: "nat \<Rightarrow> int \<Rightarrow> reader \<Rightarrow> (int \<times> reader) option" where
  "read_replies 0 got s = Some (got, s)"
| "read_replies (Suc n) got s =
     do { (r, s) \<leftarrow> ReadOne s;
          if r = 0 then Some (got, s) else if r < 0 then Some (r, s) else read_replies n (got + 1) s }"

definition ReadReplies :: "nat \<Rightarrow> reader \<Rightarrow> (int \<times> reader) option" where
  "ReadReplies n s = read_replies n 0 s"

subsection \<open>One client\<close>

text \<open>Sending a batch: the length goes through an \<open>int\<close>, a negative one makes \<open>send\<close> read past the
  buffer (\<open>None\<close>).  The result is \<open>send_ok\<close>, the sends that are left and the bytes accepted.\<close>

fun send_all :: "string \<Rightarrow> send_result list \<Rightarrow> string \<Rightarrow> (bool \<times> send_result list \<times> string) option" where
  "send_all b [] acc = (if b = [] then Some (True, [], acc) else None)"
| "send_all b (r # rs) acc =
     (if b = [] then Some (True, r # rs, acc)
      else let len = to_int32 (int (length b)) in
        if len < 0 then None
        else (case r of
                Sent k \<Rightarrow> let n = min k (nat len) in if n = 0 then Some (False, rs, acc) else send_all (drop n b) rs (acc @ take n b)
              | SendErr \<Rightarrow> Some (False, rs, acc)
              | _ \<Rightarrow> send_all b rs acc))"

record thread_result =
  tr_completed :: int
  tr_errors :: int
  tr_bytes :: u64
  tr_error :: string

definition empty_result :: thread_result where
  "empty_result = \<lparr>tr_completed = 0, tr_errors = 0, tr_bytes = 0, tr_error = []\<rparr>"

text \<open>The connection of a client: its reader, the results of its sends, the bytes the kernel has
  accepted.\<close>

record link =
  lk_reader :: reader
  lk_sends :: "send_result list"
  lk_sent :: string

text \<open>The loop of \<open>ClientWorker\<close>.  The count of errors is \<open>rd_errors\<close> and \<open>err\<close> is \<open>rd_err\<close>.  A
  pipeline of \<open>0\<close> sends empty batches forever.\<close>

function client_loop :: "options \<Rightarrow> int \<Rightarrow> int \<Rightarrow> int \<Rightarrow> thread_result \<Rightarrow> link \<Rightarrow> (thread_result \<times> link) option" where
  "client_loop c base mine sent res lk =
     (if sent < mine then
        let n = min (op_pipeline c) (mine - sent) in
        case BuildBatch c (base + sent) n of
          None \<Rightarrow> None
        | Some batch \<Rightarrow>
            (case send_all batch (lk_sends lk) (lk_sent lk) of
               None \<Rightarrow> None
             | Some (ok, sends, out) \<Rightarrow>
                 let lk = lk\<lparr>lk_sends := sends, lk_sent := out\<rparr> in
                 if \<not> ok then Some (res\<lparr>tr_error := ''send failed''\<rparr>, lk)
                 else
                   let res = res\<lparr>tr_bytes := tr_bytes res + of_nat (length batch)\<rparr> in
                   (case ReadReplies (nat n) (lk_reader lk) of
                      None \<Rightarrow> None
                    | Some (got, rd) \<Rightarrow>
                        let lk = lk\<lparr>lk_reader := rd\<rparr>; res = res\<lparr>tr_errors := rd_errors rd\<rparr> in
                        if got \<noteq> n \<or> n < 0
                        then Some (res\<lparr>tr_error := (if rd_err rd = [] then ''short read from server'' else rd_err rd)\<rparr>, lk)
                        else if n = 0 then None
                        else client_loop c base mine (sent + n) (res\<lparr>tr_completed := tr_completed res + n\<rparr>) lk))
      else Some (res, lk))"
  by pat_completeness auto
termination
  by (relation "measure (\<lambda>(c, base, mine, sent, res, lk). nat (mine - sent))") auto

declare client_loop.simps [simp del]

definition key_base :: "options \<Rightarrow> nat \<Rightarrow> int" where
  "key_base c i = int i * (op_key_space c sdiv max 1 (op_clients c))"

text \<open>\<open>ConnectTo\<close> gives the error, or what the kernel does with the connection.\<close>

type_synonym conn_result = "string + recv_result list \<times> send_result list"

definition ClientWorker :: "options \<Rightarrow> nat \<Rightarrow> int \<Rightarrow> conn_result \<Rightarrow> (thread_result \<times> string) option" where
  "ClientWorker c i mine conn =
     (case conn of
        Inl e \<Rightarrow> Some (empty_result\<lparr>tr_error := e\<rparr>, [])
      | Inr (rs, sends) \<Rightarrow>
          do { (res, lk) \<leftarrow> client_loop c (key_base c i) mine 0 empty_result
                              \<lparr>lk_reader = reader_new rs, lk_sends = sends, lk_sent = []\<rparr>;
               Some (res, lk_sent lk) })"

subsection \<open>A round\<close>

text \<open>The requests of client \<open>i\<close>.\<close>

definition share :: "options \<Rightarrow> int \<Rightarrow> nat \<Rightarrow> int" where
  "share c reqs i =
     (let per_client = to_int32 (reqs div op_clients c); remainder = reqs mod op_clients c in
      per_client + (if int i < to_int32 remainder then 1 else 0))"

definition merge_result :: "thread_result \<Rightarrow> thread_result \<Rightarrow> thread_result" where
  "merge_result m r =
     m\<lparr>tr_completed := tr_completed m + tr_completed r, tr_errors := tr_errors m + tr_errors r,
       tr_bytes := tr_bytes m + tr_bytes r, tr_error := (if tr_error m = [] \<and> tr_error r \<noteq> [] then tr_error r else tr_error m)\<rparr>"

fun run_clients :: "options \<Rightarrow> int \<Rightarrow> nat \<Rightarrow> conn_result list \<Rightarrow> thread_result list option" where
  "run_clients c reqs i [] = Some []"
| "run_clients c reqs i (conn # conns) =
     do { (r, _) \<leftarrow> ClientWorker c i (share c reqs i) conn; rs \<leftarrow> run_clients c reqs (Suc i) conns; Some (r # rs) }"

text \<open>The threads share nothing, so their order does not matter; one that never ends is waited for
  forever.\<close>

definition RunRound :: "options \<Rightarrow> int \<Rightarrow> conn_result list \<Rightarrow> thread_result option" where
  "RunRound c reqs conns =
     map_option (\<lambda>rs. foldl merge_result empty_result rs) (run_clients c reqs 0 (take (nat (op_clients c)) conns))"

text \<open>The exit status of \<open>main\<close>: whether the sockets could be initialised and the server reached, and
  the connections of the two rounds, are what the platform gives.\<close>

definition bench_main :: "string list \<Rightarrow> bool \<Rightarrow> bool \<Rightarrow> conn_result list \<Rightarrow> conn_result list \<Rightarrow> int option" where
  "bench_main argv sockets reachable warm conns =
     (case ParseArgs argv default_options of
        ArgsExit k \<Rightarrow> Some k
      | ArgsBad \<Rightarrow> Some 2
      | ArgsOk c \<Rightarrow>
          if \<not> sockets \<or> \<not> reachable then Some 1
          else
            do { _ \<leftarrow> (if op_warmup c then map_option (\<lambda>_. ()) (RunRound c (max (op_clients c * 100) (op_requests c div 20)) warm)
                       else Some ());
                 r \<leftarrow> RunRound c (op_requests c) conns;
                 Some (if tr_completed r = 0 then 1 else if tr_errors r > 0 then 1 else 0) })"

end
