(* ===== verification/Bench_Facts.thy ===== *)
theory Bench_Facts
  imports Bench Connection_Facts Command_Properties
begin

section \<open>The load generator against the server\<close>

text \<open>
  The reader of the client takes exactly one reply of the server at a time, however the bytes
  arrive; the batches of the client are commands the parser of the server accepts; so a batch and
  its replies match one to one.  The division of the requests, and an option that is accepted and
  kills the client.
\<close>

subsection \<open>The input of the reader\<close>

fun arrives :: "recv_result list \<Rightarrow> bool" where
  "arrives [] \<longleftrightarrow> True"
| "arrives (RecvData d # rs) \<longleftrightarrow> d \<noteq> [] \<and> arrives rs"
| "arrives (RecvAgain # rs) \<longleftrightarrow> arrives rs"
| "arrives (RecvIntr # rs) \<longleftrightarrow> arrives rs"
| "arrives (r # rs) \<longleftrightarrow> False"

definition rstream :: "reader \<Rightarrow> string" where
  "rstream s = drop (rd_pos s) (rd_buf s) @ data (rd_in s)"

definition rd_ok :: "reader \<Rightarrow> bool" where
  "rd_ok s \<longleftrightarrow> rd_pos s \<le> length (rd_buf s) \<and> arrives (rd_in s) \<and> rd_err s = []"

text \<open>More bytes in the buffer, nothing else.\<close>

definition buffers :: "reader \<Rightarrow> reader \<Rightarrow> bool" where
  "buffers s s' \<longleftrightarrow> rd_ok s' \<and> rstream s' = rstream s \<and> rd_pos s' = rd_pos s \<and> rd_errors s' = rd_errors s"

lemma buffers_refl: "rd_ok s \<Longrightarrow> buffers s s"
  by (simp add: buffers_def)

lemma buffers_trans: "buffers s s' \<Longrightarrow> buffers s' s'' \<Longrightarrow> buffers s s''"
  by (simp add: buffers_def)

lemma recv_some_ok:
  assumes "arrives rs" "rs \<noteq> []" "0 < cap"
  shows "\<exists>r rs'. recv_some cap rs = Some (r, rs') \<and> arrives rs' \<and> data rs = data [r] @ data rs'
    \<and> ((\<exists>d. r = RecvData d \<and> d \<noteq> []) \<or> r = RecvAgain \<or> r = RecvIntr)"
  using assms by (induction cap rs rule: recv_some.induct) (auto elim: arrives.elims)

text \<open>One call of \<open>recv\<close> in the loops of \<open>Fill\<close> and \<open>FillLine\<close>.\<close>

lemma recv_step:
  assumes "rd_ok s" "rd_in s \<noteq> []" "0 < cap"
  obtains r rs where "recv_some cap (rd_in s) = Some (r, rs)"
    "(\<exists>d. r = RecvData d \<and> d \<noteq> [] \<and> buffers s (s\<lparr>rd_in := rs, rd_buf := rd_buf s @ d\<rparr>))
      \<or> (r = RecvAgain \<or> r = RecvIntr) \<and> buffers s (s\<lparr>rd_in := rs\<rparr>)"
proof -
  have "arrives (rd_in s)" using assms(1) by (simp add: rd_ok_def)
  from recv_some_ok [OF this assms(2,3)] obtain r rs where
    r: "recv_some cap (rd_in s) = Some (r, rs)" "arrives rs" "data (rd_in s) = data [r] @ data rs"
      "(\<exists>d. r = RecvData d \<and> d \<noteq> []) \<or> r = RecvAgain \<or> r = RecvIntr" by blast
  with assms(1) show thesis by (intro that [OF r(1)]) (auto simp: buffers_def rd_ok_def rstream_def)
qed

lemma data_nonempty: "arrives rs \<Longrightarrow> data rs \<noteq> [] \<Longrightarrow> rs \<noteq> []"
  by auto

lemma Fill_ok:
  "rd_ok s \<Longrightarrow> n \<le> length (rstream s) \<Longrightarrow> \<exists>s'. Fill n s = Some (True, s') \<and> buffers s s' \<and> n \<le> length (rd_buf s') - rd_pos s'"
proof (induction n s rule: Fill.induct)
  case (1 n s)
  show ?case
  proof (cases "length (rd_buf s) - rd_pos s \<ge> n")
    case True
    then show ?thesis using buffers_refl [OF "1.prems"(1)] by (simp add: Fill.simps [of n s])
  next
    case False
    then have "data (rd_in s) \<noteq> []" using "1.prems"(2) by (auto simp: rstream_def)
    then have ne: "rd_in s \<noteq> []" by auto
    have cap: "(0 :: nat) < 65536" by simp
    from recv_step [OF "1.prems"(1) ne cap] obtain r rs where r: "recv_some 65536 (rd_in s) = Some (r, rs)"
      "(\<exists>d. r = RecvData d \<and> d \<noteq> [] \<and> buffers s (s\<lparr>rd_in := rs, rd_buf := rd_buf s @ d\<rparr>))
      \<or> (r = RecvAgain \<or> r = RecvIntr) \<and> buffers s (s\<lparr>rd_in := rs\<rparr>)" .
    from r(2) show ?thesis
    proof (elim disjE exE conjE)
      fix d assume d: "r = RecvData d" "d \<noteq> []" and b: "buffers s (s\<lparr>rd_in := rs, rd_buf := rd_buf s @ d\<rparr>)"
      then have "rd_ok (s\<lparr>rd_in := rs, rd_buf := rd_buf s @ d\<rparr>)" "n \<le> length (rstream (s\<lparr>rd_in := rs, rd_buf := rd_buf s @ d\<rparr>))"
        using "1.prems"(2) by (simp_all add: buffers_def)
      from "1.IH"(1) [OF False r(1) refl d(1) d(2) this] buffers_trans [OF b] r(1) d False show ?thesis
        by (subst Fill.simps) auto
    next
      assume a: "r = RecvAgain" and b: "buffers s (s\<lparr>rd_in := rs\<rparr>)"
      then have "rd_ok (s\<lparr>rd_in := rs\<rparr>)" "n \<le> length (rstream (s\<lparr>rd_in := rs\<rparr>))" using "1.prems"(2) by (simp_all add: buffers_def)
      from "1.IH"(2) [OF False r(1) refl a this] buffers_trans [OF b] r(1) a False show ?thesis by (subst Fill.simps) auto
    next
      assume a: "r = RecvIntr" and b: "buffers s (s\<lparr>rd_in := rs\<rparr>)"
      then have "rd_ok (s\<lparr>rd_in := rs\<rparr>)" "n \<le> length (rstream (s\<lparr>rd_in := rs\<rparr>))" using "1.prems"(2) by (simp_all add: buffers_def)
      from "1.IH"(3) [OF False r(1) refl a this] buffers_trans [OF b] r(1) a False show ?thesis by (subst Fill.simps) auto
    qed
  qed
qed

lemma FindCRLF_line:
  assumes "rd_ok s" "rstream s = x @ kCRLF @ y" "CR \<notin> set x" "FindCRLF (rd_buf s) (rd_pos s) = Some nl"
  shows "nl = rd_pos s + length x"
proof -
  have b: "rd_buf s @ data (rd_in s) = take (rd_pos s) (rd_buf s) @ x @ kCRLF @ y"
    using assms(1,2) by (metis append.assoc append_take_drop_id rstream_def)
  have l: "length (take (rd_pos s) (rd_buf s)) = rd_pos s" using assms(1) by (simp add: rd_ok_def)
  from FindCRLF_append [OF assms(4), of "data (rd_in s)"] FindCRLF_field [OF assms(3) l [symmetric], of y] show ?thesis unfolding b by simp
qed

lemma FillLine_ok:
  "rd_ok s \<Longrightarrow> rstream s = x @ kCRLF @ y \<Longrightarrow> CR \<notin> set x \<Longrightarrow>
     \<exists>s'. FillLine s = Some (True, s') \<and> buffers s s' \<and> FindCRLF (rd_buf s') (rd_pos s') \<noteq> None"
proof (induction s rule: FillLine.induct)
  case (1 s)
  show ?case
  proof (cases "length (rd_buf s) - rd_pos s \<ge> 2 \<and> FindCRLF (rd_buf s) (rd_pos s) \<noteq> None")
    case True
    then show ?thesis using buffers_refl [OF "1.prems"(1)] by (simp add: FillLine.simps [of s])
  next
    case False
    have ne: "rd_in s \<noteq> []"
    proof
      assume e: "rd_in s = []"
      have "rd_buf s = take (rd_pos s) (rd_buf s) @ x @ kCRLF @ y"
        using "1.prems"(2) e by (metis append_Nil2 append_take_drop_id data.simps(1) rstream_def)
      moreover have "length (take (rd_pos s) (rd_buf s)) = rd_pos s" using "1.prems"(1) by (simp add: rd_ok_def)
      moreover note FindCRLF_field [OF "1.prems"(3) this [symmetric], of y]
      ultimately have "FindCRLF (rd_buf s) (rd_pos s) \<noteq> None" by simp
      moreover have "length (rd_buf s) - rd_pos s = length (x @ kCRLF @ y)" using "1.prems"(2) e by (simp add: rstream_def flip: length_drop)
      ultimately show False using False by simp
    qed
    have cap: "(0 :: nat) < 1" by simp
    from recv_step [OF "1.prems"(1) ne cap] obtain r rs where r: "recv_some 1 (rd_in s) = Some (r, rs)"
      "(\<exists>d. r = RecvData d \<and> d \<noteq> [] \<and> buffers s (s\<lparr>rd_in := rs, rd_buf := rd_buf s @ d\<rparr>))
      \<or> (r = RecvAgain \<or> r = RecvIntr) \<and> buffers s (s\<lparr>rd_in := rs\<rparr>)" .
    from r(2) show ?thesis
    proof (elim disjE exE conjE)
      fix d assume d: "r = RecvData d" "d \<noteq> []" and b: "buffers s (s\<lparr>rd_in := rs, rd_buf := rd_buf s @ d\<rparr>)"
      then have "rd_ok (s\<lparr>rd_in := rs, rd_buf := rd_buf s @ d\<rparr>)" "rstream (s\<lparr>rd_in := rs, rd_buf := rd_buf s @ d\<rparr>) = x @ kCRLF @ y"
        using "1.prems"(2) by (simp_all add: buffers_def)
      from "1.IH"(1) [OF False r(1) refl d(1) d(2) this "1.prems"(3)] buffers_trans [OF b] r(1) d False show ?thesis
        by (subst FillLine.simps) auto
    next
      assume a: "r = RecvAgain" and b: "buffers s (s\<lparr>rd_in := rs\<rparr>)"
      then have "rd_ok (s\<lparr>rd_in := rs\<rparr>)" "rstream (s\<lparr>rd_in := rs\<rparr>) = x @ kCRLF @ y" using "1.prems"(2) by (simp_all add: buffers_def)
      from "1.IH"(2) [OF False r(1) refl a this "1.prems"(3)] buffers_trans [OF b] r(1) a False show ?thesis by (subst FillLine.simps) auto
    next
      assume a: "r = RecvIntr" and b: "buffers s (s\<lparr>rd_in := rs\<rparr>)"
      then have "rd_ok (s\<lparr>rd_in := rs\<rparr>)" "rstream (s\<lparr>rd_in := rs\<rparr>) = x @ kCRLF @ y" using "1.prems"(2) by (simp_all add: buffers_def)
      from "1.IH"(3) [OF False r(1) refl a this "1.prems"(3)] buffers_trans [OF b] r(1) a False show ?thesis by (subst FillLine.simps) auto
    qed
  qed
qed

lemma reader_fields [simp]:
  "rstream (s\<lparr>rd_errors := e, rd_pos := p\<rparr>) = rstream (s\<lparr>rd_pos := p\<rparr>)"
  "rd_ok (s\<lparr>rd_errors := e, rd_pos := p\<rparr>) = rd_ok (s\<lparr>rd_pos := p\<rparr>)"
  by (simp_all add: rstream_def rd_ok_def)

text \<open>The cursor moves over \<open>n\<close> bytes that are in the buffer.\<close>

lemma consume:
  assumes "rd_ok s" "rstream s = u @ y" "rd_pos s + length u \<le> length (rd_buf s)"
  shows "rd_ok (s\<lparr>rd_pos := rd_pos s + length u\<rparr>)" "rstream (s\<lparr>rd_pos := rd_pos s + length u\<rparr>) = y"
    "take (length u) (drop (rd_pos s) (rd_buf s)) = u"
proof -
  have *: "drop (rd_pos s) (rd_buf s) @ data (rd_in s) = u @ y" "length u \<le> length (drop (rd_pos s) (rd_buf s))"
    using assms by (simp_all add: rstream_def)
  then obtain z where z: "drop (rd_pos s) (rd_buf s) = u @ z" by (auto simp: append_eq_append_conv2)
  then show "take (length u) (drop (rd_pos s) (rd_buf s)) = u" by simp
  from z have "drop (rd_pos s + length u) (rd_buf s) = z" by (metis add.commute append_eq_conv_conj drop_drop)
  with * z assms show "rstream (s\<lparr>rd_pos := rd_pos s + length u\<rparr>) = y" "rd_ok (s\<lparr>rd_pos := rd_pos s + length u\<rparr>)"
    by (simp_all add: rstream_def rd_ok_def)
qed

text \<open>A line: its end is found, the bytes before it are the line, and the cursor may move past it.\<close>

lemma line_end_ok:
  assumes "rd_ok s" "rstream s = (t # x) @ kCRLF @ y" "CR \<notin> set (t # x)"
  obtains nl s' where "line_end msg s = Some (Some nl, s')" "rd_ok (s'\<lparr>rd_pos := nl + 2\<rparr>)" "rstream (s'\<lparr>rd_pos := nl + 2\<rparr>) = y"
    "substr (rd_buf s') (rd_pos s' + 1) (nl - rd_pos s' - 1) = x" "rd_errors s' = rd_errors s"
proof -
  note result = that
  have *: thesis if t: "line_end msg s = Some (Some nl, s')" "buffers s s'" "FindCRLF (rd_buf s') (rd_pos s') = Some nl" for nl s'
  proof (rule result [OF t(1)])
    let ?u = "(t # x) @ kCRLF"
    have ok: "rd_ok s'" "rstream s' = ?u @ y" "rstream s' = (t # x) @ kCRLF @ y" using t(2) assms(2) by (simp_all add: buffers_def)
    have nl: "nl = rd_pos s' + length (t # x)" by (rule FindCRLF_line [OF ok(1,3) assms(3) t(3)])
    have b: "rd_pos s' + length ?u \<le> length (rd_buf s')" using FindCRLF_bounds [OF t(3)] nl by simp
    have e: "nl + 2 = rd_pos s' + length ?u" using nl by simp
    note c = consume [OF ok(1,2) b]
    from c(1,2) show "rd_ok (s'\<lparr>rd_pos := nl + 2\<rparr>)" "rstream (s'\<lparr>rd_pos := nl + 2\<rparr>) = y" unfolding e by simp_all
    have "substr (rd_buf s') (rd_pos s' + 1) (nl - rd_pos s' - 1) = take (length x) (drop 1 (take (length ?u) (drop (rd_pos s') (rd_buf s'))))"
      unfolding nl by (simp add: drop_take add.commute)
    then show "substr (rd_buf s') (rd_pos s' + 1) (nl - rd_pos s' - 1) = x" unfolding c(3) by simp
    show "rd_errors s' = rd_errors s" using t(2) by (simp add: buffers_def)
  qed
  show thesis
  proof (cases "FindCRLF (rd_buf s) (rd_pos s)")
    case (Some nl)
    then show ?thesis by (intro * [of nl s] buffers_refl assms) (simp_all add: line_end_def)
  next
    case None
    from FillLine_ok [OF assms] obtain r nl where r: "FillLine s = Some (True, r)" "buffers s r" "FindCRLF (rd_buf r) (rd_pos r) = Some nl" by auto
    with None show ?thesis by (intro * [of nl r]) (simp_all add: line_end_def)
  qed
qed

subsection \<open>One reply\<close>

text \<open>The first byte is in the buffer.\<close>

lemma read_type:
  assumes "rd_ok s" "rstream s = t # x"
  obtains s' where "Fill 1 s = Some (True, s')" "rd_buf s' ! rd_pos s' = t" "rd_ok s'" "rstream s' = t # x" "rd_errors s' = rd_errors s"
proof -
  from Fill_ok [OF assms(1), of 1] assms(2) obtain s' where s': "Fill 1 s = Some (True, s')" "buffers s s'" "1 \<le> length (rd_buf s') - rd_pos s'"
    by auto
  have o: "rd_ok s'" "rstream s' = t # x" "rd_errors s' = rd_errors s" using s'(2) assms(2) by (simp_all add: buffers_def)
  from consume(3) [of s' "[t]" x] o s'(3) have "take 1 (drop (rd_pos s') (rd_buf s')) = [t]" by simp
  then have "hd (drop (rd_pos s') (rd_buf s')) = t" by (cases "drop (rd_pos s') (rd_buf s')") auto
  then have "rd_buf s' ! rd_pos s' = t" using s'(3) by (simp add: hd_drop_conv_nth)
  with o s'(1) show thesis by (intro that)
qed

definition errors_of :: "string \<Rightarrow> int" where
  "errors_of v = (if hd v = CHR ''-'' then 1 else 0)"

lemma read_head_line:
  assumes "rd_ok s" "rstream s = (t # x) @ kCRLF @ y" "CR \<notin> set x" "t = CHR ''+'' \<or> t = CHR ''-'' \<or> t = CHR '':''"
  shows "\<exists>s'. read_head s = Some (Inl 1, s') \<and> rd_ok s' \<and> rstream s' = y \<and> rd_errors s' = rd_errors s + errors_of (t # x)"
proof -
  have "rstream s = t # (x @ kCRLF @ y)" using assms(2) by simp
  from read_type [OF assms(1) this] obtain s1 where s1: "Fill 1 s = Some (True, s1)" "rd_buf s1 ! rd_pos s1 = t" "rd_ok s1"
    "rstream s1 = (t # x) @ kCRLF @ y" "rd_errors s1 = rd_errors s" by auto
  have "CR \<notin> set (t # x)" using assms(3,4) by auto
  from line_end_ok [OF s1(3,4) this, of "''malformed reply (no CRLF)''"] obtain nl s2 where
    s2: "line_end ''malformed reply (no CRLF)'' s1 = Some (Some nl, s2)" "rd_ok (s2\<lparr>rd_pos := nl + 2\<rparr>)" "rstream (s2\<lparr>rd_pos := nl + 2\<rparr>) = y"
    "rd_errors s2 = rd_errors s1" by blast
  show ?thesis using s1(1,2,5) s2 assms(4) by (auto simp: read_head_def Let_def errors_of_def)
qed

lemma read_head_bulk:
  assumes "rd_ok s" "rstream s = ''$'' @ dec_of_nat (length b) @ kCRLF @ b @ kCRLF @ y" "length b < 9223372036854775807"
  shows "\<exists>s'. read_head s = Some (Inl 1, s') \<and> rd_ok s' \<and> rstream s' = y \<and> rd_errors s' = rd_errors s"
proof -
  have "rstream s = CHR ''$'' # (dec_of_nat (length b) @ kCRLF @ b @ kCRLF @ y)" using assms(2) by simp
  from read_type [OF assms(1) this] obtain s1 where s1: "Fill 1 s = Some (True, s1)" "rd_buf s1 ! rd_pos s1 = CHR ''$''" "rd_ok s1"
    "rstream s1 = (CHR ''$'' # dec_of_nat (length b)) @ kCRLF @ (b @ kCRLF @ y)" "rd_errors s1 = rd_errors s" by auto
  have "CR \<notin> set (CHR ''$'' # dec_of_nat (length b))" by simp
  from line_end_ok [OF s1(3,4) this, of "''malformed bulk header''"] obtain nl s2 where
    s2: "line_end ''malformed bulk header'' s1 = Some (Some nl, s2)" "rd_ok (s2\<lparr>rd_pos := nl + 2\<rparr>)"
      "rstream (s2\<lparr>rd_pos := nl + 2\<rparr>) = b @ kCRLF @ y"
      "substr (rd_buf s2) (rd_pos s2 + 1) (nl - rd_pos s2 - 1) = dec_of_nat (length b)" "rd_errors s2 = rd_errors s1" by blast
  have p: "ParseInt64 (substr (rd_buf s2) (rd_pos s2 + 1) (nl - rd_pos s2 - 1)) = Some (int (length b))"
    unfolding s2(4) by (rule ParseInt64_dec_of_nat) (use assms(3) in simp)
  have "length b + 2 \<le> length (rstream (s2\<lparr>rd_pos := nl + 2\<rparr>))" using s2(3) by simp
  from Fill_ok [OF s2(2) this] obtain s3 where s3: "Fill (length b + 2) (s2\<lparr>rd_pos := nl + 2\<rparr>) = Some (True, s3)"
    "buffers (s2\<lparr>rd_pos := nl + 2\<rparr>) s3" "length b + 2 \<le> length (rd_buf s3) - rd_pos s3" by blast
  have o: "rd_ok s3" "rstream s3 = (b @ kCRLF) @ y" "rd_errors s3 = rd_errors s" "rd_pos s3 + length (b @ kCRLF) \<le> length (rd_buf s3)"
    using s3(2,3) s2(3,5) s1(5) by (auto simp: buffers_def)
  note c = consume [OF o(1,2,4)]
  have e: "rd_pos s3 + length (b @ kCRLF) = rd_pos s3 + length b + 2" by simp
  show ?thesis using s1(1,2) s2(1) p s3(1) c(1,2) o(3) unfolding e by (simp add: read_head_def Let_def)
qed

lemma read_head_null:
  assumes "rd_ok s" "rstream s = ''$-1'' @ kCRLF @ y"
  shows "\<exists>s'. read_head s = Some (Inl 1, s') \<and> rd_ok s' \<and> rstream s' = y \<and> rd_errors s' = rd_errors s"
proof -
  have "rstream s = CHR ''$'' # (''-1'' @ kCRLF @ y)" using assms(2) by simp
  from read_type [OF assms(1) this] obtain s1 where s1: "Fill 1 s = Some (True, s1)" "rd_buf s1 ! rd_pos s1 = CHR ''$''" "rd_ok s1"
    "rstream s1 = (CHR ''$'' # ''-1'') @ kCRLF @ y" "rd_errors s1 = rd_errors s" by auto
  have "CR \<notin> set (CHR ''$'' # ''-1'')" by simp
  from line_end_ok [OF s1(3,4) this, of "''malformed bulk header''"] obtain nl s2 where
    s2: "line_end ''malformed bulk header'' s1 = Some (Some nl, s2)" "rd_ok (s2\<lparr>rd_pos := nl + 2\<rparr>)"
      "rstream (s2\<lparr>rd_pos := nl + 2\<rparr>) = y"
      "substr (rd_buf s2) (rd_pos s2 + 1) (nl - rd_pos s2 - 1) = ''-1''" "rd_errors s2 = rd_errors s1" by blast
  have p: "ParseInt64 ''-1'' = Some (- 1)" by code_simp
  show ?thesis using s1(1,2,5) s2 p by (simp add: read_head_def Let_def)
qed

lemma read_head_array:
  assumes "rd_ok s" "rstream s = ''*'' @ dec_of_nat n @ kCRLF @ y" "n \<le> 9223372036854775807"
  shows "\<exists>s'. read_head s = Some (Inr (int n), s') \<and> rd_ok s' \<and> rstream s' = y"
proof -
  have "rstream s = CHR ''*'' # (dec_of_nat n @ kCRLF @ y)" using assms(2) by simp
  from read_type [OF assms(1) this] obtain s1 where s1: "Fill 1 s = Some (True, s1)" "rd_buf s1 ! rd_pos s1 = CHR ''*''" "rd_ok s1"
    "rstream s1 = (CHR ''*'' # dec_of_nat n) @ kCRLF @ y" by auto
  have "CR \<notin> set (CHR ''*'' # dec_of_nat n)" by simp
  from line_end_ok [OF s1(3,4) this, of "[]"] obtain nl s2 where
    s2: "line_end [] s1 = Some (Some nl, s2)" "rd_ok (s2\<lparr>rd_pos := nl + 2\<rparr>)" "rstream (s2\<lparr>rd_pos := nl + 2\<rparr>) = y"
      "substr (rd_buf s2) (rd_pos s2 + 1) (nl - rd_pos s2 - 1) = dec_of_nat n" by blast
  have p: "ParseInt64 (dec_of_nat n) = Some (int n)" by (rule ParseInt64_dec_of_nat) (rule assms(3))
  show ?thesis using s1(1,2) s2 p by (simp add: read_head_def Let_def)
qed

lemma read_elems_unfold:
  "read_elems n s =
     (if n \<le> 0 then Some (1, s)
      else do { (r, s) \<leftarrow> ReadOne s; if r \<le> 0 then Some (r, s) else read_elems (n - 1) s })"
  by (subst read_elems.simps) (auto simp: ReadOne_def Option.bind_eq_None_conv split: Option.bind_split sum.split prod.split)

text \<open>The lengths in a reply fit the 64 bits of the parser.\<close>

lemma reply_length_array: "length vs \<le> length (concat vs)" if "\<And>v. v \<in> set vs \<Longrightarrow> v \<noteq> []"
  using that
proof (induction vs)
  case (Cons v vs)
  then have "v \<noteq> []" "length vs \<le> length (concat vs)" by auto
  then show ?case by (cases v) auto
qed simp

lemma ReadOne_value:
  "resp_value v \<Longrightarrow> rd_ok s \<Longrightarrow> rstream s = v @ rest \<Longrightarrow> length v < 9223372036854775807 \<Longrightarrow>
     \<exists>s'. ReadOne s = Some (1, s') \<and> rd_ok s' \<and> rstream s' = rest \<and>
       (hd v \<noteq> CHR ''*'' \<longrightarrow> rd_errors s' = rd_errors s + errors_of v)"
proof (induction v arbitrary: s rest rule: resp_value.induct)
  case (simple x)
  then have "CR \<notin> set x" "rstream s = (CHR ''+'' # x) @ kCRLF @ rest" by (simp_all add: line_ok_def)
  from read_head_line [OF simple.prems(1) this(2,1)] show ?case by (auto simp: ReadOne_def errors_of_def)
next
  case (error x)
  then have "CR \<notin> set x" "rstream s = (CHR ''-'' # x) @ kCRLF @ rest" by (simp_all add: line_ok_def)
  from read_head_line [OF error.prems(1) this(2,1)] show ?case by (auto simp: ReadOne_def errors_of_def)
next
  case (integer n)
  then have "CR \<notin> set (dec_of_int n)" "rstream s = (CHR '':'' # dec_of_int n) @ kCRLF @ rest" by (simp_all add: dec_of_int_def)
  from read_head_line [OF integer.prems(1) this(2,1)] show ?case by (auto simp: ReadOne_def errors_of_def)
next
  case (bulk b)
  then have "rstream s = ''$'' @ dec_of_nat (length b) @ kCRLF @ b @ kCRLF @ rest" "length b < 9223372036854775807" by simp_all
  from read_head_bulk [OF bulk.prems(1) this] show ?case by (auto simp: ReadOne_def errors_of_def)
next
  case null
  then have "rstream s = ''$-1'' @ kCRLF @ rest" by simp
  from read_head_null [OF null.prems(1) this] show ?case by (auto simp: ReadOne_def errors_of_def)
next
  case (array vs)
  have ne: "v \<noteq> []" if "v \<in> set vs" for v using array.hyps [OF that] by (rule resp_value_nonempty)
  then have l: "length vs \<le> length (concat vs)" by (rule reply_length_array)
  have c: "length (concat vs) < 9223372036854775807" using array.prems(3) by simp
  have elems: "\<exists>s'. read_elems (int (length us)) s = Some (1, s') \<and> rd_ok s' \<and> rstream s' = rest"
    if "set us \<subseteq> set vs" "rd_ok s" "rstream s = concat us @ rest" "length (concat us) < 9223372036854775807" for us s
    using that
  proof (induction us arbitrary: s)
    case Nil
    then show ?case by (subst read_elems_unfold) simp
  next
    case (Cons u us)
    have "u \<in> set vs" "rstream s = u @ concat us @ rest" "length u < 9223372036854775807" using Cons.prems by simp_all
    from array.IH [OF this(1) Cons.prems(2) this(2,3)] obtain t where t: "ReadOne s = Some (1, t)" "rd_ok t" "rstream t = concat us @ rest" by blast
    from Cons.IH [OF _ t(2,3)] Cons.prems(1,4) t(1) show ?case by (subst read_elems_unfold) simp
  qed
  have "rstream s = ''*'' @ dec_of_nat (length vs) @ kCRLF @ (concat vs @ rest)" "length vs \<le> 9223372036854775807"
    using array.prems(2) l c by simp_all
  from read_head_array [OF array.prems(1) this] obtain t where t: "read_head s = Some (Inr (int (length vs)), t)" "rd_ok t"
    "rstream t = concat vs @ rest" by blast
  from elems [OF subset_refl t(2,3) c] t(1) show ?case by (auto simp: ReadOne_def)
qed

end
