(* ===== verification/Bench_Properties.thy ===== *)
theory Bench_Properties
  imports Bench_Facts
begin

section \<open>What the load generator measures\<close>

text \<open>
  The options it accepts; the commands it sends are requests the server accepts; a client, and a
  round of clients, count every request exactly once; and two accepted options that break a run.
\<close>

subsection \<open>Options\<close>

definition options_ok :: "options \<Rightarrow> bool" where
  "options_ok c \<longleftrightarrow> 0 < op_clients c \<and> op_clients c \<le> 4096 \<and> 0 < op_requests c \<and> op_requests c \<le> INT64_MAX
     \<and> 0 < op_pipeline c \<and> op_pipeline c \<le> 4096 \<and> op_value_size c \<le> 1048576
     \<and> op_command c \<in> {''set'', ''get'', ''incr''}"

lemma to_int32_id: "- 2147483648 \<le> v \<Longrightarrow> v < 2147483648 \<Longrightarrow> to_int32 v = v"
  by (simp add: to_int32_def signed_of_int signed_take_bit_int_eq_self)

lemma ParseInt_range: "ParseInt s = Some v \<Longrightarrow> INT64_MIN \<le> v \<and> v \<le> INT64_MAX"
  by (auto simp: ParseInt_def strtoll_def Let_def split: if_splits prod.splits)

lemma number_option_ok:
  assumes "number_option s p f = Some c'" "\<And>v. \<not> p v \<Longrightarrow> v \<le> INT64_MAX \<Longrightarrow> options_ok (f v)"
  shows "options_ok c'"
  using assms ParseInt_range by (fastforce simp: number_option_def split: option.splits if_splits)

lemma if_Some_casesE:
  assumes "(if b then x else y) = Some z"
  obtains b "x = Some z" | "\<not> b" "y = Some z"
  using assms by (auto split: if_splits)

lemma value_option_ok:
  assumes "value_option a s c = Some c'" "options_ok c"
  shows "options_ok c'"
proof -
  have [simp]: "options_ok (c\<lparr>op_host := h\<rparr>)" "options_ok (c\<lparr>op_port := p\<rparr>)" "options_ok (c\<lparr>op_key_space := k\<rparr>)" for h p k
    using assms(2) by (simp_all add: options_ok_def)
  note o = number_option_ok
  have h: "options_ok c'" if "Some (c\<lparr>op_host := s\<rparr>) = Some c'" using that by auto
  have p: "options_ok c'" if "number_option s (\<lambda>v. v \<le> 0 \<or> 65535 < v) (\<lambda>v. c\<lparr>op_port := word_of_int v\<rparr>) = Some c'"
    by (rule o [OF that]) simp
  have k: "options_ok c'" if "number_option s (\<lambda>v. v \<le> 0) (\<lambda>v. c\<lparr>op_key_space := to_int32 v\<rparr>) = Some c'"
    by (rule o [OF that]) simp
  have n: "options_ok c'" if "number_option s (\<lambda>v. v \<le> 0 \<or> 4096 < v) (\<lambda>v. c\<lparr>op_clients := to_int32 v\<rparr>) = Some c'"
    by (rule o [OF that]) (use assms(2) in \<open>simp add: options_ok_def to_int32_id\<close>)
  have P: "options_ok c'" if "number_option s (\<lambda>v. v \<le> 0 \<or> 4096 < v) (\<lambda>v. c\<lparr>op_pipeline := to_int32 v\<rparr>) = Some c'"
    by (rule o [OF that]) (use assms(2) in \<open>simp add: options_ok_def to_int32_id\<close>)
  have r: "options_ok c'" if "number_option s (\<lambda>v. v \<le> 0) (\<lambda>v. c\<lparr>op_requests := v\<rparr>) = Some c'"
    by (rule o [OF that]) (use assms(2) in \<open>simp add: options_ok_def\<close>)
  have d: "options_ok c'" if "number_option s (\<lambda>v. v < 0 \<or> 1024 * 1024 < v) (\<lambda>v. c\<lparr>op_value_size := nat v\<rparr>) = Some c'"
  proof (rule o [OF that])
    fix v :: int assume "\<not> (v < 0 \<or> 1024 * 1024 < v)"
    then have "nat v \<le> 1048576" by linarith
    with assms(2) show "options_ok (c\<lparr>op_value_size := nat v\<rparr>)" by (simp add: options_ok_def)
  qed
  have t: "options_ok c'" if "\<not> (s \<noteq> ''set'' \<and> s \<noteq> ''get'' \<and> s \<noteq> ''incr'')" "Some (c\<lparr>op_command := s\<rparr>) = Some c'"
    using that assms(2) by (auto simp: options_ok_def)
  from assms(1) show ?thesis unfolding value_option_def
    by (elim if_Some_casesE) ((erule h p k n P r d | erule (1) t | erule option.distinct(1) [THEN notE])+)
qed

lemma ParseArgs_options_ok: "ParseArgs as c = ArgsOk c' \<Longrightarrow> options_ok c \<Longrightarrow> options_ok c'"
proof (induction as c rule: ParseArgs.induct)
  case (2 a rest c)
  show ?case
  proof (cases "a \<in> set value_names")
    case True
    with 2 show ?thesis by (auto split: list.splits option.splits dest: value_option_ok)
  next
    case False
    have [simp]: "options_ok (c\<lparr>op_warmup := b\<rparr>) = options_ok c" "options_ok (c\<lparr>op_verbose := b\<rparr>) = options_ok c" for b
      by (simp_all add: options_ok_def)
    from 2 False show ?thesis by (auto split: if_splits)
  qed
qed simp

lemma default_options_ok: "options_ok default_options"
  by (simp add: options_ok_def default_options_def)

subsection \<open>The commands of a batch\<close>

definition bench_value :: "options \<Rightarrow> int \<Rightarrow> string" where
  "bench_value c idx =
     (if op_value_size c \<ge> 8 then replicate (op_value_size c - 7) (CHR ''v'') @ pad7 (idx mod 10000000)
      else replicate (op_value_size c) (CHR ''v''))"

definition bench_cmd :: "options \<Rightarrow> int \<Rightarrow> string list" where
  "bench_cmd c i =
     (let idx = i mod op_key_space c in
      [op_command c, ''key:'' @ dec_of_int idx] @ (if op_command c = ''set'' then [bench_value c idx] else []))"

lemma pad7_length: "0 \<le> v \<Longrightarrow> v < 10000000 \<Longrightarrow> length (pad7 v) = 7"
  using dec_of_nat_length_le [of "nat v" 7] by (simp add: pad7_def Let_def)

definition value_ok :: "options \<Rightarrow> string \<Rightarrow> bool" where
  "value_ok c s \<longleftrightarrow> length s = op_value_size c
     \<and> (if op_value_size c \<ge> 8 then take (op_value_size c - 7) s else s)
        = replicate (if op_value_size c \<ge> 8 then op_value_size c - 7 else op_value_size c) (CHR ''v'')"

lemma smod_pos: "0 \<le> a \<Longrightarrow> 0 < b \<Longrightarrow> a smod b = a mod (b :: int)"
  by (simp add: signed_modulo_int_def signed_divide_int_def sgn_if minus_mult_div_eq_mod minus_div_mult_eq_mod)

lemma batch_value_ok:
  assumes "value_ok c s" "0 \<le> idx"
  shows "batch_value c idx s = bench_value c idx" "value_ok c (bench_value c idx)"
proof -
  have l: "length (pad7 (idx mod 10000000)) = 7" by (rule pad7_length) simp_all
  have m: "idx smod 10000000 = idx mod 10000000" by (rule smod_pos [OF assms(2)]) simp
  show "batch_value c idx s = bench_value c idx" using assms(1)
    by (auto simp: batch_value_def bench_value_def m l value_ok_def Let_def split: if_splits)
  show "value_ok c (bench_value c idx)" by (simp add: value_ok_def bench_value_def l)
qed

lemma build_loop_cmds:
  "0 < op_key_space c \<Longrightarrow> 0 \<le> start \<Longrightarrow> value_ok c s \<Longrightarrow>
     build_loop c start is s out = Some (out @ concat (map (\<lambda>i. enc (bench_cmd c (start + int i))) is))"
proof (induction "is" arbitrary: s out)
  case (Cons i "is")
  have m: "(start + int i) smod op_key_space c = (start + int i) mod op_key_space c" using Cons.prems by (intro smod_pos) simp_all
  have "batch_command c (start + int i) s
    = Some (bench_cmd c (start + int i), if op_command c = ''set'' then bench_value c ((start + int i) mod op_key_space c) else s)"
    using Cons.prems batch_value_ok(1) [OF Cons.prems(3), of "(start + int i) mod op_key_space c"]
    by (simp add: batch_command_def bench_cmd_def Let_def m)
  moreover have "value_ok c (if op_command c = ''set'' then bench_value c ((start + int i) mod op_key_space c) else s)"
    using Cons.prems batch_value_ok(2) [OF Cons.prems(3)] by simp
  ultimately show ?case using Cons.IH Cons.prems by (simp add: EncodeCommand_enc)
qed simp

lemma BuildBatch_cmds:
  assumes "0 < op_key_space c" "0 \<le> start"
  shows "BuildBatch c start n = Some (stream (map (\<lambda>i. bench_cmd c (start + int i)) [0..<nat n]))"
proof -
  have "value_ok c (replicate (op_value_size c) (CHR ''v''))" by (simp add: value_ok_def)
  from build_loop_cmds [OF assms this] show ?thesis by (simp add: BuildBatch_def o_def)
qed

lemma BuildBatch_zero: "op_key_space c = 0 \<Longrightarrow> 0 < n \<Longrightarrow> BuildBatch c start n = None"
  by (simp add: BuildBatch_def batch_command_def upt_conv_Cons)

lemma bench_cmd_request:
  assumes "options_ok c" "0 < op_key_space c" "op_key_space c \<le> 2147483648" "0 \<le> i"
  shows "request_ok (bench_cmd c i)"
proof -
  have "i mod op_key_space c < op_key_space c" by (rule pos_mod_bound [OF assms(2)])
  with assms(3) have "i mod op_key_space c < 10000000000" by linarith
  then have idx: "0 \<le> i mod op_key_space c" "i mod op_key_space c < 10 ^ 10" using assms(2) by simp_all
  have k: "length (dec_of_int (i mod op_key_space c)) \<le> 10"
    using dec_of_nat_length_le [of "nat (i mod op_key_space c)" 10] idx by (simp add: dec_of_int_def nat_less_iff)
  have v: "length (bench_value c idx) \<le> 1048576" for idx
    using assms(1) pad7_length [of "idx mod 10000000"] by (simp add: bench_value_def options_ok_def)
  have "line_ok (op_command c)" "length (op_command c) \<le> 4" using assms(1) by (auto simp: options_ok_def line_ok_def)
  with k v [of "i mod op_key_space c"] show ?thesis by (simp add: request_ok_def args_ok_def bulk_ok_def bench_cmd_def Let_def)
qed

subsection \<open>Sending and receiving a batch\<close>

definition kernel_sends :: "send_result list \<Rightarrow> bool" where
  "kernel_sends rs \<longleftrightarrow> SendErr \<notin> set rs \<and> Sent 0 \<notin> set rs"

definition sends_left :: "send_result list \<Rightarrow> nat" where
  "sends_left rs = length (filter (\<lambda>r. \<exists>k. r = Sent k) rs)"

lemma sends_left_simps [simp]:
  "sends_left [] = 0" "sends_left (Sent k # rs) = Suc (sends_left rs)" "sends_left (SendAgain # rs) = sends_left rs"
  "sends_left (SendIntr # rs) = sends_left rs"
  by (simp_all add: sends_left_def)

lemma send_all_ok:
  "kernel_sends rs \<Longrightarrow> length b \<le> sends_left rs \<Longrightarrow> length b < 2147483648 \<Longrightarrow>
     \<exists>rs'. send_all b rs acc = Some (True, rs', acc @ b) \<and> kernel_sends rs' \<and> sends_left rs \<le> sends_left rs' + length b"
proof (induction b rs acc rule: send_all.induct)
  case (2 b r rs acc)
  have l: "to_int32 (int (length b)) = int (length b)" using "2.prems"(3) by (intro to_int32_id) simp_all
  have k: "kernel_sends rs" "r \<noteq> SendErr" "r \<noteq> Sent 0" using "2.prems"(1) by (auto simp: kernel_sends_def)
  show ?case
  proof (cases "b = []")
    case True
    then show ?thesis using "2.prems" by simp
  next
    case False
    show ?thesis
    proof (cases r)
      case (Sent n)
      define m where "m = min n (length b)"
      have m: "0 < m" "m \<le> length b" using k(3) Sent False by (auto simp: m_def)
      have "length (drop m b) \<le> sends_left rs" "length (drop m b) < 2147483648" using "2.prems"(2,3) Sent m by simp_all
      from "2.IH"(1) [OF False refl _ Sent refl _ k(1)] this l m obtain rs' where
        "send_all (drop m b) rs (acc @ take m b) = Some (True, rs', (acc @ take m b) @ drop m b)" "kernel_sends rs'"
        "sends_left rs \<le> sends_left rs' + length (drop m b)" by (auto simp: m_def)
      moreover from this(3) m have "Suc (sends_left rs) \<le> sends_left rs' + length b" by simp
      ultimately show ?thesis using Sent False l m(1) by (simp add: m_def Let_def)
    qed (use "2.IH" "2.prems" False k l in auto)
  qed
qed simp

lemma read_replies_ok:
  "list_all resp_value vs \<Longrightarrow> rd_ok s \<Longrightarrow> rstream s = concat vs @ rest \<Longrightarrow> length (concat vs) < 9223372036854775807 \<Longrightarrow>
     \<exists>s'. read_replies (length vs) got s = Some (got + int (length vs), s') \<and> rd_ok s' \<and> rstream s' = rest \<and>
       ((\<forall>v\<in>set vs. hd v \<noteq> CHR ''*'') \<longrightarrow> rd_errors s' = rd_errors s + sum_list (map errors_of vs))"
proof (induction vs arbitrary: s got)
  case (Cons v vs)
  then have v: "resp_value v" "rstream s = v @ concat vs @ rest" "length v < 9223372036854775807" by simp_all
  from ReadOne_value [OF v(1) Cons.prems(2) v(2,3)] obtain t where t: "ReadOne s = Some (1, t)" "rd_ok t" "rstream t = concat vs @ rest"
    "hd v \<noteq> CHR ''*'' \<longrightarrow> rd_errors t = rd_errors s + errors_of v" by blast
  from Cons.IH [OF _ t(2,3), of "got + 1"] Cons.prems(1,4) t(1,4) show ?case by (fastforce simp: algebra_simps)
qed simp

subsection \<open>One client\<close>

text \<open>The commands of a client from its request \<open>sent\<close> to its last.\<close>

definition client_cmds :: "options \<Rightarrow> int \<Rightarrow> int \<Rightarrow> int \<Rightarrow> string list list" where
  "client_cmds c base sent mine = map (\<lambda>i. bench_cmd c (base + i)) [sent..mine - 1]"

lemma client_cmds_batch:
  assumes "sent < mine" "n = min p (mine - sent)" "0 < p"
  shows "client_cmds c base sent mine = map (\<lambda>i. bench_cmd c (base + sent + int i)) [0..<nat n] @ client_cmds c base (sent + n) mine"
proof -
  have "map (\<lambda>i. bench_cmd c (base + i)) [sent..sent + int k - 1] = map (\<lambda>i. bench_cmd c (base + sent + int i)) [0..<k]" for k
    by (rule nth_equalityI) (simp_all add: nth_upto add.assoc)
  from this [of "nat n"] have e: "map (\<lambda>i. bench_cmd c (base + i)) [sent..sent + n - 1] = map (\<lambda>i. bench_cmd c (base + sent + int i)) [0..<nat n]"
    using assms by simp
  have "[sent..mine - 1] = [sent..sent + n - 1] @ [sent + n..mine - 1]" using assms upto_split2 [of sent "sent + n - 1" "mine - 1"]
    by (simp add: min_def split: if_splits)
  with e show ?thesis by (simp add: client_cmds_def)
qed

lemma length_client_cmds [simp]: "length (client_cmds c base sent mine) = nat (mine - sent)"
  by (simp add: client_cmds_def)

text \<open>What the server and the kernel give a client with these commands to send.\<close>

definition link_ok :: "string list list \<Rightarrow> string list \<Rightarrow> link \<Rightarrow> bool" where
  "link_ok cmds replies lk \<longleftrightarrow> length replies = length cmds \<and> list_all resp_value replies \<and> length (concat replies) < 9223372036854775807
     \<and> rd_ok (lk_reader lk) \<and> rstream (lk_reader lk) = concat replies
     \<and> kernel_sends (lk_sends lk) \<and> length (stream cmds) \<le> sends_left (lk_sends lk) \<and> length (stream cmds) < 2147483648"

lemma client_loop_ok:
  assumes "0 < op_key_space c" "0 < op_pipeline c" "0 \<le> base"
  shows "0 \<le> sent \<Longrightarrow> sent \<le> mine \<Longrightarrow> link_ok (client_cmds c base sent mine) replies lk \<Longrightarrow>
    \<exists>res' lk'. client_loop c base mine sent res lk = Some (res', lk') \<and> tr_completed res' = tr_completed res + (mine - sent)
      \<and> tr_error res' = tr_error res \<and> lk_sent lk' = lk_sent lk @ stream (client_cmds c base sent mine)
      \<and> ((\<forall>v\<in>set replies. hd v \<noteq> CHR ''*'') \<longrightarrow> tr_errors res = rd_errors (lk_reader lk) \<longrightarrow>
           tr_errors res' = tr_errors res + sum_list (map errors_of replies))"
proof (induction "nat (mine - sent)" arbitrary: sent replies res lk rule: less_induct)
  case less
  show ?case
  proof (cases "sent < mine")
    case False
    with less.prems show ?thesis by (subst client_loop.simps) (simp add: link_ok_def client_cmds_def)
  next
    case True
    define n where "n = min (op_pipeline c) (mine - sent)"
    have n: "0 < n" "n \<le> mine - sent" using True assms(2) by (simp_all add: n_def)
    let ?b = "map (\<lambda>i. bench_cmd c (base + sent + int i)) [0..<nat n]" and ?rest = "client_cmds c base (sent + n) mine"
    have cmds: "client_cmds c base sent mine = ?b @ ?rest" by (rule client_cmds_batch [OF True n_def assms(2)])
    have B: "BuildBatch c (base + sent) n = Some (stream ?b)" using assms(1,3) less.prems(1) by (intro BuildBatch_cmds) simp_all
    note lk = less.prems(3) [unfolded link_ok_def cmds]
    let ?v = "take (nat n) replies" and ?w = "drop (nat n) replies"
    have rep: "length ?v = nat n" "concat replies = concat ?v @ concat ?w" using lk n by (simp_all flip: concat_append)
    have len: "length (concat ?v) < 9223372036854775807" "length (concat ?w) < 9223372036854775807" using lk rep(2) by simp_all
    have vals: "list_all resp_value ?v" "list_all resp_value ?w" using lk by (auto simp: list_all_iff dest: in_set_takeD in_set_dropD)
    have "length (stream ?b) \<le> sends_left (lk_sends lk)" "length (stream ?b) < 2147483648" using lk by simp_all
    with send_all_ok lk obtain sends where S: "send_all (stream ?b) (lk_sends lk) (lk_sent lk) = Some (True, sends, lk_sent lk @ stream ?b)"
      "kernel_sends sends" "sends_left (lk_sends lk) \<le> sends_left sends + length (stream ?b)" by blast
    have "rd_ok (lk_reader lk)" "rstream (lk_reader lk) = concat ?v @ concat ?w" using lk rep(2) by simp_all
    from read_replies_ok [OF vals(1) this len(1), of 0] rep(1) n obtain rd where R:
      "ReadReplies (nat n) (lk_reader lk) = Some (n, rd)" "rd_ok rd" "rstream rd = concat ?w"
      "(\<forall>v\<in>set ?v. hd v \<noteq> CHR ''*'') \<longrightarrow> rd_errors rd = rd_errors (lk_reader lk) + sum_list (map errors_of ?v)"
      by (auto simp: ReadReplies_def)
    let ?lk = "lk\<lparr>lk_sends := sends, lk_sent := lk_sent lk @ stream ?b, lk_reader := rd\<rparr>"
    let ?res = "res\<lparr>tr_bytes := tr_bytes res + of_nat (length (stream ?b)), tr_errors := rd_errors rd, tr_completed := tr_completed res + n\<rparr>"
    have "link_ok ?rest ?w ?lk" using lk S R(2,3) vals(2) len(2) n by (simp add: link_ok_def)
    moreover have "nat (mine - (sent + n)) < nat (mine - sent)" "0 \<le> sent + n" "sent + n \<le> mine" using n less.prems(1) by simp_all
    ultimately obtain res' lk' where I: "client_loop c base mine (sent + n) ?res ?lk = Some (res', lk')"
      "tr_completed res' = tr_completed ?res + (mine - (sent + n))" "tr_error res' = tr_error ?res"
      "lk_sent lk' = lk_sent ?lk @ stream ?rest"
      "(\<forall>v\<in>set ?w. hd v \<noteq> CHR ''*'') \<longrightarrow> tr_errors ?res = rd_errors (lk_reader ?lk) \<longrightarrow>
           tr_errors res' = tr_errors ?res + sum_list (map errors_of ?w)"
      using less.hyps by blast
    have "client_loop c base mine sent res lk = Some (res', lk')"
      using True B S(1) R(1) I(1) n(1) by (subst client_loop.simps) (simp add: n_def [symmetric] Let_def)
    moreover have "sum_list (map errors_of replies) = sum_list (map errors_of ?v) + sum_list (map errors_of ?w)"
      by (simp flip: sum_list_append map_append)
    ultimately show ?thesis using I(2-5) R(4) cmds by (auto dest: in_set_takeD in_set_dropD)
  qed
qed

lemma key_base_nonneg: "0 \<le> op_key_space c \<Longrightarrow> 0 \<le> key_base c i"
  by (simp add: key_base_def signed_divide_int_def sgn_if pos_imp_zdiv_nonneg_iff)

lemma client_cmds_requests:
  assumes "options_ok c" "0 < op_key_space c" "op_key_space c \<le> 2147483648" "0 \<le> base" "0 \<le> sent"
  shows "list_all request_ok (client_cmds c base sent mine)"
  using assms by (auto simp: client_cmds_def list_all_iff intro: bench_cmd_request)

text \<open>What client \<open>i\<close> has to find at the other end of its connection: a complete reply for every
  request, in any pieces, and a kernel that accepts its bytes, in any pieces.\<close>

definition answered :: "options \<Rightarrow> nat \<Rightarrow> int \<Rightarrow> string list \<Rightarrow> recv_result list \<times> send_result list \<Rightarrow> bool" where
  "answered c i mine replies l \<longleftrightarrow>
     (let cmds = client_cmds c (key_base c i) 0 mine; (rs, sends) = l in
      length replies = length cmds \<and> list_all resp_value replies \<and> arrives rs \<and> data rs = concat replies
      \<and> length (concat replies) < 9223372036854775807
      \<and> kernel_sends sends \<and> length (stream cmds) \<le> sends_left sends \<and> length (stream cmds) < 2147483648)"

lemma ClientWorker_answered:
  assumes "options_ok c" "0 < op_key_space c" "0 \<le> mine" "answered c i mine replies l"
  obtains res where "ClientWorker c i mine (Inr l) = Some (res, stream (client_cmds c (key_base c i) 0 mine))"
    "tr_completed res = mine" "tr_error res = []"
    "(\<forall>v\<in>set replies. hd v \<noteq> CHR ''*'') \<longrightarrow> tr_errors res = sum_list (map errors_of replies)"
proof -
  obtain rs sends where l: "l = (rs, sends)" by (cases l)
  let ?lk = "\<lparr>lk_reader = reader_new rs, lk_sends = sends, lk_sent = []\<rparr>"
  have "link_ok (client_cmds c (key_base c i) 0 mine) replies ?lk"
    using assms(4) by (simp add: answered_def l link_ok_def rd_ok_def rstream_def reader_new_def Let_def)
  from client_loop_ok [OF assms(2) _ key_base_nonneg order_refl assms(3) this, where res = empty_result] assms(1,2)
  obtain res lk' where "client_loop c (key_base c i) mine 0 empty_result ?lk = Some (res, lk')"
    "tr_completed res = mine" "tr_error res = []" "lk_sent lk' = stream (client_cmds c (key_base c i) 0 mine)"
    "(\<forall>v\<in>set replies. hd v \<noteq> CHR ''*'') \<longrightarrow> tr_errors res = sum_list (map errors_of replies)"
    by (auto simp: options_ok_def empty_result_def reader_new_def)
  then show thesis by (intro that [of res]) (simp_all add: ClientWorker_def l)
qed

subsection \<open>A round\<close>

lemma share_nonneg: "options_ok c \<Longrightarrow> 0 \<le> reqs \<Longrightarrow> reqs div op_clients c < 2147483648 \<Longrightarrow>
    share c reqs i = reqs div op_clients c + (if int i < reqs mod op_clients c then 1 else 0)"
proof -
  assume o: "options_ok c" "0 \<le> reqs" "reqs div op_clients c < 2147483648"
  then have c: "0 < op_clients c" "op_clients c \<le> 4096" by (simp_all add: options_ok_def)
  have "0 \<le> reqs mod op_clients c" "reqs mod op_clients c < 4096" using c pos_mod_bound [OF c(1), of reqs] by (simp, linarith)
  moreover have "0 \<le> reqs div op_clients c" using o(2) c(1) by (simp add: pos_imp_zdiv_nonneg_iff)
  ultimately show ?thesis using o(3) by (simp add: share_def Let_def to_int32_id)
qed

lemma sum_first: "r \<le> n \<Longrightarrow> (\<Sum>i = 0..<n. q + (if i < r then 1 else 0)) = int n * q + int r" for q :: int
proof -
  assume r: "r \<le> n"
  have "{i. i < r \<and> i \<in> {0..<n}} = {0..<r}" using r by auto
  then have "card {i. i < r \<and> i \<in> {0..<n}} = r" by simp
  then have "(\<Sum>i = 0..<n. if i < r then 1 else (0 :: int)) = int r"
    using sum.If_cases [of "{0..<n}" "\<lambda>i. i < r" "\<lambda>_. 1 :: int" "\<lambda>_. 0"] by (simp add: Int_def conj_commute)
  then show ?thesis by (simp add: sum.distrib)
qed

lemma share_sum:
  assumes "options_ok c" "0 \<le> reqs" "reqs div op_clients c < 2147483648"
  shows "(\<Sum>i = 0..<nat (op_clients c). share c reqs i) = reqs"
proof -
  let ?n = "nat (op_clients c)" and ?r = "nat (reqs mod op_clients c)"
  have c: "0 < op_clients c" using assms(1) by (simp add: options_ok_def)
  have "share c reqs i = reqs div op_clients c + (if i < ?r then 1 else 0)" for i
    using share_nonneg [OF assms, of i] by (simp add: zless_nat_eq_int_zless)
  moreover have "?r \<le> ?n" using pos_mod_bound [OF c, of reqs] by linarith
  ultimately show ?thesis using sum_first [of ?r ?n "reqs div op_clients c"] c by simp
qed

lemma run_clients_ok:
  assumes "options_ok c" "0 < op_key_space c" "\<And>i. 0 \<le> share c reqs i"
  shows "\<forall>j<length conns. \<exists>l replies. conns ! j = Inr l \<and> answered c (i + j) (share c reqs (i + j)) replies l \<Longrightarrow>
    \<exists>rs. run_clients c reqs i conns = Some rs \<and> map tr_completed rs = map (share c reqs) [i..<i + length conns]
      \<and> (\<forall>r\<in>set rs. tr_error r = [])"
proof (induction conns arbitrary: i)
  case (Cons conn conns)
  from Cons.prems have "\<exists>l replies. conn = Inr l \<and> answered c i (share c reqs i) replies l" by force
  then obtain l replies where l: "conn = Inr l" "answered c i (share c reqs i) replies l" by blast
  from ClientWorker_answered [OF assms(1,2,3) l(2)] obtain res where res: "ClientWorker c i (share c reqs i) (Inr l) = Some (res, stream (client_cmds c (key_base c i) 0 (share c reqs i)))"
    "tr_completed res = share c reqs i" "tr_error res = []" by blast
  have "\<forall>j<length conns. \<exists>l replies. conns ! j = Inr l \<and> answered c (Suc i + j) (share c reqs (Suc i + j)) replies l"
    using Cons.prems by force
  from Cons.IH [OF this] obtain rs where rs: "run_clients c reqs (Suc i) conns = Some rs"
    "map tr_completed rs = map (share c reqs) [Suc i..<Suc i + length conns]" "\<forall>r\<in>set rs. tr_error r = []" by blast
  have "[i..<i + length (conn # conns)] = i # [Suc i..<Suc i + length conns]" by (simp add: upt_conv_Cons del: upt_Suc)
  with rs(2) res(2) have "map tr_completed (res # rs) = map (share c reqs) [i..<i + length (conn # conns)]" by (simp del: upt_Suc)
  moreover have "run_clients c reqs i (conn # conns) = Some (res # rs)" using res(1) rs(1) l(1) by simp
  ultimately show ?case using res(3) rs(3) by (intro exI [of _ "res # rs"]) simp
qed simp

lemma merge_results:
  "\<forall>r\<in>set rs. tr_error r = [] \<Longrightarrow> tr_completed (foldl merge_result m rs) = tr_completed m + sum_list (map tr_completed rs)
     \<and> tr_error (foldl merge_result m rs) = tr_error m"
  by (induction rs arbitrary: m) (simp_all add: merge_result_def)

subsection \<open>Properties\<close>

text \<open>Whatever the command line of the load generator, if \<open>ParseArgs\<close> accepts it, the options are in the
  ranges the rest of the program relies on: 1 to 4096 clients and commands per batch, at least one
  request, values of at most 1 MiB and one of the three commands.\<close>

theorem ParseArgs_type:
  assumes "ParseArgs argv default_options = ArgsOk c"
  shows "options_ok c"
  by (rule ParseArgs_options_ok [OF assms default_options_ok])

theorem ParseArgs_type_witness:
  "options_ok (default_options\<lparr>op_command := ''get'', op_warmup := False\<rparr>)"
  by (rule ParseArgs_type [of "[''-t'', ''get'', ''--no-warmup'']"]) (simp add: value_names_def value_option_def default_options_def)



text \<open>C15: the commands of a client are requests the server answers one by one, and a client that gets
  these answers counts exactly its share of requests and no error of the connection, having sent the
  bytes of exactly these commands, whatever the pieces in which the kernel takes and gives them.\<close>

theorem ClientWorker_completes:
  assumes "options_ok c" "0 < op_key_space c" "op_key_space c \<le> 2147483647" "0 \<le> mine"
    "w_good (n + cost (client_cmds c (key_base c i) 0 mine)) w"
  shows "\<exists>replies w'. serve (client_cmds c (key_base c i) 0 mine) w = Some (replies, w') \<and> w_good n w'
    \<and> list_all args_ok (client_cmds c (key_base c i) 0 mine)
    \<and> (\<forall>rs sends. arrives rs \<and> data rs = concat replies \<and> length (concat replies) < 9223372036854775807 \<and> kernel_sends sends
         \<and> length (stream (client_cmds c (key_base c i) 0 mine)) \<le> sends_left sends
         \<and> length (stream (client_cmds c (key_base c i) 0 mine)) < 2147483648 \<longrightarrow>
         (\<exists>res. ClientWorker c i mine (Inr (rs, sends)) = Some (res, stream (client_cmds c (key_base c i) 0 mine))
            \<and> tr_completed res = mine \<and> tr_error res = []))"
proof -
  let ?cmds = "client_cmds c (key_base c i) 0 mine"
  have r: "list_all request_ok ?cmds" using assms(1-3) by (intro client_cmds_requests key_base_nonneg) simp_all
  from serve_ok [OF assms(5) r] obtain replies w' where s: "serve ?cmds w = Some (replies, w')" "w_good n w'"
    "length replies = length ?cmds" "list_all resp_value replies" by blast
  have "\<exists>res. ClientWorker c i mine (Inr (rs, sends)) = Some (res, stream ?cmds) \<and> tr_completed res = mine \<and> tr_error res = []"
    if "arrives rs" "data rs = concat replies" "length (concat replies) < 9223372036854775807" "kernel_sends sends"
      "length (stream ?cmds) \<le> sends_left sends" "length (stream ?cmds) < 2147483648" for rs sends
    using ClientWorker_answered [OF assms(1,2,4), of i replies "(rs, sends)"] that s(3,4) by (auto simp: answered_def Let_def)
  moreover have "list_all args_ok ?cmds" using r by (simp add: list_all_iff request_ok_def)
  ultimately show ?thesis using s(1,2) by blast
qed

abbreviation get_options :: options where
  "get_options \<equiv> default_options\<lparr>op_command := ''get'', op_clients := 2\<rparr>"

lemma get_options_ok: "options_ok get_options"
  by (simp add: options_ok_def default_options_def)

lemma char_digits: "char_of (48 :: nat) = CHR ''0''" "char_of (49 :: nat) = CHR ''1''" "char_of (53 :: nat) = CHR ''5''"
  by code_simp+

lemma get_cmds:
  "client_cmds get_options (key_base get_options 0) 0 2 = [[''get'', ''key:0''], [''get'', ''key:1'']]"
  "client_cmds get_options (key_base get_options 0) 0 1 = [[''get'', ''key:0'']]"
  "client_cmds get_options (key_base get_options 1) 0 1 = [[''get'', ''key:5000'']]"
  by (simp_all add: client_cmds_def key_base_def bench_cmd_def default_options_def signed_divide_int_def dec_of_int_def dec_of_nat.simps
      digit_char_def upto.simps char_digits)

lemma get_stream:
  "length (stream [[''get'', ''key:0''], [''get'', ''key:1'']]) = 48" "length (stream [[''get'', ''key:0'']]) = 24"
  "length (stream [[''get'', ''key:5000'']]) = 27"
  by (simp_all add: enc_def Resp_Facts.bulk_def dec_of_nat.simps)

lemma kernel_sends_ones: "kernel_sends (replicate n (Sent 1))" "sends_left (replicate n (Sent 1)) = n"
  by (auto simp: kernel_sends_def sends_left_def)

theorem ClientWorker_completes_witness:
  "\<exists>st w' res. serve [[''get'', ''key:0'']] (boot st) = Some ([EncodeNullBulk []], w')
     \<and> ClientWorker get_options 0 1 (Inr ([RecvData ''$'', RecvAgain, RecvData (''-1'' @ kCRLF)], replicate 30 (Sent 1)))
         = Some (res, stream [[''get'', ''key:0'']])
     \<and> tr_completed res = 1 \<and> tr_error res = []"
proof -
  from boot_ok obtain st where st: "w_good 1000 (boot st)" "\<And>t. db t st = Map.empty" by blast
  have g: "w_good (0 + cost (client_cmds get_options (key_base get_options 0) 0 1)) (boot st)"
    by (rule w_good_less [OF st(1)]) (simp add: get_cmds)
  have k: "0 < op_key_space get_options" "op_key_space get_options \<le> 2147483647" by (simp_all add: default_options_def)
  have low: "ToLowerAscii ''get'' = ''get''" by code_simp
  from ClientWorker_completes [OF get_options_ok k _ g] obtain replies w' where r: "serve [[''get'', ''key:0'']] (boot st) = Some (replies, w')"
    and c: "\<And>rs sends. arrives rs \<Longrightarrow> data rs = concat replies \<Longrightarrow> length (concat replies) < 9223372036854775807 \<Longrightarrow> kernel_sends sends \<Longrightarrow>
      24 \<le> sends_left sends \<Longrightarrow>
      \<exists>res. ClientWorker get_options 0 1 (Inr (rs, sends)) = Some (res, stream [[''get'', ''key:0'']]) \<and> tr_completed res = 1 \<and> tr_error res = []"
    unfolding get_cmds get_stream by auto
  from Get_meaning [OF low st(1), of "''key:0''"] st(2) r have reply: "replies = [EncodeNullBulk []]"
    by (auto simp: outcome_def split: option.splits Option.bind_splits prod.splits)
  have a: "arrives [RecvData ''$'', RecvAgain, RecvData (''-1'' @ kCRLF)]" by simp
  have "data [RecvData ''$'', RecvAgain, RecvData (''-1'' @ kCRLF)] = concat replies" by (simp add: reply EncodeNullBulk_def)
  moreover have "length (concat replies) < 9223372036854775807" "24 \<le> sends_left (replicate 30 (Sent 1))"
    by (simp_all add: reply EncodeNullBulk_def kernel_sends_ones(2) [simplified])
  ultimately obtain res where
    "ClientWorker get_options 0 1 (Inr ([RecvData ''$'', RecvAgain, RecvData (''-1'' @ kCRLF)], replicate 30 (Sent 1))) = Some (res, stream [[''get'', ''key:0'']])"
    "tr_completed res = 1" "tr_error res = []" using c [OF a, of "replicate 30 (Sent 1)"] kernel_sends_ones(1) [of 30] by blast
  with r show ?thesis unfolding reply by blast
qed



text \<open>Two command lines that are accepted and break the run: a key space of 4294967296 becomes 0 and
  the first command of the first client divides by it; and 4294967297 requests for one client become a
  share of one request.\<close>

theorem accepted_options_break:
  "ParseArgs [''-k'', ''4294967296''] default_options = ArgsOk (default_options\<lparr>op_key_space := 0\<rparr>)"
  "bench_main [''-k'', ''4294967296''] True True (Inr l # warm) conns = None"
  "ParseArgs [''-c'', ''1'', ''-n'', ''4294967297''] default_options = ArgsOk (default_options\<lparr>op_clients := 1, op_requests := 4294967297\<rparr>)"
  "share (default_options\<lparr>op_clients := 1, op_requests := 4294967297\<rparr>) 4294967297 0 = 1"
proof -
  have k: "ParseInt ''4294967296'' = Some 4294967296" "to_int32 4294967296 = 0"
    by (simp_all add: ParseInt_def strtoll_def c_string_def is_space_def is_digit_def dval_def to_int32_def)
  show a: "ParseArgs [''-k'', ''4294967296''] default_options = ArgsOk (default_options\<lparr>op_key_space := 0\<rparr>)" by (simp add: value_names_def value_option_def number_option_def k)
  show "ParseArgs [''-c'', ''1'', ''-n'', ''4294967297''] default_options = ArgsOk (default_options\<lparr>op_clients := 1, op_requests := 4294967297\<rparr>)"
  proof -
    have "ParseInt ''1'' = Some 1" "ParseInt ''4294967297'' = Some 4294967297" "to_int32 1 = 1"
      by (simp_all add: ParseInt_def strtoll_def c_string_def is_space_def is_digit_def dval_def to_int32_def)
    then show ?thesis by (simp add: value_names_def value_option_def number_option_def)
  qed
  show "share (default_options\<lparr>op_clients := 1, op_requests := 4294967297\<rparr>) 4294967297 0 = 1" by code_simp
  let ?c = "default_options\<lparr>op_key_space := 0\<rparr>"
  have "client_loop ?c b 100 0 r lk = None" for b r lk
    by (subst client_loop.simps) (simp add: BuildBatch_zero default_options_def)
  moreover have "share ?c 5000 0 = 100" by code_simp
  ultimately have "ClientWorker ?c 0 (share ?c 5000 0) (Inr l) = None" by (cases l) (simp add: ClientWorker_def)
  then have "RunRound ?c 5000 (Inr l # warm) = None" by (simp add: RunRound_def default_options_def)
  moreover have "max (op_clients ?c * 100) (op_requests ?c div 20) = 5000" "op_warmup ?c" by (simp_all add: default_options_def)
  ultimately have warm_up: "RunRound ?c (max (op_clients ?c * 100) (op_requests ?c div 20)) (Inr l # warm) = None" "op_warmup ?c" by simp_all
  from warm_up show "bench_main [''-k'', ''4294967296''] True True (Inr l # warm) conns = None"
    unfolding bench_main_def a by simp
qed

end
