(* ===== verification/Platform.thy ===== *)
theory Platform
  imports Network
begin

section \<open>The platform layer on Linux (src/platform.cpp, include/rl/platform.h)\<close>

text \<open>
  Sockets and the wake-up channel of an event loop.  The kernel is the table of the descriptors that
  are open with the options set on each, and the list of what the next system calls return; when the
  list is used up, calls fail.  \<open>inet_pton\<close>, \<open>inet_ntop\<close> and \<open>getaddrinfo\<close> are parameters; addresses
  are words in host order.  The texts of \<open>LastSocketError\<close> are left out of the errors.
\<close>

subsection \<open>Sockets\<close>

record sock =
  so_reuse :: bool
  so_nodelay :: bool
  so_nonblock :: bool
  so_bound :: "(u32 \<times> 16 word) option"
  so_backlog :: "int option"
  so_peer :: "(u32 \<times> 16 word) option"

definition sock_new :: sock where
  "sock_new = \<lparr>so_reuse = False, so_nodelay = False, so_nonblock = False, so_bound = None, so_backlog = None, so_peer = None\<rparr>"

record kernel =
  kn_table :: "int \<rightharpoonup> sock"
  kn_rets :: "int list"

abbreviation kInvalidSocket :: int where "kInvalidSocket \<equiv> -1"

definition next_ret :: "kernel \<Rightarrow> int \<times> kernel" where
  "next_ret s = (case kn_rets s of [] \<Rightarrow> (-1, s) | r # rs \<Rightarrow> (r, s\<lparr>kn_rets := rs\<rparr>))"

definition set_sock :: "int \<Rightarrow> (sock \<Rightarrow> sock) \<Rightarrow> kernel \<Rightarrow> kernel" where
  "set_sock fd f s = s\<lparr>kn_table := (kn_table s)(fd := map_option f (kn_table s fd))\<rparr>"

text \<open>A system call on a descriptor that returns \<open>0\<close> takes effect.\<close>

definition sys_call :: "int \<Rightarrow> (sock \<Rightarrow> sock) \<Rightarrow> kernel \<Rightarrow> bool \<times> kernel" where
  "sys_call fd f s = (let (r, s) = next_ret s in if r = 0 then (True, set_sock fd f s) else (False, s))"

definition sys_socket :: "kernel \<Rightarrow> int \<times> kernel" where
  "sys_socket s =
     (let (r, s) = next_ret s in
      if r = kInvalidSocket then (r, s) else (r, s\<lparr>kn_table := (kn_table s)(r \<mapsto> sock_new)\<rparr>))"

definition CloseSocket :: "int \<Rightarrow> kernel \<Rightarrow> kernel" where
  "CloseSocket fd s = (if fd = kInvalidSocket then s else s\<lparr>kn_table := (kn_table s)(fd := None)\<rparr>)"

definition SetReuseAddr :: "int \<Rightarrow> kernel \<Rightarrow> bool \<times> kernel" where
  "SetReuseAddr fd s = sys_call fd (\<lambda>k. k\<lparr>so_reuse := True\<rparr>) s"

definition SetNoDelay :: "int \<Rightarrow> kernel \<Rightarrow> bool \<times> kernel" where
  "SetNoDelay fd s = sys_call fd (\<lambda>k. k\<lparr>so_nodelay := True\<rparr>) s"

text \<open>\<open>EAddress\<close> to \<open>EConnect\<close>: which step failed.\<close>

datatype sock_error =
    ESocket | EAddress string | EBind string "16 word" | EListen | EGetFl | ESetFl
  | EResolve string | ENtop | EConnect string "16 word"

definition SetNonBlocking :: "int \<Rightarrow> kernel \<Rightarrow> sock_error option \<times> kernel" where
  "SetNonBlocking fd s =
     (let (flags, s) = next_ret s in
      if flags < 0 then (Some EGetFl, s)
      else let (r, s) = next_ret s in
        if r < 0 then (Some ESetFl, s) else (None, set_sock fd (\<lambda>k. k\<lparr>so_nonblock := True\<rparr>) s))"

definition bind_address :: "(string \<Rightarrow> u32 option) \<Rightarrow> string \<Rightarrow> u32 option" where
  "bind_address pton a =
     (if a = [] \<or> a = ''0.0.0.0'' \<or> a = ''*'' then Some 0
      else if a = ''127.0.0.1'' \<or> a = ''localhost'' then Some 0x7F000001
      else pton a)"

definition CreateListener ::
    "(string \<Rightarrow> u32 option) \<Rightarrow> string \<Rightarrow> 16 word \<Rightarrow> int \<Rightarrow> kernel \<Rightarrow> (sock_error + int) \<times> kernel" where
  "CreateListener pton a port backlog s =
     (let (fd, s) = sys_socket s in
      if fd = kInvalidSocket then (Inl ESocket, s)
      else
        let (_, s) = SetReuseAddr fd s in
        case bind_address pton a of
          None \<Rightarrow> (Inl (EAddress a), CloseSocket fd s)
        | Some addr \<Rightarrow>
            let (ok, s) = sys_call fd (\<lambda>k. k\<lparr>so_bound := Some (addr, port)\<rparr>) s in
            if \<not> ok then (Inl (EBind a port), CloseSocket fd s)
            else
              let (ok, s) = sys_call fd (\<lambda>k. k\<lparr>so_backlog := Some backlog\<rparr>) s in
              if \<not> ok then (Inl EListen, CloseSocket fd s)
              else (case SetNonBlocking fd s of
                      (Some e, s) \<Rightarrow> (Inl e, CloseSocket fd s)
                    | (None, s) \<Rightarrow> (Inr fd, s)))"

text \<open>\<open>dns\<close> is the first address \<open>getaddrinfo\<close> finds; \<open>ntop\<close> prints an address.\<close>

definition ResolveHost ::
    "(string \<Rightarrow> u32 option) \<Rightarrow> (u32 \<Rightarrow> string option) \<Rightarrow> (string \<Rightarrow> u32 option) \<Rightarrow> string \<Rightarrow> sock_error + string" where
  "ResolveHost pton ntop dns host =
     (if pton host \<noteq> None then Inr host
      else case dns host of
        None \<Rightarrow> Inl (EResolve host)
      | Some a \<Rightarrow> (case ntop a of None \<Rightarrow> Inl ENtop | Some ip \<Rightarrow> Inr ip))"

text \<open>The result of the second \<open>inet_pton\<close> is not tested; the address stays zero when it fails.\<close>

definition ConnectTo ::
    "(string \<Rightarrow> u32 option) \<Rightarrow> (u32 \<Rightarrow> string option) \<Rightarrow> (string \<Rightarrow> u32 option) \<Rightarrow> string \<Rightarrow> 16 word \<Rightarrow> kernel
       \<Rightarrow> (sock_error + int) \<times> kernel" where
  "ConnectTo pton ntop dns host port s =
     (case ResolveHost pton ntop dns host of
        Inl e \<Rightarrow> (Inl e, s)
      | Inr ip \<Rightarrow>
          let (fd, s) = sys_socket s in
          if fd = kInvalidSocket then (Inl ESocket, s)
          else
            let addr = (case pton ip of Some a \<Rightarrow> a | None \<Rightarrow> 0);
                (ok, s) = sys_call fd (\<lambda>k. k\<lparr>so_peer := Some (addr, port)\<rparr>) s
            in if \<not> ok then (Inl (EConnect ip port), CloseSocket fd s)
               else (case SetNonBlocking fd s of
                       (Some e, s) \<Rightarrow> (Inl e, CloseSocket fd s)
                     | (None, s) \<Rightarrow> (Inr fd, snd (SetNoDelay fd s))))"

subsection \<open>The notifier\<close>

text \<open>The object, and in the kernel the counter of an eventfd or the number of bytes in a pipe.\<close>

record notifier =
  nt_read :: int
  nt_write :: int
  nt_eventfd :: bool

text \<open>The constructor: \<open>efd\<close> is what \<open>eventfd\<close> returns, \<open>fds\<close> what \<open>pipe\<close> does.\<close>

definition Notifier_new :: "int \<Rightarrow> (int \<times> int) option \<Rightarrow> notifier" where
  "Notifier_new efd fds =
     (if efd \<ge> 0 then \<lparr>nt_read = efd, nt_write = efd, nt_eventfd = True\<rparr>
      else case fds of
        None \<Rightarrow> \<lparr>nt_read = kInvalidSocket, nt_write = kInvalidSocket, nt_eventfd = False\<rparr>
      | Some (r, w) \<Rightarrow> \<lparr>nt_read = r, nt_write = w, nt_eventfd = False\<rparr>)"

definition Notifier_valid :: "notifier \<Rightarrow> bool" where
  "Notifier_valid n \<longleftrightarrow> nt_read n \<noteq> kInvalidSocket"

text \<open>What the channel holds at most: \<open>cap\<close> is the capacity of a pipe.\<close>

definition channel_max :: "nat \<Rightarrow> notifier \<Rightarrow> nat" where
  "channel_max cap n = (if nt_eventfd n then 2 ^ 64 - 2 else cap)"

text \<open>\<open>Notify\<close> writes one; a full channel refuses, and the result of \<open>write\<close> is ignored.\<close>

definition Notify :: "nat \<Rightarrow> notifier \<Rightarrow> nat \<Rightarrow> nat" where
  "Notify cap n ch =
     (if nt_write n = kInvalidSocket then ch else if ch < channel_max cap n then ch + 1 else ch)"

text \<open>One \<open>read\<close> of \<open>Drain\<close>: everything of an eventfd, 64 bytes of a pipe; \<open>None\<close> is \<open>EAGAIN\<close>.\<close>

definition drain_read :: "notifier \<Rightarrow> nat \<Rightarrow> nat option" where
  "drain_read n ch = (if ch = 0 then None else Some (if nt_eventfd n then 0 else ch - min 64 ch))"

function Drain :: "notifier \<Rightarrow> nat \<Rightarrow> nat" where
  "Drain n ch =
     (if nt_read n = kInvalidSocket then ch
      else case drain_read n ch of None \<Rightarrow> ch | Some ch' \<Rightarrow> Drain n ch')"
  by pat_completeness auto
termination
  by (relation "measure snd") (auto simp: drain_read_def split: if_splits)

declare Drain.simps [simp del]

text \<open>The beginning of \<open>EventLoop::Start\<close>: \<open>init\<close> is the result of \<open>Poller::Init\<close>.\<close>

definition EventLoop_Start :: "bool \<Rightarrow> notifier \<Rightarrow> 't event_loop \<Rightarrow> 't event_loop" where
  "EventLoop_Start init n l =
     (let l = l\<lparr>el_running := True\<rparr> in
      if \<not> init then l\<lparr>el_running := False\<rparr>
      else if \<not> Notifier_valid n then l\<lparr>el_running := False\<rparr>
      else let (ok, p) = Poller_Register (nt_read n) kEventReadable (el_poller l) in
        if \<not> ok then l\<lparr>el_running := False\<rparr> else l\<lparr>el_poller := p\<rparr>)"

subsection \<open>Waking a loop\<close>

text \<open>
  The threads around one loop, in steps.  \<open>wk_tasks\<close> are the posted tasks, each with the thread that
  posted it; \<open>wk_owed\<close> the threads between the push and \<open>Wakeup()\<close> in \<open>QueueWork\<close>.  The notifier is
  registered edge triggered: \<open>wk_edge\<close> is set by every write that succeeds and cleared when the poller
  looks at the channel.  The loop waits, runs the tasks, drains the notifier if its event was
  delivered, runs the tasks again.  \<open>wk_ran\<close> are the tasks that have been taken.
\<close>

datatype loop_pc = AtWait | AtTasks bool | AtDrain | AtTasks2

record wake =
  wk_tasks :: "nat list"
  wk_owed :: "nat list"
  wk_ch :: nat
  wk_edge :: bool
  wk_pc :: loop_pc
  wk_ran :: "nat list"

text \<open>\<open>epoll_wait\<close> on the notifier: whether it reports the event.\<close>

definition wait_reports :: "wake \<Rightarrow> bool" where
  "wait_reports s \<longleftrightarrow> wk_edge s \<and> 0 < wk_ch s"

definition wake_write :: "nat \<Rightarrow> notifier \<Rightarrow> wake \<Rightarrow> wake" where
  "wake_write cap n s =
     (let ch = Notify cap n (wk_ch s) in s\<lparr>wk_ch := ch, wk_edge := (wk_edge s \<or> ch \<noteq> wk_ch s)\<rparr>)"

definition take_tasks :: "loop_pc \<Rightarrow> wake \<Rightarrow> wake" where
  "take_tasks pc s = s\<lparr>wk_ran := wk_ran s @ wk_tasks s, wk_tasks := [], wk_pc := pc\<rparr>"

inductive wake_step :: "nat \<Rightarrow> notifier \<Rightarrow> wake \<Rightarrow> wake \<Rightarrow> bool" for cap n where
  push: "p \<notin> set (wk_owed s) \<Longrightarrow> wake_step cap n s (s\<lparr>wk_tasks := wk_tasks s @ [p], wk_owed := p # wk_owed s\<rparr>)"
| notify: "p \<in> set (wk_owed s) \<Longrightarrow> wake_step cap n s (wake_write cap n (s\<lparr>wk_owed := remove1 p (wk_owed s)\<rparr>))"
| wait: "wk_pc s = AtWait \<Longrightarrow> wake_step cap n s (s\<lparr>wk_pc := AtTasks (wait_reports s), wk_edge := False\<rparr>)"
| tasks: "wk_pc s = AtTasks ready \<Longrightarrow> wake_step cap n s (take_tasks (if ready then AtDrain else AtTasks2) s)"
| drain: "wk_pc s = AtDrain \<Longrightarrow> drain_read n (wk_ch s) = Some ch \<Longrightarrow> wake_step cap n s (s\<lparr>wk_ch := ch\<rparr>)"
| drained: "wk_pc s = AtDrain \<Longrightarrow> drain_read n (wk_ch s) = None \<Longrightarrow> wake_step cap n s (s\<lparr>wk_pc := AtTasks2\<rparr>)"
| tasks2: "wk_pc s = AtTasks2 \<Longrightarrow> wake_step cap n s (take_tasks AtWait s)"

definition wake_init :: wake where
  "wake_init = \<lparr>wk_tasks = [], wk_owed = [], wk_ch = 0, wk_edge = False, wk_pc = AtWait, wk_ran = []\<rparr>"

inductive wake_reach :: "nat \<Rightarrow> notifier \<Rightarrow> wake \<Rightarrow> bool" for cap n where
  start: "wake_reach cap n wake_init"
| step: "wake_reach cap n s \<Longrightarrow> wake_step cap n s s' \<Longrightarrow> wake_reach cap n s'"

inductive_cases wake_stepE: "wake_step cap n s s'"

subsection \<open>Starting to listen (src/server.cpp)\<close>

text \<open>The loop of \<open>Server::Start\<close>: in every turn it sees whether \<open>started\<close> is set, whether the listener
  has a descriptor and whether an error text has been written.\<close>

fun start_wait :: "nat \<Rightarrow> (bool \<times> bool \<times> bool) list \<Rightarrow> bool" where
  "start_wait 0 obs = (case obs of [] \<Rightarrow> False | (started, _) # _ \<Rightarrow> started)"
| "start_wait (Suc k) [] = False"
| "start_wait (Suc k) ((started, fd, err) # obs) =
     (if started \<or> fd then True else if err then False else start_wait k obs)"

definition Server_Start :: "(bool \<times> bool \<times> bool) list \<Rightarrow> bool" where
  "Server_Start obs = start_wait 500 obs"

text \<open>What \<open>Start\<close> can see of the task it posts: \<open>k\<close> turns before it runs, then its outcome.\<close>

definition start_seen :: "nat \<Rightarrow> int option \<Rightarrow> bool \<Rightarrow> listener \<Rightarrow> (bool \<times> bool \<times> bool) list" where
  "start_seen k created registered l =
     (let (ok, l') = Listener_Start created registered l in
      replicate k (False, ls_fd l \<noteq> None, False) @ replicate 500 (ok, ls_fd l' \<noteq> None, \<not> ok))"

end
