(* ===== verification/Platform_Facts.thy ===== *)
theory Platform_Facts
  imports Platform
begin

unbundle bit_operations_syntax

section \<open>Descriptors, wake-ups and the start of the listener\<close>

text \<open>
  A listening or connecting socket that cannot be set up leaves no descriptor behind; the notifier is
  a flag, whatever the kernel implements it with; no wake-up of a loop is lost under any
  interleaving; and what \<open>Server::Start\<close> reports.
\<close>

subsection \<open>Sockets\<close>

lemma next_ret_table [simp]: "next_ret s = (r, s') \<Longrightarrow> kn_table s' = kn_table s"
  by (auto simp: next_ret_def split: list.splits)

text \<open>The table is the one before with one more descriptor.\<close>

definition only_new :: "kernel \<Rightarrow> int \<Rightarrow> sock \<Rightarrow> kernel \<Rightarrow> bool" where
  "only_new s fd k s' \<longleftrightarrow> kn_table s fd = None \<and> fd \<noteq> kInvalidSocket \<and> kn_table s' = (kn_table s)(fd \<mapsto> k)"

lemma only_newD: "only_new s fd k s' \<Longrightarrow> kn_table s' = (kn_table s)(fd \<mapsto> k) \<and> kn_table s fd = None \<and> fd \<noteq> kInvalidSocket"
  by (simp add: only_new_def)

lemma sys_socket_new:
  assumes "sys_socket s = (fd, s')" "kn_rets s = r # rs" "kn_table s r = None"
  shows "fd = kInvalidSocket \<and> kn_table s' = kn_table s \<or> only_new s fd sock_new s' \<and> fd = r \<and> kn_rets s' = rs"
  using assms by (auto simp: sys_socket_def next_ret_def only_new_def split: if_splits)

lemma set_sock_new: "only_new s fd k s1 \<Longrightarrow> only_new s fd (f k) (set_sock fd f s1)"
  by (simp add: only_new_def set_sock_def)

lemma only_new_cong: "kn_table s2 = kn_table s1 \<Longrightarrow> only_new s fd k s2 = only_new s fd k s1"
  by (simp add: only_new_def)

lemma sys_call_new:
  assumes "sys_call fd f s1 = (ok, s2)" "only_new s fd k s1"
  shows "only_new s fd (if ok then f k else k) s2"
proof -
  obtain r t where t: "next_ret s1 = (r, t)" by (cases "next_ret s1") auto
  then have "only_new s fd k t" using assms(2) only_new_cong [OF next_ret_table [OF t]] by blast
  with set_sock_new [OF this, of f] assms(1) t show ?thesis by (auto simp: sys_call_def split: if_splits)
qed

lemma SetNonBlocking_new:
  assumes "SetNonBlocking fd s1 = (e, s2)" "only_new s fd k s1"
  shows "only_new s fd (if e = None then k\<lparr>so_nonblock := True\<rparr> else k) s2"
proof -
  obtain r t where t: "next_ret s1 = (r, t)" by (cases "next_ret s1") auto
  obtain r' t' where t': "next_ret t = (r', t')" by (cases "next_ret t") auto
  have n: "only_new s fd k t" "only_new s fd k t'"
    using assms(2) only_new_cong [OF next_ret_table [OF t]] only_new_cong [OF next_ret_table [OF t']] by blast+
  with set_sock_new [OF n(2), of "\<lambda>k. k\<lparr>so_nonblock := True\<rparr>"] assms(1) t t' show ?thesis
    by (auto simp: SetNonBlocking_def split: if_splits)
qed

lemma CloseSocket_new: "only_new s fd k s' \<Longrightarrow> kn_table (CloseSocket fd s') = kn_table s"
  by (auto simp: only_new_def CloseSocket_def)

lemma CreateListener_table:
  assumes "kn_rets s = r # rs" "kn_table s r = None" "CreateListener pton a port backlog s = (res, s')"
  shows "case res of
      Inl e \<Rightarrow> kn_table s' = kn_table s
    | Inr fd \<Rightarrow> fd = r \<and> (\<exists>k addr. bind_address pton a = Some addr \<and> only_new s fd k s' \<and> so_nonblock k
        \<and> so_bound k = Some (addr, port) \<and> so_backlog k = Some backlog)"
proof -
  obtain fd s1 where s1: "sys_socket s = (fd, s1)" by (cases "sys_socket s") auto
  note new = sys_socket_new [OF s1 assms(1,2)]
  show ?thesis
  proof (cases "fd = kInvalidSocket")
    case True
    then show ?thesis using assms(3) new by (auto simp: CreateListener_def s1 only_new_def)
  next
    case False
    with new have n1: "only_new s fd sock_new s1" and r: "fd = r" by auto
    obtain ok1 s2 where s2: "SetReuseAddr fd s1 = (ok1, s2)" by (cases "SetReuseAddr fd s1") auto
    obtain k2 where n2: "only_new s fd k2 s2" using sys_call_new(1) [OF s2 [unfolded SetReuseAddr_def] n1] by blast
    show ?thesis
    proof (cases "bind_address pton a")
      case None
      then show ?thesis using assms(3) False CloseSocket_new [OF n2] by (auto simp: CreateListener_def s1 s2)
    next
      case (Some addr)
      let ?bind = "\<lambda>k. k\<lparr>so_bound := Some (addr, port)\<rparr>" and ?listen = "\<lambda>k. k\<lparr>so_backlog := Some backlog\<rparr>"
      obtain ok3 s3 where s3: "sys_call fd ?bind s2 = (ok3, s3)" by (cases "sys_call fd ?bind s2") auto
      note n3 = sys_call_new(1) [OF s3 n2]
      obtain ok4 s4 where s4: "sys_call fd ?listen s3 = (ok4, s4)" by (cases "sys_call fd ?listen s3") auto
      note n4 = sys_call_new(1) [OF s4 n3]
      obtain e s5 where s5: "SetNonBlocking fd s4 = (e, s5)" by (cases "SetNonBlocking fd s4") auto
      note n5 = SetNonBlocking_new [OF s5 n4]
      have "CreateListener pton a port backlog s =
        (if \<not> ok3 then (Inl (EBind a port), CloseSocket fd s3) else if \<not> ok4 then (Inl EListen, CloseSocket fd s4)
         else case e of Some e \<Rightarrow> (Inl e, CloseSocket fd s5) | None \<Rightarrow> (Inr fd, s5))"
        by (simp add: CreateListener_def s1 s2 s3 s4 s5 False Some Let_def split: option.split)
      then show ?thesis using assms(3) Some CloseSocket_new [OF n3] CloseSocket_new [OF n4] CloseSocket_new [OF n5] n5 r
        by (auto split: if_splits option.splits)
    qed
  qed
qed

lemma ResolveHost_pton:
  assumes "ResolveHost pton ntop dns host = Inr ip" "\<And>a ip. ntop a = Some ip \<Longrightarrow> pton ip = Some a"
  shows "\<exists>a. pton ip = Some a \<and> (pton host = Some a \<or> pton host = None \<and> dns host = Some a)"
  using assms by (auto simp: ResolveHost_def split: if_splits option.splits)

lemma ConnectTo_table:
  assumes "kn_rets s = r # rs" "kn_table s r = None" "\<And>a ip. ntop a = Some ip \<Longrightarrow> pton ip = Some a"
    "ConnectTo pton ntop dns host port s = (res, s')"
  shows "case res of
      Inl e \<Rightarrow> kn_table s' = kn_table s
    | Inr fd \<Rightarrow> fd = r \<and> (\<exists>k addr. (pton host = Some addr \<or> pton host = None \<and> dns host = Some addr) \<and> only_new s fd k s'
        \<and> so_nonblock k \<and> so_peer k = Some (addr, port))"
proof (cases "ResolveHost pton ntop dns host")
  case (Inl e)
  then show ?thesis using assms(4) by (auto simp: ConnectTo_def)
next
  case (Inr ip)
  from ResolveHost_pton [OF Inr assms(3)] obtain addr where addr: "pton ip = Some addr"
    "pton host = Some addr \<or> pton host = None \<and> dns host = Some addr" by blast
  obtain fd s1 where s1: "sys_socket s = (fd, s1)" by (cases "sys_socket s") auto
  note new = sys_socket_new [OF s1 assms(1,2)]
  show ?thesis
  proof (cases "fd = kInvalidSocket")
    case True
    then show ?thesis using assms(4) Inr new by (auto simp: ConnectTo_def s1 only_new_def)
  next
    case False
    with new have n1: "only_new s fd sock_new s1" and r: "fd = r" by auto
    let ?conn = "\<lambda>k. k\<lparr>so_peer := Some (addr, port)\<rparr>"
    obtain ok2 s2 where s2: "sys_call fd ?conn s1 = (ok2, s2)" by (cases "sys_call fd ?conn s1") auto
    note n2 = sys_call_new(1) [OF s2 n1]
    obtain e s3 where s3: "SetNonBlocking fd s2 = (e, s3)" by (cases "SetNonBlocking fd s2") auto
    note n3 = SetNonBlocking_new [OF s3 n2]
    obtain ok4 s4 where s4: "SetNoDelay fd s3 = (ok4, s4)" by (cases "SetNoDelay fd s3") auto
    note n4 = sys_call_new(1) [OF s4 [unfolded SetNoDelay_def] n3]
    have "ConnectTo pton ntop dns host port s =
      (if \<not> ok2 then (Inl (EConnect ip port), CloseSocket fd s2)
       else case e of Some e \<Rightarrow> (Inl e, CloseSocket fd s3) | None \<Rightarrow> (Inr fd, s4))"
      by (simp add: ConnectTo_def s1 s2 s3 s4 False Inr addr(1) Let_def split: option.split)
    then show ?thesis using assms(4) addr CloseSocket_new [OF n2] CloseSocket_new [OF n3] n4 r
      by (cases e; cases ok4) (auto split: if_splits intro!: exI)
  qed
qed

subsection \<open>The notifier as a flag\<close>

definition notifier_ok :: "nat \<Rightarrow> notifier \<Rightarrow> bool" where
  "notifier_ok cap n \<longleftrightarrow> nt_read n \<noteq> kInvalidSocket \<and> nt_write n \<noteq> kInvalidSocket \<and> (nt_eventfd n \<or> 0 < cap)"

lemma Notify_ok:
  assumes "notifier_ok cap n"
  shows "0 < Notify cap n ch" "ch \<le> Notify cap n ch" "ch \<le> channel_max cap n \<Longrightarrow> Notify cap n ch \<le> channel_max cap n"
  using assms by (auto simp: Notify_def notifier_ok_def channel_max_def)

lemma Drain_ok: "notifier_ok cap n \<Longrightarrow> Drain n ch = 0"
  by (induction n ch rule: Drain.induct) (subst Drain.simps, auto simp: notifier_ok_def drain_read_def split: option.splits)

lemma Notifier_new_ok:
  "Notifier_valid (Notifier_new efd fds) \<Longrightarrow> 0 < cap \<Longrightarrow> (\<And>r w. fds = Some (r, w) \<Longrightarrow> w \<noteq> kInvalidSocket) \<Longrightarrow>
     notifier_ok cap (Notifier_new efd fds)"
  by (auto simp: Notifier_valid_def Notifier_new_def notifier_ok_def split: option.splits if_splits)

datatype notify_op = DoNotify | DoDrain

primrec channel_op :: "nat \<Rightarrow> notifier \<Rightarrow> notify_op \<Rightarrow> nat \<Rightarrow> nat" where
  "channel_op cap n DoNotify ch = Notify cap n ch"
| "channel_op cap n DoDrain ch = Drain n ch"

definition flag_op :: "notify_op \<Rightarrow> bool \<Rightarrow> bool" where
  "flag_op op b \<longleftrightarrow> op = DoNotify"

lemma channel_op_flag: "notifier_ok cap n \<Longrightarrow> 0 < channel_op cap n op ch \<longleftrightarrow> flag_op op (0 < ch)"
  by (cases op) (simp_all add: flag_op_def Notify_ok Drain_ok)

lemma fold_channel_flag: "notifier_ok cap n \<Longrightarrow> 0 < fold (channel_op cap n) ops ch \<longleftrightarrow> fold flag_op ops (0 < ch)"
  by (induction ops arbitrary: ch) (simp_all add: channel_op_flag)

text \<open>A loop that starts is watching its notifier, edge triggered.\<close>

lemma EventLoop_Start_watches:
  "el_running (EventLoop_Start init n l) \<Longrightarrow>
     init \<and> Notifier_valid n \<and> pl_interest (el_poller (EventLoop_Start init n l)) (nt_read n) = Some (kEventReadable OR EPOLLET OR EPOLLRDHUP)"
  by (auto simp: EventLoop_Start_def Poller_Register_def Let_def split: if_splits prod.splits)

subsection \<open>Wake-ups\<close>

text \<open>A channel with something in it is known to the poller, unless the loop is about to drain it;
  a task whose thread has notified is one the poller will report.\<close>

definition wake_inv :: "wake \<Rightarrow> bool" where
  "wake_inv s \<longleftrightarrow>
     (0 < wk_ch s \<longrightarrow> wk_edge s \<or> wk_pc s = AtTasks True \<or> wk_pc s = AtDrain) \<and>
     (wk_pc s = AtWait \<longrightarrow> (\<forall>p\<in>set (wk_tasks s). p \<in> set (wk_owed s) \<or> wait_reports s))"

lemma wake_write_reports:
  assumes "notifier_ok cap n" "wake_inv s" "wk_pc s = AtWait"
  shows "wait_reports (wake_write cap n s)"
  using assms Notify_ok(1) [OF assms(1), of "wk_ch s"] by (auto simp: wait_reports_def wake_write_def wake_inv_def Let_def)

lemma wake_write_fields [simp]:
  "wk_tasks (wake_write cap n s) = wk_tasks s" "wk_owed (wake_write cap n s) = wk_owed s" "wk_pc (wake_write cap n s) = wk_pc s"
  "wk_ran (wake_write cap n s) = wk_ran s"
  by (simp_all add: wake_write_def Let_def)

lemma wake_inv_notify:
  assumes "notifier_ok cap n" "wake_inv s"
  shows "wake_inv (wake_write cap n (s\<lparr>wk_owed := remove1 p (wk_owed s)\<rparr>))"
proof -
  let ?s = "s\<lparr>wk_owed := remove1 p (wk_owed s)\<rparr>"
  have ch: "0 < wk_ch s \<longrightarrow> wk_edge s \<or> wk_pc s = AtTasks True \<or> wk_pc s = AtDrain" using assms(2) by (simp add: wake_inv_def)
  then have "0 < wk_ch (wake_write cap n ?s) \<longrightarrow> wk_edge (wake_write cap n ?s) \<or> wk_pc s = AtTasks True \<or> wk_pc s = AtDrain"
    by (auto simp: wake_write_def Let_def)
  moreover have "wait_reports (wake_write cap n ?s)" if "wk_pc s = AtWait"
    using Notify_ok(1) [OF assms(1), of "wk_ch s"] ch that by (auto simp: wait_reports_def wake_write_def Let_def)
  ultimately show ?thesis by (simp add: wake_inv_def)
qed

lemma wake_step_inv:
  assumes "wake_step cap n s s'" "notifier_ok cap n" "wake_inv s"
  shows "wake_inv s'"
  using assms(1)
proof (cases rule: wake_step.cases)
  case (push p)
  then show ?thesis using assms(3) by (auto simp: wake_inv_def wait_reports_def)
next
  case (notify p)
  then show ?thesis using wake_inv_notify [OF assms(2,3)] by simp
next
  case wait
  then show ?thesis using assms(3) by (auto simp: wake_inv_def wait_reports_def)
next
  case (tasks ready)
  then show ?thesis using assms(3) by (auto simp: wake_inv_def take_tasks_def)
next
  case (drain ch)
  then show ?thesis by (auto simp: wake_inv_def)
next
  case drained
  then show ?thesis by (auto simp: wake_inv_def drain_read_def split: if_splits)
next
  case tasks2
  then show ?thesis using assms(3) by (auto simp: wake_inv_def take_tasks_def)
qed

lemma wake_reach_inv: "wake_reach cap n s \<Longrightarrow> notifier_ok cap n \<Longrightarrow> wake_inv s"
  by (induction rule: wake_reach.induct) (simp add: wake_init_def wake_inv_def, rule wake_step_inv)

lemma wake_step_order: "wake_step cap n s s' \<Longrightarrow> prefix (wk_ran s @ wk_tasks s) (wk_ran s' @ wk_tasks s') \<and> prefix (wk_ran s) (wk_ran s')"
  by (erule wake_stepE) (auto simp: take_tasks_def)

subsection \<open>Properties\<close>

text \<open>C28: \<open>CreateListener\<close> either fails and leaves the table of descriptors as it was, or opens exactly one
  descriptor: not blocking, bound to the address and port asked for, listening with the backlog asked
  for.\<close>

theorem listener_no_leak:
  assumes "kn_rets s = r # rs" "kn_table s r = None"
  shows "case CreateListener pton a port backlog s of
      (Inl e, s') \<Rightarrow> kn_table s' = kn_table s
    | (Inr fd, s') \<Rightarrow> fd = r \<and> (\<exists>k addr. bind_address pton a = Some addr \<and> kn_table s' = (kn_table s)(fd \<mapsto> k)
        \<and> so_nonblock k \<and> so_bound k = Some (addr, port) \<and> so_backlog k = Some backlog)"
proof -
  obtain res s' where c: "CreateListener pton a port backlog s = (res, s')" by (cases "CreateListener pton a port backlog s") auto
  show ?thesis using CreateListener_table [OF assms c] unfolding c only_new_def by (cases res) auto
qed

theorem listener_no_leak_witness:
  "kn_table (snd (CreateListener (\<lambda>_. None) ''*'' 6379 511 \<lparr>kn_table = Map.empty, kn_rets = [5, 0, 0, 0, -1]\<rparr>)) = Map.empty
   \<and> (\<exists>k. kn_table (snd (CreateListener (\<lambda>_. None) ''*'' 6379 511 \<lparr>kn_table = Map.empty, kn_rets = [5, 0, 0, 0, 2, 0]\<rparr>)) = [5 \<mapsto> k]
        \<and> so_bound k = Some (0, 6379))"
  using listener_no_leak [of "\<lparr>kn_table = Map.empty, kn_rets = [5, 0, 0, 0, -1]\<rparr>" 5 "[0, 0, 0, -1]" "\<lambda>_. None" "''*''" 6379 511]
    listener_no_leak [of "\<lparr>kn_table = Map.empty, kn_rets = [5, 0, 0, 0, 2, 0]\<rparr>" 5 "[0, 0, 0, 2, 0]" "\<lambda>_. None" "''*''" 6379 511]
  by (auto simp: CreateListener_def sys_socket_def next_ret_def SetReuseAddr_def sys_call_def set_sock_def SetNonBlocking_def CloseSocket_def
      bind_address_def Let_def split: prod.splits)

text \<open>\<open>ConnectTo\<close> either fails and leaves the table of descriptors as it was, or opens exactly one
  descriptor, not blocking and connected to the port asked for at the address of the host: the address it
  spells, or else the one it resolves to.\<close>

theorem connect_no_leak:
  assumes "kn_rets s = r # rs" "kn_table s r = None" "\<And>a ip. ntop a = Some ip \<Longrightarrow> pton ip = Some a"
  shows "case ConnectTo pton ntop dns host port s of
      (Inl e, s') \<Rightarrow> kn_table s' = kn_table s
    | (Inr fd, s') \<Rightarrow> fd = r \<and> (\<exists>k addr. (pton host = Some addr \<or> pton host = None \<and> dns host = Some addr)
        \<and> kn_table s' = (kn_table s)(fd \<mapsto> k) \<and> so_nonblock k \<and> so_peer k = Some (addr, port))"
proof -
  obtain res s' where c: "ConnectTo pton ntop dns host port s = (res, s')" by (cases "ConnectTo pton ntop dns host port s") auto
  show ?thesis using ConnectTo_table [OF assms c] unfolding c only_new_def by (cases res) auto
qed

theorem connect_no_leak_witness:
  "\<exists>k. kn_table (snd (ConnectTo (\<lambda>h. if h = ''127.0.0.1'' then Some 0x7F000001 else None)
       (\<lambda>a. if a = 0x7F000001 then Some ''127.0.0.1'' else None) (\<lambda>_. Some 0x7F000001) ''localhost'' 6379
       \<lparr>kn_table = Map.empty, kn_rets = [5, 0, 2, 0]\<rparr>)) = [5 \<mapsto> k] \<and> so_nonblock k \<and> so_peer k = Some (0x7F000001, 6379)"
proof -
  let ?pton = "\<lambda>h :: string. if h = ''127.0.0.1'' then Some (0x7F000001 :: u32) else None"
  let ?ntop = "\<lambda>a :: u32. if a = 0x7F000001 then Some ''127.0.0.1'' else None"
  let ?s = "\<lparr>kn_table = Map.empty, kn_rets = [5, 0, 2, 0]\<rparr>"
  have "fst (ConnectTo ?pton ?ntop (\<lambda>_. Some 0x7F000001) ''localhost'' 6379 ?s) = Inr 5"
    by (simp add: ConnectTo_def ResolveHost_def sys_socket_def next_ret_def sys_call_def set_sock_def SetNonBlocking_def)
  moreover have law: "?pton ip = Some a" if "?ntop a = Some ip" for a ip using that by (auto split: if_splits)
  ultimately show ?thesis
    using connect_no_leak [where s = ?s and r = 5 and rs = "[0, 2, 0]" and ntop = ?ntop and pton = ?pton and dns = "\<lambda>_. Some 0x7F000001"
      and host = "''localhost''" and port = 6379, OF _ _ law]
    by (auto split: prod.splits if_splits)
qed

text \<open>C19: the notifier is a flag, with an eventfd and with a pipe, also when the counter or the pipe is full:
  after any sequence of notifications and drains the channel is readable exactly when a notification
  came after the last drain, and a drain always ends.\<close>

theorem notifier_is_flag:
  assumes "notifier_ok cap n"
  shows "0 < fold (channel_op cap n) ops ch \<longleftrightarrow> fold flag_op ops (0 < ch)"
  by (rule fold_channel_flag [OF assms])

theorem notifier_is_flag_witness:
  "0 < fold (channel_op 2 (Notifier_new (-1) (Some (3, 4)))) [DoNotify, DoNotify, DoNotify, DoDrain, DoNotify] 0"
proof -
  have "notifier_ok 2 (Notifier_new (-1) (Some (3, 4)))" by (simp add: notifier_ok_def Notifier_new_def)
  from notifier_is_flag [OF this, of "[DoNotify, DoNotify, DoNotify, DoDrain, DoNotify]" 0] show ?thesis
    by (simp add: flag_op_def)
qed

text \<open>C12: no wake-up is lost.  In every state that any interleaving of posting threads and the loop reaches,
  with the notifier registered edge triggered and drained in several reads, a loop that is about to wait
  while a task is queued whose thread has returned from \<open>QueueWork\<close> does not sleep: the poller reports the
  notifier, and two steps later the loop has taken every task.  No step loses or reorders a task.\<close>

theorem no_lost_wakeup:
  assumes "notifier_ok cap n" "wake_reach cap n s" "wk_pc s = AtWait" "p \<in> set (wk_tasks s)" "p \<notin> set (wk_owed s)"
  shows "wait_reports s
    \<and> (\<exists>s1 s2. wake_step cap n s s1 \<and> wk_pc s1 = AtTasks True \<and> wake_step cap n s1 s2 \<and> wk_ran s2 = wk_ran s @ wk_tasks s)
    \<and> (\<forall>s'. wake_step cap n s s' \<longrightarrow> prefix (wk_ran s @ wk_tasks s) (wk_ran s' @ wk_tasks s') \<and> prefix (wk_ran s) (wk_ran s'))"
proof -
  have r: "wait_reports s" using wake_reach_inv [OF assms(2,1)] assms(3-5) by (auto simp: wake_inv_def)
  let ?s1 = "s\<lparr>wk_pc := AtTasks True, wk_edge := False\<rparr>"
  have "wake_step cap n s ?s1" using wake_step.wait [OF assms(3), of cap n] r by simp
  moreover have "wake_step cap n ?s1 (take_tasks AtDrain ?s1)" using wake_step.tasks [of ?s1 True cap n] by simp
  moreover have "wk_ran (take_tasks AtDrain ?s1) = wk_ran s @ wk_tasks s" by (simp add: take_tasks_def)
  ultimately show ?thesis using r wake_step_order [of cap n s] by (intro conjI exI [of _ ?s1] exI [of _ "take_tasks AtDrain ?s1"]) auto
qed

theorem no_lost_wakeup_witness:
  "\<exists>s. wake_reach 1 (Notifier_new 9 None) s \<and> wk_tasks s = [7] \<and> wait_reports s"
proof -
  let ?n = "Notifier_new 9 None"
  let ?a = "wake_init\<lparr>wk_tasks := [7], wk_owed := [7]\<rparr>"
  let ?b = "wake_write 1 ?n (?a\<lparr>wk_owed := []\<rparr>)"
  have "wake_step 1 ?n wake_init ?a" using wake_step.push [of 7 wake_init 1 ?n] by (simp add: wake_init_def)
  moreover have "wake_step 1 ?n ?a ?b" using wake_step.notify [of 7 ?a 1 ?n] by simp
  ultimately have b: "wake_reach 1 ?n ?b" using wake_reach.intros by blast
  have n: "notifier_ok 1 ?n" by (simp add: notifier_ok_def Notifier_new_def)
  have "wk_pc ?b = AtWait" "7 \<in> set (wk_tasks ?b)" "7 \<notin> set (wk_owed ?b)" by (simp_all add: wake_init_def)
  from no_lost_wakeup [OF n b this] b show ?thesis by (intro exI [of _ ?b]) simp
qed


definition idle_listener :: listener where
  "idle_listener = \<lparr>ls_fd = None, ls_reserve = False, ls_accepted = 0, ls_pool = \<lparr>lp_subs = 0, lp_next = 0, lp_started = True\<rparr>,
     ls_posted = [], ls_closed = [], ls_reserve_ok = (\<lambda>_. True)\<rparr>"


end
