(* ===== verification/Bench_Zrank.thy ===== *)
theory Bench_Zrank
  imports ZSet_Facts Config
begin

section \<open>The rank benchmark (tools/bench\_zrank.cc)\<close>

text \<open>
  The program fills an ordered set with numbered members and times queries on it.  The clock, the
  averages and the printed comparison are not modelled; the model keeps the result of every query,
  which the code adds up in variables that are never read.  \<open>None\<close> is a crash.
\<close>

subsection \<open>The program\<close>

text \<open>The generator: the number and the new seed.\<close>

definition Rng_Next :: "u64 \<Rightarrow> u64 \<times> u64" where
  "Rng_Next s = (let s = s * 6364136223846793005 + 1442695040888963407 in (drop_bit 33 s, s))"

definition Rng_NextDouble :: "u64 \<Rightarrow> score \<times> u64" where
  "Rng_NextDouble s = (let (v, s) = Rng_Next s in (round_double (of_nat (unat (v mod 1000000)) / 1000), s))"

definition bench_member :: "nat \<Rightarrow> string" where
  "bench_member i = ''member:'' @ dec_of_nat i"

fun add_members :: "string list \<Rightarrow> zset \<Rightarrow> u64 \<Rightarrow> rng \<Rightarrow> (zset \<times> u64) option" where
  "add_members [] z s r = Some (z, s)"
| "add_members (m # ms) z s r =
     (let (sc, s) = Rng_NextDouble s in do { (_, z, r) \<leftarrow> ZSet_Add m sc z r; add_members ms z s r })"

text \<open>\<open>rng.Next() % n\<close>, which kills the process for an empty set.\<close>

fun draw_picks :: "nat \<Rightarrow> u64 \<Rightarrow> u64 \<Rightarrow> (u64 list \<times> u64) option" where
  "draw_picks 0 n s = Some ([], s)"
| "draw_picks (Suc k) n s =
     (if n = 0 then None
      else let (v, s) = Rng_Next s in do { (ps, s) \<leftarrow> draw_picks k n s; Some (v mod n # ps, s) })"

fun ranks_of :: "string list \<Rightarrow> zset \<Rightarrow> u64 option list option" where
  "ranks_of [] z = Some []"
| "ranks_of (m # ms) z = do { x \<leftarrow> ZSet_Rank m z; xs \<leftarrow> ranks_of ms z; Some (x # xs) }"

fun range_sizes :: "nat \<Rightarrow> u64 \<Rightarrow> zset \<Rightarrow> u64 \<Rightarrow> nat list option" where
  "range_sizes 0 n z s = Some []"
| "range_sizes (Suc k) n z s =
     (let want = min 100 n; (v, s) = Rng_Next s; start = v mod max 1 (n - want) in
      do { nds \<leftarrow> ZSet_RangeByRank start (start + want - 1) z; ls \<leftarrow> range_sizes k n z s; Some (length nds # ls) })"

record bench_row =
  br_n :: u64
  br_size :: nat
  br_ranks :: "u64 option list"
  br_scores :: "score option list"
  br_ranges :: "nat list"

definition RunSize :: "u64 \<Rightarrow> nat \<Rightarrow> rng \<Rightarrow> bench_row option" where
  "RunSize n queries r =
     (let members = map bench_member [0..<unat n] in
      do { (z, s) \<leftarrow> add_members members ZSet_new 12345 r;
           (picks, s) \<leftarrow> draw_picks queries n s;
           ranks \<leftarrow> ranks_of (map (\<lambda>p. members ! unat p) picks) z;
           ranges \<leftarrow> range_sizes (queries div 10 + 1) n z s;
           Some \<lparr>br_n = n, br_size = ZSet_Size z, br_ranks = ranks,
                 br_scores = map (\<lambda>p. ZSet_GetScore (members ! unat p) z) picks, br_ranges = ranges\<rparr> })"

text \<open>\<open>main\<close>: the sizes are the arguments, or four of its own; the rows, one for each size.\<close>

definition bench_sizes :: "string list \<Rightarrow> u64 list" where
  "bench_sizes argv = (if argv = [] then [1000, 10000, 100000, 1000000] else map (\<lambda>a. fst (strtoull (c_string a))) argv)"

definition bench_queries :: "u64 \<Rightarrow> nat" where
  "bench_queries n = (if n \<ge> 1000000 then 200000 else if n \<ge> 100000 then 100000 else 50000)"

fun run_sizes :: "u64 list \<Rightarrow> rng \<Rightarrow> bench_row list option" where
  "run_sizes [] r = Some []"
| "run_sizes (n # ns) r = do { row \<leftarrow> RunSize n (bench_queries n) r; rows \<leftarrow> run_sizes ns r; Some (row # rows) }"

definition bench_zrank :: "string list \<Rightarrow> rng \<Rightarrow> bench_row list option" where
  "bench_zrank argv r = run_sizes (bench_sizes argv) r"

subsection \<open>Filling the set\<close>

lemma bench_member_inj: "inj bench_member"
  using dec_of_nat_inj by (auto simp: bench_member_def inj_def)

lemma add_members_ok:
  "zset_rep z f \<Longrightarrow> distinct ms \<Longrightarrow> set ms \<inter> dom f = {} \<Longrightarrow> card (dom f) + length ms \<le> sl_max \<Longrightarrow>
     \<exists>z' s' f'. add_members ms z s r = Some (z', s') \<and> zset_rep z' f' \<and> dom f' = dom f \<union> set ms"
proof (induction ms arbitrary: z f s r)
  case (Cons m ms)
  have m: "f m = None" using Cons.prems(3) by auto
  obtain sc s1 where d: "Rng_NextDouble s = (sc, s1)" by (cases "Rng_NextDouble s") auto
  from ZSet_Add_rep [OF Cons.prems(1), of m sc r] Cons.prems(4) obtain z1 r1 where
    a: "ZSet_Add m sc z r = Some (f m = None, z1, r1)" "zset_rep z1 (f(m \<mapsto> sc))" by auto
  have "card (dom (f(m \<mapsto> sc))) = Suc (card (dom f))" using m zset_rep_finite [OF Cons.prems(1)] by (simp add: domIff)
  then have c: "card (dom (f(m \<mapsto> sc))) + length ms \<le> sl_max" using Cons.prems(4) by simp
  have "set ms \<inter> dom (f(m \<mapsto> sc)) = {}" "distinct ms" using Cons.prems(2,3) by auto
  from Cons.IH [OF a(2) this(2,1) c] obtain z' s' f' where
    "add_members ms z1 s1 r1 = Some (z', s')" "zset_rep z' f'" "dom f' = dom (f(m \<mapsto> sc)) \<union> set ms" by blast
  with a(1) d show ?case by (auto simp del: fun_upd_apply)
qed auto

lemma zrank_Some: "finite (dom f) \<Longrightarrow> m \<in> dom f \<Longrightarrow> \<exists>k. zrank f m = Some k \<and> k < card (dom f)"
proof -
  assume f: "finite (dom f)" "m \<in> dom f"
  then obtain s where s: "f m = Some s" by auto
  have "{k \<in> zkey_set f. k < (s, m)} \<subset> zkey_set f" using s by (auto simp: zkey_set_def)
  then have "card {k \<in> zkey_set f. k < (s, m)} < card (zkey_set f)" by (intro psubset_card_mono finite_zkey_set f(1))
  with s show ?thesis by (simp add: zrank_def card_zkey_set)
qed

subsection \<open>The queries\<close>

lemma draw_picks_ok:
  "0 < n \<Longrightarrow> \<exists>ps s'. draw_picks k n s = Some (ps, s') \<and> length ps = k \<and> (\<forall>p\<in>set ps. p < n)"
proof (induction k arbitrary: s)
  case (Suc k)
  obtain v s1 where v: "Rng_Next s = (v, s1)" by (cases "Rng_Next s") auto
  from Suc obtain ps s' where "draw_picks k n s1 = Some (ps, s')" "length ps = k" "\<forall>p\<in>set ps. p < n" by blast
  with v Suc.prems show ?case by (auto simp: word_mod_less_divisor word_gt_0)
qed simp

lemma ranks_of_ok:
  "zset_rep z f \<Longrightarrow> set ms \<subseteq> dom f \<Longrightarrow> \<exists>xs. ranks_of ms z = Some xs \<and> length xs = length ms
     \<and> (\<forall>x\<in>set xs. \<exists>k. x = Some (of_nat k) \<and> k < card (dom f))"
proof (induction ms)
  case (Cons m ms)
  from zrank_Some [OF zset_rep_finite [OF Cons.prems(1)], of m] Cons.prems(2) obtain k where k: "zrank f m = Some k" "k < card (dom f)" by auto
  with Cons ZSet_Rank_rep [OF Cons.prems(1), of m] show ?case by auto
qed simp

text \<open>A slice that starts in range holds what was asked for.\<close>

lemma range_size_ok:
  assumes "zset_rep z f" "card (dom f) = unat n" "0 < n" "unat n \<le> sl_max" "start = v mod max 1 (n - min 100 n)"
  shows "\<exists>nds. ZSet_RangeByRank start (start + min 100 n - 1) z = Some nds \<and> length nds = min 100 (unat n)"
proof -
  let ?w = "min 100 n"
  have w: "unat ?w = min 100 (unat n)" by (simp add: min_def word_le_nat_alt)
  have n: "0 < unat n" using assms(3) by (simp add: word_less_nat_alt)
  have d: "unat (n - ?w) = unat n - min 100 (unat n)" using unat_sub [of ?w n] w by (simp add: min_def word_le_nat_alt split: if_splits)
  have m: "unat (max 1 (n - ?w)) = max 1 (unat n - min 100 (unat n))" 
  proof -
    have "unat (max 1 (n - ?w)) = max (unat (1 :: u64)) (unat (n - ?w))" by (simp add: max_def word_le_nat_alt)
    with d show ?thesis by simp
  qed
  have "unat start < max 1 (unat n - min 100 (unat n))" unfolding assms(5) unat_mod m by (rule mod_less_divisor) simp
  then have s: "unat start + min 100 (unat n) \<le> unat n" using n by (auto simp: max_def min_def split: if_splits)
  have a: "unat (start + ?w - 1) = unat start + min 100 (unat n) - 1"
  proof -
    have "unat start + unat ?w < 2 ^ 64" using s w assms(4) by simp
    then have sum: "unat (start + ?w) = unat start + unat ?w" by (simp add: unat_plus_simple word_le_nat_alt unat_word_ariths)
    have "1 \<le> start + ?w" using sum w n by (simp add: word_le_nat_alt)
    then have "unat (start + ?w - 1) = unat (start + ?w) - 1" using unat_sub [of 1 "start + ?w"] by simp
    then show ?thesis using sum w by simp
  qed
  have "unat (start + ?w - 1) < 18446744073709551615" using a s assms(4) n by simp
  from ZSet_RangeByRank_rep [OF assms(1) this, of start] obtain nds where
    r: "ZSet_RangeByRank start (start + ?w - 1) z = Some nds"
      "map nkey nds = (if start \<le> start + ?w - 1 then take (unat (start + ?w - 1) - unat start + 1) (drop (unat start) (zkeys f)) else [])"
    by blast
  have "start \<le> start + ?w - 1" using a n by (simp add: word_le_nat_alt)
  with r(2) have "length (map nkey nds) = length (take (unat (start + ?w - 1) - unat start + 1) (drop (unat start) (zkeys f)))" by simp
  also have "\<dots> = min 100 (unat n)" using s a n by (simp add: zkeys_length assms(2))
  finally show ?thesis using r(1) by simp
qed

lemma range_sizes_ok:
  assumes "zset_rep z f" "card (dom f) = unat n" "0 < n" "unat n \<le> sl_max"
  shows "range_sizes k n z s = Some (replicate k (min 100 (unat n)))"
proof (induction k arbitrary: s)
  case (Suc k)
  obtain v s1 where v: "Rng_Next s = (v, s1)" by (cases "Rng_Next s") auto
  from range_size_ok [OF assms refl, of v] obtain nds where
    "ZSet_RangeByRank (v mod max 1 (n - min 100 n)) (v mod max 1 (n - min 100 n) + min 100 n - 1) z = Some nds" "length nds = min 100 (unat n)"
    by blast
  with Suc.IH v show ?case by (simp add: Let_def)
qed simp

definition row_ok :: "u64 \<Rightarrow> bench_row \<Rightarrow> bool" where
  "row_ok n row \<longleftrightarrow> br_n row = n \<and> br_size row = unat n
     \<and> length (br_ranks row) = bench_queries n \<and> (\<forall>x\<in>set (br_ranks row). \<exists>k. x = Some (of_nat k) \<and> k < unat n)
     \<and> length (br_scores row) = bench_queries n \<and> None \<notin> set (br_scores row)
     \<and> br_ranges row = replicate (bench_queries n div 10 + 1) (min 100 (unat n))"

lemma RunSize_ok:
  assumes "0 < n" "unat n \<le> sl_max"
  shows "\<exists>row. RunSize n (bench_queries n) r = Some row \<and> row_ok n row"
proof -
  let ?ms = "map bench_member [0..<unat n]"
  have "distinct ?ms" using bench_member_inj by (auto simp: distinct_map inj_on_def inj_def)
  with add_members_ok [OF zset_rep_new, of ?ms 12345 r] assms(2) obtain z s f where
    z: "add_members ?ms ZSet_new 12345 r = Some (z, s)" "zset_rep z f" "dom f = set ?ms" by auto
  have c: "card (dom f) = unat n" using distinct_card [OF \<open>distinct ?ms\<close>] z(3) by simp
  from draw_picks_ok [OF assms(1), of "bench_queries n" s] obtain ps s' where
    p: "draw_picks (bench_queries n) n s = Some (ps, s')" "length ps = bench_queries n" "\<forall>p\<in>set ps. p < n" by blast
  then have sub: "set (map (\<lambda>p. ?ms ! unat p) ps) \<subseteq> dom f" by (auto simp: z(3) word_less_nat_alt)
  from ranks_of_ok [OF z(2) sub] obtain xs where
    x: "ranks_of (map (\<lambda>p. ?ms ! unat p) ps) z = Some xs" "length xs = bench_queries n"
      "\<forall>x\<in>set xs. \<exists>k. x = Some (of_nat k) \<and> k < unat n" using p(2) c by auto
  define g where "g p = ZSet_GetScore (?ms ! unat p) z" for p :: u64
  have "g q \<noteq> None" if "q \<in> set ps" for q
  proof -
    have "?ms ! unat q \<in> dom f" using sub that unfolding set_map by blast
    then show ?thesis unfolding g_def ZSet_GetScore_rep [OF z(2)] by (simp add: domIff)
  qed
  then have sc: "None \<notin> set (map g ps)" by force
  let ?row = "\<lparr>br_n = n, br_size = ZSet_Size z, br_ranks = xs, br_scores = map g ps,
    br_ranges = replicate (bench_queries n div 10 + 1) (min 100 (unat n))\<rparr>"
  have "RunSize n (bench_queries n) r = Some ?row"
    unfolding RunSize_def Let_def z(1) p(1) x(1) range_sizes_ok [OF z(2) c assms] Option.bind.bind_lunit prod.case g_def by (rule refl)
  moreover have "row_ok n ?row" using p(2) x(2,3) sc zset_rep_size [OF z(2)] c by (simp add: row_ok_def)
  ultimately show ?thesis by blast
qed

lemma RunSize_zero: "RunSize 0 (bench_queries 0) r = None"
proof -
  have "draw_picks k 0 s = None" if "0 < k" for k s using that by (cases k) simp_all
  then show ?thesis by (simp add: RunSize_def bench_queries_def)
qed

lemma run_sizes_ok:
  assumes "\<forall>n\<in>set ns. unat n \<le> sl_max"
  shows "if 0 \<in> set ns then run_sizes ns r = None else \<exists>rows. run_sizes ns r = Some rows \<and> list_all2 row_ok ns rows"
  using assms
proof (induction ns)
  case (Cons n ns)
  show ?case
  proof (cases "n = 0")
    case True
    then show ?thesis by (simp add: RunSize_zero)
  next
    case False
    then have "0 < n" by (simp add: word_gt_0)
    from RunSize_ok [OF this] Cons.prems obtain row where "RunSize n (bench_queries n) r = Some row" "row_ok n row" by auto
    with Cons False show ?thesis by (auto split: if_splits)
  qed
qed simp

subsection \<open>The property\<close>

text \<open>C35: the rank benchmark measures what it says for every list of sizes an ordered set can hold: each
  set has exactly the size asked for, every ZRANK finds its member at a rank below the size, every ZSCORE
  finds a score and every ZRANGE returns exactly 100 members, or all of a smaller set.  A size of zero, or
  an argument that is not a number, kills the program.\<close>

theorem bench_zrank_exact:
  assumes "\<forall>n\<in>set (bench_sizes argv). unat n \<le> sl_max"
  shows "if 0 \<in> set (bench_sizes argv) then bench_zrank argv r = None
     else \<exists>rows. bench_zrank argv r = Some rows \<and> list_all2 row_ok (bench_sizes argv) rows"
  unfolding bench_zrank_def by (rule run_sizes_ok [OF assms])

theorem bench_zrank_exact_witness:
  "(\<exists>rows. bench_zrank [] (\<lambda>i. i) = Some rows \<and> list_all2 row_ok [1000, 10000, 100000, 1000000] rows)
   \<and> bench_zrank [''many''] (\<lambda>i. i) = None"
proof -
  have "bench_sizes [''many''] = [0]" by (simp add: bench_sizes_def strtoull_def c_string_def is_space_def is_digit_def)
  with bench_zrank_exact [of "[]" "\<lambda>i. i"] bench_zrank_exact [of "[''many'']" "\<lambda>i. i"] show ?thesis by (simp add: bench_sizes_def)
qed

end
