(* ===== verification/Log.thy ===== *)
theory Log
  imports Config
begin

section \<open>The log lines (src/log.cpp)\<close>

text \<open>The level test, the tag and the short name of the source file; a line that is printed.\<close>

definition level_rank :: "LogLevel \<Rightarrow> nat" where
  "level_rank l = (case l of kDebug \<Rightarrow> 0 | kInfo \<Rightarrow> 1 | kWarn \<Rightarrow> 2 | kError \<Rightarrow> 3)"

definition LevelTag :: "LogLevel \<Rightarrow> string" where
  "LevelTag l = (case l of kDebug \<Rightarrow> ''DEBUG'' | kInfo \<Rightarrow> ''INFO '' | kWarn \<Rightarrow> ''WARN '' | kError \<Rightarrow> ''ERROR'')"

text \<open>\<open>strrchr\<close>, as the number of characters up to and with the last \<open>c\<close>; \<open>0\<close> if there is none.\<close>

definition after_last :: "char \<Rightarrow> string \<Rightarrow> nat" where
  "after_last c s = length s - length (takeWhile (\<lambda>x. x \<noteq> c) (rev s))"

definition ShortName :: "string \<Rightarrow> string" where
  "ShortName path =
     (let best = 0;
          best = (if after_last (CHR ''/'') path > best then after_last (CHR ''/'') path else best);
          best = (if after_last (CHR 0x5C) path > best then after_last (CHR 0x5C) path else best)
      in drop best path)"

text \<open>\<open>LogMessage\<close>: \<open>msg\<close> is the formatted text, of which the buffer keeps 2047 bytes.\<close>

definition LogMessage :: "LogLevel \<Rightarrow> LogLevel \<Rightarrow> string \<Rightarrow> string \<Rightarrow> nat \<Rightarrow> string \<Rightarrow> string option" where
  "LogMessage threshold level now path line msg =
     (if level_rank level < level_rank threshold then None
      else Some (''['' @ now @ ''] ['' @ LevelTag level @ ''] '' @ ShortName path @ '':'' @ dec_of_nat line @ '' '' @ take 2047 msg @ [CHR 0x0A]))"

lemma drop_after_last:
  assumes "after_last c s \<le> n"
  shows "c \<notin> set (drop n s)"
proof -
  let ?w = "takeWhile (\<lambda>x. x \<noteq> c) (rev s)" and ?v = "dropWhile (\<lambda>x. x \<noteq> c) (rev s)"
  have "rev (rev s) = rev (?w @ ?v)" by (simp only: takeWhile_dropWhile_id)
  then have s: "s = rev ?v @ rev ?w" by (simp only: rev_rev_ident rev_append)
  then have "length s = length ?v + length ?w" by (metis length_append length_rev)
  then have "after_last c s = length (rev ?v)" by (simp add: after_last_def)
  with s have "drop (after_last c s) s = rev ?w" by (metis append_eq_conv_conj)
  then have "c \<notin> set (drop (after_last c s) s)" by (auto dest: set_takeWhileD)
  moreover have "set (drop n s) \<subseteq> set (drop (after_last c s) s)" by (rule set_drop_subset_set_drop [OF assms])
  ultimately show ?thesis by blast
qed

lemma ShortName_no_directory:
  "CHR ''/'' \<notin> set (ShortName path)" "CHR 0x5C \<notin> set (ShortName path)" "suffix (ShortName path) path"
proof -
  let ?n = "max (after_last (CHR ''/'') path) (after_last (CHR 0x5C) path)"
  have n: "ShortName path = drop ?n path" by (simp add: ShortName_def Let_def max_def)
  show "CHR ''/'' \<notin> set (ShortName path)" unfolding n by (rule drop_after_last) (rule max.cobounded1)
  show "CHR 0x5C \<notin> set (ShortName path)" unfolding n by (rule drop_after_last) (rule max.cobounded2)
  show "suffix (ShortName path) path" unfolding n by (rule suffix_drop)
qed

end
