(* ===== verification/Spec2Isabelle.thy ===== *)
theory Spec2Isabelle
  imports Data_Properties Keyspace Aof_Facts Resp_Facts Connection_Properties Config Event_Loop_Facts Network_Facts Torn_Log Deadline_Restart
    Skip_List_Valid Poller_Select Bench_Properties Platform_Facts Bench_Zrank Log
begin

text \<open>
  A verification library for redis-lite, a Redis server in C++17 (the directory redis-lite of the
  repository).  Every theory models one component and names the files it translates.

  The program and how its parts interact.  A listener on the main loop accepts connections and posts
  them to sub loops in turn; each loop is one thread around a poller, with timers and a queue of
  tasks from other threads.  A connection reads bytes into a RESP parser, gives every complete
  command to the dispatcher and queues the replies for writing.  The dispatcher looks the command up
  in a table; its handlers work on the store, a table of shards of strings, integers and ordered
  sets with expiry, and append every change to the append-only file.  An ordered set is a hash map
  and a skip list with spans.  Two threads remove expired keys and flush the file; at start the
  server replays the file, at the end it synchronises and closes it.

  Theories, in the order of their imports.
  RL\_Prelude: machine integers (int64 as int with the wrap i64, u32 and u64 as words), ASCII
  helpers, collections of rules.
  Resp, Resp\_Facts (resp.cpp): ParseInt64 on 64-bit words, the encoders, the incremental parser;
  the round trip, partial input, what wraps around.
  Score, Score\_Facts (the score formats of zset.cpp and skip\_list.cpp): binary64 numbers as
  rationals that rounding keeps, printing with 17 digits and parsing; the round trip.
  Skip\_List (skip\_list.cpp): nodes on a heap of addresses, every pointer access an option, every
  pointer walk a partial function, the random levels a stream.  Skip\_List\_Facts: the representation
  of a list of cells by the heap, level by level.  Skip\_List\_Refine: every operation ends and acts on
  the sorted list of keys, and the destructor leaves no node; the interface ordered\_index, ranked\_index as locales, interpreted on it.
  Skip\_List\_Valid: the self-check Validate.
  ZSet, ZSet\_Facts (zset.cpp): the pair of map and skip list, its clients of the interface.
  Store, Store\_Facts, Store\_Refine, Store\_Inv (store.cpp): shards, hash, TTL index, lazy and active
  expiry; refinement of one map with deadlines.  Keyspace: the locale expiring\_map and its
  interpretation, histories.  Data\_Properties: histories of skip lists and ordered sets, GlobMatch.
  Glob (the matcher of command.cpp): the loop of the code and a recursive reference.
  Aof, Aof\_Facts (aof.cpp): the buffer of the object, the buffer of FILE, the bytes of the operating
  system, the durable bytes; short writes; crashes and power failures as states of the disk.
  Command (command.cpp): the world (store, file, disk, clock, statistics, random numbers), one
  function per handler, the table, Execute, Replay, LoadAof.  Command\_Inv: every handler ends, keeps
  the invariants and writes one RESP value.  Database, ZSet\_Meaning, Command\_Meaning,
  Command\_Reads: the database a store stands for and what every command does to it and to the log.
  Command\_Properties: the properties of the commands.
  Connection, Connection\_Facts, Connection\_Properties (connection.cpp): the read and write paths on
  lists of the results of recv and send.
  Config (config.cpp, the level names of log.cpp): the command line.
  Event\_Loop, Event\_Loop\_Facts (event\_loop.cpp, the epoll part of poller.cpp): timers, posted tasks,
  rounds of the loop, the pool.  Poller\_Select (the select part of poller.cpp): the interface of a
  back end as the locale poller\_backend, interpreted on epoll and on select.
  Network, Network\_Facts (listener.cpp, connection\_manager.cpp): the accept loop; connection objects
  with reference counts and owners, the steps of all loops as a transition system.
  Server (server.cpp, main.cc, the threads of store.cpp): Init, the ticks, Shutdown, main.
  Recovery, Restart: the log as a second implementation of the database; restarts.  Torn\_Log: what
  becomes of writes behind the remains of a command at the end of the log.  Deadline\_Restart: what
  becomes of a deadline in the log.
  Platform, Platform\_Facts (platform.cpp, the wake-up of event\_loop.cpp, Start of server.cpp): sockets
  over a table of descriptors; the notifier; posting threads and the loop as a transition system.
  Log (log.cpp): tags, short names, lines.
  Bench, Bench\_Facts, Bench\_Properties (tools/bench.cc): the load generator: its options, the batches
  it sends, the reader of the replies, a client and a round.  Bench\_Zrank (tools/bench\_zrank.cc): the
  queries of the rank benchmark on the model of the ordered set.

  Correspondence.  Function names are those of the code, prefixed by the class where HOL has the
  name already.  An exception or return false is None or a constructor of a result type; a memory
  error, a failed assertion about threads and a walk that does not end are None as well, so that a
  theorem that concludes Some states that none of them happens.  Replies are the bytes appended.
  Null pointers of optional services (stats, file) are not modelled: the server always has them.

  What the environment supplies is an argument: readings of the clock (a sequence; clock\_ok: it does
  not go back and stays in 64 bits), std::rand (a stream), accept, recv, send, fwrite, fopen, epoll and
  select (lists or functions of results).  healthy: a call of fwrite that is given data accepts at
  least one byte.

  Bounds.  A skip list is exact up to 4294967294 nodes, as its spans are 32 bits: good n says that
  every set has room for n more members, and a command with k arguments needs room for k.  fire\_loop has
  the code's own limit of 256 timers a round as its fuel; all other recursion is structural, by a
  measure, or a partial function whose termination is part of the theorems.  The number of
  replayed commands must fit in an int, as LoadAof returns one.

  Groups of properties.  Data structures: histories from the empty structure refine a map or a sorted
  list.  Durability: what LoadAll returns after crashes, what a restarted server holds
  (restart\_restores, power\_failure\_always, and crash\_goes\_back for every policy), what it should not
  do (torn\_tail\_loses\_writes, deadline\_after\_restart, restart\_doubles\_log).  Commands: the
  effect on the database, the reply and the log, on every branch; every\_command\_returns for all at
  once.  Connections and loops: replies in order and complete, timers neither early nor lost, tasks
  run once in order, callbacks and registrations in step, no wake-up lost (no\_lost\_wakeup).  Clients: a
  round of the load generator against the dispatcher counts every request once.  Threads: with one
  loop no reachable state aborts (one\_loop\_safe), with two a reachable state does (fd\_reuse\_aborts).
  Errors: what the code does on the inputs where it departs from its comments.

  Not modelled.  The Windows branches; the clocks, error texts and peer names of src/platform.cpp; the
  printf formatting of src/log.cpp; the measurements and reports of the two tools; the tests directory.
  MemoryUsage changes nothing and is a parameter (si\_memory).  Locks: a section under a mutex is one
  step, and the operations of a store are atomic steps; data races are outside the model.  The polling
  loop of Server::Start is start\_wait, in main\_run its result is the argument listens; Server::Run waits
  for a signal, the end of the list of events.  Restarts in general are proved for requests that involve
  no time: with deadlines, what a replay restores depends on the readings of a clock that starts again
  with the machine, which deadline\_after\_restart shows on a session.
\<close>

end
